(* ===== verification/Prelude.thy ===== *)
theory Prelude
  imports Main "HOL-Library.Word" "HOL-Library.Product_Lexorder" "HOL-Library.AList"
begin

text \<open>
  What every component shares: the storage error type of \<^verbatim>\<open>holos-store/src/error.rs\<close> and the
  result type built on it, Rust strings as UTF-8 byte sequences with their validation, and the
  generic lemmas about results, lists and bytes that the component proofs rest on.

  A Rust panic (a failed assertion, an inverted \<open>BTreeSet\<close> range) is the error value
  \<open>Panic\<close>, which the enum of the source does not have: it makes the absence of panics a
  statement about the model.
\<close>

unbundle bit_operations_syntax

named_theorems res_simps \<open>rules for the result type and for collecting scans\<close>
named_theorems btree_simps \<open>set-level behaviour of the ordered-set operations\<close>

section \<open>Results\<close>

datatype storage_error =
    Io string
  | Corruption string
  | Unsupported string
  | Panic string

type_synonym 'a res = "storage_error + 'a"

fun is_ok :: "'a res \<Rightarrow> bool" where
  "is_ok (Inr _) = True"
| "is_ok (Inl _) = False"

text \<open>Rust's \<open>iter.collect::<Result<Vec<_>>>()\<close>: the first error, or every value in order.\<close>

fun collect_res :: "'a res list \<Rightarrow> 'a list res" where
  "collect_res [] = Inr []"
| "collect_res (Inl e # rs) = Inl e"
| "collect_res (Inr x # rs) = (case collect_res rs of Inl e \<Rightarrow> Inl e | Inr xs \<Rightarrow> Inr (x # xs))"

lemma collect_res_map_Inr [simp, res_simps]: "collect_res (map Inr xs) = Inr xs"
  by (induction xs) auto

lemma collect_res_Inr_iff [res_simps]: "collect_res rs = Inr xs \<longleftrightarrow> rs = map Inr xs"
proof
  show "collect_res rs = Inr xs \<Longrightarrow> rs = map Inr xs"
    by (induction rs arbitrary: xs rule: collect_res.induct) (auto split: sum.splits)
qed simp

text \<open>Applying a function to the values of a scan, keeping its errors.\<close>

definition map_res :: "('a \<Rightarrow> 'b) \<Rightarrow> 'a res list \<Rightarrow> 'b res list" where
  "map_res f = map (map_sum id f)"

lemma map_res_map_Inr [simp, res_simps]: "map_res f (map Inr xs) = map Inr (map f xs)"
  by (simp add: map_res_def)

lemma map_res_append [simp, res_simps]: "map_res f (xs @ ys) = map_res f xs @ map_res f ys"
  by (simp add: map_res_def)

lemma map_Inr_eq_iff [simp]: "map Inr xs = map Inr ys \<longleftrightarrow> xs = ys"
  by (simp add: inj_map_eq_map)

section \<open>Bytes and strings\<close>

type_synonym byte = "8 word"
type_synonym u8 = "8 word"
type_synonym u32 = "32 word"
type_synonym u64 = "64 word"

text \<open>
  A Rust \<open>str\<close> is a HOL \<open>string\<close> whose characters are its UTF-8 bytes, so \<open>length\<close> is
  \<open>str::len\<close>; \<open>as_bytes\<close> reads the bytes as 8-bit words.
\<close>

definition byte_of_char :: "char \<Rightarrow> byte" where
  "byte_of_char c = word_of_nat (of_char c)"

definition char_of_byte :: "byte \<Rightarrow> char" where
  "char_of_byte b = char_of (unat b)"

definition as_bytes :: "string \<Rightarrow> byte list" where
  "as_bytes s = map byte_of_char s"

definition of_bytes :: "byte list \<Rightarrow> string" where
  "of_bytes bs = map char_of_byte bs"

lemma unat_byte_of_char [simp]: "unat (byte_of_char c) = of_char c"
proof -
  have "(of_char c :: nat) < 256"
    by (metis nat_of_char_less_256)
  then show ?thesis
    by (simp add: byte_of_char_def unat_of_nat)
qed

lemma char_of_byte_of_char [simp]: "char_of_byte (byte_of_char c) = c"
  by (simp add: char_of_byte_def)

lemma byte_of_char_of_byte [simp]: "byte_of_char (char_of_byte b) = b"
proof -
  have "unat b < 256" using unsigned_less [of b] by simp
  then show ?thesis by (simp add: byte_of_char_def char_of_byte_def)
qed

lemma of_bytes_as_bytes [simp]: "of_bytes (as_bytes s) = s"
  by (simp add: of_bytes_def as_bytes_def comp_def)

lemma as_bytes_of_bytes [simp]: "as_bytes (of_bytes bs) = bs"
  by (simp add: of_bytes_def as_bytes_def comp_def)

lemma as_bytes_inject [simp]: "as_bytes s = as_bytes t \<longleftrightarrow> s = t"
  by (metis of_bytes_as_bytes)

lemma length_as_bytes [simp]: "length (as_bytes s) = length s"
  by (simp add: as_bytes_def)

lemma length_of_bytes [simp]: "length (of_bytes bs) = length bs"
  by (simp add: of_bytes_def)

text \<open>
  \<open>std::str::from_utf8\<close>: well-formed UTF-8 byte sequences (no overlong forms, no surrogates,
  nothing above U+10FFFF).
\<close>

definition is_cont :: "byte \<Rightarrow> bool" where
  "is_cont b \<longleftrightarrow> 0x80 \<le> b \<and> b \<le> 0xBF"

fun valid_utf8 :: "byte list \<Rightarrow> bool" where
  "valid_utf8 [] = True"
| "valid_utf8 (a # bs) =
    (if a \<le> 0x7F then valid_utf8 bs
     else (case bs of
       [] \<Rightarrow> False
     | b # cs \<Rightarrow>
         (if 0xC2 \<le> a \<and> a \<le> 0xDF then is_cont b \<and> valid_utf8 cs
          else (case cs of
            [] \<Rightarrow> False
          | c # ds \<Rightarrow>
              (if 0xE0 \<le> a \<and> a \<le> 0xEF then
                 is_cont b \<and> is_cont c \<and> (a = 0xE0 \<longrightarrow> 0xA0 \<le> b) \<and> (a = 0xED \<longrightarrow> b \<le> 0x9F)
                 \<and> valid_utf8 ds
               else (case ds of
                 [] \<Rightarrow> False
               | d # es \<Rightarrow>
                   0xF0 \<le> a \<and> a \<le> 0xF4 \<and> is_cont b \<and> is_cont c \<and> is_cont d
                   \<and> (a = 0xF0 \<longrightarrow> 0x90 \<le> b) \<and> (a = 0xF4 \<longrightarrow> b \<le> 0x8F) \<and> valid_utf8 es))))))"

definition from_utf8 :: "byte list \<Rightarrow> string option" where
  "from_utf8 bs = (if valid_utf8 bs then Some (of_bytes bs) else None)"

definition is_str :: "string \<Rightarrow> bool" where
  "is_str s \<longleftrightarrow> valid_utf8 (as_bytes s)"

lemma from_utf8_as_bytes [simp]: "is_str s \<Longrightarrow> from_utf8 (as_bytes s) = Some s"
  by (simp add: from_utf8_def is_str_def)

lemma from_utf8_Some: "from_utf8 bs = Some s \<Longrightarrow> as_bytes s = bs \<and> is_str s"
  by (auto simp: from_utf8_def is_str_def split: if_splits)

end
