(* ===== verification/Rust_Std.thy ===== *)
theory Rust_Std
  imports Prelude "HOL-Library.List_Lexorder"
begin

text \<open>
  The part of the Rust standard library the modelled sources call: \<open>BTreeSet\<close> (as a strictly
  ascending list, its iteration order), \<open>i64\<close> printing, parsing and zero-padded formatting,
  truncating division, and big-endian bytes. \<open>ordered_set\<close> is the interface the quad index
  programs against; the list model interprets it.
\<close>

unbundle bit_operations_syntax

section \<open>Ordered sets\<close>

fun btree_insert :: "'a::linorder \<Rightarrow> 'a list \<Rightarrow> bool \<times> 'a list" where
  "btree_insert x [] = (True, [x])"
| "btree_insert x (y # ys) =
    (if x < y then (True, x # y # ys)
     else if x = y then (False, y # ys)
     else (case btree_insert x ys of (b, zs) \<Rightarrow> (b, y # zs)))"

fun btree_remove :: "'a::linorder \<Rightarrow> 'a list \<Rightarrow> bool \<times> 'a list" where
  "btree_remove x [] = (False, [])"
| "btree_remove x (y # ys) =
    (if x < y then (False, y # ys)
     else if x = y then (True, ys)
     else (case btree_remove x ys of (b, zs) \<Rightarrow> (b, y # zs)))"

text \<open>\<open>set.range(lo..=hi)\<close>: in ascending order, and a panic when the bounds are inverted.\<close>

definition btree_range :: "'a::linorder \<Rightarrow> 'a \<Rightarrow> 'a list \<Rightarrow> 'a res list" where
  "btree_range lo hi s =
    (if hi < lo then [Inl (Panic ''range start is greater than range end in BTreeSet'')]
     else map Inr (filter (\<lambda>x. lo \<le> x \<and> x \<le> hi) s))"

definition btree_ok :: "'a::linorder list \<Rightarrow> bool" where
  "btree_ok s \<longleftrightarrow> sorted_wrt (<) s"

lemma btree_ok_Nil [simp]: "btree_ok []"
  by (simp add: btree_ok_def)

lemma btree_ok_distinct: "btree_ok s \<Longrightarrow> distinct s"
  by (auto simp: btree_ok_def strict_sorted_iff)

lemma btree_insert_simps [simp]:
  "fst (btree_insert x (y # ys)) = (x < y \<or> x \<noteq> y \<and> fst (btree_insert x ys))"
  "snd (btree_insert x (y # ys)) =
    (if x < y then x # y # ys else if x = y then y # ys else y # snd (btree_insert x ys))"
  by (simp_all add: case_prod_beta)

lemma btree_remove_simps [simp]:
  "fst (btree_remove x (y # ys)) = (x = y \<or> y < x \<and> fst (btree_remove x ys))"
  "snd (btree_remove x (y # ys)) =
    (if x < y then y # ys else if x = y then ys else y # snd (btree_remove x ys))"
  by (auto simp: case_prod_beta)

lemma set_btree_insert [btree_simps]: "set (snd (btree_insert x s)) = insert x (set s)"
  by (induction s) (simp_all del: btree_insert.simps(2) add: insert_commute)

lemma fst_btree_insert [btree_simps]: "btree_ok s \<Longrightarrow> fst (btree_insert x s) \<longleftrightarrow> x \<notin> set s"
  by (induction s) (auto simp: btree_ok_def simp del: btree_insert.simps(2))

lemma btree_ok_insert [simp, intro]: "btree_ok s \<Longrightarrow> btree_ok (snd (btree_insert x s))"
  by (induction s) (auto simp: btree_ok_def set_btree_insert simp del: btree_insert.simps(2))

lemma set_btree_remove [btree_simps]: "btree_ok s \<Longrightarrow> set (snd (btree_remove x s)) = set s - {x}"
  by (induction s) (auto simp: btree_ok_def simp del: btree_remove.simps(2))

lemma fst_btree_remove [btree_simps]: "btree_ok s \<Longrightarrow> fst (btree_remove x s) \<longleftrightarrow> x \<in> set s"
  by (induction s) (auto simp: btree_ok_def simp del: btree_remove.simps(2))

lemma btree_ok_remove [simp, intro]: "btree_ok s \<Longrightarrow> btree_ok (snd (btree_remove x s))"
proof (induction s)
  case (Cons y ys)
  then have "\<forall>z\<in>set (snd (btree_remove x ys)). y < z"
    by (auto simp: set_btree_remove btree_ok_def)
  with Cons show ?case
    by (auto simp: btree_ok_def simp del: btree_remove.simps(2))
qed simp

lemma btree_ext: "btree_ok s \<Longrightarrow> btree_ok t \<Longrightarrow> set s = set t \<Longrightarrow> s = t"
  by (simp add: btree_ok_def strict_sorted_equal)

lemma length_btree_insert:
  "btree_ok s \<Longrightarrow> length (snd (btree_insert x s)) = (if x \<in> set s then length s else Suc (length s))"
  using distinct_card [OF btree_ok_distinct, of "snd (btree_insert x s)"]
    distinct_card [OF btree_ok_distinct, of s]
  by (auto simp: set_btree_insert card_insert_if split: if_splits)

lemma length_btree_remove:
  assumes "btree_ok s"
  shows "length (snd (btree_remove x s)) = (if x \<in> set s then length s - 1 else length s)"
proof -
  have "card (set (snd (btree_remove x s))) = card (set s - {x})"
    using assms by (simp add: set_btree_remove)
  then show ?thesis
    using assms by (simp add: distinct_card btree_ok_distinct card_Diff_singleton_if)
qed

text \<open>The contract an ordered set promises its clients, and the lemmas they use.\<close>

locale ordered_set =
  fixes ins :: "'a::linorder \<Rightarrow> 's \<Rightarrow> bool \<times> 's"
    and rem :: "'a \<Rightarrow> 's \<Rightarrow> bool \<times> 's"
    and rng :: "'a \<Rightarrow> 'a \<Rightarrow> 's \<Rightarrow> 'a res list"
    and invar :: "'s \<Rightarrow> bool"
    and elems :: "'s \<Rightarrow> 'a set"
  assumes elems_ins: "invar s \<Longrightarrow> elems (snd (ins x s)) = insert x (elems s)"
    and fresh_ins: "invar s \<Longrightarrow> fst (ins x s) \<longleftrightarrow> x \<notin> elems s"
    and invar_ins: "invar s \<Longrightarrow> invar (snd (ins x s))"
    and elems_rem: "invar s \<Longrightarrow> elems (snd (rem x s)) = elems s - {x}"
    and found_rem: "invar s \<Longrightarrow> fst (rem x s) \<longleftrightarrow> x \<in> elems s"
    and invar_rem: "invar s \<Longrightarrow> invar (snd (rem x s))"
    and extensional: "invar s \<Longrightarrow> invar t \<Longrightarrow> elems s = elems t \<Longrightarrow> s = t"
    and rng_spec: "invar s \<Longrightarrow> lo \<le> hi \<Longrightarrow>
      \<exists>xs. rng lo hi s = map Inr xs \<and> sorted_wrt (<) xs \<and> set xs = {x \<in> elems s. lo \<le> x \<and> x \<le> hi}"
begin

lemma rem_undoes_ins: "invar s \<Longrightarrow> x \<notin> elems s \<Longrightarrow> snd (rem x (snd (ins x s))) = s"
  by (rule extensional) (auto simp: elems_ins elems_rem invar_ins invar_rem)

lemma ins_undoes_rem: "invar s \<Longrightarrow> x \<in> elems s \<Longrightarrow> snd (ins x (snd (rem x s))) = s"
  by (rule extensional) (auto simp: elems_ins elems_rem invar_ins invar_rem)

lemma ins_present: "invar s \<Longrightarrow> x \<in> elems s \<Longrightarrow> snd (ins x s) = s"
  by (rule extensional) (auto simp: elems_ins invar_ins)

lemma rem_absent: "invar s \<Longrightarrow> x \<notin> elems s \<Longrightarrow> snd (rem x s) = s"
  by (rule extensional) (auto simp: elems_rem invar_rem)

end

interpretation bts: ordered_set btree_insert btree_remove btree_range btree_ok set
proof
  fix s :: "'a list" and lo hi :: 'a
  assume ok: "btree_ok s" and le: "lo \<le> hi"
  let ?xs = "filter (\<lambda>x. lo \<le> x \<and> x \<le> hi) s"
  have "sorted_wrt (<) ?xs" using ok by (simp add: btree_ok_def sorted_wrt_filter)
  then show "\<exists>xs. btree_range lo hi s = map Inr xs \<and> sorted_wrt (<) xs
      \<and> set xs = {x \<in> set s. lo \<le> x \<and> x \<le> hi}"
    using le by (intro exI [of _ ?xs]) (auto simp: btree_range_def)
qed (auto simp: btree_simps intro: btree_ext)

lemma btree_range_ok: "lo \<le> hi \<Longrightarrow> btree_range lo hi s = map Inr (filter (\<lambda>x. lo \<le> x \<and> x \<le> hi) s)"
  by (auto simp: btree_range_def)

section \<open>Decimal integers\<close>

definition digit :: "nat \<Rightarrow> char" where
  "digit n = char_of (48 + n)"

definition is_digit :: "char \<Rightarrow> bool" where
  "is_digit c \<longleftrightarrow> 48 \<le> (of_char c :: nat) \<and> (of_char c :: nat) \<le> 57"

definition digit_val :: "char \<Rightarrow> nat" where
  "digit_val c = of_char c - 48"

fun show_nat :: "nat \<Rightarrow> string" where
  "show_nat n = (if n < 10 then [digit n] else show_nat (n div 10) @ [digit (n mod 10)])"

declare show_nat.simps [simp del]

text \<open>\<open>i64::to_string\<close> and \<open>str::parse::<i64>\<close>; the value stays inside the 64-bit range.\<close>

definition i64_to_string :: "int \<Rightarrow> string" where
  "i64_to_string v = (if v < 0 then CHR ''-'' # show_nat (nat (- v)) else show_nat (nat v))"

fun parse_digits :: "nat \<Rightarrow> string \<Rightarrow> nat option" where
  "parse_digits acc [] = Some acc"
| "parse_digits acc (c # cs) =
    (if is_digit c then parse_digits (acc * 10 + digit_val c) cs else None)"

definition in_i64 :: "int \<Rightarrow> bool" where
  "in_i64 v \<longleftrightarrow> - (2 ^ 63) \<le> v \<and> v < 2 ^ 63"

definition parse_i64 :: "string \<Rightarrow> int option" where
  "parse_i64 s =
    (let (neg, ds) = (case s of
           [] \<Rightarrow> (False, [])
         | c # cs \<Rightarrow> if c = CHR ''-'' then (True, cs) else if c = CHR ''+'' then (False, cs)
                    else (False, c # cs))
     in if ds = [] then None
        else (case parse_digits 0 ds of
            None \<Rightarrow> None
          | Some n \<Rightarrow> let v = (if neg then - int n else int n) in if in_i64 v then Some v else None))"

lemma digit_props [simp]:
  assumes "n < 10"
  shows "is_digit (digit n)" "digit_val (digit n) = n" "digit n \<noteq> CHR ''-''" "digit n \<noteq> CHR ''+''"
proof -
  have n: "(of_char (digit n) :: nat) = 48 + n"
    using assms by (simp add: digit_def)
  then show "is_digit (digit n)" "digit_val (digit n) = n"
    using assms by (simp_all add: is_digit_def digit_val_def)
  have "(of_char (CHR ''-'') :: nat) = 45" "(of_char (CHR ''+'') :: nat) = 43"
    by simp_all
  with n show "digit n \<noteq> CHR ''-''" "digit n \<noteq> CHR ''+''" by auto
qed

lemma show_nat_nonempty [simp]: "show_nat n \<noteq> []"
  by (subst show_nat.simps) simp

lemma parse_digits_append:
  "parse_digits acc (xs @ ys) =
    (case parse_digits acc xs of None \<Rightarrow> None | Some a \<Rightarrow> parse_digits a ys)"
  by (induction xs arbitrary: acc) auto

lemma parse_digits_show: "parse_digits 0 (show_nat n) = Some n"
proof (induction n rule: show_nat.induct)
  case (1 n)
  then show ?case
    by (cases "n < 10") (subst show_nat.simps, simp add: parse_digits_append)+
qed

lemma is_digit_show: "c \<in> set (show_nat n) \<Longrightarrow> is_digit c"
proof (induction n rule: show_nat.induct)
  case (1 n)
  then show ?case
    by (cases "n < 10") (subst (asm) (2) show_nat.simps, auto)+
qed

lemma hd_show_digit: "is_digit (hd (show_nat n))"
  by (rule is_digit_show [of _ n]) simp

lemma parse_i64_to_string: "in_i64 v \<Longrightarrow> parse_i64 (i64_to_string v) = Some v"
proof -
  assume v: "in_i64 v"
  show ?thesis
  proof (cases "v < 0")
    case True
    then show ?thesis
      using v by (simp add: parse_i64_def i64_to_string_def parse_digits_show Let_def)
  next
    case False
    obtain c cs where s: "show_nat (nat v) = c # cs"
      by (cases "show_nat (nat v)") auto
    with hd_show_digit [of "nat v"] have "is_digit c" by simp
    then have "c \<noteq> CHR ''-''" "c \<noteq> CHR ''+''" by (auto simp: is_digit_def)
    with s False v show ?thesis
      using parse_digits_show [of "nat v"]
      by (simp add: parse_i64_def i64_to_string_def Let_def)
  qed
qed

lemma parse_i64_range: "parse_i64 s = Some v \<Longrightarrow> in_i64 v"
  by (auto simp: parse_i64_def Let_def split: prod.splits option.splits if_splits)

lemma show_nat_inject: "show_nat m = show_nat n \<Longrightarrow> m = n"
  by (metis option.inject parse_digits_show)

text \<open>\<open>format!("{:0w}", v)\<close> for a non-negative value.\<close>

definition pad_zero :: "nat \<Rightarrow> int \<Rightarrow> string" where
  "pad_zero w v = (let s = i64_to_string v in replicate (w - length s) (CHR ''0'') @ s)"

text \<open>Integer division and remainder truncate towards zero.\<close>

definition tdiv :: "int \<Rightarrow> int \<Rightarrow> int" where
  "tdiv a b = sgn a * sgn b * (\<bar>a\<bar> div \<bar>b\<bar>)"

lemma tdiv_nonneg [simp]: "0 \<le> a \<Longrightarrow> 0 < b \<Longrightarrow> tdiv a b = a div b"
  by (auto simp: tdiv_def sgn_if)

section \<open>Big-endian bytes\<close>

definition to_be_bytes64 :: "u64 \<Rightarrow> byte list" where
  "to_be_bytes64 w = map (\<lambda>i. ucast (drop_bit (8 * (7 - i)) w)) [0..<8]"

definition from_be_bytes64 :: "byte list \<Rightarrow> u64" where
  "from_be_bytes64 bs = foldl (\<lambda>acc b. push_bit 8 acc OR ucast b) 0 bs"

definition to_be_bytes32 :: "u32 \<Rightarrow> byte list" where
  "to_be_bytes32 w = map (\<lambda>i. ucast (drop_bit (8 * (3 - i)) w)) [0..<4]"

definition from_be_bytes32 :: "byte list \<Rightarrow> u32" where
  "from_be_bytes32 bs = foldl (\<lambda>acc b. push_bit 8 acc OR ucast b) 0 bs"

text \<open>The number a byte sequence denotes, most significant byte first.\<close>

definition be_val :: "byte list \<Rightarrow> nat" where
  "be_val bs = foldl (\<lambda>a b. a * 256 + unat b) 0 bs"

lemma unat_byte_less [simp]: "unat (b :: byte) < 256"
  using unsigned_less [of b] by simp

lemma be_val_Nil [simp]: "be_val [] = 0"
  by (simp add: be_val_def)

lemma be_val_snoc [simp]: "be_val (bs @ [b]) = be_val bs * 256 + unat b"
  by (simp add: be_val_def)

lemma be_val_append: "be_val (as @ bs) = be_val as * 256 ^ length bs + be_val bs"
  by (induction bs rule: rev_induct) (simp_all add: algebra_simps flip: append_assoc)

lemma be_val_Cons: "be_val (b # bs) = unat b * 256 ^ length bs + be_val bs"
  using be_val_append [of "[b]" bs] by (simp add: be_val_def)

lemma be_val_bound: "be_val bs < 256 ^ length bs"
proof (induction bs rule: rev_induct)
  case (snoc b bs)
  then have "be_val bs + 1 \<le> 256 ^ length bs" by simp
  then have "(be_val bs + 1) * 256 \<le> 256 ^ length bs * 256" by (rule mult_le_mono1)
  moreover have "unat b < 256" by (rule unat_byte_less)
  ultimately have "be_val bs * 256 + unat b < 256 ^ length bs * 256"
    unfolding add_mult_distrib by linarith
  then show ?case by (simp add: mult.commute)
qed simp

text \<open>Byte order of equally long keys is numeric order: what a prefix scan over big-endian keys rests on.\<close>

lemma less_by_high_digit:
  fixes x y :: nat
  assumes "x < B" "y < B" shows "a * B + x < b * B + y \<longleftrightarrow> a < b \<or> (a = b \<and> x < y)"
proof -
  have "a * B + x < b * B + y" if "a < b"
  proof -
    from that have "Suc a * B \<le> b * B" by (intro mult_le_mono1) simp
    with assms show ?thesis by simp
  qed
  moreover have "b * B + y < a * B + x" if "b < a"
  proof -
    from that have "Suc b * B \<le> a * B" by (intro mult_le_mono1) simp
    with assms show ?thesis by simp
  qed
  ultimately show ?thesis by (cases a b rule: linorder_cases) (auto dest: less_asym)
qed

lemma be_val_less_iff: "length xs = length ys \<Longrightarrow> be_val xs < be_val ys \<longleftrightarrow> xs < ys"
proof (induction xs ys rule: list_induct2)
  case (Cons x xs y ys)
  have "be_val xs < 256 ^ length ys" "be_val ys < 256 ^ length ys"
    using be_val_bound [of xs] be_val_bound [of ys] Cons.hyps by simp_all
  with Cons show ?case
    by (auto simp: be_val_Cons less_by_high_digit be_val_bound word_less_nat_alt word_unat_eq_iff)
qed simp

text \<open>Reading big-endian bytes back.\<close>

lemma unat_push8_or:
  fixes w :: "'a::len word"
  assumes "unat w * 256 + unat b < 2 ^ LENGTH('a)" and "8 \<le> LENGTH('a)"
  shows "unat (push_bit 8 w OR ucast (b :: byte)) = unat w * 256 + unat b"
proof -
  have dis: "push_bit 8 w AND ucast b = 0"
    by (rule bit_eqI) (auto simp: bit_simps dest: bit_imp_le_length)
  have b: "unat (ucast b :: 'a word) = unat b"
    using assms(2) by (simp add: unsigned_ucast_eq min_def take_bit_nat_eq_self_iff
        order_less_le_trans [OF unsigned_less power_increasing])
  have "unat (push_bit 8 w) = take_bit LENGTH('a) (push_bit 8 (unat w))"
    by (rule unsigned_push_bit_eq)
  also have "\<dots> = unat w * 256"
    using assms(1) by (simp add: push_bit_eq_mult take_bit_nat_eq_self_iff)
  finally have "unat (push_bit 8 w) = unat w * 256" .
  then have "unat (push_bit 8 w + ucast b) = unat w * 256 + unat b"
    using assms(1) b by (simp add: unat_word_ariths)
  then show ?thesis using dis by (simp add: disjunctive_add_eq_or)
qed

lemma unat_from_be:
  assumes "8 * length bs \<le> LENGTH('a::len)"
  shows "unat (foldl (\<lambda>acc b. push_bit 8 acc OR ucast b) (0 :: 'a word) bs) = be_val bs"
  using assms
proof (induction bs rule: rev_induct)
  case (snoc b bs)
  have "be_val (bs @ [b]) < 256 ^ length (bs @ [b])" by (rule be_val_bound)
  also have "\<dots> = 2 ^ (8 * length (bs @ [b]))" by (subst power_mult) simp
  also have "\<dots> \<le> 2 ^ LENGTH('a)" using snoc.prems by (intro power_increasing) simp_all
  finally have "be_val bs * 256 + unat b < 2 ^ LENGTH('a)" by simp
  then show ?case using snoc by (simp add: unat_push8_or)
qed simp

lemma be_val_digits:
  "be_val (map (\<lambda>i. word_of_nat (n div 256 ^ (k - Suc i))) [0..<k]) = n mod 256 ^ k"
proof (induction k arbitrary: n)
  case (Suc k)
  have "map (\<lambda>i. word_of_nat (n div 256 ^ (Suc k - Suc i)) :: byte) [0..<Suc k]
      = map (\<lambda>i. word_of_nat (n div 256 div 256 ^ (k - Suc i))) [0..<k] @ [word_of_nat n]"
    by (auto simp: div_mult2_eq [symmetric] Suc_diff_Suc simp flip: power_Suc)
  then have "be_val (map (\<lambda>i. word_of_nat (n div 256 ^ (Suc k - Suc i))) [0..<Suc k])
      = (n div 256 mod 256 ^ k) * 256 + n mod 256"
    by (simp only: be_val_snoc Suc.IH) (simp add: unat_of_nat)
  then show ?case by (simp add: mod_mult2_eq mult.commute)
qed simp

lemma ucast_drop_bit_byte:
  "(ucast (drop_bit (8 * k) (w :: 'a::len word)) :: byte) = word_of_nat (unat w div 256 ^ k)"
proof -
  have "(ucast (drop_bit (8 * k) w) :: byte) = word_of_nat (unat (drop_bit (8 * k) w))"
    by (simp add: word_unat_eq_iff unsigned_ucast_eq unsigned_of_nat)
  also have "unat (drop_bit (8 * k) w) = unat w div 256 ^ k"
    by (subst unat_drop_bit_eq) (simp add: drop_bit_eq_div power_mult)
  finally show ?thesis .
qed

lemma be_val_to_be_bytes64 [simp]: "be_val (to_be_bytes64 w) = unat w"
proof -
  have "to_be_bytes64 w = map (\<lambda>i. word_of_nat (unat w div 256 ^ (8 - Suc i))) [0..<8]"
    by (simp add: to_be_bytes64_def ucast_drop_bit_byte)
  then have "be_val (to_be_bytes64 w) = unat w mod 256 ^ 8"
    by (simp only: be_val_digits)
  then show ?thesis
    using unsigned_less [of w, where ?'a = nat] by simp
qed

lemma be_val_to_be_bytes32 [simp]: "be_val (to_be_bytes32 w) = unat w"
proof -
  have "to_be_bytes32 w = map (\<lambda>i. word_of_nat (unat w div 256 ^ (4 - Suc i))) [0..<4]"
    by (simp add: to_be_bytes32_def ucast_drop_bit_byte)
  then have "be_val (to_be_bytes32 w) = unat w mod 256 ^ 4"
    by (simp only: be_val_digits)
  then show ?thesis
    using unsigned_less [of w, where ?'a = nat] by simp
qed

lemma length_to_be_bytes [simp]: "length (to_be_bytes64 w) = 8" "length (to_be_bytes32 v) = 4"
  by (simp_all add: to_be_bytes64_def to_be_bytes32_def)

lemma from_to_be_bytes64 [simp]: "from_be_bytes64 (to_be_bytes64 w) = w"
  by (rule word_unat_eq_iff [THEN iffD2]) (simp add: from_be_bytes64_def unat_from_be)

lemma from_to_be_bytes32 [simp]: "from_be_bytes32 (to_be_bytes32 w) = w"
  by (rule word_unat_eq_iff [THEN iffD2]) (simp add: from_be_bytes32_def unat_from_be)

lemma to_be_bytes64_less_iff: "to_be_bytes64 v < to_be_bytes64 w \<longleftrightarrow> v < w"
  by (simp add: be_val_less_iff [symmetric] word_less_nat_alt)

lemma be_val_inject: "length xs = length ys \<Longrightarrow> be_val xs = be_val ys \<longleftrightarrow> xs = ys"
  by (metis be_val_less_iff linorder_neq_iff)

lemma to_from_be_bytes64: "length bs = 8 \<Longrightarrow> to_be_bytes64 (from_be_bytes64 bs) = bs"
  by (subst be_val_inject [symmetric]) (simp_all add: from_be_bytes64_def unat_from_be)

end
