(* ===== verification/Calendar.thy ===== *)
theory Calendar
  imports Rust_Std
begin

text \<open>
  The calendar arithmetic of \<^verbatim>\<open>holos-core/src/inline.rs\<close>: \<open>days_from_civil\<close> and
  \<open>civil_from_days\<close> (days since 1970-01-01 in the proleptic Gregorian calendar). Integer division
  truncates, as in the source; the values stay far inside \<open>i64\<close> for every caller.
  The two functions are inverse to each other on valid dates, and days grow with the date.
\<close>

section \<open>Definitions\<close>

definition days_from_civil :: "int \<Rightarrow> int \<Rightarrow> int \<Rightarrow> int" where
  "days_from_civil y m d =
    (let y = (if m \<le> 2 then y - 1 else y);
         era = tdiv (if y \<ge> 0 then y else y - 399) 400;
         yoe = y - era * 400;
         doy = tdiv (153 * (if m > 2 then m - 3 else m + 9) + 2) 5 + d - 1;
         doe = yoe * 365 + tdiv yoe 4 - tdiv yoe 100 + doy
     in era * 146097 + doe - 719468)"

definition civil_from_days :: "int \<Rightarrow> int \<times> int \<times> int" where
  "civil_from_days z =
    (let z = z + 719468;
         era = tdiv (if z \<ge> 0 then z else z - 146096) 146097;
         doe = z - era * 146097;
         yoe = tdiv (doe - tdiv doe 1460 + tdiv doe 36524 - tdiv doe 146096) 365;
         y = yoe + era * 400;
         doy = doe - (365 * yoe + tdiv yoe 4 - tdiv yoe 100);
         mp = tdiv (5 * doy + 2) 153;
         d = doy - tdiv (153 * mp + 2) 5 + 1;
         m = (if mp < 10 then mp + 3 else mp - 9)
     in (if m \<le> 2 then y + 1 else y, m, d))"

text \<open>The Gregorian calendar, as the reference the algorithms are compared with.\<close>

definition is_leap :: "int \<Rightarrow> bool" where
  "is_leap y \<longleftrightarrow> y mod 4 = 0 \<and> (y mod 100 \<noteq> 0 \<or> y mod 400 = 0)"

definition days_in_month :: "int \<Rightarrow> int \<Rightarrow> int" where
  "days_in_month y m =
    (if m = 2 then (if is_leap y then 29 else 28)
     else if m = 4 \<or> m = 6 \<or> m = 9 \<or> m = 11 then 30 else 31)"

definition valid_civil :: "int \<Rightarrow> int \<Rightarrow> int \<Rightarrow> bool" where
  "valid_civil y m d \<longleftrightarrow> 1 \<le> m \<and> m \<le> 12 \<and> 1 \<le> d \<and> d \<le> days_in_month y m"

section \<open>March-based years\<close>

lemma floor_by_tdiv:
  assumes "0 < b"
  shows "tdiv (if a \<ge> 0 then a else a - (b - 1)) b = a div b"
proof (cases "a \<ge> 0")
  case False
  have "(b - 1 - a) div b = - (a div b)"
  proof (rule int_div_pos_eq)
    show "b - 1 - a = b * - (a div b) + (b - 1 - a mod b)"
      using div_mult_mod_eq [of a b] by (simp add: algebra_simps)
    show "0 \<le> b - 1 - a mod b" "b - 1 - a mod b < b"
      using pos_mod_bound [OF assms, of a] pos_mod_sign [OF assms, of a] by linarith+
  qed
  with False assms show ?thesis by (simp add: tdiv_def)
qed (use assms in simp)

lemma Suc_div:
  fixes n k :: int
  assumes "0 < k"
  shows "(n + 1) div k = (if (n + 1) mod k = 0 then n div k + 1 else n div k)"
proof (cases "(n + 1) mod k = 0")
  case True
  have "n div k = (n + 1) div k - 1"
    using True assms div_mult_mod_eq [of "n + 1" k]
    by (intro int_div_pos_eq [where r = "k - 1"]) (simp_all add: algebra_simps)
  with True show ?thesis by simp
next
  case False
  have "n div k = (n + 1) div k"
    using False pos_mod_bound [OF assms, of "n + 1"] pos_mod_sign [OF assms, of "n + 1"]
      div_mult_mod_eq [of "n + 1" k]
    by (intro int_div_pos_eq [where r = "(n + 1) mod k - 1"]) (simp_all add: algebra_simps)
  with False show ?thesis by simp
qed

definition leap_days :: "int \<Rightarrow> int" where
  "leap_days k = (if is_leap (k + 1) then 366 else 365)"

text \<open>Days before the March-based year \<open>k\<close>, counted from year 0.\<close>

definition year_start :: "int \<Rightarrow> int" where
  "year_start k = (k div 400) * 146097 + (k mod 400) * 365 + (k mod 400) div 4 - (k mod 400) div 100"

definition month_start :: "int \<Rightarrow> int" where
  "month_start mp = (153 * mp + 2) div 5"

definition march_year :: "int \<Rightarrow> int \<Rightarrow> int" where
  "march_year y m = (if m \<le> 2 then y - 1 else y)"

definition march_month :: "int \<Rightarrow> int" where
  "march_month m = (if m > 2 then m - 3 else m + 9)"

lemma days_from_civil_eq:
  assumes "1 \<le> m"
  shows "days_from_civil y m d
    = year_start (march_year y m) + month_start (march_month m) + d - 1 - 719468"
proof -
  have era: "tdiv (if k \<ge> 0 then k else k - 399) 400 = k div 400" for k
    using floor_by_tdiv [of 400 k] by (simp split: if_splits)
  have yoe: "k - k div 400 * 400 = k mod 400" for k :: int
    by (simp add: minus_div_mult_eq_mod)
  have "0 \<le> k mod 400" for k :: int by simp
  then show ?thesis
    using assms unfolding days_from_civil_def Let_def era yoe
    by (simp add: year_start_def month_start_def march_year_def march_month_def)
qed

text \<open>The year-of-era formula, checked at the first and the last day of each of the 400 years.\<close>

definition yoe_num :: "int \<Rightarrow> int" where
  "yoe_num doe = doe - doe div 1460 + doe div 36524 - doe div 146096"

definition era_start :: "int \<Rightarrow> int" where
  "era_start k = k * 365 + k div 4 - k div 100"

lemma yoe_num_step: "yoe_num n \<le> yoe_num (n + 1)"
proof -
  have "(n + 1) mod 36524 = 0" if "(n + 1) mod 146096 = 0"
  proof -
    have "(146096 :: int) dvd n + 1" using that by auto
    moreover have "(36524 :: int) dvd 146096" by simp
    ultimately show ?thesis by (meson dvd_imp_mod_0 dvd_trans)
  qed
  then show ?thesis
    using Suc_div [of 1460 n] Suc_div [of 36524 n] Suc_div [of 146096 n]
    by (auto simp: yoe_num_def)
qed

lemma yoe_num_mono: "m \<le> n \<Longrightarrow> yoe_num m \<le> yoe_num n"
  by (induction n rule: int_ge_induct) (auto intro: order_trans yoe_num_step)

lemma year_endpoints:
  "\<forall>k\<in>{0..<400}. k * 365 \<le> yoe_num (era_start k)
     \<and> yoe_num (era_start k + leap_days k - 1) < k * 365 + 365"
  by code_simp

lemma yoe_recovers:
  assumes "0 \<le> k" "k < 400" "0 \<le> doy" "doy < leap_days k"
  shows "yoe_num (era_start k + doy) div 365 = k"
proof (rule int_div_pos_eq)
  let ?n = "yoe_num (era_start k + doy)"
  have "k * 365 \<le> yoe_num (era_start k)" "yoe_num (era_start k + leap_days k - 1) < k * 365 + 365"
    using year_endpoints assms by auto
  moreover have "yoe_num (era_start k) \<le> ?n" "?n \<le> yoe_num (era_start k + leap_days k - 1)"
    using assms by (auto intro!: yoe_num_mono)
  ultimately show "0 \<le> ?n - k * 365" "?n - k * 365 < 365" by linarith+
qed simp

lemma era_layout:
  assumes "0 \<le> k" "k < 400"
  shows "0 \<le> era_start k" "era_start k + leap_days k \<le> 146097"
    "era_start k + leap_days k = (if k = 399 then 146097 else era_start (k + 1))"
proof -
  have "\<forall>k\<in>{0..<400}. 0 \<le> era_start k \<and> era_start k + leap_days k \<le> 146097
      \<and> era_start k + leap_days k = (if k = 399 then 146097 else era_start (k + 1))"
    by code_simp
  then have "0 \<le> era_start k \<and> era_start k + leap_days k \<le> 146097
      \<and> era_start k + leap_days k = (if k = 399 then 146097 else era_start (k + 1))"
    by (rule bspec) (simp add: assms)
  then show "0 \<le> era_start k" "era_start k + leap_days k \<le> 146097"
    "era_start k + leap_days k = (if k = 399 then 146097 else era_start (k + 1))"
    by blast+
qed

lemma is_leap_mod: "is_leap (y mod 400 + 1) \<longleftrightarrow> is_leap (y + 1)"
proof -
  have "(y mod 400 + 1) mod n = (y + 1) mod n" if "n dvd 400" for n
    using mod_mod_cancel [OF that, of y] by (metis mod_add_left_eq)
  from this [of 4] this [of 100] this [of 400] show ?thesis by (simp add: is_leap_def)
qed

lemma leap_days_mod [simp]: "leap_days (k mod 400) = leap_days k"
  by (simp add: leap_days_def is_leap_mod)

lemma year_start_eq: "year_start k = k div 400 * 146097 + era_start (k mod 400)"
  by (simp add: year_start_def era_start_def)

lemma year_start_Suc: "year_start (k + 1) = year_start k + leap_days k"
proof -
  have lay: "era_start (k mod 400) + leap_days k
      = (if k mod 400 = 399 then 146097 else era_start (k mod 400 + 1))"
    using era_layout(3) [of "k mod 400"] by simp
  have "(k + 1) mod 400 = (k mod 400 + 1) mod 400" by (simp add: mod_add_left_eq)
  also have "\<dots> = (if k mod 400 = 399 then 0 else k mod 400 + 1)"
    using pos_mod_bound [of 400 k] pos_mod_sign [of 400 k] by (auto intro: mod_pos_pos_trivial)
  finally have m: "(k + 1) mod 400 = (if k mod 400 = 399 then 0 else k mod 400 + 1)" .
  show ?thesis
  proof (cases "k mod 400 = 399")
    case True
    then show ?thesis using lay m Suc_div [of 400 k] by (simp add: year_start_eq era_start_def)
  next
    case False
    moreover have "k mod 400 + 1 \<noteq> 0" using pos_mod_sign [of 400 k] by linarith
    ultimately show ?thesis using lay m Suc_div [of 400 k] by (simp add: year_start_eq)
  qed
qed

lemma year_start_mono: "j < k \<Longrightarrow> year_start j + leap_days j \<le> year_start k"
proof -
  assume "j < k"
  then have "j + 1 \<le> k" by simp
  then show ?thesis
    by (induction k rule: int_ge_induct)
       (simp_all add: year_start_Suc leap_days_def add_increasing2)
qed

section \<open>The two conversions\<close>

lemma civil_from_days_eq:
  assumes "0 \<le> doy" "doy < leap_days k" "z = year_start k + doy - 719468"
  shows "civil_from_days z =
    (let mp = (5 * doy + 2) div 153; d = doy - month_start mp + 1;
         m = (if mp < 10 then mp + 3 else mp - 9)
     in (if m \<le> 2 then k + 1 else k, m, d))"
proof -
  let ?e = "k div 400" and ?y = "k mod 400"
  let ?doe = "era_start ?y + doy"
  have y: "0 \<le> ?y" "?y < 400" by simp_all
  have doe: "0 \<le> ?doe" "?doe < 146097"
    using era_layout(1,2) [OF y] assms(1,2) by simp_all
  have z: "z + 719468 = ?e * 146097 + ?doe"
    using assms(3) by (simp add: year_start_eq)
  have era: "tdiv (if z + 719468 \<ge> 0 then z + 719468 else z + 719468 - 146096) 146097 = ?e"
  proof -
    have "tdiv (if z + 719468 \<ge> 0 then z + 719468 else z + 719468 - 146096) 146097
        = (z + 719468) div 146097"
      using floor_by_tdiv [of 146097 "z + 719468"] by (simp split: if_splits)
    also have "\<dots> = ?e" unfolding z using doe by simp
    finally show ?thesis .
  qed
  have yoe: "yoe_num ?doe div 365 = ?y"
    using assms(1,2) y by (intro yoe_recovers) simp_all
  have "yoe_num 0 \<le> yoe_num ?doe" using doe(1) by (rule yoe_num_mono)
  then have num: "0 \<le> yoe_num ?doe" by (simp add: yoe_num_def)
  have mp: "0 \<le> (5 * doy + 2) div 153" using assms(1) by simp
  have doe_eq: "z + 719468 - ?e * 146097 = ?doe" using z by simp
  have yoe_eq: "tdiv (?doe - tdiv ?doe 1460 + tdiv ?doe 36524 - tdiv ?doe 146096) 365 = ?y"
    using doe(1) num yoe by (simp add: yoe_num_def)
  have doy_eq: "?doe - (365 * ?y + tdiv ?y 4 - tdiv ?y 100) = doy"
    by (simp add: era_start_def)
  have k: "?y + ?e * 400 = k" by simp
  have t: "tdiv (5 * doy + 2) 153 = (5 * doy + 2) div 153" using assms(1) by simp
  have u: "tdiv (153 * ((5 * doy + 2) div 153) + 2) 5 = month_start ((5 * doy + 2) div 153)"
    using mp by (simp add: month_start_def)
  show ?thesis
    unfolding civil_from_days_def Let_def era doe_eq yoe_eq doy_eq t u k by (rule refl)
qed

text \<open>March-based months: which day-of-year values a month covers.\<close>

lemma int_cases_12: "0 \<le> (i::int) \<Longrightarrow> i \<le> 11 \<Longrightarrow> i \<in> {0, 1, 2, 3, 4, 5, 6, 7, 8, 9, 10, 11}"
  by simp arith

lemma march_month_range: "1 \<le> m \<Longrightarrow> m \<le> 12 \<Longrightarrow> 0 \<le> march_month m \<and> march_month m \<le> 11"
  by (simp add: march_month_def)

lemma month_of_march: "1 \<le> m \<Longrightarrow> m \<le> 12 \<Longrightarrow>
  (if march_month m < 10 then march_month m + 3 else march_month m - 9) = m"
  by (auto simp: march_month_def)

lemma month_lengths:
  assumes "valid_civil y m d"
  shows "d \<le> (if march_month m = 11 then leap_days (march_year y m) - 337
              else month_start (march_month m + 1) - month_start (march_month m))"
proof -
  have m: "1 \<le> m" "m \<le> 12" and d: "d \<le> days_in_month y m"
    using assms by (auto simp: valid_civil_def)
  then have "m \<in> {1, 2, 3, 4, 5, 6, 7, 8, 9, 10, 11, 12}" by simp arith
  with d show ?thesis
    by (auto simp: days_in_month_def march_month_def march_year_def month_start_def leap_days_def
        split: if_splits)
qed

lemma month_recovers:
  assumes "0 \<le> mp" "mp \<le> 11" "1 \<le> d" "mp = 11 \<Longrightarrow> d \<le> 29"
    and "mp < 11 \<Longrightarrow> d \<le> month_start (mp + 1) - month_start mp"
  shows "(5 * (month_start mp + d - 1) + 2) div 153 = mp"
  using int_cases_12 [OF assms(1,2)] assms(3-) by (auto simp: month_start_def)

lemma march_doy_bounds:
  assumes "valid_civil y m d"
  shows "0 \<le> month_start (march_month m) + d - 1"
    "month_start (march_month m) + d - 1 < leap_days (march_year y m)"
proof -
  have r: "0 \<le> march_month m" "march_month m \<le> 11" and d: "1 \<le> d"
    using assms march_month_range by (auto simp: valid_civil_def)
  then show "0 \<le> month_start (march_month m) + d - 1" by (simp add: month_start_def)
  have "365 \<le> leap_days (march_year y m)" by (simp add: leap_days_def)
  then show "month_start (march_month m) + d - 1 < leap_days (march_year y m)"
    using int_cases_12 [OF r] month_lengths [OF assms] by (auto simp: month_start_def)
qed

lemma march_year_back:
  "1 \<le> m \<Longrightarrow> (if m \<le> 2 then march_year y m + 1 else march_year y m) = y"
  by (simp add: march_year_def)

lemma civil_of_days_of_civil:
  assumes "valid_civil y m d"
  shows "civil_from_days (days_from_civil y m d) = (y, m, d)"
proof -
  let ?k = "march_year y m" and ?mp = "march_month m"
  let ?doy = "month_start ?mp + d - 1"
  have m: "1 \<le> m" "m \<le> 12" "1 \<le> d" using assms by (auto simp: valid_civil_def)
  have mp: "(5 * ?doy + 2) div 153 = ?mp"
    using march_month_range [OF m(1,2)] m(3) month_lengths [OF assms]
    by (intro month_recovers) (auto simp: leap_days_def split: if_splits)
  have "civil_from_days (days_from_civil y m d)
      = (let mp = (5 * ?doy + 2) div 153; d = ?doy - month_start mp + 1;
             m = (if mp < 10 then mp + 3 else mp - 9)
         in (if m \<le> 2 then ?k + 1 else ?k, m, d))"
    using m(1) march_doy_bounds [OF assms]
    by (intro civil_from_days_eq) (simp_all add: days_from_civil_eq)
  then show ?thesis
    unfolding mp Let_def month_of_march [OF m(1,2)] march_year_back [OF m(1)] by simp
qed

text \<open>Every day number lies in exactly one March-based year.\<close>

lemma year_of_day: "\<exists>k. year_start k \<le> n \<and> n < year_start k + leap_days k"
proof -
  let ?e = "n div 146097" and ?r = "n mod 146097"
  have ex: "\<exists>k. 0 \<le> k \<and> k < 400 \<and> era_start k \<le> r \<and> r < era_start k + leap_days k"
    if "0 \<le> r" "r < era_start j + leap_days j" "0 \<le> j" "j < 400" for r j :: int
    using that(3,4,2)
  proof (induction j rule: int_ge_induct)
    case base
    then show ?case using that(1) by (intro exI [of _ 0]) (simp add: era_start_def)
  next
    case (step i)
    show ?case
    proof (cases "era_start (i + 1) \<le> r")
      case True
      with step show ?thesis by (intro exI [of _ "i + 1"]) simp
    next
      case False
      with step era_layout(3) [of i] show ?thesis by simp
    qed
  qed
  obtain k where k: "0 \<le> k" "k < 400" "era_start k \<le> ?r" "?r < era_start k + leap_days k"
    using ex [of ?r 399] era_layout(3) [of 399] by auto
  have "(?e * 400 + k) div 400 = ?e" "(?e * 400 + k) mod 400 = k"
    using k(1,2) by simp_all
  moreover have "leap_days (?e * 400 + k) = leap_days k"
    using leap_days_mod [of "?e * 400 + k"] k(1,2) by simp
  ultimately have "year_start (?e * 400 + k) = ?e * 146097 + era_start k"
    "leap_days (?e * 400 + k) = leap_days k"
    by (simp_all only: year_start_eq)
  then show ?thesis
    using k(3,4) div_mult_mod_eq [of n 146097] by (intro exI [of _ "?e * 400 + k"]) linarith
qed

lemma doy_split:
  assumes "0 \<le> doy" "doy < leap_days k"
  defines "mp \<equiv> (5 * doy + 2) div 153"
  defines "m \<equiv> (if mp < 10 then mp + 3 else mp - 9)"
  shows "march_month m = mp" "march_year (if m \<le> 2 then k + 1 else k) m = k"
    "valid_civil (if m \<le> 2 then k + 1 else k) m (doy - month_start mp + 1)"
proof -
  have leap: "leap_days k \<le> 366" by (simp add: leap_days_def)
  have lo: "153 * mp \<le> 5 * doy + 2" and hi: "5 * doy + 2 < 153 * mp + 153"
    unfolding mp_def by (simp_all add: algebra_simps)
  have mp: "0 \<le> mp" "mp \<le> 11" using assms(1,2) leap lo hi by linarith+
  then show "march_month m = mp" by (auto simp: march_month_def m_def)
  show "march_year (if m \<le> 2 then k + 1 else k) m = k" by (simp add: march_year_def)
  show "valid_civil (if m \<le> 2 then k + 1 else k) m (doy - month_start mp + 1)"
    using int_cases_12 [OF mp] lo hi assms(2)
    by (auto simp: valid_civil_def days_in_month_def m_def month_start_def leap_days_def
        split: if_splits)
qed

lemma civil_from_days_parts:
  obtains k doy where "0 \<le> doy" "doy < leap_days k" "z = year_start k + doy - 719468"
proof -
  obtain k where "year_start k \<le> z + 719468" "z + 719468 < year_start k + leap_days k"
    using year_of_day by blast
  then show ?thesis by (intro that [of "z + 719468 - year_start k" k]) simp_all
qed

lemma civil_from_days_inverse:
  assumes "civil_from_days z = (y, m, d)"
  shows "valid_civil y m d" "days_from_civil y m d = z"
proof -
  obtain k doy where k: "0 \<le> doy" "doy < leap_days k" "z = year_start k + doy - 719468"
    by (rule civil_from_days_parts)
  let ?mp = "(5 * doy + 2) div 153"
  let ?m = "if ?mp < 10 then ?mp + 3 else ?mp - 9"
  have "(y, m, d) = (if ?m \<le> 2 then k + 1 else k, ?m, doy - month_start ?mp + 1)"
    using civil_from_days_eq [OF k] assms by (simp add: Let_def)
  then have y: "y = (if ?m \<le> 2 then k + 1 else k)" and m: "m = ?m"
    and d: "d = doy - month_start ?mp + 1"
    by blast+
  note parts = doy_split [OF k(1,2)]
  show v: "valid_civil y m d" unfolding y m d by (rule parts(3))
  then have "1 \<le> m" by (simp add: valid_civil_def)
  then have "days_from_civil y m d
      = year_start (march_year y m) + month_start (march_month m) + d - 1 - 719468"
    by (rule days_from_civil_eq)
  also have "march_year y m = k" unfolding y m by (rule parts(2))
  also have "march_month m = ?mp" unfolding m by (rule parts(1))
  finally show "days_from_civil y m d = z" using k(3) d by simp
qed

text \<open>Later dates have larger day numbers.\<close>

lemma month_start_mono:
  assumes "0 \<le> mp" "mp < mq" "mq \<le> 11"
  shows "month_start (mp + 1) \<le> month_start mq"
  unfolding month_start_def using assms by (intro zdiv_mono1) simp_all

lemma march_doy_less:
  assumes "valid_civil y m d" "valid_civil y' m' d'" "march_year y m = march_year y' m'"
    and "march_month m < march_month m' \<or> march_month m = march_month m' \<and> d < d'"
  shows "month_start (march_month m) + d < month_start (march_month m') + d'"
proof -
  have r: "0 \<le> march_month m" "march_month m' \<le> 11" and d: "1 \<le> d'"
    using assms(1,2) march_month_range by (auto simp: valid_civil_def)
  from assms(4) show ?thesis
  proof
    assume less: "march_month m < march_month m'"
    with r have "march_month m \<noteq> 11" by simp
    then have "d \<le> month_start (march_month m + 1) - month_start (march_month m)"
      using month_lengths [OF assms(1)] by simp
    with month_start_mono [OF r(1) less r(2)] d show ?thesis by simp
  qed simp
qed

lemma days_from_civil_mono:
  assumes "valid_civil y m d" "valid_civil y' m' d'" "(y, m, d) < (y', m', d')"
  shows "days_from_civil y m d < days_from_civil y' m' d'"
proof -
  have m: "1 \<le> m" "m \<le> 12" "1 \<le> m'" "m' \<le> 12"
    using assms by (auto simp: valid_civil_def)
  have "march_year y m < march_year y' m' \<or> march_year y m = march_year y' m'
      \<and> (march_month m < march_month m' \<or> march_month m = march_month m' \<and> d < d')"
    using assms(3) m by (auto simp: march_year_def march_month_def)
  then show ?thesis
  proof
    assume "march_year y m < march_year y' m'"
    with year_start_mono march_doy_bounds [OF assms(1)] march_doy_bounds [OF assms(2)]
    show ?thesis by (fastforce simp: days_from_civil_eq m)
  next
    assume "march_year y m = march_year y' m'
      \<and> (march_month m < march_month m' \<or> march_month m = march_month m' \<and> d < d')"
    with march_doy_less [OF assms(1,2)] show ?thesis by (simp add: days_from_civil_eq m)
  qed
qed

text \<open>
  The calendar conversions are inverse to each other: every day number is the day number of the
  date it converts to, and that date is a valid Gregorian date.
\<close>

lemma calendar_day_round_trip:
  "case civil_from_days z of (y, m, d) \<Rightarrow> valid_civil y m d \<and> days_from_civil y m d = z"
  using civil_from_days_inverse [of z] by (auto split: prod.splits)

text \<open>
  Every valid Gregorian date comes back unchanged from its day number.
\<close>

lemma calendar_date_round_trip:
  "valid_civil y m d \<Longrightarrow> civil_from_days (days_from_civil y m d) = (y, m, d)"
  by (rule civil_of_days_of_civil)

end
