(* ===== verification/Term_Id.thy ===== *)
theory Term_Id
  imports Rust_Std
begin

text \<open>
  Tagged 64-bit term identifiers: \<^verbatim>\<open>holos-core/src/term_id.rs\<close>. A \<open>term_id\<close> is the newtype around
  \<open>u64\<close> with the derived order; \<open>new_id\<close> is \<open>TermId::new\<close>, whose assertion is the \<open>Panic\<close> branch.
  The lemmas show that tag and payload are recovered exactly, that ids sort by tag and then by
  payload, and that the ids of one tag are one contiguous range.
\<close>

unbundle bit_operations_syntax

named_theorems id_simps \<open>arithmetic reading of tags and payloads\<close>

section \<open>Definitions\<close>

definition TAG_SHIFT :: nat where
  "TAG_SHIFT = 60"

definition PAYLOAD_MASK :: u64 where
  "PAYLOAD_MASK = push_bit TAG_SHIFT 1 - 1"

definition PAYLOAD_MAX :: u64 where
  "PAYLOAD_MAX = PAYLOAD_MASK"

datatype tag =
    TagIri | TagLiteral | TagBlankNode | TagVocab | TagInteger | TagFloat | TagDateTime
  | TagSmall | TagTripleTerm | TagEphemeral | TagReserved

text \<open>The discriminants of the \<open>repr(u8)\<close> enum, as \<open>tag as u64\<close> reads them.\<close>

fun tag_bits :: "tag \<Rightarrow> u64" where
  "tag_bits TagIri = 0x0"
| "tag_bits TagLiteral = 0x1"
| "tag_bits TagBlankNode = 0x2"
| "tag_bits TagVocab = 0x3"
| "tag_bits TagInteger = 0x4"
| "tag_bits TagFloat = 0x5"
| "tag_bits TagDateTime = 0x6"
| "tag_bits TagSmall = 0x7"
| "tag_bits TagTripleTerm = 0x8"
| "tag_bits TagEphemeral = 0xE"
| "tag_bits TagReserved = 0xF"

definition from_bits :: "u8 \<Rightarrow> tag" where
  "from_bits b =
    (if b = 0x0 then TagIri
     else if b = 0x1 then TagLiteral
     else if b = 0x2 then TagBlankNode
     else if b = 0x3 then TagVocab
     else if b = 0x4 then TagInteger
     else if b = 0x5 then TagFloat
     else if b = 0x6 then TagDateTime
     else if b = 0x7 then TagSmall
     else if b = 0x8 then TagTripleTerm
     else if b = 0xE then TagEphemeral
     else TagReserved)"

fun is_dictionary_backed :: "tag \<Rightarrow> bool" where
  "is_dictionary_backed t \<longleftrightarrow> t = TagIri \<or> t = TagLiteral \<or> t = TagBlankNode"

fun is_inline :: "tag \<Rightarrow> bool" where
  "is_inline t \<longleftrightarrow>
     t = TagVocab \<or> t = TagInteger \<or> t = TagFloat \<or> t = TagDateTime \<or> t = TagSmall"

datatype term_id = TermId (to_raw: u64)

text \<open>The order derived on the newtype is the order of the raw value.\<close>

instantiation term_id :: linorder
begin

definition less_eq_term_id :: "term_id \<Rightarrow> term_id \<Rightarrow> bool" where
  "less_eq_term_id a b \<longleftrightarrow> to_raw a \<le> to_raw b"

definition less_term_id :: "term_id \<Rightarrow> term_id \<Rightarrow> bool" where
  "less_term_id a b \<longleftrightarrow> to_raw a < to_raw b"

instance
  by standard (auto simp: less_eq_term_id_def less_term_id_def term_id.expand)

end

definition new_id :: "tag \<Rightarrow> u64 \<Rightarrow> term_id res" where
  "new_id t payload =
    (if payload \<le> PAYLOAD_MASK then Inr (TermId (push_bit TAG_SHIFT (tag_bits t) OR payload))
     else Inl (Panic ''TermId payload overflows 60 bits''))"

definition from_raw :: "u64 \<Rightarrow> term_id" where
  "from_raw raw = TermId raw"

definition id_tag :: "term_id \<Rightarrow> tag" where
  "id_tag i = from_bits (ucast (drop_bit TAG_SHIFT (to_raw i)))"

definition id_payload :: "term_id \<Rightarrow> u64" where
  "id_payload i = to_raw i AND PAYLOAD_MASK"

definition tag_floor :: "tag \<Rightarrow> term_id" where
  "tag_floor t = TermId (push_bit TAG_SHIFT (tag_bits t))"

definition tag_ceil :: "tag \<Rightarrow> term_id" where
  "tag_ceil t = TermId (push_bit TAG_SHIFT (tag_bits t) OR PAYLOAD_MASK)"

definition can_be_subject :: "term_id \<Rightarrow> bool" where
  "can_be_subject i \<longleftrightarrow> id_tag i = TagIri \<or> id_tag i = TagBlankNode \<or> id_tag i = TagVocab"

section \<open>Arithmetic of the layout\<close>

text \<open>An identifier as the number \<open>tag * 2^60 + payload\<close>.\<close>

abbreviation raw_nat :: "term_id \<Rightarrow> nat" where
  "raw_nat i \<equiv> unat (to_raw i)"

lemma PAYLOAD_MASK_eq: "PAYLOAD_MASK = mask 60"
  by (simp add: PAYLOAD_MASK_def TAG_SHIFT_def mask_eq_exp_minus_1)

lemma payload_le_iff [id_simps]: "p \<le> PAYLOAD_MASK \<longleftrightarrow> unat p < 2 ^ 60"
  by (simp add: PAYLOAD_MASK_def TAG_SHIFT_def word_le_nat_alt) arith

lemma tag_bits_bound: "unat (tag_bits t) < 16"
  by (cases t) simp_all

lemma tag_bits_inject [simp]: "tag_bits s = tag_bits t \<longleftrightarrow> s = t"
  by (cases s; cases t) simp_all

lemma from_bits_tag_bits [simp]: "from_bits (ucast (tag_bits t)) = t"
  by (cases t) (simp_all add: from_bits_def)

lemma unat_shift_tag [id_simps]: "unat (push_bit TAG_SHIFT (tag_bits t)) = unat (tag_bits t) * 2 ^ 60"
  by (cases t) (simp_all add: TAG_SHIFT_def)

lemma unat_compose [id_simps]:
  assumes "unat p < 2 ^ 60"
  shows "unat (push_bit TAG_SHIFT (tag_bits t) OR p) = unat (tag_bits t) * 2 ^ 60 + unat p"
proof -
  have "take_bit 60 p = p"
    by (metis assms take_bit_nat_eq_self_iff unsigned_take_bit_eq word_unat_eq_iff)
  then have "bit p n \<Longrightarrow> n < 60" for n
    by (metis bit_take_bit_iff)
  then have "push_bit TAG_SHIFT (tag_bits t) AND p = 0"
    by (intro bit_eqI) (fastforce simp: bit_simps TAG_SHIFT_def)
  then have "push_bit TAG_SHIFT (tag_bits t) OR p = push_bit TAG_SHIFT (tag_bits t) + p"
    by (simp add: disjunctive_add_eq_or)
  moreover have "unat (push_bit TAG_SHIFT (tag_bits t)) + unat p < 2 ^ 64"
    using tag_bits_bound [of t] assms by (simp add: unat_shift_tag)
  ultimately show ?thesis
    by (simp add: unat_word_ariths unat_shift_tag)
qed

lemma unat_payload [id_simps]: "unat (id_payload i) = raw_nat i mod 2 ^ 60"
proof -
  have "id_payload i = take_bit 60 (to_raw i)"
    by (simp add: id_payload_def PAYLOAD_MASK_eq take_bit_eq_mask)
  then show ?thesis by (simp add: take_bit_eq_mod unat_mod_distrib)
qed

lemma unat_high [id_simps]: "unat (drop_bit TAG_SHIFT (to_raw i)) = raw_nat i div 2 ^ 60"
  unfolding TAG_SHIFT_def by (subst unat_drop_bit_eq) (simp add: drop_bit_eq_div)

lemma raw_high_bound: "raw_nat i div 2 ^ 60 < 16"
  using unsigned_less [of "to_raw i", where ?'a = nat] by (simp add: div_less_iff_less_mult)

lemma term_id_eq_iff: "i = j \<longleftrightarrow> raw_nat i = raw_nat j"
  by (cases i; cases j) (simp add: word_unat_eq_iff)

lemma term_id_le_iff: "i \<le> j \<longleftrightarrow> raw_nat i \<le> raw_nat j"
  by (simp add: less_eq_term_id_def word_le_nat_alt)

lemma term_id_less_iff: "i < j \<longleftrightarrow> raw_nat i < raw_nat j"
  by (simp add: less_term_id_def word_less_nat_alt)

lemma from_bits_unat:
  "t \<noteq> TagReserved \<Longrightarrow> from_bits b = t \<longleftrightarrow> unat b = unat (tag_bits t)"
  by (cases t) (simp_all add: from_bits_def word_unat_eq_iff)

lemma id_tag_high:
  assumes "t \<noteq> TagReserved"
  shows "id_tag i = t \<longleftrightarrow> raw_nat i div 2 ^ 60 = unat (tag_bits t)"
proof -
  let ?h = "drop_bit TAG_SHIFT (to_raw i)"
  have h: "unat ?h < 16" using raw_high_bound [of i] by (simp add: unat_high)
  then have "unat (ucast ?h :: u8) = unat ?h"
    by (simp add: unsigned_ucast_eq take_bit_nat_eq_self_iff)
  then show ?thesis
    using from_bits_unat [OF assms, of "ucast ?h"] by (simp add: id_tag_def unat_high)
qed

lemma new_id_cases:
  assumes "new_id t p = Inr i"
  shows "unat p < 2 ^ 60" "raw_nat i = unat (tag_bits t) * 2 ^ 60 + unat p"
  using assms by (auto simp: new_id_def id_simps split: if_splits)

lemma new_id_tag: "new_id t p = Inr i \<Longrightarrow> id_tag i = t"
proof -
  assume a: "new_id t p = Inr i"
  have "unat (drop_bit TAG_SHIFT (to_raw i)) = unat (tag_bits t)"
    using new_id_cases [OF a] by (simp add: unat_high)
  then have "drop_bit TAG_SHIFT (to_raw i) = tag_bits t" by (simp add: word_unat_eq_iff)
  then show ?thesis by (simp add: id_tag_def)
qed

lemma new_id_payload: "new_id t p = Inr i \<Longrightarrow> id_payload i = p"
  using new_id_cases(1) [of t p i] by (simp add: word_unat_eq_iff unat_payload new_id_cases(2))

lemma new_id_ok: "unat p < 2 ^ 60 \<Longrightarrow> \<exists>i. new_id t p = Inr i"
  by (simp add: new_id_def id_simps)

lemma new_id_inject: "new_id t p = Inr i \<Longrightarrow> new_id s q = Inr i \<Longrightarrow> s = t \<and> q = p"
  by (metis new_id_payload new_id_tag)

lemma new_id_of_parts: "id_tag i \<noteq> TagReserved \<Longrightarrow> new_id (id_tag i) (id_payload i) = Inr i"
proof -
  assume r: "id_tag i \<noteq> TagReserved"
  obtain j where j: "new_id (id_tag i) (id_payload i) = Inr j"
    using new_id_ok unat_payload [of i] by fastforce
  from j have "raw_nat j = unat (tag_bits (id_tag i)) * 2 ^ 60 + unat (id_payload i)"
    by (rule new_id_cases(2))
  also have "\<dots> = raw_nat i"
    using id_tag_high [OF r, of i] unat_payload [of i] div_mult_mod_eq [of "raw_nat i" "2 ^ 60"]
    by simp
  finally show ?thesis using j by (simp add: term_id_eq_iff)
qed

lemma new_id_less_iff:
  assumes "new_id s p = Inr i" "new_id t q = Inr j"
  shows "i < j \<longleftrightarrow> tag_bits s < tag_bits t \<or> s = t \<and> p < q"
  using new_id_cases [OF assms(1)] new_id_cases [OF assms(2)]
  by (simp add: term_id_less_iff less_by_high_digit word_less_nat_alt word_unat_eq_iff
      flip: tag_bits_inject)

lemma tag_range_iff:
  assumes "t \<noteq> TagReserved"
  shows "id_tag i = t \<longleftrightarrow> tag_floor t \<le> i \<and> i \<le> tag_ceil t"
proof -
  have m: "unat PAYLOAD_MASK = 2 ^ 60 - 1"
    by (simp add: PAYLOAD_MASK_def TAG_SHIFT_def)
  have "raw_nat (tag_floor t) = unat (tag_bits t) * 2 ^ 60"
    "raw_nat (tag_ceil t) = unat (tag_bits t) * 2 ^ 60 + (2 ^ 60 - 1)"
    using m by (simp_all add: tag_floor_def tag_ceil_def id_simps)
  then show ?thesis
    unfolding id_tag_high [OF assms] term_id_le_iff by (auto simp: div_nat_eqI)
qed

end
