(* ===== verification/Rdf_Terms.thy ===== *)
theory Rdf_Terms
  imports Rust_Std
begin

text \<open>
  The RDF data the sources exchange with the \<^verbatim>\<open>oxrdf\<close> crate: terms, literals, quads. Only what the
  sources construct and match on is represented: the constructors of \<open>Term\<close>, \<open>NamedOrBlankNode\<close>,
  \<open>GraphName\<close> and \<open>BaseDirection\<close>, and a literal by its constructor functions.
  \<open>new_typed_literal\<close> folds \<^verbatim>\<open>xsd:string\<close> onto the simple literal, as the crate documents;
  \<open>wf_literal\<close> says a literal was made that way and that its strings are UTF-8.
\<close>

definition xsd_ns :: string where
  "xsd_ns = ''http://www.w3.org/2001/XMLSchema#''"

definition xsd_string :: string where "xsd_string = xsd_ns @ ''string''"

definition xsd_integer :: string where "xsd_integer = xsd_ns @ ''integer''"

definition xsd_boolean :: string where "xsd_boolean = xsd_ns @ ''boolean''"

definition xsd_float :: string where "xsd_float = xsd_ns @ ''float''"

definition xsd_date_time :: string where "xsd_date_time = xsd_ns @ ''dateTime''"

definition rdf_lang_string :: string where
  "rdf_lang_string = ''http://www.w3.org/1999/02/22-rdf-syntax-ns#langString''"

definition rdf_dir_lang_string :: string where
  "rdf_dir_lang_string = ''http://www.w3.org/1999/02/22-rdf-syntax-ns#dirLangString''"

datatype base_direction = Ltr | Rtl

datatype literal =
    SimpleLit string
  | TypedLit string string
  | LangLit string string
  | DirLangLit string string base_direction

fun lit_value :: "literal \<Rightarrow> string" where
  "lit_value (SimpleLit v) = v"
| "lit_value (TypedLit v _) = v"
| "lit_value (LangLit v _) = v"
| "lit_value (DirLangLit v _ _) = v"

fun lit_language :: "literal \<Rightarrow> string option" where
  "lit_language (LangLit _ l) = Some l"
| "lit_language (DirLangLit _ l _) = Some l"
| "lit_language _ = None"

fun lit_direction :: "literal \<Rightarrow> base_direction option" where
  "lit_direction (DirLangLit _ _ d) = Some d"
| "lit_direction _ = None"

fun lit_datatype :: "literal \<Rightarrow> string" where
  "lit_datatype (SimpleLit _) = xsd_string"
| "lit_datatype (TypedLit _ dt) = dt"
| "lit_datatype (LangLit _ _) = rdf_lang_string"
| "lit_datatype (DirLangLit _ _ _) = rdf_dir_lang_string"

definition new_typed_literal :: "string \<Rightarrow> string \<Rightarrow> literal" where
  "new_typed_literal v dt = (if dt = xsd_string then SimpleLit v else TypedLit v dt)"

fun wf_literal :: "literal \<Rightarrow> bool" where
  "wf_literal (SimpleLit v) = is_str v"
| "wf_literal (TypedLit v dt) = (is_str v \<and> is_str dt \<and> dt \<noteq> xsd_string)"
| "wf_literal (LangLit v l) = (is_str v \<and> is_str l)"
| "wf_literal (DirLangLit v l _) = (is_str v \<and> is_str l)"

datatype node = NodeNamed string | NodeBlank string

datatype rdf_term =
    NamedNode string
  | BlankNode string
  | Literal literal
  | Triple node string rdf_term

fun node_term :: "node \<Rightarrow> rdf_term" where
  "node_term (NodeNamed n) = NamedNode n"
| "node_term (NodeBlank b) = BlankNode b"

fun wf_node :: "node \<Rightarrow> bool" where
  "wf_node (NodeNamed n) = is_str n"
| "wf_node (NodeBlank b) = is_str b"

fun wf_term :: "rdf_term \<Rightarrow> bool" where
  "wf_term (NamedNode n) = is_str n"
| "wf_term (BlankNode b) = is_str b"
| "wf_term (Literal l) = wf_literal l"
| "wf_term (Triple s p x) = (wf_node s \<and> is_str p \<and> wf_term x)"

datatype graph_name = DefaultGraph | GraphNamed string | GraphBlank string

record quad =
  q_subject :: node
  q_predicate :: string
  q_object :: rdf_term
  q_graph :: graph_name

lemma node_term_inject [simp]: "node_term a = node_term b \<longleftrightarrow> a = b"
  by (cases a; cases b) simp_all

lemma wf_node_term [simp]: "wf_term (node_term n) = wf_node n"
  by (cases n) simp_all

lemma xsd_distinct [simp]:
  "xsd_integer \<noteq> xsd_string" "xsd_boolean \<noteq> xsd_string" "xsd_float \<noteq> xsd_string"
  "xsd_date_time \<noteq> xsd_string" "xsd_boolean \<noteq> xsd_integer" "xsd_float \<noteq> xsd_integer"
  "xsd_date_time \<noteq> xsd_integer" "xsd_float \<noteq> xsd_boolean" "xsd_date_time \<noteq> xsd_boolean"
  "xsd_date_time \<noteq> xsd_float"
  by (simp_all add: xsd_string_def xsd_integer_def xsd_boolean_def xsd_float_def xsd_date_time_def)

lemmas xsd_distinct_sym [simp] = xsd_distinct [symmetric]

lemma new_typed_literal_ne [simp]: "dt \<noteq> xsd_string \<Longrightarrow> new_typed_literal v dt = TypedLit v dt"
  by (simp add: new_typed_literal_def)

end
