(* ===== verification/Inline_Codec.thy ===== *)
theory Inline_Codec
  imports Term_Id Rdf_Terms Calendar
begin

text \<open>
  The inline value codec of \<^verbatim>\<open>holos-core/src/inline.rs\<close>: which literals become identifiers that carry
  their value, and how those identifiers are read back. The \<^verbatim>\<open>oxsdatatypes\<close> crate (parsing and
  printing of \<^verbatim>\<open>xsd:float\<close> and \<^verbatim>\<open>xsd:dateTime\<close>) is the parameter \<open>xsd_lib\<close>; an \<open>f32\<close> is its 32 bits.
  An encoder answers \<open>None\<close> when the literal belongs in the dictionary and \<open>Some (Inl (Panic _))\<close>
  where \<open>TermId::new\<close> or an \<open>expect\<close> would panic.
\<close>

unbundle bit_operations_syntax

section \<open>The datatype library\<close>

record 'dt xsd_lib =
  float_parse :: "string \<Rightarrow> u32 option"
  float_show :: "u32 \<Rightarrow> string"
  dt_parse :: "string \<Rightarrow> 'dt option"
  dt_show :: "'dt \<Rightarrow> string"
  dt_year :: "'dt \<Rightarrow> int"
  dt_month :: "'dt \<Rightarrow> int"
  dt_day :: "'dt \<Rightarrow> int"
  dt_hour :: "'dt \<Rightarrow> int"
  dt_minute :: "'dt \<Rightarrow> int"
  dt_second :: "'dt \<Rightarrow> string"

section \<open>Constants\<close>

definition INT_BIAS :: int where "INT_BIAS = 2 ^ 59"

definition INT_MIN :: int where "INT_MIN = - INT_BIAS"

definition INT_MAX :: int where "INT_MAX = INT_BIAS - 1"

definition SMALL_KIND_MASK :: u64 where "SMALL_KIND_MASK = 0xF"

definition SMALL_KIND_BOOL :: u64 where "SMALL_KIND_BOOL = 0"

definition SMALL_KIND_STR :: u64 where "SMALL_KIND_STR = 1"

definition SMALL_BOOL_BIT :: u64 where "SMALL_BOOL_BIT = push_bit 4 1"

definition SMALL_LEN_SHIFT :: nat where "SMALL_LEN_SHIFT = 4"

definition SMALL_LEN_MASK :: u64 where "SMALL_LEN_MASK = 0xFF"

definition SMALL_BYTES_SHIFT :: nat where "SMALL_BYTES_SHIFT = 12"

definition MAX_INLINE_STR :: nat where "MAX_INLINE_STR = 6"

definition DT_BIAS :: int where "DT_BIAS = 2 ^ 59"

definition DT_MIN_YEAR :: int where "DT_MIN_YEAR = 1"

definition DT_MAX_YEAR :: int where "DT_MAX_YEAR = 9999"

text \<open>\<open>u64::try_from(v).expect(..)\<close>\<close>

definition try_u64 :: "int \<Rightarrow> u64 res" where
  "try_u64 v = (if 0 \<le> v \<and> v < 2 ^ 64 then Inr (word_of_int v) else Inl (Panic ''out of range''))"

definition new_from_int :: "tag \<Rightarrow> int \<Rightarrow> term_id res" where
  "new_from_int t v = (case try_u64 v of Inl e \<Rightarrow> Inl e | Inr p \<Rightarrow> new_id t p)"

text \<open>\<open>i64::try_from(payload).unwrap_or(i64::MAX)\<close>\<close>

definition payload_i64 :: "u64 \<Rightarrow> int" where
  "payload_i64 p = (if uint p < 2 ^ 63 then uint p else 2 ^ 63 - 1)"

section \<open>Integers\<close>

definition encode_integer :: "string \<Rightarrow> term_id res option" where
  "encode_integer s =
    (case parse_i64 s of
       None \<Rightarrow> None
     | Some v \<Rightarrow>
         if i64_to_string v \<noteq> s then None
         else if \<not> (INT_MIN \<le> v \<and> v \<le> INT_MAX) then None
         else Some (new_from_int TagInteger (v + INT_BIAS)))"

definition decode_integer :: "u64 \<Rightarrow> literal" where
  "decode_integer p = new_typed_literal (i64_to_string (payload_i64 p - INT_BIAS)) xsd_integer"

section \<open>Floats\<close>

definition order_preserving_f32 :: "u32 \<Rightarrow> u32" where
  "order_preserving_f32 bits =
    (if bits AND 0x80000000 = 0 then bits XOR 0x80000000 else NOT bits)"

definition f32_from_order_preserving :: "u32 \<Rightarrow> u32" where
  "f32_from_order_preserving n =
    (if n AND 0x80000000 = 0 then NOT n else n XOR 0x80000000)"

definition f32_is_nan :: "u32 \<Rightarrow> bool" where
  "f32_is_nan bits \<longleftrightarrow> bits AND 0x7F800000 = 0x7F800000 \<and> bits AND 0x007FFFFF \<noteq> 0"

definition encode_float :: "'dt xsd_lib \<Rightarrow> string \<Rightarrow> term_id res option" where
  "encode_float X s =
    (case float_parse X s of
       None \<Rightarrow> None
     | Some bits \<Rightarrow>
         if f32_is_nan bits then None
         else if float_show X bits \<noteq> s then None
         else Some (new_id TagFloat (ucast (order_preserving_f32 bits))))"

definition decode_float :: "'dt xsd_lib \<Rightarrow> u64 \<Rightarrow> literal" where
  "decode_float X p =
    new_typed_literal (float_show X (f32_from_order_preserving (ucast (p AND 0xFFFFFFFF)))) xsd_float"

section \<open>Booleans and short strings\<close>

definition encode_boolean :: "string \<Rightarrow> term_id res option" where
  "encode_boolean s =
    (if s = ''true'' then Some (new_id TagSmall (SMALL_BOOL_BIT OR SMALL_KIND_BOOL))
     else if s = ''false'' then Some (new_id TagSmall (0 OR SMALL_KIND_BOOL))
     else None)"

text \<open>The packing loop: byte \<open>i\<close> is left-aligned into the top 48 bits.\<close>

definition pack_bytes :: "byte list \<Rightarrow> u64" where
  "pack_bytes bs =
    foldl (\<lambda>packed (i, b). packed OR push_bit (8 * (MAX_INLINE_STR - 1 - i)) (ucast b)) 0
      (enumerate 0 bs)"

definition small_payload :: "byte list \<Rightarrow> u64" where
  "small_payload bs =
    push_bit SMALL_BYTES_SHIFT (pack_bytes bs)
      OR push_bit SMALL_LEN_SHIFT (word_of_nat (length bs)) OR SMALL_KIND_STR"

definition encode_small_string :: "string \<Rightarrow> term_id res option" where
  "encode_small_string s =
    (let bytes = as_bytes s in
     if length bytes > MAX_INLINE_STR then None
     else Some (new_id TagSmall (small_payload bytes)))"

definition unpack_bytes :: "u64 \<Rightarrow> nat \<Rightarrow> byte list" where
  "unpack_bytes packed len =
    map (\<lambda>i. ucast (drop_bit (8 * (MAX_INLINE_STR - 1 - i)) packed AND 0xFF)) [0..<len]"

definition decode_small :: "u64 \<Rightarrow> literal option" where
  "decode_small p =
    (if p AND SMALL_KIND_MASK = SMALL_KIND_BOOL then
       Some (new_typed_literal (if p AND SMALL_BOOL_BIT = 0 then ''false'' else ''true'') xsd_boolean)
     else if p AND SMALL_KIND_MASK = SMALL_KIND_STR then
       (let len = unat (drop_bit SMALL_LEN_SHIFT p AND SMALL_LEN_MASK) in
        if len > MAX_INLINE_STR then None
        else map_option SimpleLit (from_utf8 (unpack_bytes (drop_bit SMALL_BYTES_SHIFT p) len)))
     else None)"

section \<open>Instants\<close>

definition format_date_time :: "int \<Rightarrow> int \<Rightarrow> int \<Rightarrow> int \<Rightarrow> int \<Rightarrow> int \<Rightarrow> string" where
  "format_date_time y m d h mi s =
    pad_zero 4 y @ ''-'' @ pad_zero 2 m @ ''-'' @ pad_zero 2 d @ ''T''
      @ pad_zero 2 h @ '':'' @ pad_zero 2 mi @ '':'' @ pad_zero 2 s @ ''Z''"

definition format_utc_seconds :: "int \<Rightarrow> string option" where
  "format_utc_seconds secs =
    (let days = secs div 86400; rem = secs mod 86400; (y, m, d) = civil_from_days days in
     if \<not> (DT_MIN_YEAR \<le> y \<and> y \<le> DT_MAX_YEAR) then None
     else Some (format_date_time y m d (tdiv rem 3600) (tdiv (rem mod 3600) 60) (rem mod 60)))"

definition seconds_of :: "int \<Rightarrow> int \<Rightarrow> int \<Rightarrow> int \<Rightarrow> int \<Rightarrow> int \<Rightarrow> int" where
  "seconds_of y m d h mi s = days_from_civil y m d * 86400 + h * 3600 + mi * 60 + s"

definition encode_date_time :: "'dt xsd_lib \<Rightarrow> string \<Rightarrow> term_id res option" where
  "encode_date_time X s =
    (if s = [] \<or> last s \<noteq> CHR ''Z'' then None
     else (case dt_parse X s of
         None \<Rightarrow> None
       | Some dt \<Rightarrow>
           if dt_show X dt \<noteq> s then None
           else if \<not> (DT_MIN_YEAR \<le> dt_year X dt \<and> dt_year X dt \<le> DT_MAX_YEAR) then None
           else if CHR ''.'' \<in> set (dt_second X dt) then None
           else (case parse_i64 (dt_second X dt) of
               None \<Rightarrow> None
             | Some second \<Rightarrow>
                 Some (new_from_int TagDateTime
                   (seconds_of (dt_year X dt) (dt_month X dt) (dt_day X dt)
                      (dt_hour X dt) (dt_minute X dt) second + DT_BIAS)))))"

definition decode_date_time :: "u64 \<Rightarrow> literal option" where
  "decode_date_time p =
    map_option (\<lambda>lexical. new_typed_literal lexical xsd_date_time)
      (format_utc_seconds (payload_i64 p - DT_BIAS))"

section \<open>The codec\<close>

definition encode_literal :: "'dt xsd_lib \<Rightarrow> literal \<Rightarrow> term_id res option" where
  "encode_literal X l =
    (if lit_language l \<noteq> None \<or> lit_direction l \<noteq> None then None
     else let v = lit_value l; dt = lit_datatype l in
       if dt = xsd_string then encode_small_string v
       else if dt = xsd_integer then encode_integer v
       else if dt = xsd_boolean then encode_boolean v
       else if dt = xsd_float then encode_float X v
       else if dt = xsd_date_time then encode_date_time X v
       else None)"

definition decode_inline :: "'dt xsd_lib \<Rightarrow> term_id \<Rightarrow> rdf_term option" where
  "decode_inline X i =
    (case id_tag i of
       TagInteger \<Rightarrow> Some (Literal (decode_integer (id_payload i)))
     | TagFloat \<Rightarrow> Some (Literal (decode_float X (id_payload i)))
     | TagDateTime \<Rightarrow> map_option Literal (decode_date_time (id_payload i))
     | TagSmall \<Rightarrow> map_option Literal (decode_small (id_payload i))
     | _ \<Rightarrow> None)"

section \<open>Integers: exact, ordered\<close>

lemma new_from_int_ok:
  assumes "0 \<le> v" "v < 2 ^ 60"
  obtains i where "new_from_int t v = Inr i" "id_tag i = t" "id_payload i = word_of_int v"
    "uint (id_payload i) = v"
proof -
  have u: "uint (word_of_int v :: u64) = v"
    using assms by (simp add: unsigned_of_int take_bit_int_eq_self_iff)
  then have "unat (word_of_int v :: u64) < 2 ^ 60"
    using assms by (metis nat_int nat_less_numeral_power_cancel_iff uint_nat)
  then obtain i where i: "new_id t (word_of_int v) = Inr i" using new_id_ok by blast
  then have "new_from_int t v = Inr i"
    using assms by (simp add: new_from_int_def try_u64_def)
  moreover have "uint (id_payload i) = v" using u new_id_payload [OF i] by metis
  ultimately show thesis using new_id_tag [OF i] new_id_payload [OF i] by (intro that)
qed

lemma payload_i64_small: "uint p < 2 ^ 60 \<Longrightarrow> payload_i64 p = uint p"
  by (simp add: payload_i64_def)

lemma encode_integer_Some:
  assumes "encode_integer s = Some r"
  obtains v i where "parse_i64 s = Some v" "i64_to_string v = s" "INT_MIN \<le> v" "v \<le> INT_MAX"
    "r = Inr i" "id_tag i = TagInteger" "uint (id_payload i) = v + INT_BIAS"
proof -
  obtain v where v: "parse_i64 s = Some v" "i64_to_string v = s" "INT_MIN \<le> v" "v \<le> INT_MAX"
    "r = new_from_int TagInteger (v + INT_BIAS)"
    using assms by (auto simp: encode_integer_def split: option.splits if_splits)
  then have "0 \<le> v + INT_BIAS" "v + INT_BIAS < 2 ^ 60"
    by (simp_all add: INT_MIN_def INT_MAX_def INT_BIAS_def)
  then obtain i where "new_from_int TagInteger (v + INT_BIAS) = Inr i" "id_tag i = TagInteger"
    "uint (id_payload i) = v + INT_BIAS"
    by (rule new_from_int_ok) blast
  with v show thesis by (intro that) simp_all
qed

lemma decode_encode_integer:
  assumes "encode_integer s = Some r"
  obtains i where "r = Inr i" "id_tag i = TagInteger"
    "decode_integer (id_payload i) = TypedLit s xsd_integer"
  using assms
proof (rule encode_integer_Some)
  fix v i
  assume a: "i64_to_string v = s" "INT_MIN \<le> v" "v \<le> INT_MAX" "r = Inr i"
    "id_tag i = TagInteger" "uint (id_payload i) = v + INT_BIAS"
  then have "payload_i64 (id_payload i) = v + INT_BIAS"
    by (subst payload_i64_small) (simp_all add: INT_MAX_def INT_BIAS_def)
  then have "decode_integer (id_payload i) = TypedLit (i64_to_string v) xsd_integer"
    by (simp add: decode_integer_def)
  with a show thesis by (metis that)
qed

lemma encode_integer_complete:
  assumes "INT_MIN \<le> v" "v \<le> INT_MAX"
  shows "\<exists>i. encode_integer (i64_to_string v) = Some (Inr i)"
proof -
  have "in_i64 v" using assms by (simp add: in_i64_def INT_MIN_def INT_MAX_def INT_BIAS_def)
  moreover have "0 \<le> v + INT_BIAS" "v + INT_BIAS < 2 ^ 60"
    using assms by (simp_all add: INT_MIN_def INT_MAX_def INT_BIAS_def)
  then obtain i where "new_from_int TagInteger (v + INT_BIAS) = Inr i"
    by (rule new_from_int_ok) blast
  ultimately show ?thesis
    using assms by (simp add: encode_integer_def parse_i64_to_string)
qed

lemma same_tag_less_iff:
  "id_tag i = id_tag j \<Longrightarrow> id_tag i \<noteq> TagReserved \<Longrightarrow> i < j \<longleftrightarrow> id_payload i < id_payload j"
  using new_id_less_iff [OF new_id_of_parts new_id_of_parts, of i j] by simp

section \<open>Floats: exact, ordered\<close>

lemma sign_bit_iff: "(bits :: u32) AND 0x80000000 = 0 \<longleftrightarrow> unat bits < 2 ^ 31"
proof -
  have "bits AND 0x80000000 = 0 \<longleftrightarrow> \<not> bit bits 31"
    using and_exp_eq_0_iff_not_bit [of bits 31] by simp
  also have "\<dots> \<longleftrightarrow> \<not> bit (unat bits) 31"
    using bit_unsigned_iff [of bits 31, where ?'a = nat] by (simp add: possible_bit_def)
  also have "\<dots> \<longleftrightarrow> unat bits div 2 ^ 31 mod 2 = 0"
    unfolding bit_iff_odd by (simp add: even_iff_mod_2_eq_zero)
  also have "\<dots> \<longleftrightarrow> unat bits < 2 ^ 31"
  proof -
    have "unat bits div 2 ^ 31 < 2"
      using unsigned_less [of bits, where ?'a = nat] by (simp add: div_less_iff_less_mult)
    then show ?thesis by (auto simp: div_eq_0_iff)
  qed
  finally show ?thesis .
qed

lemma sign_bit_uint: "(w :: u32) AND 0x80000000 = 0 \<longleftrightarrow> uint w < 2 ^ 31"
  unfolding sign_bit_iff unat_eq_nat_uint by (simp only: nat_less_iff uint_ge_0) simp

lemma uint_not32: "uint (NOT (w :: u32)) = 2 ^ 32 - 1 - uint w"
proof -
  have "NOT w = - w - 1" by (simp add: not_eq_complement)
  also have "\<dots> = word_of_int (2 ^ 32 - 1 - uint w)" by (simp add: of_int_diff)
  finally have "uint (NOT w) = uint (word_of_int (2 ^ 32 - 1 - uint w) :: u32)" by (rule arg_cong)
  also have "\<dots> = take_bit 32 (2 ^ 32 - 1 - uint w)" by (simp only: unsigned_of_int) simp
  also have "\<dots> = 2 ^ 32 - 1 - uint w"
  proof (rule take_bit_int_eq_self)
    show "0 \<le> 2 ^ 32 - 1 - uint w" using unsigned_less [of w, where ?'a = int] by simp
    show "2 ^ 32 - 1 - uint w < 2 ^ 32" using uint_ge_0 [of w] by linarith
  qed
  finally show ?thesis .
qed

lemma uint_xor_sign:
  assumes "uint (w :: u32) < 2 ^ 31"
  shows "uint (w XOR 0x80000000) = uint w + 2 ^ 31"
proof -
  have "w AND 0x80000000 = 0" using assms by (simp only: sign_bit_uint)
  then have "w XOR 0x80000000 = w + 0x80000000"
    by (simp add: disjunctive_xor_eq_or disjunctive_add_eq_or)
  then show ?thesis using assms by (simp add: uint_word_ariths)
qed

lemma uint_xor_sign_high:
  assumes "2 ^ 31 \<le> uint (w :: u32)"
  shows "uint (w XOR 0x80000000) = uint w - 2 ^ 31"
proof -
  have "uint w < 2 ^ 32" using unsigned_less [of w, where ?'a = int] by simp
  then have u: "uint (w - 0x80000000) = uint w - 2 ^ 31"
    using assms by (simp add: uint_word_ariths)
  then have "uint ((w - 0x80000000) XOR 0x80000000) = uint w"
    using uint_xor_sign [of "w - 0x80000000"] \<open>uint w < 2 ^ 32\<close> by simp
  then have "(w - 0x80000000) XOR 0x80000000 = w" by (simp add: word_uint_eq_iff)
  then have "w XOR 0x80000000 = w - 0x80000000" by (metis xor.assoc xor_self_eq xor.right_neutral)
  with u show ?thesis by simp
qed

lemma uint_order_preserving:
  "uint (order_preserving_f32 w) = (if uint w < 2 ^ 31 then uint w + 2 ^ 31 else 2 ^ 32 - 1 - uint w)"
  unfolding order_preserving_f32_def sign_bit_uint by (simp add: uint_xor_sign uint_not32)

lemma f32_order_inverse: "f32_from_order_preserving (order_preserving_f32 w) = w"
proof -
  have "uint w < 2 ^ 32" using unsigned_less [of w, where ?'a = int] by simp
  then have "uint (f32_from_order_preserving (order_preserving_f32 w)) = uint w"
    unfolding f32_from_order_preserving_def sign_bit_uint
    by (simp add: uint_order_preserving uint_not32 uint_xor_sign_high)
  then show ?thesis by (simp add: word_uint_eq_iff)
qed

text \<open>
  The IEEE-754 value of a bit pattern, scaled by \<open>2^149\<close> so that it is an integer; an infinity is
  larger than every finite value.
\<close>

definition f32_magnitude :: "int \<Rightarrow> int" where
  "f32_magnitude n =
    (let e = n div 8388608; m = n mod 8388608
     in if e = 0 then m else (8388608 + m) * 2 ^ nat (e - 1))"

definition f32_value :: "u32 \<Rightarrow> int" where
  "f32_value bits =
    (if uint bits < 2 ^ 31 then f32_magnitude (uint bits)
     else - f32_magnitude (uint bits - 2 ^ 31))"

lemma f32_magnitude_less: "0 \<le> a \<Longrightarrow> a < b \<Longrightarrow> f32_magnitude a < f32_magnitude b"
proof -
  assume a: "0 \<le> a" "a < b"
  let ?ea = "a div 8388608" and ?eb = "b div 8388608"
  let ?ma = "a mod 8388608" and ?mb = "b mod 8388608"
  have e: "0 \<le> ?ea" "?ea \<le> ?eb" using a by (simp_all add: zdiv_mono1 pos_imp_zdiv_nonneg_iff)
  have m: "0 \<le> ?ma" "?ma < 8388608" "0 \<le> ?mb" by simp_all
  have ab: "a = ?ea * 8388608 + ?ma" "b = ?eb * 8388608 + ?mb" by simp_all
  show ?thesis
  proof (cases "?ea = ?eb")
    case True
    then have "?ma < ?mb" using ab a(2) by linarith
    then show ?thesis using True a(2) by (simp add: f32_magnitude_def Let_def)
  next
    case False
    then have less: "?ea < ?eb" using e by simp
    show ?thesis
    proof (cases "?ea = 0")
      case True
      have "(8388608 :: int) * 1 \<le> (8388608 + ?mb) * 2 ^ nat (?eb - 1)"
        using m by (intro mult_mono) simp_all
      then show ?thesis using True less m by (simp add: f32_magnitude_def Let_def)
    next
      case False
      then have "nat (?eb - 1) = nat (?ea - 1) + Suc (nat (?eb - ?ea - 1))"
        using less e(1) False by (subst nat_eq_iff) auto
      then have p: "(2 :: int) ^ nat (?eb - 1) = 2 ^ nat (?ea - 1) * (2 * 2 ^ nat (?eb - ?ea - 1))"
        by (simp add: power_add)
      have "(8388608 + ?ma) * 2 ^ nat (?ea - 1) < 16777216 * 2 ^ nat (?ea - 1)"
        using m by (intro mult_strict_right_mono) simp_all
      also have "\<dots> \<le> (8388608 + ?mb) * 2 ^ nat (?eb - 1)"
      proof -
        have "(8388608 :: int) * (2 ^ nat (?ea - 1) * (2 * 1))
            \<le> (8388608 + ?mb) * (2 ^ nat (?ea - 1) * (2 * 2 ^ nat (?eb - ?ea - 1)))"
          using m by (intro mult_mono) simp_all
        then show ?thesis by (simp add: p)
      qed
      finally show ?thesis using False less e by (simp add: f32_magnitude_def Let_def)
    qed
  qed
qed

lemma f32_magnitude_0 [simp]: "f32_magnitude 0 = 0"
  by (simp add: f32_magnitude_def)

lemma f32_magnitude_less_iff: "0 \<le> a \<Longrightarrow> 0 \<le> b \<Longrightarrow> f32_magnitude a < f32_magnitude b \<longleftrightarrow> a < b"
  by (metis f32_magnitude_less linorder_less_linear order_less_asym order_less_irrefl)

lemma f32_magnitude_pos: "0 \<le> a \<Longrightarrow> 0 < f32_magnitude a \<longleftrightarrow> 0 < a"
  using f32_magnitude_less_iff [of 0 a] by simp

lemma f32_magnitude_nonneg: "0 \<le> a \<Longrightarrow> 0 \<le> f32_magnitude a"
  using f32_magnitude_pos [of a] by (cases "a = 0") auto

definition f32_is_zero :: "u32 \<Rightarrow> bool" where
  "f32_is_zero bits \<longleftrightarrow> bits = 0 \<or> bits = 0x80000000"

lemma f32_is_zero_uint: "f32_is_zero w \<longleftrightarrow> uint w = 0 \<or> uint w = 2 ^ 31"
  by (simp add: f32_is_zero_def word_uint_eq_iff)

lemma f32_order_iff:
  "order_preserving_f32 a < order_preserving_f32 b \<longleftrightarrow>
     f32_value a < f32_value b \<or> a = 0x80000000 \<and> b = 0"
proof -
  let ?a = "uint a" and ?b = "uint b"
  have r: "0 \<le> ?a" "?a < 2 ^ 32" "0 \<le> ?b" "?b < 2 ^ 32"
    using unsigned_less [of a, where ?'a = int] unsigned_less [of b, where ?'a = int] by simp_all
  have z: "a = 0x80000000 \<and> b = 0 \<longleftrightarrow> ?a = 2 ^ 31 \<and> ?b = 0"
    by (simp add: word_uint_eq_iff)
  have n: "0 \<le> f32_magnitude x" "0 < f32_magnitude x \<longleftrightarrow> 0 < x" if "0 \<le> x" for x
    using that by (simp_all add: f32_magnitude_nonneg f32_magnitude_pos)
  show ?thesis
    unfolding word_less_def uint_order_preserving z
  proof (cases "?a < 2 ^ 31"; cases "?b < 2 ^ 31")
    assume s: "?a < 2 ^ 31" "?b < 2 ^ 31"
    then show "(if ?a < 2 ^ 31 then ?a + 2 ^ 31 else 2 ^ 32 - 1 - ?a)
        < (if ?b < 2 ^ 31 then ?b + 2 ^ 31 else 2 ^ 32 - 1 - ?b)
      \<longleftrightarrow> f32_value a < f32_value b \<or> ?a = 2 ^ 31 \<and> ?b = 0"
      using r by (simp add: f32_value_def f32_magnitude_less_iff)
  next
    assume s: "?a < 2 ^ 31" "\<not> ?b < 2 ^ 31"
    then have "f32_value b \<le> 0" "0 \<le> f32_value a"
      using n(1) [of ?a] n(1) [of "?b - 2 ^ 31"] r by (simp_all add: f32_value_def)
    moreover have "\<not> ?a + 2147483648 < 4294967295 - ?b"
      using s(2) [simplified] uint_ge_0 [of a] by linarith
    ultimately show "(if ?a < 2 ^ 31 then ?a + 2 ^ 31 else 2 ^ 32 - 1 - ?a)
        < (if ?b < 2 ^ 31 then ?b + 2 ^ 31 else 2 ^ 32 - 1 - ?b)
      \<longleftrightarrow> f32_value a < f32_value b \<or> ?a = 2 ^ 31 \<and> ?b = 0"
      using s by simp
  next
    assume s: "\<not> ?a < 2 ^ 31" "?b < 2 ^ 31"
    have "0 < ?b \<or> 2147483648 < ?a \<or> ?a = 2147483648 \<and> ?b = 0"
      using s(1) [simplified] uint_ge_0 [of b] by linarith
    then have "f32_value a < f32_value b \<or> ?a = 2 ^ 31 \<and> ?b = 0"
      using s n [of ?b] n [of "?a - 2 ^ 31"] by (elim disjE) (simp_all add: f32_value_def)
    moreover have "4294967295 - ?a < ?b + 2147483648"
      using s(1) [simplified] uint_ge_0 [of b] by linarith
    ultimately show "(if ?a < 2 ^ 31 then ?a + 2 ^ 31 else 2 ^ 32 - 1 - ?a)
        < (if ?b < 2 ^ 31 then ?b + 2 ^ 31 else 2 ^ 32 - 1 - ?b)
      \<longleftrightarrow> f32_value a < f32_value b \<or> ?a = 2 ^ 31 \<and> ?b = 0"
      using s by simp
  next
    assume s: "\<not> ?a < 2 ^ 31" "\<not> ?b < 2 ^ 31"
    then show "(if ?a < 2 ^ 31 then ?a + 2 ^ 31 else 2 ^ 32 - 1 - ?a)
        < (if ?b < 2 ^ 31 then ?b + 2 ^ 31 else 2 ^ 32 - 1 - ?b)
      \<longleftrightarrow> f32_value a < f32_value b \<or> ?a = 2 ^ 31 \<and> ?b = 0"
      using r by (simp add: f32_value_def f32_magnitude_less_iff)
  qed
qed

lemma ucast_order_unat: "unat (ucast (w :: u32) :: u64) = unat w"
  using unsigned_less [of w, where ?'a = nat]
  by (simp add: unsigned_ucast_eq take_bit_nat_eq_self_iff)

lemma ucast_low32: "ucast (ucast (w :: u32) AND (0xFFFFFFFF :: u64)) = w"
proof -
  have "(0xFFFFFFFF :: u64) = mask 32" by (simp add: mask_eq_exp_minus_1)
  then have "ucast w AND (0xFFFFFFFF :: u64) = take_bit 32 (ucast w)"
    by (simp only: take_bit_eq_mask)
  then show ?thesis by (simp only:) (rule bit_word_eqI, simp add: bit_simps)
qed

lemma encode_float_Some:
  assumes "encode_float X s = Some r"
  obtains bits i where "float_parse X s = Some bits" "float_show X bits = s" "\<not> f32_is_nan bits"
    "r = Inr i" "id_tag i = TagFloat" "id_payload i = ucast (order_preserving_f32 bits)"
proof -
  obtain bits where b: "float_parse X s = Some bits" "float_show X bits = s" "\<not> f32_is_nan bits"
    "r = new_id TagFloat (ucast (order_preserving_f32 bits))"
    using assms by (auto simp: encode_float_def split: option.splits if_splits)
  have "unat (ucast (order_preserving_f32 bits) :: u64) < 2 ^ 60"
    using unsigned_less [of "order_preserving_f32 bits", where ?'a = nat]
    by (simp add: ucast_order_unat)
  then obtain i where i: "new_id TagFloat (ucast (order_preserving_f32 bits)) = Inr i"
    using new_id_ok by blast
  show thesis using b i new_id_tag [OF i] new_id_payload [OF i] by (intro that) simp_all
qed

lemma decode_encode_float:
  assumes "encode_float X s = Some r"
  obtains i where "r = Inr i" "id_tag i = TagFloat"
    "decode_float X (id_payload i) = TypedLit s xsd_float"
  using assms
proof (rule encode_float_Some)
  fix bits i
  assume a: "float_show X bits = s" "r = Inr i" "id_tag i = TagFloat"
    "id_payload i = ucast (order_preserving_f32 bits)"
  have "decode_float X (id_payload i) = TypedLit s xsd_float"
    unfolding a(4) decode_float_def ucast_low32 f32_order_inverse a(1) by simp
  with a(2,3) show thesis by (rule that)
qed

section \<open>Short strings: exact, ordered\<close>

lemma or_eq_add:
  fixes a b :: u64
  assumes "unat a mod 2 ^ n = 0" "unat b < 2 ^ n" "unat a + unat b < 2 ^ 64"
  shows "unat (a OR b) = unat a + unat b"
proof -
  have a: "take_bit n a = 0"
    by (metis assms(1) take_bit_eq_mod unsigned_0 unsigned_take_bit_eq word_unat_eq_iff)
  have b: "take_bit n b = b"
    by (metis assms(2) take_bit_nat_eq_self_iff unsigned_take_bit_eq word_unat_eq_iff)
  have "a AND b = 0"
  proof (rule bit_eqI)
    fix k
    show "bit (a AND b) k = bit 0 k"
      using arg_cong [OF a, of "\<lambda>x. bit x k"] arg_cong [OF b, of "\<lambda>x. bit x k"]
      by (auto simp: bit_take_bit_iff bit_and_iff)
  qed
  then have "a OR b = a + b" by (simp add: disjunctive_add_eq_or)
  then show ?thesis using assms(3) by (simp add: unat_word_ariths)
qed

lemma unat_push_bit_small:
  "unat (w :: u64) * 2 ^ n < 2 ^ 64 \<Longrightarrow> unat (push_bit n w) = unat w * 2 ^ n"
  by (subst unsigned_push_bit_eq) (simp add: push_bit_eq_mult take_bit_nat_eq_self_iff)

lemma pack_bytes_snoc:
  "pack_bytes (bs @ [b]) = pack_bytes bs OR push_bit (8 * (5 - length bs)) (ucast b)"
  by (simp add: pack_bytes_def MAX_INLINE_STR_def enumerate_append_eq)

lemma unat_pack_bytes: "length bs \<le> 6 \<Longrightarrow> unat (pack_bytes bs) = be_val bs * 256 ^ (6 - length bs)"
proof (induction bs rule: rev_induct)
  case Nil
  then show ?case by (simp add: pack_bytes_def)
next
  case (snoc b bs)
  let ?k = "5 - length bs"
  have k: "6 - length bs = Suc ?k" using snoc.prems by simp
  have p: "(256 :: nat) ^ ?k = 2 ^ (8 * ?k)" by (simp add: power_mult)
  have bnd: "be_val bs * 256 ^ Suc ?k + unat b * 256 ^ ?k < 256 ^ 6"
  proof -
    have "be_val (bs @ [b]) + 1 \<le> 256 ^ length (bs @ [b])" using be_val_bound [of "bs @ [b]"] by simp
    then have le: "(be_val (bs @ [b]) + 1) * 256 ^ ?k \<le> 256 ^ length (bs @ [b]) * 256 ^ ?k"
      by (rule mult_le_mono1)
    have "be_val bs * 256 ^ Suc ?k + unat b * 256 ^ ?k < (be_val (bs @ [b]) + 1) * 256 ^ ?k"
      by (simp add: algebra_simps)
    also note le
    also have "256 ^ length (bs @ [b]) * 256 ^ ?k = (256 :: nat) ^ 6"
      using snoc.prems by (subst power_add [symmetric]) simp
    finally show ?thesis .
  qed
  have u: "unat (ucast b :: u64) = unat b"
    using unat_byte_less [of b] order_less_trans [of "unat b" 256 "2 ^ 64"]
    by (simp add: unsigned_ucast_eq take_bit_nat_eq_self_iff)
  have ps: "unat (push_bit (8 * ?k) (ucast b :: u64)) = unat b * 256 ^ ?k"
    using bnd by (subst unat_push_bit_small) (simp_all add: u p)
  have IH: "unat (pack_bytes bs) = be_val bs * 256 ^ Suc ?k" using snoc k by simp
  have "unat (pack_bytes bs OR push_bit (8 * ?k) (ucast b))
      = be_val bs * 256 ^ Suc ?k + unat b * 256 ^ ?k"
    unfolding IH [symmetric] ps [symmetric]
  proof (rule or_eq_add)
    show "unat (pack_bytes bs) mod 2 ^ (8 * Suc ?k) = 0"
      unfolding IH by (simp only: power_mult) simp
    have "unat b * 256 ^ ?k < 256 * 256 ^ ?k" using unat_byte_less [of b] by simp
    then show "unat (push_bit (8 * ?k) (ucast b :: u64)) < 2 ^ (8 * Suc ?k)"
      unfolding ps by (simp only: power_mult) simp
    show "unat (pack_bytes bs) + unat (push_bit (8 * ?k) (ucast b :: u64)) < 2 ^ 64"
      unfolding IH ps using bnd by simp
  qed
  then show ?case by (simp add: pack_bytes_snoc algebra_simps)
qed

lemma pack_bound: "length bs \<le> 6 \<Longrightarrow> unat (pack_bytes bs) < 256 ^ 6"
proof -
  assume l: "length bs \<le> 6"
  have "be_val bs * 256 ^ (6 - length bs) < 256 ^ length bs * 256 ^ (6 - length bs)"
    using be_val_bound [of bs] by simp
  also have "\<dots> = (256 :: nat) ^ 6" using l by (subst power_add [symmetric]) simp
  finally show ?thesis using l by (simp only: unat_pack_bytes)
qed

lemma unat_small_payload:
  assumes "length bs \<le> 6"
  shows "unat (small_payload bs) = unat (pack_bytes bs) * 4096 + length bs * 16 + 1"
proof -
  let ?P = "push_bit 12 (pack_bytes bs)" and ?L = "push_bit 4 (word_of_nat (length bs) :: u64)"
  have pb: "unat (pack_bytes bs) < 281474976710656" using pack_bound [OF assms] by simp
  have P: "unat ?P = unat (pack_bytes bs) * 4096"
    using pb by (subst unat_push_bit_small) simp_all
  have "unat (word_of_nat (length bs) :: u64) = length bs"
    using assms by (simp add: unsigned_of_nat take_bit_nat_eq_self_iff)
  then have L: "unat ?L = length bs * 16"
    using assms by (subst unat_push_bit_small) simp_all
  have L1: "unat (?L OR 1) = unat ?L + unat (1 :: u64)"
    using assms L by (intro or_eq_add [where n = 4]) simp_all
  have "unat (?P OR (?L OR 1)) = unat ?P + unat (?L OR 1)"
    using pb assms P L L1 by (intro or_eq_add [where n = 12]) simp_all
  then show ?thesis
    using P L L1
    by (simp add: small_payload_def SMALL_BYTES_SHIFT_def SMALL_LEN_SHIFT_def SMALL_KIND_STR_def
        or.assoc)
qed

lemma unpack_pack:
  assumes "length bs \<le> 6"
  shows "unpack_bytes (pack_bytes bs) (length bs) = bs"
proof -
  let ?N = "unat (pack_bytes bs)"
  let ?D = "map (\<lambda>i. word_of_nat (?N div 256 ^ (6 - Suc i)) :: byte) [0..<6]"
  have "be_val ?D = ?N mod 256 ^ 6" by (rule be_val_digits)
  also have "\<dots> = ?N" using pack_bound [OF assms] by simp
  also have "\<dots> = be_val (bs @ replicate (6 - length bs) 0)"
  proof -
    have "be_val (replicate k 0) = 0" for k
      by (induction k) (simp_all add: be_val_Cons)
    then show ?thesis using assms by (simp add: unat_pack_bytes be_val_append)
  qed
  finally have D: "?D = bs @ replicate (6 - length bs) 0"
    using assms by (subst (asm) be_val_inject) simp_all
  have byte: "ucast (drop_bit (8 * k) (w :: u64) AND 0xFF) = (word_of_nat (unat w div 256 ^ k) :: byte)" for w k
  proof -
    have "(0xFF :: u64) = mask 8" by (simp add: mask_eq_exp_minus_1)
    then have "(ucast (drop_bit (8 * k) w AND 0xFF) :: byte) = ucast (take_bit 8 (drop_bit (8 * k) w))"
      by (simp only: take_bit_eq_mask)
    also have "\<dots> = ucast (drop_bit (8 * k) w)"
      by (rule bit_word_eqI) (auto simp: bit_simps)
    finally show ?thesis by (simp only: ucast_drop_bit_byte)
  qed
  have "unpack_bytes (pack_bytes bs) (length bs) = take (length bs) ?D"
    using assms
    by (intro nth_equalityI) (simp_all only: unpack_bytes_def byte MAX_INLINE_STR_def, simp_all)
  then show ?thesis by (simp only: D) simp
qed

lemma unat_and_mask: "unat (w AND mask n) = unat (w :: u64) mod 2 ^ n"
  by (metis take_bit_eq_mask take_bit_eq_mod unsigned_take_bit_eq)

lemma small_payload_fields:
  assumes "length bs \<le> 6"
  shows "small_payload bs AND SMALL_KIND_MASK = SMALL_KIND_STR"
    "unat (drop_bit SMALL_LEN_SHIFT (small_payload bs) AND SMALL_LEN_MASK) = length bs"
    "drop_bit SMALL_BYTES_SHIFT (small_payload bs) = pack_bytes bs"
proof -
  note u = unat_small_payload [OF assms]
  have m: "SMALL_KIND_MASK = mask 4" "SMALL_LEN_MASK = mask 8"
    by (simp_all add: SMALL_KIND_MASK_def SMALL_LEN_MASK_def mask_eq_exp_minus_1)
  have d: "unat (drop_bit n w) = unat w div 2 ^ n" for n and w :: u64
    by (subst unat_drop_bit_eq) (simp add: drop_bit_eq_div)
  have "unat (small_payload bs AND SMALL_KIND_MASK) = 1"
    unfolding m unat_and_mask u by (simp add: mod_add_left_eq [symmetric] mod_mult_left_eq) presburger
  then show "small_payload bs AND SMALL_KIND_MASK = SMALL_KIND_STR"
    by (simp add: SMALL_KIND_STR_def word_unat_eq_iff)
  have "(unat (pack_bytes bs) * 4096 + length bs * 16 + 1) div 16
      = unat (pack_bytes bs) * 256 + length bs"
    by simp
  then show "unat (drop_bit SMALL_LEN_SHIFT (small_payload bs) AND SMALL_LEN_MASK) = length bs"
    using assms by (simp only: m unat_and_mask d u SMALL_LEN_SHIFT_def) simp
  have "unat (drop_bit SMALL_BYTES_SHIFT (small_payload bs)) = unat (pack_bytes bs)"
    using assms by (simp only: d u SMALL_BYTES_SHIFT_def) simp
  then show "drop_bit SMALL_BYTES_SHIFT (small_payload bs) = pack_bytes bs"
    by (simp add: word_unat_eq_iff)
qed

lemma small_payload_bound: "length bs \<le> 6 \<Longrightarrow> unat (small_payload bs) < 2 ^ 60"
  using pack_bound [of bs] by (simp add: unat_small_payload)

lemma encode_small_string_Some:
  assumes "encode_small_string s = Some r"
  obtains i where "r = Inr i" "length s \<le> 6" "id_tag i = TagSmall"
    "id_payload i = small_payload (as_bytes s)"
proof -
  have l: "length s \<le> 6" and r: "r = new_id TagSmall (small_payload (as_bytes s))"
    using assms by (auto simp: encode_small_string_def Let_def MAX_INLINE_STR_def split: if_splits)
  obtain i where i: "new_id TagSmall (small_payload (as_bytes s)) = Inr i"
    using new_id_ok small_payload_bound [of "as_bytes s"] l by force
  show thesis using l r i new_id_tag [OF i] new_id_payload [OF i] by (intro that) simp_all
qed

lemma decode_encode_small_string:
  assumes "encode_small_string s = Some r" "is_str s"
  obtains i where "r = Inr i" "id_tag i = TagSmall"
    "decode_small (id_payload i) = Some (SimpleLit s)"
  using assms(1)
proof (rule encode_small_string_Some)
  fix i
  assume a: "r = Inr i" "length s \<le> 6" "id_tag i = TagSmall"
    "id_payload i = small_payload (as_bytes s)"
  have l: "length (as_bytes s) \<le> 6" using a(2) by simp
  have "SMALL_KIND_STR \<noteq> SMALL_KIND_BOOL" by (simp add: SMALL_KIND_STR_def SMALL_KIND_BOOL_def)
  then have "decode_small (id_payload i) = Some (SimpleLit s)"
    using a(2) assms(2) unpack_pack [OF l]
    by (simp add: decode_small_def a(4) small_payload_fields [OF l] MAX_INLINE_STR_def)
  with a(1,3) show thesis by (rule that)
qed

text \<open>Padding with zero bytes and breaking ties by length is lexicographic order.\<close>

lemma replicate_0_le: "replicate n (0 :: byte) \<le> ys @ replicate (n - length ys) 0"
proof (induction ys arbitrary: n)
  case (Cons y ys)
  then show ?case by (cases n) (auto simp: word_gt_0)
qed simp

lemma lex_by_padding:
  assumes "length xs \<le> n" "length ys \<le> n"
  shows "xs < ys \<longleftrightarrow>
    xs @ replicate (n - length xs) 0 < ys @ replicate (n - length ys) (0 :: byte)
    \<or> xs @ replicate (n - length xs) 0 = ys @ replicate (n - length ys) 0 \<and> length xs < length ys"
  using assms
proof (induction xs arbitrary: ys n)
  case Nil
  then show ?case
    using replicate_0_le [of n ys] by (cases ys) (auto simp: order_le_less)
next
  case (Cons x xs)
  show ?case
  proof (cases ys)
    case Nil
    then show ?thesis using replicate_0_le [of n "x # xs"] by auto
  next
    case (Cons y ys')
    then obtain m where n: "n = Suc m" using Cons.prems(2) by (cases n) auto
    from Cons.IH [of m ys'] Cons.prems show ?thesis
      unfolding Cons n by auto
  qed
qed

lemma small_payload_less_iff:
  assumes "length xs \<le> 6" "length ys \<le> 6"
  shows "small_payload xs < small_payload ys \<longleftrightarrow> xs < ys"
proof -
  have z: "be_val (replicate k 0) = 0" for k
    by (induction k) (simp_all add: be_val_Cons)
  have u: "unat (pack_bytes bs) = be_val (bs @ replicate (6 - length bs) 0)" if "length bs \<le> 6" for bs
    using that by (simp add: unat_pack_bytes be_val_append z)
  have "small_payload xs < small_payload ys \<longleftrightarrow>
      unat (pack_bytes xs) * 4096 + (length xs * 16 + 1)
        < unat (pack_bytes ys) * 4096 + (length ys * 16 + 1)"
    using assms by (simp add: word_less_nat_alt unat_small_payload)
  also have "\<dots> \<longleftrightarrow> unat (pack_bytes xs) < unat (pack_bytes ys)
      \<or> unat (pack_bytes xs) = unat (pack_bytes ys) \<and> length xs < length ys"
    using assms by (subst less_by_high_digit) auto
  also have "\<dots> \<longleftrightarrow> xs < ys"
    unfolding lex_by_padding [OF assms] u [OF assms(1)] u [OF assms(2)]
    using assms by (simp add: be_val_less_iff be_val_inject)
  finally show ?thesis .
qed

section \<open>Booleans\<close>

lemma encode_boolean_Some:
  assumes "encode_boolean s = Some r"
  obtains i where "r = Inr i" "id_tag i = TagSmall"
    "decode_small (id_payload i) = Some (TypedLit s xsd_boolean)"
proof -
  define p where "p = (if s = ''true'' then SMALL_BOOL_BIT OR SMALL_KIND_BOOL else 0 OR SMALL_KIND_BOOL)"
  have s: "s = ''true'' \<or> s = ''false''" and r: "r = new_id TagSmall p"
    using assms by (auto simp: encode_boolean_def p_def split: if_splits)
  have "unat p < 2 ^ 60" by (simp add: p_def SMALL_BOOL_BIT_def SMALL_KIND_BOOL_def)
  then obtain i where i: "new_id TagSmall p = Inr i" using new_id_ok by blast
  have "decode_small p = Some (TypedLit s xsd_boolean)"
    using s by (auto simp: decode_small_def p_def SMALL_BOOL_BIT_def SMALL_KIND_BOOL_def
        SMALL_KIND_MASK_def)
  then have "decode_small (id_payload i) = Some (TypedLit s xsd_boolean)"
    unfolding new_id_payload [OF i] .
  moreover have "r = Inr i" using r i by simp
  ultimately show thesis using new_id_tag [OF i] by (intro that)
qed

section \<open>Instants: exact, ordered\<close>

text \<open>
  What the codec relies on from the datatype library, as the crate documents it: the components of a
  parsed \<^verbatim>\<open>xsd:dateTime\<close> are a calendar date and a time of day, and an instant in UTC with whole
  seconds and a four-digit year prints in the fixed-width canonical form.
\<close>

definition date_time_fields_ok :: "'dt xsd_lib \<Rightarrow> 'dt \<Rightarrow> bool" where
  "date_time_fields_ok X dt \<longleftrightarrow>
     valid_civil (dt_year X dt) (dt_month X dt) (dt_day X dt)
     \<and> 0 \<le> dt_hour X dt \<and> dt_hour X dt < 24 \<and> 0 \<le> dt_minute X dt \<and> dt_minute X dt < 60
     \<and> (\<forall>v. parse_i64 (dt_second X dt) = Some v \<longrightarrow> 0 \<le> v \<and> v < 60)"

definition date_time_prints_canonically :: "'dt xsd_lib \<Rightarrow> 'dt \<Rightarrow> bool" where
  "date_time_prints_canonically X dt \<longleftrightarrow>
     (\<forall>v. DT_MIN_YEAR \<le> dt_year X dt \<and> dt_year X dt \<le> DT_MAX_YEAR
        \<and> last (dt_show X dt) = CHR ''Z'' \<and> parse_i64 (dt_second X dt) = Some v \<longrightarrow>
        dt_show X dt = format_date_time (dt_year X dt) (dt_month X dt) (dt_day X dt)
          (dt_hour X dt) (dt_minute X dt) v)"

definition xsd_lib_ok :: "'dt xsd_lib \<Rightarrow> bool" where
  "xsd_lib_ok X \<longleftrightarrow>
     (\<forall>s dt. dt_parse X s = Some dt \<longrightarrow> date_time_fields_ok X dt \<and> date_time_prints_canonically X dt)"

lemma days_bounds:
  assumes "valid_civil y m d" "1 \<le> y" "y \<le> 9999"
  shows "- 1000000 < days_from_civil y m d" "days_from_civil y m d < 4000000"
proof -
  have v: "valid_civil 0 1 1" "valid_civil 10000 1 1"
    by (simp_all add: valid_civil_def days_in_month_def)
  have "days_from_civil 0 1 1 < days_from_civil y m d"
    using assms(2) by (intro days_from_civil_mono [OF v(1) assms(1)]) simp
  moreover have "days_from_civil y m d < days_from_civil 10000 1 1"
    using assms(3) by (intro days_from_civil_mono [OF assms(1) v(2)]) simp
  moreover have "days_from_civil 0 1 1 = - 719528" "days_from_civil 10000 1 1 = 2932897"
    by code_simp+
  ultimately show "- 1000000 < days_from_civil y m d" "days_from_civil y m d < 4000000"
    by linarith+
qed

lemma format_seconds_of:
  assumes "valid_civil y m d" "DT_MIN_YEAR \<le> y" "y \<le> DT_MAX_YEAR"
    and "0 \<le> h" "h < 24" "0 \<le> mi" "mi < 60" "0 \<le> s" "s < 60"
  shows "format_utc_seconds (seconds_of y m d h mi s) = Some (format_date_time y m d h mi s)"
proof -
  let ?t = "h * 3600 + mi * 60 + s"
  have t: "0 \<le> ?t" "?t < 86400" using assms(4-) by linarith+
  have e: "seconds_of y m d h mi s = ?t + days_from_civil y m d * 86400" by (simp add: seconds_of_def)
  have "seconds_of y m d h mi s div 86400 = days_from_civil y m d"
    "seconds_of y m d h mi s mod 86400 = ?t"
    using t by (simp_all add: e)
  moreover have "?t div 3600 = h" using assms(4-) by (intro int_div_pos_eq [where r = "mi * 60 + s"]) simp_all
  moreover have "?t mod 3600 = mi * 60 + s"
    using assms(4-) by (intro int_mod_pos_eq [where q = h]) simp_all
  moreover have "(mi * 60 + s) div 60 = mi" using assms(4-) by (intro int_div_pos_eq [where r = s]) simp_all
  moreover have "?t mod 60 = s" using assms(4-) by (intro int_mod_pos_eq [where q = "h * 60 + mi"]) simp_all
  ultimately show ?thesis
    using assms t by (simp add: format_utc_seconds_def Let_def civil_of_days_of_civil)
qed

lemma seconds_of_range:
  assumes "valid_civil y m d" "DT_MIN_YEAR \<le> y" "y \<le> DT_MAX_YEAR"
    and "0 \<le> h" "h < 24" "0 \<le> mi" "mi < 60" "0 \<le> s" "s < 60"
  shows "0 \<le> seconds_of y m d h mi s + DT_BIAS" "seconds_of y m d h mi s + DT_BIAS < 2 ^ 60"
  using days_bounds [of y m d] assms
  by (simp_all add: seconds_of_def DT_BIAS_def DT_MIN_YEAR_def DT_MAX_YEAR_def)

lemma encode_date_time_Some:
  assumes "encode_date_time X s = Some r" "xsd_lib_ok X"
  obtains dt v i where "dt_parse X s = Some dt" "dt_show X dt = s" "parse_i64 (dt_second X dt) = Some v"
    "r = Inr i" "id_tag i = TagDateTime"
    "uint (id_payload i) = seconds_of (dt_year X dt) (dt_month X dt) (dt_day X dt)
       (dt_hour X dt) (dt_minute X dt) v + DT_BIAS"
    "decode_date_time (id_payload i) = Some (TypedLit s xsd_date_time)"
proof -
  obtain dt v where p: "dt_parse X s = Some dt" "dt_show X dt = s" "last s = CHR ''Z''"
    and y: "DT_MIN_YEAR \<le> dt_year X dt" "dt_year X dt \<le> DT_MAX_YEAR"
    and v: "parse_i64 (dt_second X dt) = Some v"
    and r: "r = new_from_int TagDateTime (seconds_of (dt_year X dt) (dt_month X dt) (dt_day X dt)
       (dt_hour X dt) (dt_minute X dt) v + DT_BIAS)"
    using assms(1) by (auto simp: encode_date_time_def split: option.splits if_splits)
  let ?secs = "seconds_of (dt_year X dt) (dt_month X dt) (dt_day X dt) (dt_hour X dt) (dt_minute X dt) v"
  have ok: "date_time_fields_ok X dt" "date_time_prints_canonically X dt"
    using assms(2) p(1) by (auto simp: xsd_lib_ok_def)
  have f: "valid_civil (dt_year X dt) (dt_month X dt) (dt_day X dt)" "0 \<le> dt_hour X dt"
    "dt_hour X dt < 24" "0 \<le> dt_minute X dt" "dt_minute X dt < 60" "0 \<le> v" "v < 60"
    using ok(1) v by (auto simp: date_time_fields_ok_def)
  note range = seconds_of_range [OF f(1) y f(2-)]
  obtain i where i: "new_from_int TagDateTime (?secs + DT_BIAS) = Inr i" "id_tag i = TagDateTime"
    "uint (id_payload i) = ?secs + DT_BIAS"
    using range by (rule new_from_int_ok) blast
  have "payload_i64 (id_payload i) = ?secs + DT_BIAS"
    using range i(3) by (subst payload_i64_small) simp_all
  then have "decode_date_time (id_payload i)
      = map_option (\<lambda>l. new_typed_literal l xsd_date_time) (format_utc_seconds ?secs)"
    by (simp add: decode_date_time_def)
  also have "format_utc_seconds ?secs = Some (format_date_time (dt_year X dt) (dt_month X dt)
      (dt_day X dt) (dt_hour X dt) (dt_minute X dt) v)"
    by (rule format_seconds_of [OF f(1) y f(2-)])
  also have "format_date_time (dt_year X dt) (dt_month X dt) (dt_day X dt) (dt_hour X dt)
      (dt_minute X dt) v = s"
    using ok(2) y v p by (simp add: date_time_prints_canonically_def)
  finally have "decode_date_time (id_payload i) = Some (TypedLit s xsd_date_time)" by simp
  then show thesis using p v r i by (intro that) simp_all
qed

lemma seconds_of_mono:
  assumes "valid_civil y m d" "0 \<le> h" "h < 24" "0 \<le> mi" "mi < 60" "0 \<le> s" "s < 60"
    and "valid_civil y' m' d'" "0 \<le> h'" "h' < 24" "0 \<le> mi'" "mi' < 60" "0 \<le> s'" "s' < 60"
    and "(y, m, d, h, mi, s) < (y', m', d', h', mi', s')"
  shows "seconds_of y m d h mi s < seconds_of y' m' d' h' mi' s'"
proof -
  have "(y, m, d) < (y', m', d') \<or> (y, m, d) = (y', m', d') \<and> (h, mi, s) < (h', mi', s')"
    using assms(15) by auto
  then show ?thesis
  proof
    assume "(y, m, d) < (y', m', d')"
    then have "days_from_civil y m d + 1 \<le> days_from_civil y' m' d'"
      using days_from_civil_mono [OF assms(1,8)] by simp
    then show ?thesis using assms unfolding seconds_of_def by linarith
  qed (use assms in \<open>auto simp: seconds_of_def\<close>)
qed

section \<open>The codec as a whole\<close>

lemma encode_literal_simps:
  "encode_literal X (SimpleLit v) = encode_small_string v"
  "encode_literal X (LangLit v l) = None"
  "encode_literal X (DirLangLit v l d) = None"
  by (simp_all add: encode_literal_def)

lemma encode_typed_cases:
  assumes "encode_literal X (TypedLit v dt) = Some r" "dt \<noteq> xsd_string"
  obtains (int) "dt = xsd_integer" "encode_integer v = Some r"
    | (bool) "dt = xsd_boolean" "encode_boolean v = Some r"
    | (float) "dt = xsd_float" "encode_float X v = Some r"
    | (dateTime) "dt = xsd_date_time" "encode_date_time X v = Some r"
  using assms by (auto simp: encode_literal_def Let_def split: if_splits)

lemma inline_exact:
  assumes "xsd_lib_ok X" "wf_literal l" "encode_literal X l = Some r"
  obtains i where "r = Inr i" "decode_inline X i = Some (Literal l)"
    "id_tag i \<in> {TagInteger, TagFloat, TagDateTime, TagSmall}"
proof (cases l)
  case (SimpleLit v)
  with assms have "encode_small_string v = Some r" "is_str v"
    by (simp_all add: encode_literal_simps)
  then show thesis
    by (rule decode_encode_small_string) (use SimpleLit in \<open>auto simp: decode_inline_def intro: that\<close>)
next
  case (TypedLit v dt)
  with assms have e: "encode_literal X (TypedLit v dt) = Some r" and dt: "dt \<noteq> xsd_string" by auto
  from e dt show thesis
  proof (cases rule: encode_typed_cases)
    case int
    from int(2) show thesis
      by (rule decode_encode_integer) (use TypedLit int in \<open>auto simp: decode_inline_def intro: that\<close>)
  next
    case bool
    from bool(2) show thesis
      by (rule encode_boolean_Some) (use TypedLit bool in \<open>auto simp: decode_inline_def intro: that\<close>)
  next
    case float
    from float(2) show thesis
      by (rule decode_encode_float) (use TypedLit float in \<open>auto simp: decode_inline_def intro: that\<close>)
  next
    case dateTime
    from dateTime(2) assms(1) show thesis
      by (rule encode_date_time_Some)
         (use TypedLit dateTime in \<open>auto simp: decode_inline_def intro: that\<close>)
  qed
qed (use assms in \<open>simp_all add: encode_literal_simps\<close>)

text \<open>
  C5. Inlining loses nothing: every well-formed literal the codec accepts gets an identifier (no
  panic), and decoding that identifier gives back the identical literal, lexical form included.
\<close>

theorem inline_round_trip:
  assumes "xsd_lib_ok X" "wf_literal l" "encode_literal X l = Some r"
  shows "\<exists>i. r = Inr i \<and> decode_inline X i = Some (Literal l)"
  using assms by (rule inline_exact) blast

text \<open>An instance of the library parameter with two known instants, for evaluating the codec.\<close>

definition demo_lib :: "bool xsd_lib" where
  "demo_lib =
    \<lparr>float_parse = (\<lambda>s. if s = ''1.5'' then Some 0x3FC00000
                   else if s = ''0'' then Some 0 else if s = ''-0'' then Some 0x80000000 else None),
     float_show = (\<lambda>b. if b = 0x3FC00000 then ''1.5'' else if b = 0 then ''0''
                   else if b = 0x80000000 then ''-0'' else ''NaN''),
     dt_parse = (\<lambda>s. if s = ''2024-02-29T12:00:07Z'' then Some True
                     else if s = ''1970-01-01T00:00:00Z'' then Some False else None),
     dt_show = (\<lambda>b. if b then ''2024-02-29T12:00:07Z'' else ''1970-01-01T00:00:00Z''),
     dt_year = (\<lambda>b. if b then 2024 else 1970), dt_month = (\<lambda>b. if b then 2 else 1),
     dt_day = (\<lambda>b. if b then 29 else 1), dt_hour = (\<lambda>b. if b then 12 else 0),
     dt_minute = (\<lambda>_. 0), dt_second = (\<lambda>b. if b then ''7'' else ''0'')\<rparr>"

lemma demo_lib_ok: "xsd_lib_ok demo_lib"
proof -
  have "parse_i64 ''7'' = Some 7" "parse_i64 ''0'' = Some 0" by code_simp+
  moreover have "format_date_time 2024 2 29 12 0 7 = ''2024-02-29T12:00:07Z''"
    "format_date_time 1970 1 1 0 0 0 = ''1970-01-01T00:00:00Z''"
    by code_simp+
  moreover have "valid_civil 2024 2 29" "valid_civil 1970 1 1" by code_simp+
  ultimately show ?thesis
    by (simp add: xsd_lib_ok_def date_time_fields_ok_def date_time_prints_canonically_def demo_lib_def)
qed

theorem inline_round_trip_witness:
  "\<exists>i. encode_literal demo_lib (TypedLit ''2024-02-29T12:00:07Z'' xsd_date_time) = Some (Inr i)
     \<and> decode_inline demo_lib i = Some (Literal (TypedLit ''2024-02-29T12:00:07Z'' xsd_date_time))"
proof -
  let ?l = "TypedLit ''2024-02-29T12:00:07Z'' xsd_date_time"
  have w: "wf_literal ?l" by code_simp
  obtain r where r: "encode_literal demo_lib ?l = Some r"
  proof -
    have "encode_literal demo_lib ?l \<noteq> None" by code_simp
    then show thesis using that by blast
  qed
  from inline_round_trip [OF demo_lib_ok w r] r show ?thesis by auto
qed

lemma inline_inject:
  assumes "xsd_lib_ok X" "wf_literal l" "wf_literal l'"
    and "encode_literal X l = Some (Inr i)" "encode_literal X l' = Some (Inr i)"
  shows "l = l'"
proof -
  have "decode_inline X i = Some (Literal l)"
    by (rule inline_exact [OF assms(1,2,4)]) simp
  moreover have "decode_inline X i = Some (Literal l')"
    by (rule inline_exact [OF assms(1,3,5)]) simp
  ultimately show ?thesis by simp
qed

text \<open>
  Inline integers sort as their values: for two lexical forms the codec accepts, the order of
  the identifiers is the order of the numbers they denote.
\<close>

lemma inline_integer_order:
  assumes "encode_integer s = Some (Inr i)" "encode_integer t = Some (Inr j)"
  shows "\<exists>v w. parse_i64 s = Some v \<and> parse_i64 t = Some w \<and> (i < j \<longleftrightarrow> v < w)"
  using assms(1)
proof (rule encode_integer_Some)
  fix v i'
  assume v: "parse_i64 s = Some v" "Inr i = (Inr i' :: term_id res)" "id_tag i' = TagInteger"
    "uint (id_payload i') = v + INT_BIAS"
  from assms(2) show ?thesis
  proof (rule encode_integer_Some)
    fix w j'
    assume w: "parse_i64 t = Some w" "Inr j = (Inr j' :: term_id res)" "id_tag j' = TagInteger"
      "uint (id_payload j') = w + INT_BIAS"
    then have "i < j \<longleftrightarrow> id_payload i < id_payload j"
      using v by (simp add: same_tag_less_iff)
    also have "\<dots> \<longleftrightarrow> v < w" using v w by (simp add: word_less_def)
    finally show ?thesis using v(1) w(1) by blast
  qed
qed

text \<open>
  Inline floats sort as their IEEE-754 values: the order of two identifiers is the order of the
  numbers, and the one pair of distinct identifiers with equal value is minus zero below plus zero.
\<close>

lemma inline_float_order:
  assumes "encode_float X s = Some (Inr i)" "encode_float X t = Some (Inr j)"
  shows "\<exists>a b. float_parse X s = Some a \<and> float_parse X t = Some b
    \<and> (i < j \<longleftrightarrow> f32_value a < f32_value b \<or> a = 0x80000000 \<and> b = 0)"
  using assms(1)
proof (rule encode_float_Some)
  fix a i'
  assume a: "float_parse X s = Some a" "Inr i = (Inr i' :: term_id res)" "id_tag i' = TagFloat"
    "id_payload i' = ucast (order_preserving_f32 a)"
  from assms(2) show ?thesis
  proof (rule encode_float_Some)
    fix b j'
    assume b: "float_parse X t = Some b" "Inr j = (Inr j' :: term_id res)" "id_tag j' = TagFloat"
      "id_payload j' = ucast (order_preserving_f32 b)"
    then have "i < j \<longleftrightarrow> id_payload i < id_payload j"
      using a by (simp add: same_tag_less_iff)
    also have "\<dots> \<longleftrightarrow> order_preserving_f32 a < order_preserving_f32 b"
      using a b by (simp add: word_less_nat_alt ucast_order_unat)
    also note f32_order_iff
    finally show ?thesis using a(1) b(1) by blast
  qed
qed

text \<open>
  Inline strings sort lexicographically by their UTF-8 bytes, embedded zero bytes and proper
  prefixes included.
\<close>

lemma inline_string_order:
  assumes "encode_small_string s = Some (Inr i)" "encode_small_string t = Some (Inr j)"
  shows "i < j \<longleftrightarrow> as_bytes s < as_bytes t"
  using assms(1)
proof (rule encode_small_string_Some)
  fix i'
  assume i: "Inr i = (Inr i' :: term_id res)" "length s \<le> 6" "id_tag i' = TagSmall"
    "id_payload i' = small_payload (as_bytes s)"
  from assms(2) show ?thesis
  proof (rule encode_small_string_Some)
    fix j'
    assume "Inr j = (Inr j' :: term_id res)" "length t \<le> 6" "id_tag j' = TagSmall"
      "id_payload j' = small_payload (as_bytes t)"
    with i show ?thesis by (simp add: same_tag_less_iff small_payload_less_iff)
  qed
qed

lemma seconds_of_less_iff:
  assumes "valid_civil y m d" "0 \<le> h" "h < 24" "0 \<le> mi" "mi < 60" "0 \<le> s" "s < 60"
    and "valid_civil y' m' d'" "0 \<le> h'" "h' < 24" "0 \<le> mi'" "mi' < 60" "0 \<le> s'" "s' < 60"
  shows "seconds_of y m d h mi s < seconds_of y' m' d' h' mi' s'
    \<longleftrightarrow> (y, m, d, h, mi, s) < (y', m', d', h', mi', s')"
  using seconds_of_mono [OF assms] seconds_of_mono [OF assms(8-14) assms(1-7)]
  by (cases "(y, m, d, h, mi, s)" "(y', m', d', h', mi', s')" rule: linorder_cases) fastforce+

text \<open>
  Inline instants sort chronologically: identifier order is the lexicographic order of year,
  month, day, hour, minute and second.
\<close>

lemma inline_date_time_order:
  assumes "xsd_lib_ok X" "encode_date_time X s = Some (Inr i)" "encode_date_time X t = Some (Inr j)"
  shows "\<exists>a b v w. dt_parse X s = Some a \<and> dt_parse X t = Some b
    \<and> parse_i64 (dt_second X a) = Some v \<and> parse_i64 (dt_second X b) = Some w
    \<and> (i < j \<longleftrightarrow> (dt_year X a, dt_month X a, dt_day X a, dt_hour X a, dt_minute X a, v)
               < (dt_year X b, dt_month X b, dt_day X b, dt_hour X b, dt_minute X b, w))"
  using assms(2,1)
proof (rule encode_date_time_Some)
  fix a v i'
  assume a: "dt_parse X s = Some a" "parse_i64 (dt_second X a) = Some v"
    "Inr i = (Inr i' :: term_id res)" "id_tag i' = TagDateTime"
    "uint (id_payload i') = seconds_of (dt_year X a) (dt_month X a) (dt_day X a)
       (dt_hour X a) (dt_minute X a) v + DT_BIAS"
  from assms(3,1) show ?thesis
  proof (rule encode_date_time_Some)
    fix b w j'
    assume b: "dt_parse X t = Some b" "parse_i64 (dt_second X b) = Some w"
      "Inr j = (Inr j' :: term_id res)" "id_tag j' = TagDateTime"
      "uint (id_payload j') = seconds_of (dt_year X b) (dt_month X b) (dt_day X b)
         (dt_hour X b) (dt_minute X b) w + DT_BIAS"
    have "date_time_fields_ok X a" "date_time_fields_ok X b"
      using assms(1) a(1) b(1) by (auto simp: xsd_lib_ok_def)
    note f = this [unfolded date_time_fields_ok_def]
    have "i < j \<longleftrightarrow> uint (id_payload i) < uint (id_payload j)"
      using a(3,4) b(3,4) by (simp add: same_tag_less_iff word_less_def)
    also have "\<dots> \<longleftrightarrow> seconds_of (dt_year X a) (dt_month X a) (dt_day X a) (dt_hour X a) (dt_minute X a) v
        < seconds_of (dt_year X b) (dt_month X b) (dt_day X b) (dt_hour X b) (dt_minute X b) w"
      using a(3,5) b(3,5) by simp
    also have "\<dots> \<longleftrightarrow> (dt_year X a, dt_month X a, dt_day X a, dt_hour X a, dt_minute X a, v)
        < (dt_year X b, dt_month X b, dt_day X b, dt_hour X b, dt_minute X b, w)"
      by (rule seconds_of_less_iff) (use f a(2) b(2) in blast)+
    finally show ?thesis using a(1,2) b(1,2) by blast
  qed
qed

end
