(* ===== verification/Vocab.thy ===== *)
theory Vocab
  imports Term_Id Rdf_Terms
begin

text \<open>
  The well-known vocabulary of \<^verbatim>\<open>holos-core/src/vocab.rs\<close>: the table of 248 IRIs in source order, one
  definition per commented section of the table, and the two lookups. The table has no duplicate, so
  an IRI and its identifier determine each other.
\<close>

section \<open>The table\<close>

definition rdf_ns :: string where "rdf_ns = ''http://www.w3.org/1999/02/22-rdf-syntax-ns#''"

definition rdfs_ns :: string where "rdfs_ns = ''http://www.w3.org/2000/01/rdf-schema#''"

definition owl_ns :: string where "owl_ns = ''http://www.w3.org/2002/07/owl#''"

definition sh_ns :: string where "sh_ns = ''http://www.w3.org/ns/shacl#''"

definition prov_ns :: string where "prov_ns = ''http://www.w3.org/ns/prov#''"

definition vocab_rdf :: "string list" where
  "vocab_rdf = map ((@) rdf_ns)
   [
    ''type'', ''first'', ''rest'', ''nil'', ''value'', ''langString'', ''dirLangString'',
    ''HTML'', ''XMLLiteral'', ''JSON'', ''reifies'', ''subject'', ''predicate'', ''object'',
    ''Statement'', ''Property'', ''List'', ''Bag'', ''Seq'', ''Alt'']"

definition vocab_rdfs :: "string list" where
  "vocab_rdfs = map ((@) rdfs_ns)
   [
    ''label'', ''comment'', ''subClassOf'', ''subPropertyOf'', ''domain'', ''range'', ''Class'',
    ''Resource'', ''Literal'', ''Datatype'', ''Container'', ''seeAlso'', ''isDefinedBy'',
    ''member'']"

definition vocab_owl :: "string list" where
  "vocab_owl = map ((@) owl_ns)
   [
    ''Class'', ''ObjectProperty'', ''DatatypeProperty'', ''AnnotationProperty'', ''Ontology'',
    ''Thing'', ''Nothing'', ''sameAs'', ''differentFrom'', ''imports'', ''inverseOf'',
    ''equivalentClass'', ''equivalentProperty'', ''disjointWith'', ''TransitiveProperty'',
    ''SymmetricProperty'', ''FunctionalProperty'', ''InverseFunctionalProperty'']"

definition vocab_xsd :: "string list" where
  "vocab_xsd = map ((@) xsd_ns)
   [
    ''string'', ''boolean'', ''decimal'', ''integer'', ''double'', ''float'', ''date'',
    ''dateTime'', ''dateTimeStamp'', ''time'', ''duration'', ''dayTimeDuration'',
    ''yearMonthDuration'', ''anyURI'', ''long'', ''int'', ''short'', ''byte'',
    ''nonNegativeInteger'', ''positiveInteger'', ''nonPositiveInteger'', ''negativeInteger'',
    ''unsignedLong'', ''unsignedInt'', ''unsignedShort'', ''unsignedByte'', ''gYear'',
    ''gMonth'', ''gDay'', ''gYearMonth'', ''gMonthDay'', ''base64Binary'', ''hexBinary'',
    ''normalizedString'', ''token'', ''language'', ''Name'', ''NCName'', ''NMTOKEN'']"

definition vocab_sh :: "string list" where
  "vocab_sh = map ((@) sh_ns)
   [
    ''NodeShape'', ''PropertyShape'', ''property'', ''path'', ''targetClass'', ''targetNode'',
    ''targetSubjectsOf'', ''targetObjectsOf'', ''datatype'', ''nodeKind'', ''minCount'',
    ''maxCount'', ''class'', ''node'', ''or'', ''and'', ''not'', ''xone'', ''in'', ''hasValue'',
    ''pattern'', ''flags'', ''minLength'', ''maxLength'', ''minInclusive'', ''maxInclusive'',
    ''minExclusive'', ''maxExclusive'', ''closed'', ''ignoredProperties'', ''severity'',
    ''message'', ''name'', ''description'', ''deactivated'', ''Violation'', ''Warning'',
    ''Info'', ''ValidationReport'', ''ValidationResult'', ''conforms'', ''result'',
    ''focusNode'', ''resultPath'', ''value'', ''sourceShape'', ''sourceConstraintComponent'',
    ''resultSeverity'', ''resultMessage'', ''IRI'', ''Literal'', ''BlankNode'', ''rule'',
    ''condition'', ''TripleRule'', ''SPARQLRule'', ''subject'', ''predicate'', ''object'',
    ''construct'', ''order'']"

definition vocab_sh_paths :: "string list" where
  "vocab_sh_paths = map ((@) sh_ns)
   [
    ''inversePath'', ''alternativePath'', ''zeroOrMorePath'', ''oneOrMorePath'',
    ''zeroOrOnePath'', ''languageIn'', ''uniqueLang'', ''equals'', ''disjoint'', ''lessThan'',
    ''lessThanOrEquals'', ''qualifiedValueShape'', ''qualifiedMinCount'', ''qualifiedMaxCount'',
    ''qualifiedValueShapesDisjoint'', ''shapesGraph'', ''detail'', ''Shape'', ''target'',
    ''IRIOrLiteral'', ''BlankNodeOrIRI'', ''BlankNodeOrLiteral'', ''ClassConstraintComponent'',
    ''DatatypeConstraintComponent'', ''NodeKindConstraintComponent'',
    ''MinCountConstraintComponent'', ''MaxCountConstraintComponent'',
    ''MinExclusiveConstraintComponent'', ''MinInclusiveConstraintComponent'',
    ''MaxExclusiveConstraintComponent'', ''MaxInclusiveConstraintComponent'',
    ''MinLengthConstraintComponent'', ''MaxLengthConstraintComponent'',
    ''PatternConstraintComponent'', ''LanguageInConstraintComponent'',
    ''UniqueLangConstraintComponent'', ''EqualsConstraintComponent'',
    ''DisjointConstraintComponent'', ''LessThanConstraintComponent'',
    ''LessThanOrEqualsConstraintComponent'', ''NotConstraintComponent'',
    ''AndConstraintComponent'', ''OrConstraintComponent'', ''XoneConstraintComponent'',
    ''NodeConstraintComponent'', ''PropertyConstraintComponent'',
    ''QualifiedMinCountConstraintComponent'', ''QualifiedMaxCountConstraintComponent'',
    ''ClosedConstraintComponent'', ''HasValueConstraintComponent'', ''InConstraintComponent'']"

definition vocab_sh_12 :: "string list" where
  "vocab_sh_12 = map ((@) sh_ns)
   [
    ''minListLength'', ''maxListLength'', ''uniqueMembers'', ''memberShape'', ''singleLine'',
    ''MinListLengthConstraintComponent'', ''MaxListLengthConstraintComponent'',
    ''UniqueMembersConstraintComponent'', ''MemberShapeConstraintComponent'',
    ''SingleLineConstraintComponent'', ''Debug'', ''Trace'', ''subsetOf'',
    ''SubsetOfConstraintComponent'', ''uniqueValuesFor'', ''UniqueValuesForConstraintComponent'',
    ''someValue'', ''SomeValueConstraintComponent'', ''ByTypes'', ''shape'', ''ShapeClass'',
    ''reifierShape'', ''reificationRequired'', ''rootClass'', ''targetWhere'',
    ''nodeByExpression'', ''NodeByExpressionConstraintComponent'', ''sourceConstraint'',
    ''conformanceDisallows'', ''RootClassConstraintComponent'',
    ''ReifierShapeConstraintComponent'']"

definition vocab_prov :: "string list" where
  "vocab_prov = map ((@) prov_ns)
   [
    ''Entity'', ''Activity'', ''Agent'', ''wasGeneratedBy'', ''wasDerivedFrom'',
    ''wasAttributedTo'', ''wasAssociatedWith'', ''wasInvalidatedBy'', ''used'',
    ''startedAtTime'', ''endedAtTime'', ''generatedAtTime'']"

definition vocab_rdfs_appended :: "string list" where
  "vocab_rdfs_appended = map ((@) rdfs_ns)
   [
    ''ContainerMembershipProperty'', ''Proposition'']"

definition VOCAB :: "string list" where
  "VOCAB = vocab_rdf @ vocab_rdfs @ vocab_owl @ vocab_xsd @ vocab_sh @ vocab_sh_paths @ vocab_sh_12 @ vocab_prov @ vocab_rdfs_appended"

section \<open>Lookups\<close>

text \<open>The hash map filled from the enumerated table; a later entry would replace an earlier one.\<close>

definition vocab_lookup :: "string \<rightharpoonup> u64" where
  "vocab_lookup = foldl (\<lambda>m (i, iri). m(iri \<mapsto> word_of_nat i)) Map.empty (enumerate 0 VOCAB)"

definition encode_iri :: "string \<Rightarrow> term_id res option" where
  "encode_iri iri = map_option (new_id TagVocab) (vocab_lookup iri)"

definition decode_iri :: "term_id \<Rightarrow> string option" where
  "decode_iri i =
    (if id_tag i \<noteq> TagVocab then None
     else if unat (id_payload i) < length VOCAB then Some (VOCAB ! unat (id_payload i)) else None)"

section \<open>No duplicates\<close>

lemma distinct_map_append [simp]: "distinct (map ((@) ns) xs) \<longleftrightarrow> distinct xs"
  by (simp add: distinct_map inj_on_def)

lemma distinct_sh: "distinct (vocab_sh @ vocab_sh_paths @ vocab_sh_12)"
  unfolding vocab_sh_def vocab_sh_paths_def vocab_sh_12_def map_append [symmetric] distinct_map_append
  by simp

lemma distinct_rdf: "distinct vocab_rdf"
  unfolding vocab_rdf_def distinct_map_append by simp

lemma distinct_rdfs: "distinct (vocab_rdfs @ vocab_rdfs_appended)"
  unfolding vocab_rdfs_def vocab_rdfs_appended_def map_append [symmetric] distinct_map_append by simp

lemma distinct_owl: "distinct vocab_owl"
  unfolding vocab_owl_def distinct_map_append by simp

lemma distinct_xsd: "distinct vocab_xsd"
  unfolding vocab_xsd_def distinct_map_append by simp

lemma distinct_prov: "distinct vocab_prov"
  unfolding vocab_prov_def distinct_map_append by simp

text \<open>Two namespaces share no IRI, so the groups of different namespaces are disjoint.\<close>

definition in_ns :: "string \<Rightarrow> string \<Rightarrow> bool" where
  "in_ns ns iri \<longleftrightarrow> (\<exists>local. iri = ns @ local)"

lemmas ns_defs = rdf_ns_def rdfs_ns_def owl_ns_def xsd_ns_def sh_ns_def prov_ns_def

lemma ns_disjoint:
  "in_ns rdf_ns iri \<Longrightarrow> \<not> in_ns rdfs_ns iri \<and> \<not> in_ns owl_ns iri \<and> \<not> in_ns xsd_ns iri
    \<and> \<not> in_ns sh_ns iri \<and> \<not> in_ns prov_ns iri"
  "in_ns rdfs_ns iri \<Longrightarrow> \<not> in_ns owl_ns iri \<and> \<not> in_ns xsd_ns iri \<and> \<not> in_ns sh_ns iri \<and> \<not> in_ns prov_ns iri"
  "in_ns owl_ns iri \<Longrightarrow> \<not> in_ns xsd_ns iri \<and> \<not> in_ns sh_ns iri \<and> \<not> in_ns prov_ns iri"
  "in_ns xsd_ns iri \<Longrightarrow> \<not> in_ns sh_ns iri \<and> \<not> in_ns prov_ns iri"
  "in_ns sh_ns iri \<Longrightarrow> \<not> in_ns prov_ns iri"
  by (auto simp: in_ns_def ns_defs)

lemma in_ns_map: "iri \<in> set (map ((@) ns) xs) \<Longrightarrow> in_ns ns iri"
  by (auto simp: in_ns_def)

lemma group_ns:
  "iri \<in> set vocab_rdf \<Longrightarrow> in_ns rdf_ns iri"
  "iri \<in> set (vocab_rdfs @ vocab_rdfs_appended) \<Longrightarrow> in_ns rdfs_ns iri"
  "iri \<in> set vocab_owl \<Longrightarrow> in_ns owl_ns iri"
  "iri \<in> set vocab_xsd \<Longrightarrow> in_ns xsd_ns iri"
  "iri \<in> set (vocab_sh @ vocab_sh_paths @ vocab_sh_12) \<Longrightarrow> in_ns sh_ns iri"
  "iri \<in> set vocab_prov \<Longrightarrow> in_ns prov_ns iri"
  unfolding vocab_rdf_def vocab_rdfs_def vocab_owl_def vocab_xsd_def vocab_sh_def
    vocab_sh_paths_def vocab_sh_12_def vocab_prov_def vocab_rdfs_appended_def map_append [symmetric]
  by (rule in_ns_map, assumption)+

text \<open>The table regrouped by namespace is a permutation of it.\<close>

lemma distinct_VOCAB: "distinct VOCAB"
proof -
  let ?r = "vocab_rdfs @ vocab_rdfs_appended" and ?s = "vocab_sh @ vocab_sh_paths @ vocab_sh_12"
  have "distinct (vocab_rdf @ ?r @ vocab_owl @ vocab_xsd @ ?s @ vocab_prov)"
    using group_ns ns_disjoint distinct_rdf distinct_rdfs distinct_owl distinct_xsd distinct_sh distinct_prov
    unfolding distinct_append [of vocab_rdf] distinct_append [of ?r] distinct_append [of vocab_owl]
      distinct_append [of vocab_xsd] distinct_append [of ?s] set_append [of ?r] set_append [of vocab_owl]
      set_append [of vocab_xsd] set_append [of ?s]
    by blast
  then show ?thesis
    unfolding VOCAB_def by auto
qed

lemma length_VOCAB: "length VOCAB = 248"
  by (simp add: VOCAB_def vocab_rdf_def vocab_rdfs_def vocab_owl_def vocab_xsd_def vocab_sh_def
      vocab_sh_paths_def vocab_sh_12_def vocab_prov_def vocab_rdfs_appended_def)

section \<open>The lookups are inverse\<close>

lemma foldl_enumerate:
  "distinct xs \<Longrightarrow> foldl (\<lambda>m (i, x). m(x \<mapsto> f i)) m0 (enumerate n xs) x =
    (if x \<in> set xs then Some (f (n + (LEAST i. i < length xs \<and> xs ! i = x))) else m0 x)"
proof (induction xs arbitrary: m0 n)
  case (Cons y ys)
  let ?P = "\<lambda>zs i. i < length zs \<and> zs ! i = x"
  have least: "(LEAST i. ?P (y # ys) i) = Suc (LEAST i. ?P ys i)" if "x \<in> set ys"
  proof -
    from that obtain i where i: "?P ys i" by (auto simp: in_set_conv_nth)
    have ne: "x \<noteq> y" using that Cons.prems by auto
    have "(LEAST i. ?P (y # ys) i) = Suc (LEAST i. ?P (y # ys) (Suc i))"
      by (rule Least_Suc [of _ "Suc i"]) (use i ne in auto)
    then show ?thesis by simp
  qed
  show ?case
  proof (cases "x = y")
    case True
    then have "(LEAST i. ?P (y # ys) i) = 0" by (intro Least_equality) auto
    moreover have "x \<notin> set ys" using True Cons.prems by simp
    ultimately show ?thesis using True Cons by simp
  next
    case False
    then show ?thesis using Cons least by simp
  qed
qed simp

lemma vocab_lookup_nth:
  assumes "i < length VOCAB"
  shows "vocab_lookup (VOCAB ! i) = Some (word_of_nat i)"
proof -
  have "(LEAST j. j < length VOCAB \<and> VOCAB ! j = VOCAB ! i) = i"
    using assms distinct_VOCAB by (intro Least_equality) (auto simp: nth_eq_iff_index_eq)
  then show ?thesis
    using assms foldl_enumerate [OF distinct_VOCAB, of word_of_nat Map.empty 0 "VOCAB ! i"]
    by (simp add: vocab_lookup_def)
qed

lemma vocab_lookup_Some:
  assumes "vocab_lookup iri = Some w"
  shows "\<exists>i < length VOCAB. iri = VOCAB ! i \<and> w = word_of_nat i"
proof -
  have "iri \<in> set VOCAB"
    using assms foldl_enumerate [OF distinct_VOCAB, of "word_of_nat :: nat \<Rightarrow> u64" Map.empty 0 iri]
    unfolding vocab_lookup_def by (cases "iri \<in> set VOCAB") simp_all
  then obtain i where "i < length VOCAB" "iri = VOCAB ! i" by (auto simp: in_set_conv_nth)
  then show ?thesis using assms vocab_lookup_nth by auto
qed

lemma encode_iri_ok:
  assumes "encode_iri iri = Some r"
  shows "\<exists>w i. vocab_lookup iri = Some w \<and> r = Inr i \<and> id_tag i = TagVocab \<and> id_payload i = w"
proof -
  obtain w where w: "vocab_lookup iri = Some w" "r = new_id TagVocab w"
    using assms by (auto simp: encode_iri_def)
  then obtain i where i: "i < length VOCAB" "w = word_of_nat i" using vocab_lookup_Some by blast
  have "unat w < 2 ^ 60" using i length_VOCAB by (simp add: unat_of_nat)
  then show ?thesis using w new_id_ok new_id_tag new_id_payload by metis
qed

lemma encode_iri_decodes: "encode_iri iri = Some (Inr i) \<Longrightarrow> decode_iri i = Some iri"
proof -
  assume e: "encode_iri iri = Some (Inr i)"
  from encode_iri_ok [OF this] obtain w where w: "vocab_lookup iri = Some w" "id_tag i = TagVocab" "id_payload i = w"
    by auto
  from vocab_lookup_Some [OF w(1)] obtain k where "k < length VOCAB" "iri = VOCAB ! k" "w = word_of_nat k" by auto
  then show ?thesis
    using w length_VOCAB by (simp add: decode_iri_def unat_of_nat)
qed

lemma decode_iri_encodes: "decode_iri i = Some iri \<Longrightarrow> encode_iri iri = Some (Inr i)"
proof -
  assume d: "decode_iri i = Some iri"
  then have i: "id_tag i = TagVocab" "unat (id_payload i) < length VOCAB" "iri = VOCAB ! unat (id_payload i)"
    by (auto simp: decode_iri_def split: if_splits)
  then have "vocab_lookup iri = Some (id_payload i)" using vocab_lookup_nth [of "unat (id_payload i)"] by simp
  then show ?thesis using i new_id_of_parts [of i] by (simp add: encode_iri_def)
qed

text \<open>
  The vocabulary table is a bijection between its IRIs and the identifiers of the vocabulary tag:
  an IRI of the table encodes, without panicking, to an identifier that decodes to it and to no other.
\<close>

lemma vocabulary_round_trip:
  "(encode_iri iri = Some (Inr i) \<longleftrightarrow> decode_iri i = Some iri) \<and> (\<forall>e. encode_iri iri \<noteq> Some (Inl e))"
proof
  show "encode_iri iri = Some (Inr i) \<longleftrightarrow> decode_iri i = Some iri"
    using encode_iri_decodes decode_iri_encodes by blast
  show "\<forall>e. encode_iri iri \<noteq> Some (Inl e)"
    using encode_iri_ok by blast
qed

end
