(* ===== verification/Quad_Scans.thy ===== *)
theory Quad_Scans
  imports Quad_Index
begin

text \<open>
  What the scans of the quad index return, and the contract of a quad store. \<open>scan_returns\<close> says
  that a scan fails nowhere and yields a given set of quads, each once; the prefix scans and the
  span-bounded scans of the nine orders all satisfy it for the quads that match. The locale
  \<open>quad_store\<close> collects what a client of the index relies on, and the index interprets it.
\<close>

section \<open>Scans return exactly the matching quads\<close>

text \<open>A prefix range keeps exactly the keys with that prefix.\<close>

lemma key_bounds:
  "a \<le> i \<and> i \<le> a \<longleftrightarrow> i = a" "(a < i \<or> a \<le> i \<and> P) \<and> (i < a \<or> i \<le> a \<and> Q) \<longleftrightarrow> i = a \<and> P \<and> Q" for a i :: term_id
  by auto

lemma bound_at_simps [simp]:
  "bound_at d (a # as) (Suc n) = bound_at d as n" "bound_at d (a # as) 0 = a" "bound_at d [] n = d"
  by (auto simp: bound_at_def)

lemma filter_all_keys [simp]:
  "filter (\<lambda>k. (ID_MIN, ID_MIN, ID_MIN) \<le> k \<and> k \<le> (ID_MAX, ID_MAX, ID_MAX)) s = s"
  "filter (\<lambda>k. (ID_MIN, ID_MIN, ID_MIN, ID_MIN) \<le> k \<and> k \<le> (ID_MAX, ID_MAX, ID_MAX, ID_MAX)) t = t"
  by (auto simp: less_eq_prod_simp intro!: filter_True)

lemmas prefix_range = btree_range_ok numeral_2_eq_2 numeral_3_eq_3 One_nat_def key_bounds less_eq_prod_simp

lemma scan3_eq:
  "scan3 s [] f = map Inr (map f s)"
  "scan3 s [a] f = map Inr (map f (filter (\<lambda>(x, y, z). x = a) s))"
  "scan3 s [a, b] f = map Inr (map f (filter (\<lambda>(x, y, z). x = a \<and> y = b) s))"
  "scan3 s [a, b, c] f = map Inr (map f (filter (\<lambda>(x, y, z). x = a \<and> y = b \<and> z = c) s))"
  by (auto simp: scan3_def bound3_def prefix_range simp del: map_map
      intro!: arg_cong [where f = "map f"] filter_cong)

lemma scan4_eq:
  "scan4 s [] f = map Inr (map f s)"
  "scan4 s [a] f = map Inr (map f (filter (\<lambda>(x, y, z, w). x = a) s))"
  "scan4 s [a, b] f = map Inr (map f (filter (\<lambda>(x, y, z, w). x = a \<and> y = b) s))"
  "scan4 s [a, b, c] f = map Inr (map f (filter (\<lambda>(x, y, z, w). x = a \<and> y = b \<and> z = c) s))"
  "scan4 s [a, b, c, d] f = map Inr (map f (filter (\<lambda>(x, y, z, w). x = a \<and> y = b \<and> z = c \<and> w = d) s))"
  by (auto simp: scan4_def bound4_def prefix_range simp del: map_map
      intro!: arg_cong [where f = "map f"] filter_cong)

definition scan_returns :: "quad_scan \<Rightarrow> encoded_quad set \<Rightarrow> bool" where
  "scan_returns r Q \<longleftrightarrow> (\<exists>qs. r = map Inr qs \<and> distinct qs \<and> set qs = Q)"

lemma scan_returns_collect: "scan_returns r Q \<Longrightarrow> \<exists>qs. collect_res r = Inr qs \<and> distinct qs \<and> set qs = Q"
  by (auto simp: scan_returns_def)

lemma scan_returns_append:
  "scan_returns a A \<Longrightarrow> scan_returns b B \<Longrightarrow> A \<inter> B = {} \<Longrightarrow> scan_returns (a @ b) (A \<union> B)"
  unfolding scan_returns_def by (metis distinct_append map_append set_append)

lemma scan_returns_keys:
  assumes "btree_ok K" "inj_on f {k \<in> set K. P k}" "f ` {k \<in> set K. P k} = Q"
  shows "scan_returns (map Inr (map f (filter P K))) Q"
  unfolding scan_returns_def
  using assms by (intro exI [of _ "map f (filter P K)"]) (auto simp: distinct_map btree_ok_distinct)

lemma scan_returns_all_keys:
  "btree_ok K \<Longrightarrow> inj_on f (set K) \<Longrightarrow> f ` set K = Q \<Longrightarrow> scan_returns (map Inr (map f K)) Q"
  using scan_returns_keys [of K f "\<lambda>_. True" Q] by simp

definition matching :: "quad_index \<Rightarrow> term_id option \<Rightarrow> term_id option \<Rightarrow> term_id option \<Rightarrow> graph_filter \<Rightarrow> encoded_quad set" where
  "matching ix s p x g = {q \<in> index_quads ix. quad_matches s p x g q}"

text \<open>The image of a key set under an un-permutation, written over the quads.\<close>

lemma unpermuted3:
  "(\<lambda>(s, p, x). mk_quad s p x None) ` K = {q. enc_graph q = None \<and> (enc_subject q, enc_predicate q, enc_object q) \<in> K}"
  "(\<lambda>(p, x, s). mk_quad s p x None) ` K = {q. enc_graph q = None \<and> (enc_predicate q, enc_object q, enc_subject q) \<in> K}"
  "(\<lambda>(x, s, p). mk_quad s p x None) ` K = {q. enc_graph q = None \<and> (enc_object q, enc_subject q, enc_predicate q) \<in> K}"
  by (force simp: mk_quad_eqI intro: rev_image_eqI)+

lemma unpermuted4:
  "(\<lambda>(s, p, x, g). mk_quad s p x (Some g)) ` K =
    {q. \<exists>g. enc_graph q = Some g \<and> (enc_subject q, enc_predicate q, enc_object q, g) \<in> K}"
  "(\<lambda>(p, x, s, g). mk_quad s p x (Some g)) ` K =
    {q. \<exists>g. enc_graph q = Some g \<and> (enc_predicate q, enc_object q, enc_subject q, g) \<in> K}"
  "(\<lambda>(x, s, p, g). mk_quad s p x (Some g)) ` K =
    {q. \<exists>g. enc_graph q = Some g \<and> (enc_object q, enc_subject q, enc_predicate q, g) \<in> K}"
  by (force simp: mk_quad_eqI intro: rev_image_eqI)+

lemma unpermuted_named:
  assumes "fst ` K \<subseteq> {g}"
  shows "(\<lambda>(_, s, p, x). mk_quad s p x (Some g)) ` K =
      {q. enc_graph q = Some g \<and> (g, enc_subject q, enc_predicate q, enc_object q) \<in> K}"
    and "(\<lambda>(_, p, x, s). mk_quad s p x (Some g)) ` K =
      {q. enc_graph q = Some g \<and> (g, enc_predicate q, enc_object q, enc_subject q) \<in> K}"
    and "(\<lambda>(_, x, s, p). mk_quad s p x (Some g)) ` K =
      {q. enc_graph q = Some g \<and> (g, enc_object q, enc_subject q, enc_predicate q) \<in> K}"
  using assms by (force simp: mk_quad_eqI intro: rev_image_eqI)+

lemma scan_default_returns:
  assumes "index_ok ix"
  shows "scan_returns (scan_default ix s p x) (matching ix s p x FilterDefault)"
  by (cases s; cases p; cases x; simp only: scan_default.simps scan3_eq;
      intro scan_returns_keys scan_returns_all_keys)
     (auto simp: inj_on_def matching_def quad_matches_def index_simps index_ok_btree [OF assms]
       unpermuted3 index_ok_orders [OF assms] split: option.splits)

lemma scan_any_named_returns:
  assumes "index_ok ix"
  shows "scan_returns (scan_any_named ix s p x) (matching ix s p x FilterAnyNamed)"
  by (cases s; cases p; cases x; simp only: scan_any_named.simps scan4_eq;
      intro scan_returns_keys scan_returns_all_keys)
     (auto simp: inj_on_def matching_def quad_matches_def index_simps index_ok_btree [OF assms]
       unpermuted4 index_ok_orders [OF assms] split: option.splits)

lemma scan_named_returns:
  assumes "index_ok ix"
  shows "scan_returns (scan_named ix g s p x) (matching ix s p x (FilterNamed g))"
  by (cases s; cases p; cases x; simp only: scan_named.simps scan4_eq; intro scan_returns_keys)
     (force simp: inj_on_def matching_def quad_matches_def index_simps index_ok_btree [OF assms]
       index_ok_orders [OF assms] mk_quad_eqI intro: rev_image_eqI split: option.splits)+

text \<open>Every pattern shape over every graph filter.\<close>

lemma pattern_scan_returns:
  assumes "index_ok ix"
  shows "scan_returns (index_quads_for_pattern ix s p x g) (matching ix s p x g)"
proof (cases g)
  case FilterAny
  have "matching ix s p x FilterAny = matching ix s p x FilterDefault \<union> matching ix s p x FilterAnyNamed"
    "matching ix s p x FilterDefault \<inter> matching ix s p x FilterAnyNamed = {}"
    by (auto simp: matching_def quad_matches_def)
  with FilterAny show ?thesis
    using scan_default_returns [OF assms, of s p x] scan_any_named_returns [OF assms, of s p x]
    by (auto simp: index_quads_for_pattern_def intro: scan_returns_append)
qed (simp_all add: index_quads_for_pattern_def assms scan_default_returns scan_named_returns scan_any_named_returns)

section \<open>Span-bounded scans\<close>

definition matching_in :: "quad_index \<Rightarrow> term_id option \<Rightarrow> term_id option \<Rightarrow> id_range \<Rightarrow> graph_filter \<Rightarrow> encoded_quad set" where
  "matching_in ix s p span g = {q \<in> matching ix s p None g. span_contains span (enc_object q)}"

lemma key_span: "a < i \<or> a \<le> i \<longleftrightarrow> a \<le> i" "\<not> b < a \<longleftrightarrow> a \<le> b" for a b i :: term_id
  by auto

lemma scan_returns_range:
  assumes "btree_ok K" "lo \<le> hi" "inj_on f {k \<in> set K. lo \<le> k \<and> k \<le> hi}" "f ` {k \<in> set K. lo \<le> k \<and> k \<le> hi} = Q"
  shows "scan_returns (map_res f (btree_range lo hi K)) Q"
  using scan_returns_keys [OF assms(1,3,4)] assms(2) by (simp add: btree_range_ok)

lemmas span_defs = matching_in_def matching_def quad_matches_def span_contains_def

lemma range_default_returns:
  assumes "index_ok ix" "first span \<le> last_id span"
  shows "scan_returns (range_default ix p span) (matching_in ix None p span FilterDefault)"
  unfolding range_default_def
  by (cases p; simp only: option.simps; rule scan_returns_range)
     (use assms(2) in \<open>auto simp: inj_on_def span_defs index_simps index_ok_btree [OF assms(1)]
       unpermuted3 index_ok_orders [OF assms(1)] less_eq_prod_simp key_span key_bounds split: option.splits\<close>)

lemma range_any_named_returns:
  assumes "index_ok ix" "first span \<le> last_id span"
  shows "scan_returns (range_any_named ix p span) (matching_in ix None p span FilterAnyNamed)"
  unfolding range_any_named_def
  by (cases p; simp only: option.simps; rule scan_returns_range)
     (use assms(2) in \<open>auto simp: inj_on_def span_defs index_simps index_ok_btree [OF assms(1)]
       unpermuted4 index_ok_orders [OF assms(1)] less_eq_prod_simp key_span key_bounds split: option.splits\<close>)

lemma named_keys: "fst ` {k \<in> K. (g, lo) \<le> k \<and> k \<le> (g, hi)} \<subseteq> {g}" for g :: term_id
  by (auto simp: less_eq_prod_simp)

lemma range_named_returns:
  assumes "index_ok ix" "first span \<le> last_id span"
  shows "scan_returns (range_named ix g p span) (matching_in ix None p span (FilterNamed g))"
  unfolding range_named_def
  by (cases p; simp only: option.simps; rule scan_returns_range)
     (use assms(2) in \<open>auto simp: inj_on_def span_defs index_simps index_ok_btree [OF assms(1)]
       unpermuted_named [OF named_keys] index_ok_orders [OF assms(1)] less_eq_prod_simp key_span key_bounds split: option.splits\<close>)

lemma scan_returns_filter:
  assumes "scan_returns r Q"
  shows "scan_returns (filter (\<lambda>r. case r of Inr q \<Rightarrow> P q | Inl _ \<Rightarrow> True) r) {q \<in> Q. P q}"
proof -
  obtain qs where qs: "r = map Inr qs" "distinct qs" "set qs = Q" using assms by (auto simp: scan_returns_def)
  then have "filter (\<lambda>r. case r of Inr q \<Rightarrow> P q | Inl _ \<Rightarrow> True) r = map Inr (filter P qs)"
    by (simp add: filter_map comp_def)
  with qs show ?thesis unfolding scan_returns_def by (intro exI [of _ "filter P qs"]) auto
qed

lemma span_scan_returns:
  assumes ok: "index_ok ix"
  shows "scan_returns (index_quads_with_object_in ix s p span g) (matching_in ix s p span g)"
proof (cases "span_is_empty span")
  case True
  then show ?thesis
    by (auto simp: index_quads_with_object_in_def scan_returns_def matching_in_def span_contains_def span_is_empty_def)
next
  case False
  then have le: "first span \<le> last_id span" by (simp add: span_is_empty_def)
  let ?rows = "index_quads_with_object_in ix None p span g"
  have rows: "scan_returns ?rows (matching_in ix None p span g)"
  proof (cases g)
    case FilterAny
    have "matching_in ix None p span FilterAny =
        matching_in ix None p span FilterDefault \<union> matching_in ix None p span FilterAnyNamed"
      "matching_in ix None p span FilterDefault \<inter> matching_in ix None p span FilterAnyNamed = {}"
      by (auto simp: span_defs)
    with FilterAny False show ?thesis
      using range_default_returns [OF ok le, of p] range_any_named_returns [OF ok le, of p]
      by (auto simp: index_quads_with_object_in_def Let_def intro: scan_returns_append)
  qed (use False ok le in \<open>simp_all add: index_quads_with_object_in_def Let_def range_default_returns
        range_named_returns range_any_named_returns\<close>)
  show ?thesis
  proof (cases s)
    case (Some a)
    have "index_quads_with_object_in ix s p span g =
        filter (\<lambda>r. case r of Inr q \<Rightarrow> enc_subject q = a | Inl _ \<Rightarrow> True) ?rows"
      using False Some by (simp add: index_quads_with_object_in_def Let_def)
    moreover have "matching_in ix s p span g = {q \<in> matching_in ix None p span g. enc_subject q = a}"
      using Some by (auto simp: span_defs)
    ultimately show ?thesis using scan_returns_filter [OF rows, of "\<lambda>q. enc_subject q = a"] by simp
  qed (use rows in simp)
qed

section \<open>Dropping a named graph\<close>

lemma remove_each_spec:
  assumes "index_ok ix"
  shows "snd (remove_each qs ix) = Inr () \<and> index_ok (fst (remove_each qs ix))
    \<and> index_quads (fst (remove_each qs ix)) = index_quads ix - set qs
    \<and> index_graphs (fst (remove_each qs ix)) = index_graphs ix"
  using assms
proof (induction qs arbitrary: ix)
  case (Cons q qs)
  obtain ix1 r where r: "index_remove q ix = (ix1, r)" by force
  with Cons.prems have "r = Inr (q \<in> index_quads ix)" "index_ok ix1" "index_quads ix1 = index_quads ix - {q}"
    "index_graphs ix1 = index_graphs ix"
    using index_remove_result index_remove_ok index_remove_quads index_remove_graphs by (metis fst_conv snd_conv)+
  with Cons.IH [of ix1] r show ?case by auto
qed simp

lemma index_remove_named_graph_spec:
  assumes ok: "index_ok ix"
  shows "snd (index_remove_named_graph g ix) = Inr (g \<in> index_graphs ix)"
    and "index_ok (fst (index_remove_named_graph g ix))"
    and "index_quads (fst (index_remove_named_graph g ix)) = {q \<in> index_quads ix. enc_graph q \<noteq> Some g}"
    and "index_graphs (fst (index_remove_named_graph g ix)) = index_graphs ix - {g}"
proof -
  obtain vs where vs: "collect_res (index_quads_for_pattern ix None None None (FilterNamed g)) = Inr vs"
    "set vs = {q \<in> index_quads ix. enc_graph q = Some g}"
    using scan_returns_collect [OF pattern_scan_returns [OF ok, of None None None "FilterNamed g"]]
    by (auto simp: matching_def quad_matches_def)
  obtain ix1 where ix1: "remove_each vs ix = (ix1, Inr ())" "index_ok ix1"
    "index_quads ix1 = {q \<in> index_quads ix. enc_graph q \<noteq> Some g}" "index_graphs ix1 = index_graphs ix"
    using remove_each_spec [OF ok, of vs] vs(2) by (cases "remove_each vs ix") auto
  have eq: "index_remove_named_graph g ix =
      (ix1\<lparr>graphs := snd (btree_remove g (graphs ix1))\<rparr>, Inr (fst (btree_remove g (graphs ix1))))"
    using vs ix1 by (simp add: index_remove_named_graph_def fst_case_pair)
  have used: "(h, s, p, x) \<in> set (gspo ix1) \<Longrightarrow> h \<noteq> g" for h s p x
    using ix1(3) mem_index_quads [of "mk_quad s p x (Some h)" ix1] by auto
  show "snd (index_remove_named_graph g ix) = Inr (g \<in> index_graphs ix)"
    "index_graphs (fst (index_remove_named_graph g ix)) = index_graphs ix - {g}"
    using ix1 by (auto simp: eq index_graphs_def btree_simps index_ok_btree)
  show "index_ok (fst (index_remove_named_graph g ix))"
    using ix1(2) used by (simp add: eq index_ok_iff btree_simps)
  show "index_quads (fst (index_remove_named_graph g ix)) = {q \<in> index_quads ix. enc_graph q \<noteq> Some g}"
    using ix1(3) by (simp add: eq index_quads_def)
qed

section \<open>The contract of a quad store\<close>

datatype quad_write = InsertQuad encoded_quad | RemoveQuad encoded_quad | CreateGraph term_id | DropGraph term_id

text \<open>What each write does to a set of quads and a set of graphs, and what it reports.\<close>

type_synonym dataset = "encoded_quad set \<times> term_id set"

fun spec_write :: "quad_write \<Rightarrow> dataset \<Rightarrow> dataset \<times> bool" where
  "spec_write (InsertQuad q) (Q, G) = ((insert q Q, G \<union> set_option (enc_graph q)), q \<notin> Q)"
| "spec_write (RemoveQuad q) (Q, G) = ((Q - {q}, G), q \<in> Q)"
| "spec_write (CreateGraph g) (Q, G) = ((Q, insert g G), g \<notin> G)"
| "spec_write (DropGraph g) (Q, G) = (({q \<in> Q. enc_graph q \<noteq> Some g}, G - {g}), g \<in> G)"

fun spec_run :: "quad_write list \<Rightarrow> dataset \<Rightarrow> dataset \<times> bool list" where
  "spec_run [] d = (d, [])"
| "spec_run (w # ws) d =
    (case spec_write w d of (d1, b) \<Rightarrow> case spec_run ws d1 of (d2, bs) \<Rightarrow> (d2, b # bs))"

text \<open>A sequence of writes against given operations, keeping every result.\<close>

fun run_with :: "('w \<Rightarrow> 's \<Rightarrow> 's \<times> 'r) \<Rightarrow> 'w list \<Rightarrow> 's \<Rightarrow> 's \<times> 'r list" where
  "run_with step [] st = (st, [])"
| "run_with step (w # ws) st =
    (case step w st of (st1, r) \<Rightarrow> case run_with step ws st1 of (st2, rs) \<Rightarrow> (st2, r # rs))"

locale quad_store =
  fixes step :: "quad_write \<Rightarrow> 's \<Rightarrow> 's \<times> bool res"
    and scan :: "'s \<Rightarrow> term_id option \<Rightarrow> term_id option \<Rightarrow> term_id option \<Rightarrow> graph_filter \<Rightarrow> quad_scan"
    and span_scan :: "'s \<Rightarrow> term_id option \<Rightarrow> term_id option \<Rightarrow> id_range \<Rightarrow> graph_filter \<Rightarrow> quad_scan"
    and ok :: "'s \<Rightarrow> bool"
    and view :: "'s \<Rightarrow> dataset"
  assumes step_ok: "ok st \<Longrightarrow> ok (fst (step w st))"
    and step_view: "ok st \<Longrightarrow> view (fst (step w st)) = fst (spec_write w (view st))"
    and step_result: "ok st \<Longrightarrow> snd (step w st) = Inr (snd (spec_write w (view st)))"
    and scan_exact: "ok st \<Longrightarrow> scan_returns (scan st s p x g) {q \<in> fst (view st). quad_matches s p x g q}"
    and span_exact: "ok st \<Longrightarrow> scan_returns (span_scan st s p span g)
      {q \<in> fst (view st). quad_matches s p None g q \<and> span_contains span (enc_object q)}"
begin

lemma run_refines:
  "ok st \<Longrightarrow> ok (fst (run_with step ws st))
    \<and> view (fst (run_with step ws st)) = fst (spec_run ws (view st))
    \<and> snd (run_with step ws st) = map Inr (snd (spec_run ws (view st)))"
proof (induction ws arbitrary: st)
  case (Cons w ws)
  obtain st1 r where 1: "step w st = (st1, r)" by force
  obtain d1 b where 2: "spec_write w (view st) = (d1, b)" by (rule prod.exhaust)
  have "ok st1" "view st1 = d1" "r = Inr b"
    using step_ok [of st w] step_view [of st w] step_result [of st w] Cons.prems 1 2 by simp_all
  with Cons.IH [of st1] 1 2 show ?case by (simp add: case_prod_beta)
qed simp

lemma scan_after_run:
  "ok st \<Longrightarrow> scan_returns (scan (fst (run_with step ws st)) s p x g)
     {q \<in> fst (fst (spec_run ws (view st))). quad_matches s p x g q}"
  using run_refines [of st ws] scan_exact [of "fst (run_with step ws st)" s p x g] by simp

text \<open>A span-bounded scan is the pattern scan with the span as a filter.\<close>

lemma span_scan_is_filter:
  assumes "ok st" "collect_res (scan st s p None g) = Inr qs" "collect_res (span_scan st s p span g) = Inr rs"
  shows "set rs = {q \<in> set qs. span_contains span (enc_object q)} \<and> distinct rs"
  using scan_exact [OF assms(1), of s p None g] span_exact [OF assms(1), of s p span g] assms(2,3)
  by (auto simp: scan_returns_def)

end

fun index_step :: "quad_write \<Rightarrow> quad_index \<Rightarrow> quad_index \<times> bool res" where
  "index_step (InsertQuad q) ix = index_insert q ix"
| "index_step (RemoveQuad q) ix = index_remove q ix"
| "index_step (CreateGraph g) ix = index_insert_named_graph g ix"
| "index_step (DropGraph g) ix = index_remove_named_graph g ix"

definition index_view :: "quad_index \<Rightarrow> dataset" where
  "index_view ix = (index_quads ix, index_graphs ix)"

lemmas index_write_specs =
  index_insert_result index_insert_ok index_insert_quads index_insert_graphs
  index_remove_result index_remove_ok index_remove_quads index_remove_graphs
  index_insert_named_graph_spec index_remove_named_graph_spec

interpretation qix: quad_store index_step index_quads_for_pattern index_quads_with_object_in index_ok index_view
proof
  fix ix w assume ok: "index_ok ix"
  show "index_ok (fst (index_step w ix))" using ok by (cases w) (simp_all add: index_write_specs)
  show "index_view (fst (index_step w ix)) = fst (spec_write w (index_view ix))"
    using ok by (cases w) (simp_all add: index_write_specs index_view_def)
  show "snd (index_step w ix) = Inr (snd (spec_write w (index_view ix)))"
    using ok by (cases w) (simp_all add: index_write_specs index_view_def)
next
  fix ix s p x g span assume ok: "index_ok ix"
  show "scan_returns (index_quads_for_pattern ix s p x g) {q \<in> fst (index_view ix). quad_matches s p x g q}"
    using pattern_scan_returns [OF ok, of s p x g] by (simp add: index_view_def matching_def)
  have "matching_in ix s p span g =
      {q \<in> fst (index_view ix). quad_matches s p None g q \<and> span_contains span (enc_object q)}"
    by (auto simp: matching_in_def matching_def index_view_def)
  then show "scan_returns (index_quads_with_object_in ix s p span g)
      {q \<in> fst (index_view ix). quad_matches s p None g q \<and> span_contains span (enc_object q)}"
    using span_scan_returns [OF ok, of s p span g] by simp
qed

section \<open>Properties\<close>

text \<open>
  C6. After any sequence of insertions, removals, graph creations and graph drops on an empty index,
  every write has reported what the set-level specification reports, without error, and every
  pattern scan over every graph filter returns exactly the matching quads of the specified set, each
  once and without panicking.
\<close>

theorem index_history_scan:
  "snd (run_with index_step ws new_index) = map Inr (snd (spec_run ws ({}, {})))
    \<and> scan_returns (index_quads_for_pattern (fst (run_with index_step ws new_index)) s p x g)
        {q \<in> fst (fst (spec_run ws ({}, {}))). quad_matches s p x g q}"
  using qix.run_refines [of new_index ws] qix.scan_after_run [of new_index ws s p x g]
  by (simp add: index_view_def)

text \<open>
  C16. A scan bounded by an object span reads exactly the quads of the pattern whose object lies in
  the span, whatever the span: an inverted span, for which the ordered set would panic, yields nothing.
\<close>

theorem index_history_span_scan:
  "scan_returns (index_quads_with_object_in (fst (run_with index_step ws new_index)) s p span g)
     {q \<in> fst (fst (spec_run ws ({}, {}))). quad_matches s p None g q \<and> span_contains span (enc_object q)}"
  using qix.run_refines [of new_index ws] qix.span_exact [of "fst (run_with index_step ws new_index)" s p span g]
  by (simp add: index_view_def)

text \<open>The quad count and the named graphs.\<close>

lemma index_len_card:
  assumes "index_ok ix"
  shows "index_len ix = card (index_quads ix)"
proof -
  let ?d = "(\<lambda>(s, p, x). mk_quad s p x None) ` set (dspo ix)"
  let ?n = "(\<lambda>(g, s, p, x). mk_quad s p x (Some g)) ` set (gspo ix)"
  have "card ?d = length (dspo ix)" "card ?n = length (gspo ix)"
    using index_ok_btree [OF assms] by (subst card_image; auto simp: inj_on_def distinct_card btree_ok_distinct)+
  moreover have "?d \<inter> ?n = {}" by auto
  ultimately show ?thesis
    unfolding index_quads_def index_len_def by (simp add: card_Un_disjoint)
qed

text \<open>
  The quad count of an index reached by any sequence of writes is the number of quads the
  specification holds, and its named graphs are listed in ascending order, each once.
\<close>

lemma index_history_counts:
  "index_len (fst (run_with index_step ws new_index)) = card (fst (fst (spec_run ws ({}, {}))))
    \<and> (\<exists>gs. collect_res (index_named_graphs (fst (run_with index_step ws new_index))) = Inr gs
        \<and> sorted_wrt (<) gs \<and> set gs = snd (fst (spec_run ws ({}, {}))))"
proof -
  let ?ix = "fst (run_with index_step ws new_index)"
  have ok: "index_ok ?ix" and v: "(index_quads ?ix, index_graphs ?ix) = fst (spec_run ws ({}, {}))"
    using qix.run_refines [of new_index ws] by (simp_all add: index_view_def)
  have "index_quads ?ix = fst (fst (spec_run ws ({}, {})))" "set (graphs ?ix) = snd (fst (spec_run ws ({}, {})))"
    using v by (simp_all flip: v add: index_graphs_def)
  then show ?thesis
    using index_len_card [OF ok] index_ok_btree(10) [OF ok]
    by (simp add: index_named_graphs_def btree_ok_def)
qed

text \<open>The order \<open>plan\<close> names, read out of the index.\<close>

definition order_keys :: "string \<Rightarrow> quad_index \<Rightarrow> key3 list + key4 list" where
  "order_keys name ix =
    (if name = ''dspo'' then Inl (dspo ix) else if name = ''dpos'' then Inl (dpos ix)
     else if name = ''dosp'' then Inl (dosp ix) else if name = ''spog'' then Inr (spog ix)
     else if name = ''posg'' then Inr (posg ix) else if name = ''ospg'' then Inr (ospg ix)
     else if name = ''gspo'' then Inr (gspo ix) else if name = ''gpos'' then Inr (gpos ix)
     else Inr (gosp ix))"

text \<open>
  The plan names the order a pattern is answered from: two indexes that agree on that order alone
  give the same scan, whatever the other eight hold.
\<close>

lemma plan_names_the_scanned_order:
  "g \<noteq> FilterAny \<Longrightarrow> order_keys (plan s p x g) i = order_keys (plan s p x g) j
    \<Longrightarrow> index_quads_for_pattern i s p x g = index_quads_for_pattern j s p x g"
  by (cases s; cases p; cases x; cases g) (simp_all add: plan_def order_keys_def index_quads_for_pattern_def)

end
