(* ===== verification/Dictionary.thy ===== *)
theory Dictionary
  imports Inline_Codec Vocab
begin

text \<open>
  The term dictionary of \<^verbatim>\<open>holos-store/src/dictionary.rs\<close>: four dense index spaces, each a list with
  its inverse map, behind the vocabulary table and the inline codec. Interning, lookup and decoding
  follow the source branch by branch; a Rust panic of \<open>TermId::new\<close> is an error value.

  Decoding a triple term recurses through the ids it stores, which nothing in the types bounds. The
  model spends one unit of fuel per level and starts with one more than the number of stored triple
  terms: a recursion that needs more has met some stored triple term twice on one path, so the
  source would recurse until its stack overflows, and the model reports that panic. On every
  dictionary that interning can reach the fuel suffices.
\<close>

section \<open>State and operations\<close>

record dictionary =
  iris :: "string list"
  iri_index :: "string \<rightharpoonup> u64"
  blank_nodes :: "string list"
  blank_node_index :: "string \<rightharpoonup> u64"
  literals :: "literal list"
  literal_index :: "literal \<rightharpoonup> u64"
  triple_terms :: "(term_id \<times> term_id \<times> term_id) list"
  triple_term_index :: "term_id \<times> term_id \<times> term_id \<rightharpoonup> u64"

definition new_dictionary :: dictionary where
  "new_dictionary = \<lparr>iris = [], iri_index = Map.empty, blank_nodes = [], blank_node_index = Map.empty,
    literals = [], literal_index = Map.empty, triple_terms = [], triple_term_index = Map.empty\<rparr>"

definition dict_len :: "dictionary \<Rightarrow> nat" where
  "dict_len d = length (iris d) + length (blank_nodes d) + length (literals d) + length (triple_terms d)"

definition dict_is_empty :: "dictionary \<Rightarrow> bool" where
  "dict_is_empty d \<longleftrightarrow> dict_len d = 0"

definition count_for :: "dictionary \<Rightarrow> tag \<Rightarrow> nat" where
  "count_for d t = (case t of
      TagIri \<Rightarrow> length (iris d)
    | TagBlankNode \<Rightarrow> length (blank_nodes d)
    | TagLiteral \<Rightarrow> length (literals d)
    | TagTripleTerm \<Rightarrow> length (triple_terms d)
    | _ \<Rightarrow> 0)"

definition encode_named_node :: "string \<Rightarrow> dictionary \<Rightarrow> dictionary \<times> term_id res" where
  "encode_named_node n d =
    (case encode_iri n of
       Some r \<Rightarrow> (d, r)
     | None \<Rightarrow>
         (case iri_index d n of
            Some i \<Rightarrow> (d, new_id TagIri i)
          | None \<Rightarrow>
              (let i = word_of_nat (length (iris d)) in
               (d\<lparr>iris := iris d @ [n], iri_index := (iri_index d)(n \<mapsto> i)\<rparr>, new_id TagIri i))))"

definition encode_blank_node :: "string \<Rightarrow> dictionary \<Rightarrow> dictionary \<times> term_id res" where
  "encode_blank_node b d =
    (case blank_node_index d b of
       Some i \<Rightarrow> (d, new_id TagBlankNode i)
     | None \<Rightarrow>
         (let i = word_of_nat (length (blank_nodes d)) in
          (d\<lparr>blank_nodes := blank_nodes d @ [b], blank_node_index := (blank_node_index d)(b \<mapsto> i)\<rparr>,
           new_id TagBlankNode i)))"

definition intern_literal :: "'dt xsd_lib \<Rightarrow> literal \<Rightarrow> dictionary \<Rightarrow> dictionary \<times> term_id res" where
  "intern_literal X l d =
    (case encode_literal X l of
       Some r \<Rightarrow> (d, r)
     | None \<Rightarrow>
         (case literal_index d l of
            Some i \<Rightarrow> (d, new_id TagLiteral i)
          | None \<Rightarrow>
              (let i = word_of_nat (length (literals d)) in
               (d\<lparr>literals := literals d @ [l], literal_index := (literal_index d)(l \<mapsto> i)\<rparr>,
                new_id TagLiteral i))))"

definition encode_components :: "term_id \<times> term_id \<times> term_id \<Rightarrow> dictionary \<Rightarrow> dictionary \<times> term_id res" where
  "encode_components c d =
    (case triple_term_index d c of
       Some i \<Rightarrow> (d, new_id TagTripleTerm i)
     | None \<Rightarrow>
         (let i = word_of_nat (length (triple_terms d)) in
          (d\<lparr>triple_terms := triple_terms d @ [c], triple_term_index := (triple_term_index d)(c \<mapsto> i)\<rparr>,
           new_id TagTripleTerm i)))"

text \<open>The components of a triple term are interned first, in order, stopping at the first error.\<close>

fun dict_encode :: "'dt xsd_lib \<Rightarrow> rdf_term \<Rightarrow> dictionary \<Rightarrow> dictionary \<times> term_id res" where
  "dict_encode X (NamedNode n) d = encode_named_node n d"
| "dict_encode X (BlankNode b) d = encode_blank_node b d"
| "dict_encode X (Literal l) d = intern_literal X l d"
| "dict_encode X (Triple s p x) d =
    (case (case s of NodeNamed n \<Rightarrow> encode_named_node n d | NodeBlank b \<Rightarrow> encode_blank_node b d) of
       (d1, Inl e) \<Rightarrow> (d1, Inl e)
     | (d1, Inr si) \<Rightarrow>
         (case encode_named_node p d1 of
            (d2, Inl e) \<Rightarrow> (d2, Inl e)
          | (d2, Inr pi) \<Rightarrow>
              (case dict_encode X x d2 of
                 (d3, Inl e) \<Rightarrow> (d3, Inl e)
               | (d3, Inr xi) \<Rightarrow> encode_components (si, pi, xi) d3)))"

definition found_id :: "tag \<Rightarrow> u64 option \<Rightarrow> term_id option res" where
  "found_id t i = (case i of None \<Rightarrow> Inr None | Some i \<Rightarrow> map_sum id Some (new_id t i))"

definition or_found :: "term_id res option \<Rightarrow> term_id option res \<Rightarrow> term_id option res" where
  "or_found known missed = (case known of Some r \<Rightarrow> map_sum id Some r | None \<Rightarrow> missed)"

definition lookup_node :: "dictionary \<Rightarrow> node \<Rightarrow> term_id option res" where
  "lookup_node d n = (case n of
      NodeNamed n \<Rightarrow> or_found (encode_iri n) (found_id TagIri (iri_index d n))
    | NodeBlank b \<Rightarrow> found_id TagBlankNode (blank_node_index d b))"

fun dict_lookup :: "'dt xsd_lib \<Rightarrow> dictionary \<Rightarrow> rdf_term \<Rightarrow> term_id option res" where
  "dict_lookup X d (NamedNode n) = lookup_node d (NodeNamed n)"
| "dict_lookup X d (BlankNode b) = lookup_node d (NodeBlank b)"
| "dict_lookup X d (Literal l) = or_found (encode_literal X l) (found_id TagLiteral (literal_index d l))"
| "dict_lookup X d (Triple s p x) =
    (case lookup_node d s of
       Inl e \<Rightarrow> Inl e
     | Inr si \<Rightarrow>
         (case lookup_node d (NodeNamed p) of
            Inl e \<Rightarrow> Inl e
          | Inr pi \<Rightarrow>
              (case dict_lookup X d x of
                 Inl e \<Rightarrow> Inl e
               | Inr xi \<Rightarrow>
                   (case (si, pi, xi) of
                      (Some si, Some pi, Some xi) \<Rightarrow> found_id TagTripleTerm (triple_term_index d (si, pi, xi))
                    | _ \<Rightarrow> Inr None))))"

text \<open>\<open>Vec::get\<close> at a payload; on a 64-bit target \<open>index_of\<close> never fails.\<close>

definition get_at :: "'a list \<Rightarrow> term_id \<Rightarrow> 'a option" where
  "get_at xs i = (if unat (id_payload i) < length xs then Some (xs ! unat (id_payload i)) else None)"

fun decode_fuel :: "nat \<Rightarrow> 'dt xsd_lib \<Rightarrow> dictionary \<Rightarrow> term_id \<Rightarrow> rdf_term option res" where
  "decode_fuel 0 X d i = Inl (Panic ''stack overflow'')"
| "decode_fuel (Suc n) X d i =
    (case id_tag i of
       TagIri \<Rightarrow> Inr (map_option NamedNode (get_at (iris d) i))
     | TagBlankNode \<Rightarrow> Inr (map_option BlankNode (get_at (blank_nodes d) i))
     | TagLiteral \<Rightarrow> Inr (map_option Literal (get_at (literals d) i))
     | TagVocab \<Rightarrow> Inr (map_option NamedNode (decode_iri i))
     | TagTripleTerm \<Rightarrow>
         (case get_at (triple_terms d) i of
            None \<Rightarrow> Inr None
          | Some (s, p, x) \<Rightarrow>
              (case decode_fuel n X d s of
                 Inl e \<Rightarrow> Inl e
               | Inr None \<Rightarrow> Inr None
               | Inr (Some st) \<Rightarrow>
                   (case (case st of NamedNode m \<Rightarrow> Some (NodeNamed m) | BlankNode b \<Rightarrow> Some (NodeBlank b) | _ \<Rightarrow> None) of
                      None \<Rightarrow> Inl (Corruption ''triple term has a non-node subject'')
                    | Some subject \<Rightarrow>
                        (case decode_fuel n X d p of
                           Inl e \<Rightarrow> Inl e
                         | Inr (Some (NamedNode predicate)) \<Rightarrow>
                             (case decode_fuel n X d x of
                                Inl e \<Rightarrow> Inl e
                              | Inr None \<Rightarrow> Inr None
                              | Inr (Some obj) \<Rightarrow> Inr (Some (Triple subject predicate obj)))
                         | Inr _ \<Rightarrow> Inl (Corruption ''triple term has a non-IRI predicate'')))))
     | _ \<Rightarrow> Inr (decode_inline X i))"

definition dict_decode :: "'dt xsd_lib \<Rightarrow> dictionary \<Rightarrow> term_id \<Rightarrow> rdf_term option res" where
  "dict_decode X d i = decode_fuel (Suc (length (triple_terms d))) X d i"

section \<open>Invariant\<close>

text \<open>A dense index space: the map is the inverse of the list, which fits the payload.\<close>

definition dense :: "'a list \<Rightarrow> ('a \<rightharpoonup> u64) \<Rightarrow> bool" where
  "dense xs m \<longleftrightarrow> length xs \<le> 2 ^ 60 \<and> (\<forall>x i. m x = Some i \<longleftrightarrow> unat i < length xs \<and> xs ! unat i = x)"

definition components_ok ::
  "'dt xsd_lib \<Rightarrow> dictionary \<Rightarrow> nat \<Rightarrow> term_id \<times> term_id \<times> term_id \<Rightarrow> bool" where
  "components_ok X d k c \<longleftrightarrow>
    (\<exists>s p x. wf_term (Triple s p x) \<and> lookup_node d s = Inr (Some (fst c))
      \<and> lookup_node d (NodeNamed p) = Inr (Some (fst (snd c)))
      \<and> dict_lookup X d x = Inr (Some (snd (snd c)))
      \<and> (id_tag (snd (snd c)) = TagTripleTerm \<longrightarrow> unat (id_payload (snd (snd c))) < k))"

definition dict_ok :: "'dt xsd_lib \<Rightarrow> dictionary \<Rightarrow> bool" where
  "dict_ok X d \<longleftrightarrow>
    dense (iris d) (iri_index d) \<and> dense (blank_nodes d) (blank_node_index d)
    \<and> dense (literals d) (literal_index d) \<and> dense (triple_terms d) (triple_term_index d)
    \<and> (\<forall>n\<in>set (iris d). encode_iri n = None) \<and> (\<forall>l\<in>set (literals d). encode_literal X l = None)
    \<and> (\<forall>k<length (triple_terms d). components_ok X d k (triple_terms d ! k))"

text \<open>One dictionary extends another when every id it had issued is still issued for the same term.\<close>

definition extends :: "dictionary \<Rightarrow> dictionary \<Rightarrow> bool" where
  "extends d d' \<longleftrightarrow> iri_index d \<subseteq>\<^sub>m iri_index d' \<and> blank_node_index d \<subseteq>\<^sub>m blank_node_index d'
    \<and> literal_index d \<subseteq>\<^sub>m literal_index d' \<and> triple_term_index d \<subseteq>\<^sub>m triple_term_index d'"

lemma extends_refl [simp]: "extends d d"
  by (simp add: extends_def)

lemma extends_trans: "extends a b \<Longrightarrow> extends b c \<Longrightarrow> extends a c"
  unfolding extends_def by (blast intro: map_le_trans)

lemma dense_Nil [simp]: "dense [] Map.empty"
  by (simp add: dense_def)

lemma dense_nth: "dense xs m \<Longrightarrow> m x = Some i \<Longrightarrow> unat i < length xs \<and> xs ! unat i = x"
  by (simp add: dense_def)

lemma dense_get:
  assumes "dense xs m" "m x = Some i" "new_id t i = Inr r"
  shows "get_at xs r = Some x"
  using assms new_id_payload [OF assms(3)] by (simp add: dense_def get_at_def)

lemma dense_new_id: "dense xs m \<Longrightarrow> m x = Some i \<Longrightarrow> \<exists>r. new_id t i = Inr r"
  by (rule new_id_ok) (auto simp: dense_def)

lemma dense_push:
  assumes "dense xs m" "m x = None" "length xs < 2 ^ 60"
  shows "dense (xs @ [x]) (m(x \<mapsto> word_of_nat (length xs)))" "m \<subseteq>\<^sub>m m(x \<mapsto> word_of_nat (length xs))"
    and "\<exists>r. new_id t (word_of_nat (length xs)) = Inr r"
proof -
  have u: "unat (word_of_nat (length xs) :: u64) = length xs"
    using assms(3) by (simp add: unat_of_nat)
  have "x \<notin> set xs"
  proof
    assume "x \<in> set xs"
    then obtain k where k: "k < length xs" "xs ! k = x" by (auto simp: in_set_conv_nth)
    then have "unat (word_of_nat k :: u64) = k" using assms(3) by (simp add: unat_of_nat)
    then have "m x = Some (word_of_nat k)" using assms(1) k by (simp add: dense_def)
    then show False using assms(2) by simp
  qed
  then have new: "unat i < length xs \<Longrightarrow> xs ! unat i \<noteq> x" for i :: u64 by (metis nth_mem)
  have eq: "unat i = length xs \<longleftrightarrow> i = word_of_nat (length xs)" for i :: u64
    using u by (metis word_unat_eq_iff)
  show "dense (xs @ [x]) (m(x \<mapsto> word_of_nat (length xs)))"
    using assms new eq by (auto simp: dense_def nth_append u less_Suc_eq)
  show "m \<subseteq>\<^sub>m m(x \<mapsto> word_of_nat (length xs))" using assms(2) by (auto simp: map_le_def)
  show "\<exists>r. new_id t (word_of_nat (length xs)) = Inr r"
    using assms(3) u by (intro new_id_ok) simp
qed

section \<open>Lookups\<close>

lemma map_sum_Some_iff [simp]: "map_sum id Some r = Inr (Some i) \<longleftrightarrow> r = Inr i"
  by (cases r) auto

lemma found_id_iff: "found_id t k = Inr (Some i) \<longleftrightarrow> (\<exists>j. k = Some j \<and> new_id t j = Inr i)"
  by (auto simp: found_id_def split: option.splits)

lemma or_found_iff: "or_found r m = Inr (Some i) \<longleftrightarrow> r = Some (Inr i) \<or> r = None \<and> m = Inr (Some i)"
  by (auto simp: or_found_def split: option.splits)

lemmas lookup_simps = lookup_node_def found_id_iff or_found_iff

lemma lookup_node_mono:
  "extends d d' \<Longrightarrow> lookup_node d n = Inr (Some i) \<Longrightarrow> lookup_node d' n = Inr (Some i)"
  by (cases n) (auto simp: extends_def lookup_simps map_le_def dom_def)

lemma lookup_Triple_iff:
  "dict_lookup X d (Triple s p x) = Inr (Some i) \<longleftrightarrow>
    (\<exists>a b c. lookup_node d s = Inr (Some a) \<and> lookup_node d (NodeNamed p) = Inr (Some b)
      \<and> dict_lookup X d x = Inr (Some c) \<and> found_id TagTripleTerm (triple_term_index d (a, b, c)) = Inr (Some i))"
  by (auto split: sum.splits option.splits)

lemma lookup_mono:
  "extends d d' \<Longrightarrow> dict_lookup X d t = Inr (Some i) \<Longrightarrow> dict_lookup X d' t = Inr (Some i)"
proof (induction t arbitrary: i)
  case (Triple s p x)
  then obtain a b c where "lookup_node d s = Inr (Some a)" "lookup_node d (NodeNamed p) = Inr (Some b)"
    "dict_lookup X d x = Inr (Some c)" "found_id TagTripleTerm (triple_term_index d (a, b, c)) = Inr (Some i)"
    unfolding lookup_Triple_iff by blast
  moreover from this Triple have "found_id TagTripleTerm (triple_term_index d' (a, b, c)) = Inr (Some i)"
    by (auto simp: found_id_iff extends_def map_le_def dom_def)
  ultimately show ?case
    unfolding lookup_Triple_iff using Triple lookup_node_mono by blast
next
  case (Literal l)
  then show ?case by (auto simp: lookup_simps extends_def map_le_def dom_def)
qed (auto simp: lookup_node_mono)

lemma components_ok_mono: "extends d d' \<Longrightarrow> components_ok X d k c \<Longrightarrow> components_ok X d' k c"
  unfolding components_ok_def by (elim exE conjE, intro exI conjI) (assumption | rule lookup_node_mono lookup_mono)+

section \<open>Decoding what was interned\<close>

lemma decode_iri_tag: "decode_iri i = Some n \<Longrightarrow> id_tag i = TagVocab"
  by (simp add: decode_iri_def split: if_splits)

lemma decode_node:
  assumes "dict_ok X d" "lookup_node d n = Inr (Some i)"
  shows "decode_fuel (Suc m) X d i = Inr (Some (node_term n))" "id_tag i \<noteq> TagTripleTerm"
proof -
  have "decode_fuel (Suc m) X d i = Inr (Some (node_term n)) \<and> id_tag i \<noteq> TagTripleTerm"
  proof (cases n)
    case (NodeNamed iri)
    with assms(2) consider "encode_iri iri = Some (Inr i)"
      | j where "iri_index d iri = Some j" "new_id TagIri j = Inr i"
      by (auto simp: lookup_simps)
    then show ?thesis
    proof cases
      case 1
      with NodeNamed encode_iri_decodes [OF 1] show ?thesis by (simp add: decode_iri_tag)
    next
      case 2
      have "get_at (iris d) i = Some iri" using assms(1) 2 by (auto simp: dict_ok_def intro: dense_get)
      with NodeNamed new_id_tag [OF 2(2)] show ?thesis by simp
    qed
  next
    case (NodeBlank b)
    with assms(2) obtain j where j: "blank_node_index d b = Some j" "new_id TagBlankNode j = Inr i"
      by (auto simp: lookup_simps)
    have "get_at (blank_nodes d) i = Some b" using assms(1) j by (auto simp: dict_ok_def intro: dense_get)
    with NodeBlank new_id_tag [OF j(2)] show ?thesis by simp
  qed
  then show "decode_fuel (Suc m) X d i = Inr (Some (node_term n))" "id_tag i \<noteq> TagTripleTerm" by blast+
qed

lemma decode_literal:
  assumes ok: "dict_ok X d" "xsd_lib_ok X" "wf_literal l" and l: "dict_lookup X d (Literal l) = Inr (Some i)"
  shows "decode_fuel (Suc m) X d i = Inr (Some (Literal l))" "id_tag i \<noteq> TagTripleTerm"
proof -
  from l consider "encode_literal X l = Some (Inr i)"
    | j where "literal_index d l = Some j" "new_id TagLiteral j = Inr i"
    by (auto simp: lookup_simps)
  then have "decode_fuel (Suc m) X d i = Inr (Some (Literal l)) \<and> id_tag i \<noteq> TagTripleTerm"
  proof cases
    case 1
    have "decode_inline X i = Some (Literal l)" by (rule inline_exact [OF ok(2,3) 1]) simp
    then show ?thesis by (cases "id_tag i") (simp_all add: decode_inline_def)
  next
    case 2
    have "get_at (literals d) i = Some l" using ok(1) 2 by (auto simp: dict_ok_def intro: dense_get)
    with new_id_tag [OF 2(2)] show ?thesis by simp
  qed
  then show "decode_fuel (Suc m) X d i = Inr (Some (Literal l))" "id_tag i \<noteq> TagTripleTerm" by blast+
qed

text \<open>The levels decoding an id can need: none for a plain term, one above its object's otherwise.\<close>

definition id_rank :: "term_id \<Rightarrow> nat" where
  "id_rank i = (if id_tag i = TagTripleTerm then Suc (unat (id_payload i)) else 0)"

lemma decode_fuel_lookup:
  assumes "dict_ok X d" "xsd_lib_ok X"
  shows "wf_term t \<Longrightarrow> dict_lookup X d t = Inr (Some i) \<Longrightarrow> id_rank i \<le> n \<Longrightarrow> decode_fuel (Suc n) X d i = Inr (Some t)"
proof (induction t arbitrary: i n)
  case (NamedNode m)
  then show ?case using decode_node(1) [OF assms(1), of "NodeNamed m" i n] by simp
next
  case (BlankNode b)
  then show ?case using decode_node(1) [OF assms(1), of "NodeBlank b" i n] by simp
next
  case (Literal l)
  then show ?case using decode_literal(1) [OF assms] by auto
next
  case (Triple s p x)
  then obtain a b c j where l: "lookup_node d s = Inr (Some a)" "lookup_node d (NodeNamed p) = Inr (Some b)"
    "dict_lookup X d x = Inr (Some c)" "triple_term_index d (a, b, c) = Some j" "new_id TagTripleTerm j = Inr i"
    unfolding lookup_Triple_iff found_id_iff by blast
  have i: "id_tag i = TagTripleTerm" "id_payload i = j" using new_id_tag new_id_payload l(5) by blast+
  have dense: "dense (triple_terms d) (triple_term_index d)" using assms(1) by (simp add: dict_ok_def)
  then have j: "unat j < length (triple_terms d)" "triple_terms d ! unat j = (a, b, c)"
    using l(4) by (auto simp: dense_def)
  then have "components_ok X d (unat j) (a, b, c)" using assms(1) by (auto simp: dict_ok_def)
  then have c: "id_rank c \<le> unat j" by (auto simp: components_ok_def id_rank_def)
  obtain m where n: "n = Suc m" "unat j \<le> m" using Triple.prems(3) i by (cases n) (auto simp: id_rank_def)
  have "decode_fuel (Suc m) X d c = Inr (Some x)"
    using Triple.IH [OF _ l(3)] Triple.prems(1) c n by auto
  moreover have "decode_fuel (Suc m) X d a = Inr (Some (node_term s))"
    "decode_fuel (Suc m) X d b = Inr (Some (node_term (NodeNamed p)))"
    using decode_node(1) [OF assms(1) l(1)] decode_node(1) [OF assms(1) l(2)] by blast+
  moreover have "get_at (triple_terms d) i = Some (a, b, c)" using i j by (simp add: get_at_def)
  ultimately show ?case
    using i(1) n by (cases s) (simp_all del: decode_fuel.simps(2) add: decode_fuel.simps(2) [of "Suc m" X d i])
qed

lemma lookup_rank:
  assumes "dict_ok X d" "xsd_lib_ok X" "wf_term t" "dict_lookup X d t = Inr (Some i)"
  shows "id_rank i \<le> length (triple_terms d)"
proof (cases t)
  case (Triple s p x)
  with assms(4) obtain c j where "triple_term_index d c = Some j" "new_id TagTripleTerm j = Inr i"
    unfolding Triple lookup_Triple_iff found_id_iff by blast
  moreover from this have "unat j < length (triple_terms d)"
    using assms(1) dense_nth [of "triple_terms d" "triple_term_index d" c j] by (simp add: dict_ok_def)
  ultimately show ?thesis using new_id_payload [of TagTripleTerm j i] by (simp add: id_rank_def)
next
  case (Literal l)
  then show ?thesis using assms decode_literal(2) by (auto simp: id_rank_def)
qed (use assms decode_node(2) in \<open>auto simp: id_rank_def\<close>)

lemma decode_lookup:
  assumes "dict_ok X d" "xsd_lib_ok X" "wf_term t" "dict_lookup X d t = Inr (Some i)"
  shows "dict_decode X d i = Inr (Some t)"
  unfolding dict_decode_def using assms by (intro decode_fuel_lookup lookup_rank)

section \<open>Interning\<close>

text \<open>What one interning call may do: keep the invariant and every issued id, and add at most \<open>k\<close> terms.\<close>

definition interned :: "'dt xsd_lib \<Rightarrow> nat \<Rightarrow> dictionary \<Rightarrow> dictionary \<Rightarrow> bool" where
  "interned X k d d' \<longleftrightarrow> dict_ok X d' \<and> extends d d' \<and> dict_len d' \<le> dict_len d + k"

lemma interned_refl: "dict_ok X d \<Longrightarrow> interned X k d d"
  by (simp add: interned_def)

lemma interned_trans: "interned X j a b \<Longrightarrow> interned X k b c \<Longrightarrow> interned X (j + k) a c"
  unfolding interned_def using extends_trans by fastforce

lemma dict_ok_grow:
  assumes "dict_ok X d" "extends d d'"
    and "dense (iris d') (iri_index d')" "dense (blank_nodes d') (blank_node_index d')"
    and "dense (literals d') (literal_index d')" "triple_terms d' = triple_terms d"
    and "triple_term_index d' = triple_term_index d"
    and "\<forall>n\<in>set (iris d'). encode_iri n = None" "\<forall>l\<in>set (literals d'). encode_literal X l = None"
  shows "dict_ok X d'"
  using assms by (simp add: dict_ok_def components_ok_mono [OF assms(2)])

lemma dict_room:
  "dict_len d < n \<Longrightarrow> length (iris d) < n \<and> length (blank_nodes d) < n \<and> length (literals d) < n \<and> length (triple_terms d) < n"
  by (simp add: dict_len_def)

lemma encode_named_node_spec:
  assumes ok: "dict_ok X d" and room: "dict_len d < 2 ^ 60"
  shows "\<exists>i d'. encode_named_node n d = (d', Inr i) \<and> lookup_node d' (NodeNamed n) = Inr (Some i) \<and> interned X 1 d d'"
proof (cases "encode_iri n")
  case (Some r)
  then obtain i where "r = Inr i" using encode_iri_ok by blast
  with Some ok show ?thesis by (simp add: encode_named_node_def lookup_simps interned_refl)
next
  case None
  have dense: "dense (iris d) (iri_index d)" using ok by (simp add: dict_ok_def)
  show ?thesis
  proof (cases "iri_index d n")
    case (Some j)
    from dense_new_id [OF dense this] obtain i where "new_id TagIri j = Inr i" ..
    with None Some ok show ?thesis by (simp add: encode_named_node_def lookup_simps interned_refl)
  next
    case new: None
    let ?w = "word_of_nat (length (iris d)) :: u64"
    let ?d = "d\<lparr>iris := iris d @ [n], iri_index := (iri_index d)(n \<mapsto> ?w)\<rparr>"
    have len: "length (iris d) < 2 ^ 60" using dict_room [OF room] by blast
    note push = dense_push [OF dense new len]
    obtain i where i: "new_id TagIri ?w = Inr i" using push(3) by blast
    have ext: "extends d ?d" using push(2) by (simp add: extends_def)
    have "dict_ok X ?d" by (rule dict_ok_grow [OF ok ext]) (use push(1) ok None in \<open>auto simp: dict_ok_def\<close>)
    with ext have "interned X 1 d ?d" by (simp add: interned_def dict_len_def)
    with None new i show ?thesis by (simp add: encode_named_node_def lookup_simps Let_def)
  qed
qed

lemma encode_blank_node_spec:
  assumes ok: "dict_ok X d" and room: "dict_len d < 2 ^ 60"
  shows "\<exists>i d'. encode_blank_node b d = (d', Inr i) \<and> lookup_node d' (NodeBlank b) = Inr (Some i) \<and> interned X 1 d d'"
proof (cases "blank_node_index d b")
  case (Some j)
  have "dense (blank_nodes d) (blank_node_index d)" using ok by (simp add: dict_ok_def)
  from dense_new_id [OF this Some] obtain i where "new_id TagBlankNode j = Inr i" ..
  with Some ok show ?thesis by (simp add: encode_blank_node_def lookup_simps interned_refl)
next
  case new: None
  have dense: "dense (blank_nodes d) (blank_node_index d)" using ok by (simp add: dict_ok_def)
  let ?w = "word_of_nat (length (blank_nodes d)) :: u64"
  let ?d = "d\<lparr>blank_nodes := blank_nodes d @ [b], blank_node_index := (blank_node_index d)(b \<mapsto> ?w)\<rparr>"
  have len: "length (blank_nodes d) < 2 ^ 60" using dict_room [OF room] by blast
  note push = dense_push [OF dense new len]
  obtain i where i: "new_id TagBlankNode ?w = Inr i" using push(3) by blast
  have ext: "extends d ?d" using push(2) by (simp add: extends_def)
  have "dict_ok X ?d" by (rule dict_ok_grow [OF ok ext]) (use push(1) ok in \<open>auto simp: dict_ok_def\<close>)
  with ext have "interned X 1 d ?d" by (simp add: interned_def dict_len_def)
  with new i show ?thesis by (simp add: encode_blank_node_def lookup_simps Let_def)
qed

lemma intern_literal_spec:
  assumes ok: "dict_ok X d" "xsd_lib_ok X" "wf_literal l" and room: "dict_len d < 2 ^ 60"
  shows "\<exists>i d'. intern_literal X l d = (d', Inr i) \<and> dict_lookup X d' (Literal l) = Inr (Some i) \<and> interned X 1 d d'"
proof (cases "encode_literal X l")
  case (Some r)
  then obtain i where "r = Inr i" using inline_exact [OF ok(2,3)] by blast
  with Some ok show ?thesis by (simp add: intern_literal_def lookup_simps interned_refl)
next
  case None
  have dense: "dense (literals d) (literal_index d)" using ok by (simp add: dict_ok_def)
  show ?thesis
  proof (cases "literal_index d l")
    case (Some j)
    from dense_new_id [OF dense this] obtain i where "new_id TagLiteral j = Inr i" ..
    with None Some ok show ?thesis by (simp add: intern_literal_def lookup_simps interned_refl)
  next
    case new: None
    let ?w = "word_of_nat (length (literals d)) :: u64"
    let ?d = "d\<lparr>literals := literals d @ [l], literal_index := (literal_index d)(l \<mapsto> ?w)\<rparr>"
    have len: "length (literals d) < 2 ^ 60" using dict_room [OF room] by blast
    note push = dense_push [OF dense new len]
    obtain i where i: "new_id TagLiteral ?w = Inr i" using push(3) by blast
    have ext: "extends d ?d" using push(2) by (simp add: extends_def)
    have "dict_ok X ?d" by (rule dict_ok_grow [OF ok(1) ext]) (use push(1) ok(1) None in \<open>auto simp: dict_ok_def\<close>)
    with ext have "interned X 1 d ?d" by (simp add: interned_def dict_len_def)
    with None new i show ?thesis by (simp add: intern_literal_def lookup_simps Let_def)
  qed
qed

lemma encode_components_spec:
  assumes ok: "dict_ok X d" and room: "dict_len d < 2 ^ 60" and c: "components_ok X d (length (triple_terms d)) c"
  shows "\<exists>i d'. encode_components c d = (d', Inr i)
    \<and> found_id TagTripleTerm (triple_term_index d' c) = Inr (Some i) \<and> interned X 1 d d'"
proof (cases "triple_term_index d c")
  case (Some j)
  have "dense (triple_terms d) (triple_term_index d)" using ok by (simp add: dict_ok_def)
  from dense_new_id [OF this Some] obtain i where "new_id TagTripleTerm j = Inr i" ..
  with Some ok show ?thesis by (simp add: encode_components_def found_id_iff interned_refl)
next
  case new: None
  have dense: "dense (triple_terms d) (triple_term_index d)" using ok by (simp add: dict_ok_def)
  let ?w = "word_of_nat (length (triple_terms d)) :: u64"
  let ?d = "d\<lparr>triple_terms := triple_terms d @ [c], triple_term_index := (triple_term_index d)(c \<mapsto> ?w)\<rparr>"
  have len: "length (triple_terms d) < 2 ^ 60" using dict_room [OF room] by blast
  note push = dense_push [OF dense new len]
  obtain i where i: "new_id TagTripleTerm ?w = Inr i" using push(3) by blast
  have ext: "extends d ?d" using push(2) by (simp add: extends_def)
  have "components_ok X ?d k (triple_terms ?d ! k)" if "k < length (triple_terms ?d)" for k
  proof (cases "k = length (triple_terms d)")
    case True
    then show ?thesis using components_ok_mono [OF ext c] by simp
  next
    case False
    with that have k: "k < length (triple_terms d)" by simp
    with ok have "components_ok X d k (triple_terms d ! k)" by (simp add: dict_ok_def)
    then show ?thesis using components_ok_mono [OF ext] k by (simp add: nth_append)
  qed
  with push(1) ok have "dict_ok X ?d" by (simp add: dict_ok_def)
  with ext have "interned X 1 d ?d" by (simp add: interned_def dict_len_def)
  with new i show ?thesis by (simp add: encode_components_def found_id_iff Let_def)
qed

text \<open>How many dictionary entries a term can need.\<close>

fun term_cost :: "rdf_term \<Rightarrow> nat" where
  "term_cost (Triple s p x) = 3 + term_cost x"
| "term_cost _ = 1"

lemma dict_encode_spec:
  assumes "xsd_lib_ok X"
  shows "dict_ok X d \<Longrightarrow> wf_term t \<Longrightarrow> dict_len d + term_cost t \<le> 2 ^ 60 \<Longrightarrow>
    \<exists>i d'. dict_encode X t d = (d', Inr i) \<and> dict_lookup X d' t = Inr (Some i) \<and> interned X (term_cost t) d d'"
proof (induction t arbitrary: d)
  case (NamedNode n)
  then show ?case using encode_named_node_spec [of X d n] by simp
next
  case (BlankNode b)
  then show ?case using encode_blank_node_spec [of X d b] by simp
next
  case (Literal l)
  then show ?case using intern_literal_spec [of X d l] assms by simp
next
  case (Triple s p x)
  have room: "dict_len d < 2 ^ 60" using Triple.prems(3) by simp
  obtain si d1 where 1: "(case s of NodeNamed n \<Rightarrow> encode_named_node n d | NodeBlank b \<Rightarrow> encode_blank_node b d) = (d1, Inr si)"
    "lookup_node d1 s = Inr (Some si)" "interned X 1 d d1"
    using encode_named_node_spec [OF Triple.prems(1) room] encode_blank_node_spec [OF Triple.prems(1) room]
    by (cases s) fastforce+
  have ok1: "dict_ok X d1" "dict_len d1 < 2 ^ 60" using 1(3) Triple.prems(3) by (auto simp: interned_def)
  obtain pi d2 where 2: "encode_named_node p d1 = (d2, Inr pi)"
    "lookup_node d2 (NodeNamed p) = Inr (Some pi)" "interned X 1 d1 d2"
    using encode_named_node_spec [OF ok1, of p] by blast
  have ok2: "dict_ok X d2" "dict_len d2 + term_cost x \<le> 2 ^ 60" using 1(3) 2(3) Triple.prems(3) by (auto simp: interned_def)
  obtain xi d3 where 3: "dict_encode X x d2 = (d3, Inr xi)"
    "dict_lookup X d3 x = Inr (Some xi)" "interned X (term_cost x) d2 d3"
    using Triple.IH [OF ok2(1) _ ok2(2)] Triple.prems(2) by auto
  have ok3: "dict_ok X d3" "dict_len d3 < 2 ^ 60" using 1(3) 2(3) 3(3) Triple.prems(3) by (auto simp: interned_def)
  have ext: "extends d1 d3" "extends d2 d3" using 2(3) 3(3) extends_trans by (auto simp: interned_def)
  have parts: "lookup_node d3 s = Inr (Some si)" "lookup_node d3 (NodeNamed p) = Inr (Some pi)"
    using lookup_node_mono ext 1(2) 2(2) by blast+
  have "id_rank xi \<le> length (triple_terms d3)"
    using lookup_rank [OF ok3(1) assms _ 3(2)] Triple.prems(2) by simp
  then have c: "components_ok X d3 (length (triple_terms d3)) (si, pi, xi)"
    using Triple.prems(2) parts 3(2) unfolding components_ok_def id_rank_def
    by (intro exI [of _ s] exI [of _ p] exI [of _ x]) (auto split: if_splits)
  obtain i d4 where 4: "encode_components (si, pi, xi) d3 = (d4, Inr i)"
    "found_id TagTripleTerm (triple_term_index d4 (si, pi, xi)) = Inr (Some i)" "interned X 1 d3 d4"
    using encode_components_spec [OF ok3 c] by blast
  have "extends d3 d4" using 4(3) by (simp add: interned_def)
  then have "dict_lookup X d4 (Triple s p x) = Inr (Some i)"
    unfolding lookup_Triple_iff using lookup_node_mono lookup_mono parts 3(2) 4(2) by blast
  moreover have "interned X (term_cost (Triple s p x)) d d4"
    using interned_trans [OF interned_trans [OF interned_trans [OF 1(3) 2(3)] 3(3)] 4(3)] by (simp add: numeral_3_eq_3)
  ultimately show ?case using 1(1) 2(1) 3(1) 4(1) by simp
qed

text \<open>A term that is already known is not interned again.\<close>

lemma encode_known:
  "dict_lookup X d t = Inr (Some i) \<Longrightarrow> dict_encode X t d = (d, Inr i)"
proof (induction t arbitrary: i)
  case (Triple s p x)
  then obtain a b c where l: "lookup_node d s = Inr (Some a)" "lookup_node d (NodeNamed p) = Inr (Some b)"
    "dict_lookup X d x = Inr (Some c)" "found_id TagTripleTerm (triple_term_index d (a, b, c)) = Inr (Some i)"
    unfolding lookup_Triple_iff by blast
  have node: "lookup_node d (NodeNamed n) = Inr (Some k) \<Longrightarrow> encode_named_node n d = (d, Inr k)"
    "lookup_node d (NodeBlank m) = Inr (Some k) \<Longrightarrow> encode_blank_node m d = (d, Inr k)" for n m k
    by (auto simp: lookup_simps encode_named_node_def encode_blank_node_def)
  show ?case
    using l Triple.IH [OF l(3)] node by (cases s) (auto simp: encode_components_def found_id_iff)
qed (auto simp: lookup_simps encode_named_node_def encode_blank_node_def intern_literal_def)

lemma dict_ok_new [simp]: "dict_ok X new_dictionary" "dict_len new_dictionary = 0"
  by (simp_all add: dict_ok_def new_dictionary_def dict_len_def)

section \<open>The contract of a term store\<close>

fun encode_all :: "(rdf_term \<Rightarrow> 'd \<Rightarrow> 'd \<times> term_id res) \<Rightarrow> rdf_term list \<Rightarrow> 'd \<Rightarrow> 'd \<times> term_id res list" where
  "encode_all enc [] d = (d, [])"
| "encode_all enc (t # ts) d =
    (case enc t d of (d1, r) \<Rightarrow> case encode_all enc ts d1 of (d2, rs) \<Rightarrow> (d2, r # rs))"

locale term_interner =
  fixes enc :: "rdf_term \<Rightarrow> 'd \<Rightarrow> 'd \<times> term_id res"
    and look :: "'d \<Rightarrow> rdf_term \<Rightarrow> term_id option res"
    and dec :: "'d \<Rightarrow> term_id \<Rightarrow> rdf_term option res"
    and ok :: "'d \<Rightarrow> bool"
    and used :: "'d \<Rightarrow> nat"
  assumes enc_interns: "ok d \<Longrightarrow> wf_term t \<Longrightarrow> used d + term_cost t \<le> 2 ^ 60 \<Longrightarrow>
      \<exists>i d'. enc t d = (d', Inr i) \<and> look d' t = Inr (Some i) \<and> ok d' \<and> used d' \<le> used d + term_cost t
        \<and> (\<forall>u j. look d u = Inr (Some j) \<longrightarrow> look d' u = Inr (Some j))"
    and dec_look: "ok d \<Longrightarrow> wf_term t \<Longrightarrow> look d t = Inr (Some i) \<Longrightarrow> dec d i = Inr (Some t)"
    and enc_known: "look d t = Inr (Some i) \<Longrightarrow> enc t d = (d, Inr i)"
begin

lemma look_inject:
  "ok d \<Longrightarrow> wf_term t \<Longrightarrow> wf_term u \<Longrightarrow> look d t = Inr (Some i) \<Longrightarrow> look d u = Inr (Some i) \<Longrightarrow> t = u"
  using dec_look [of d t i] dec_look [of d u i] by simp

lemma encode_all_interns:
  "ok d \<Longrightarrow> \<forall>t\<in>set ts. wf_term t \<Longrightarrow> used d + sum_list (map term_cost ts) \<le> 2 ^ 60 \<Longrightarrow>
    \<exists>d' ids. encode_all enc ts d = (d', map Inr ids) \<and> length ids = length ts \<and> ok d'
      \<and> (\<forall>k<length ts. look d' (ts ! k) = Inr (Some (ids ! k)))
      \<and> (\<forall>u j. look d u = Inr (Some j) \<longrightarrow> look d' u = Inr (Some j))"
proof (induction ts arbitrary: d)
  case (Cons t ts)
  obtain i d1 where 1: "enc t d = (d1, Inr i)" "look d1 t = Inr (Some i)" "ok d1" "used d1 \<le> used d + term_cost t"
    "\<forall>u j. look d u = Inr (Some j) \<longrightarrow> look d1 u = Inr (Some j)"
    using enc_interns [of d t] Cons.prems by auto
  obtain d2 ids where 2: "encode_all enc ts d1 = (d2, map Inr ids)" "length ids = length ts" "ok d2"
    "\<forall>k<length ts. look d2 (ts ! k) = Inr (Some (ids ! k))"
    "\<forall>u j. look d1 u = Inr (Some j) \<longrightarrow> look d2 u = Inr (Some j)"
    using Cons.IH [of d1] Cons.prems 1 by auto
  have "look d2 ((t # ts) ! k) = Inr (Some ((i # ids) ! k))" if "k < length (t # ts)" for k
    using that 1(2) 2(4,5) by (cases k) auto
  moreover have "encode_all enc (t # ts) d = (d2, map Inr (i # ids))" using 1 2 by simp
  ultimately show ?case using 1(5) 2(2,3,5) by (intro exI [of _ d2] exI [of _ "i # ids"]) auto
qed simp

lemma encode_all_identifies:
  assumes "ok d" "\<forall>t\<in>set ts. wf_term t" "used d + sum_list (map term_cost ts) \<le> 2 ^ 60"
  shows "\<exists>d' ids. encode_all enc ts d = (d', map Inr ids) \<and> length ids = length ts \<and> ok d'
    \<and> (\<forall>k<length ts. look d' (ts ! k) = Inr (Some (ids ! k)) \<and> dec d' (ids ! k) = Inr (Some (ts ! k))
        \<and> (\<forall>j<length ts. ids ! j = ids ! k \<longleftrightarrow> ts ! j = ts ! k))"
proof -
  obtain d' ids where e: "encode_all enc ts d = (d', map Inr ids)" "length ids = length ts" "ok d'"
    "\<forall>k<length ts. look d' (ts ! k) = Inr (Some (ids ! k))"
    using encode_all_interns [OF assms] by blast
  have "dec d' (ids ! k) = Inr (Some (ts ! k))" if "k < length ts" for k
    using dec_look e(3,4) assms(2) that by simp
  moreover have "ids ! j = ids ! k \<longleftrightarrow> ts ! j = ts ! k" if "k < length ts" "j < length ts" for j k
    using dec_look [OF e(3)] e(4) assms(2) that by (metis nth_mem old.sum.inject(2) option.inject)
  ultimately show ?thesis using e by blast
qed

end

interpretation dict: term_interner "dict_encode X" "dict_lookup X" "dict_decode X"
  "\<lambda>d. xsd_lib_ok X \<and> dict_ok X d" dict_len for X
proof
  fix d t i
  show "xsd_lib_ok X \<and> dict_ok X d \<Longrightarrow> wf_term t \<Longrightarrow> dict_lookup X d t = Inr (Some i) \<Longrightarrow> dict_decode X d i = Inr (Some t)"
    using decode_lookup by blast
  show "dict_lookup X d t = Inr (Some i) \<Longrightarrow> dict_encode X t d = (d, Inr i)" by (rule encode_known)
next
  fix d t assume "xsd_lib_ok X \<and> dict_ok X d" "wf_term t" "dict_len d + term_cost t \<le> 2 ^ 60"
  then show "\<exists>i d'. dict_encode X t d = (d', Inr i) \<and> dict_lookup X d' t = Inr (Some i) \<and> (xsd_lib_ok X \<and> dict_ok X d')
      \<and> dict_len d' \<le> dict_len d + term_cost t \<and> (\<forall>u j. dict_lookup X d u = Inr (Some j) \<longrightarrow> dict_lookup X d' u = Inr (Some j))"
    using dict_encode_spec [of X d t] lookup_mono [of d _ X] unfolding interned_def by fast
qed

text \<open>Every stored triple term is one that was interned, so decoding any id whatever returns.\<close>

lemma stored_triple_term:
  assumes ok: "dict_ok X d" and i: "id_tag i = TagTripleTerm" "unat (id_payload i) < length (triple_terms d)"
  shows "\<exists>t. wf_term t \<and> dict_lookup X d t = Inr (Some i)"
proof -
  let ?k = "unat (id_payload i)"
  obtain a b c where c: "triple_terms d ! ?k = (a, b, c)" by (rule prod_cases3)
  have "components_ok X d ?k (a, b, c)" using ok i(2) c unfolding dict_ok_def by metis
  then obtain s p x where t: "wf_term (Triple s p x)" "lookup_node d s = Inr (Some a)"
    "lookup_node d (NodeNamed p) = Inr (Some b)" "dict_lookup X d x = Inr (Some c)"
    unfolding components_ok_def by auto
  have "dense (triple_terms d) (triple_term_index d)" using ok by (simp add: dict_ok_def)
  then have "triple_term_index d (a, b, c) = Some (id_payload i)" using i(2) c by (simp add: dense_def)
  moreover have "new_id TagTripleTerm (id_payload i) = Inr i" using new_id_of_parts [of i] i(1) by simp
  ultimately have "dict_lookup X d (Triple s p x) = Inr (Some i)"
    unfolding lookup_Triple_iff found_id_iff using t(2-4) by blast
  with t(1) show ?thesis by blast
qed

lemma decode_total:
  assumes "xsd_lib_ok X" "dict_ok X d"
  shows "\<exists>r. dict_decode X d i = Inr r
    \<and> (is_dictionary_backed (id_tag i) \<or> id_tag i = TagTripleTerm \<longrightarrow> (r \<noteq> None \<longleftrightarrow> unat (id_payload i) < count_for d (id_tag i)))"
proof (cases "id_tag i = TagTripleTerm")
  case True
  show ?thesis
  proof (cases "unat (id_payload i) < length (triple_terms d)")
    case stored: True
    then show ?thesis
      using stored_triple_term [OF assms(2) True stored] decode_lookup [OF assms(2,1)] True
      by (auto simp: count_for_def)
  next
    case False
    then show ?thesis using True by (simp add: dict_decode_def get_at_def count_for_def)
  qed
next
  case False
  then show ?thesis
    by (cases "id_tag i") (simp_all add: dict_decode_def get_at_def count_for_def)
qed

section \<open>Properties\<close>

text \<open>
  C22. Interning any list of well-formed terms into an empty dictionary succeeds while the payload
  space lasts; afterwards each term is found under the id it was given, each id decodes to its
  term, and two terms share an id exactly when they are equal.
\<close>

theorem dictionary_round_trip:
  assumes "xsd_lib_ok X" "\<forall>t\<in>set ts. wf_term t" "sum_list (map term_cost ts) \<le> 2 ^ 60"
  shows "\<exists>d ids. encode_all (dict_encode X) ts new_dictionary = (d, map Inr ids) \<and> length ids = length ts
    \<and> (\<forall>k<length ts. dict_lookup X d (ts ! k) = Inr (Some (ids ! k)) \<and> dict_decode X d (ids ! k) = Inr (Some (ts ! k))
        \<and> (\<forall>j<length ts. ids ! j = ids ! k \<longleftrightarrow> ts ! j = ts ! k))"
  using dict.encode_all_identifies [of X new_dictionary ts] assms by auto

theorem dictionary_round_trip_witness:
  "\<exists>d ids. encode_all (dict_encode demo_lib)
        [NamedNode ''urn:a'', Triple (NodeBlank ''b'') ''urn:p'' (Triple (NodeNamed ''urn:a'') ''urn:q'' (Literal (SimpleLit ''xyz'')))]
        new_dictionary = (d, map Inr ids)
      \<and> dict_decode demo_lib d (ids ! 1) =
        Inr (Some (Triple (NodeBlank ''b'') ''urn:p'' (Triple (NodeNamed ''urn:a'') ''urn:q'' (Literal (SimpleLit ''xyz'')))))"
proof -
  let ?ts = "[NamedNode ''urn:a'', Triple (NodeBlank ''b'') ''urn:p'' (Triple (NodeNamed ''urn:a'') ''urn:q'' (Literal (SimpleLit ''xyz'')))]"
  have "\<forall>t\<in>set ?ts. wf_term t" by code_simp
  from dictionary_round_trip [OF demo_lib_ok this] show ?thesis by auto
qed

text \<open>
  C23. In a dictionary reached by interning, decoding any identifier at all returns without an
  error: the recursion through stored triple terms ends and meets no corrupt entry; and for a
  dictionary-backed tag or a triple term a term comes back exactly when the payload is below the number of ids
  issued for that tag.
\<close>

theorem dictionary_decode_total:
  assumes "xsd_lib_ok X" "\<forall>t\<in>set ts. wf_term t" "sum_list (map term_cost ts) \<le> 2 ^ 60"
    and "d = fst (encode_all (dict_encode X) ts new_dictionary)"
  shows "\<exists>r. dict_decode X d i = Inr r
    \<and> (is_dictionary_backed (id_tag i) \<or> id_tag i = TagTripleTerm \<longrightarrow> (r \<noteq> None \<longleftrightarrow> unat (id_payload i) < count_for d (id_tag i)))"
proof -
  have "dict_ok X d" using dict.encode_all_interns [of X new_dictionary ts] assms by auto
  then show ?thesis using decode_total assms(1) by blast
qed

theorem dictionary_decode_total_witness:
  "\<exists>r. dict_decode demo_lib (fst (encode_all (dict_encode demo_lib) [Triple (NodeBlank ''b'') ''urn:p'' (BlankNode ''b'')] new_dictionary))
      (TermId 0x8000000000000000) = Inr r"
proof -
  let ?ts = "[Triple (NodeBlank ''b'') ''urn:p'' (BlankNode ''b'')]"
  have w: "\<forall>t\<in>set ?ts. wf_term t" by code_simp
  have c: "sum_list (map term_cost ?ts) \<le> 2 ^ 60" by simp
  show ?thesis using dictionary_decode_total [OF demo_lib_ok w c refl, of "TermId 0x8000000000000000"] by blast
qed

text \<open>
  Interning a term that the dictionary already knows changes nothing and returns the same id.
\<close>

lemma dictionary_encode_idempotent:
  assumes "dict_lookup X d t = Inr (Some i)"
  shows "dict_encode X t d = (d, Inr i)"
  using assms by (rule dict.enc_known)

end
