(* ===== verification/Memory_Storage.thy ===== *)
theory Memory_Storage
  imports Quad_Scans Dictionary
begin

text \<open>
  The in-memory storage tier, \<^verbatim>\<open>holos-store/src/memory.rs\<close>, with the default methods of the trait it
  implements, \<^verbatim>\<open>holos-store/src/storage.rs\<close>. The state is the dictionary, the index, the predicate
  counts (a hash map, as an association list), the undo journal of the open commit scope, the
  generation counter and the statistics snapshot. Every trait method is one definition; a \<open>&mut self\<close>
  method returns the new state beside its result.

  The storage keeps the contract \<open>quad_store\<close> of the index, and the locale \<open>scoped_store\<close> adds commit
  scopes: whatever is written between \<open>begin\<close> and \<open>rollback\<close> is undone.
\<close>

section \<open>State\<close>

datatype undo_entry =
    Inserted encoded_quad
  | Removed encoded_quad
  | GraphCreated term_id
  | GraphDropped term_id

record memory_storage =
  ms_dictionary :: dictionary
  ms_index :: quad_index
  predicate_counts :: "(term_id \<times> u64) list"
  undo :: "undo_entry list option"
  generation :: u64
  generation_at_begin :: u64
  statistics :: "byte list option"

definition new_memory :: memory_storage where
  "new_memory = \<lparr>ms_dictionary = new_dictionary, ms_index = new_index, predicate_counts = [],
    undo = None, generation = 0, generation_at_begin = 0, statistics = None\<rparr>"

definition record_undo :: "undo_entry \<Rightarrow> memory_storage \<Rightarrow> memory_storage" where
  "record_undo e st = (case undo st of None \<Rightarrow> st | Some j \<Rightarrow> st\<lparr>undo := Some (j @ [e])\<rparr>)"

definition bump :: "term_id \<Rightarrow> (term_id \<times> u64) list \<Rightarrow> (term_id \<times> u64) list" where
  "bump p pc = AList.update p ((case map_of pc p of None \<Rightarrow> 0 | Some n \<Rightarrow> n) + 1) pc"

definition decrement_counts :: "term_id \<Rightarrow> (term_id \<times> u64) list \<Rightarrow> (term_id \<times> u64) list" where
  "decrement_counts p pc =
    (case map_of pc p of
       None \<Rightarrow> pc
     | Some n \<Rightarrow> if n - 1 = 0 then AList.delete p (AList.update p (n - 1) pc) else AList.update p (n - 1) pc)"

definition decrement :: "term_id \<Rightarrow> memory_storage \<Rightarrow> memory_storage" where
  "decrement p st = st\<lparr>predicate_counts := decrement_counts p (predicate_counts st)\<rparr>"

section \<open>Dictionary methods\<close>

definition mem_encode :: "'dt xsd_lib \<Rightarrow> rdf_term \<Rightarrow> memory_storage \<Rightarrow> memory_storage \<times> term_id res" where
  "mem_encode X t st = (case dict_encode X t (ms_dictionary st) of (d, r) \<Rightarrow> (st\<lparr>ms_dictionary := d\<rparr>, r))"

definition mem_lookup :: "'dt xsd_lib \<Rightarrow> memory_storage \<Rightarrow> rdf_term \<Rightarrow> term_id option res" where
  "mem_lookup X st t = dict_lookup X (ms_dictionary st) t"

definition mem_decode :: "'dt xsd_lib \<Rightarrow> memory_storage \<Rightarrow> term_id \<Rightarrow> rdf_term option res" where
  "mem_decode X st i = dict_decode X (ms_dictionary st) i"

definition mem_dictionary_len :: "memory_storage \<Rightarrow> nat" where
  "mem_dictionary_len st = dict_len (ms_dictionary st)"

definition mem_dictionary_count_for :: "memory_storage \<Rightarrow> tag \<Rightarrow> nat" where
  "mem_dictionary_count_for st t = count_for (ms_dictionary st) t"

text \<open>Default methods of the trait.\<close>

definition lookup_many :: "(rdf_term \<Rightarrow> term_id option res) \<Rightarrow> rdf_term list \<Rightarrow> term_id option list res" where
  "lookup_many look ts = collect_res (map look ts)"

fun for_each_in_range ::
  "(term_id \<Rightarrow> rdf_term option res) \<Rightarrow> tag \<Rightarrow> nat \<Rightarrow> nat \<Rightarrow> (term_id \<Rightarrow> rdf_term \<Rightarrow> 'a \<Rightarrow> 'a \<times> unit res) \<Rightarrow> 'a \<Rightarrow> 'a \<times> unit res" where
  "for_each_in_range dec t from 0 f acc = (acc, Inr ())"
| "for_each_in_range dec t from (Suc n) f acc =
    (case new_id t (word_of_nat from) of
       Inl e \<Rightarrow> (acc, Inl e)
     | Inr i \<Rightarrow>
         (case dec i of
            Inl e \<Rightarrow> (acc, Inl e)
          | Inr None \<Rightarrow> for_each_in_range dec t (Suc from) n f acc
          | Inr (Some u) \<Rightarrow>
              (case f i u acc of
                 (acc1, Inl e) \<Rightarrow> (acc1, Inl e)
               | (acc1, Inr _) \<Rightarrow> for_each_in_range dec t (Suc from) n f acc1)))"

definition default_quads_with_object_in ::
  "(term_id option \<Rightarrow> term_id option \<Rightarrow> term_id option \<Rightarrow> graph_filter \<Rightarrow> quad_scan)
    \<Rightarrow> term_id option \<Rightarrow> term_id option \<Rightarrow> id_range \<Rightarrow> graph_filter \<Rightarrow> quad_scan" where
  "default_quads_with_object_in scan s p span g =
    filter (\<lambda>r. case r of Inr q \<Rightarrow> span_contains span (enc_object q) | Inl _ \<Rightarrow> True) (scan s p None g)"

definition default_checkpoint :: "string \<Rightarrow> unit res" where
  "default_checkpoint destination = Inl (Unsupported ''this storage backend cannot take a checkpoint'')"

section \<open>Quad methods\<close>

definition mem_insert_encoded :: "encoded_quad \<Rightarrow> memory_storage \<Rightarrow> memory_storage \<times> bool res" where
  "mem_insert_encoded q st =
    (let new_graph =
        (case enc_graph q of
           Some g \<Rightarrow> if undo st \<noteq> None then map_sum id Not (index_contains_named_graph (ms_index st) g) else Inr False
         | None \<Rightarrow> Inr False);
         finish = (\<lambda>st. let st1 = record_undo (Inserted q) st in (st1\<lparr>generation := generation st1 + 1\<rparr>, Inr True))
     in case new_graph of
       Inl e \<Rightarrow> (st, Inl e)
     | Inr new_graph \<Rightarrow>
         (case index_insert q (ms_index st) of
            (ix, Inl e) \<Rightarrow> (st\<lparr>ms_index := ix\<rparr>, Inl e)
          | (ix, Inr fresh) \<Rightarrow>
              if fresh then
                (let st1 = st\<lparr>ms_index := ix, predicate_counts := bump (enc_predicate q) (predicate_counts st)\<rparr> in
                 case enc_graph q of
                   None \<Rightarrow> finish st1
                 | Some g \<Rightarrow>
                     (case index_insert_named_graph g (ms_index st1) of
                        (ix2, Inl e) \<Rightarrow> (st1\<lparr>ms_index := ix2\<rparr>, Inl e)
                      | (ix2, Inr _) \<Rightarrow>
                          (let st2 = st1\<lparr>ms_index := ix2\<rparr> in
                           finish (if new_graph then record_undo (GraphCreated g) st2 else st2))))
              else (st\<lparr>ms_index := ix\<rparr>, Inr False)))"

definition mem_remove_encoded :: "encoded_quad \<Rightarrow> memory_storage \<Rightarrow> memory_storage \<times> bool res" where
  "mem_remove_encoded q st =
    (case index_remove q (ms_index st) of
       (ix, Inl e) \<Rightarrow> (st\<lparr>ms_index := ix\<rparr>, Inl e)
     | (ix, Inr found) \<Rightarrow>
         if found then
           (let st1 = record_undo (Removed q) (decrement (enc_predicate q) (st\<lparr>ms_index := ix\<rparr>))
            in (st1\<lparr>generation := generation st1 + 1\<rparr>, Inr True))
         else (st\<lparr>ms_index := ix\<rparr>, Inr False))"

text \<open>\<open>iter.next().transpose()?.is_some()\<close>.\<close>

definition mem_contains_encoded :: "memory_storage \<Rightarrow> encoded_quad \<Rightarrow> bool res" where
  "mem_contains_encoded st q =
    (case index_quads_for_pattern (ms_index st) (Some (enc_subject q)) (Some (enc_predicate q)) (Some (enc_object q))
        (case enc_graph q of Some g \<Rightarrow> FilterNamed g | None \<Rightarrow> FilterDefault) of
       [] \<Rightarrow> Inr False
     | Inl e # _ \<Rightarrow> Inl e
     | Inr _ # _ \<Rightarrow> Inr True)"

definition mem_scan ::
  "memory_storage \<Rightarrow> term_id option \<Rightarrow> term_id option \<Rightarrow> term_id option \<Rightarrow> graph_filter \<Rightarrow> quad_scan" where
  "mem_scan st s p x g = index_quads_for_pattern (ms_index st) s p x g"

definition mem_len :: "memory_storage \<Rightarrow> nat" where
  "mem_len st = index_len (ms_index st)"

definition mem_insert_named_graph :: "term_id \<Rightarrow> memory_storage \<Rightarrow> memory_storage \<times> bool res" where
  "mem_insert_named_graph g st =
    (case index_contains_named_graph (ms_index st) g of
       Inl e \<Rightarrow> (st, Inl e)
     | Inr known \<Rightarrow>
         (let st1 = (if \<not> known then record_undo (GraphCreated g) st else st) in
          case index_insert_named_graph g (ms_index st1) of (ix, r) \<Rightarrow> (st1\<lparr>ms_index := ix\<rparr>, r)))"

definition mem_remove_named_graph :: "term_id \<Rightarrow> memory_storage \<Rightarrow> memory_storage \<times> bool res" where
  "mem_remove_named_graph g st =
    (case collect_res (index_quads_for_pattern (ms_index st) None None None (FilterNamed g)) of
       Inl e \<Rightarrow> (st, Inl e)
     | Inr doomed \<Rightarrow>
         (let st1 = foldl (\<lambda>st q. record_undo (Removed q) st) st doomed;
              st2 = foldl (\<lambda>st q. decrement (enc_predicate q) st) st1 doomed
          in case index_contains_named_graph (ms_index st2) g of
               Inl e \<Rightarrow> (st2, Inl e)
             | Inr known \<Rightarrow>
                 (let st3 = (if known then record_undo (GraphDropped g) st2 else st2) in
                  case index_remove_named_graph g (ms_index st3) of (ix, r) \<Rightarrow> (st3\<lparr>ms_index := ix\<rparr>, r))))"

definition mem_quads_with_object_in ::
  "memory_storage \<Rightarrow> term_id option \<Rightarrow> term_id option \<Rightarrow> id_range \<Rightarrow> graph_filter \<Rightarrow> quad_scan" where
  "mem_quads_with_object_in st s p span g = index_quads_with_object_in (ms_index st) s p span g"

definition mem_contains_named_graph :: "memory_storage \<Rightarrow> term_id \<Rightarrow> bool res" where
  "mem_contains_named_graph st g = index_contains_named_graph (ms_index st) g"

definition mem_named_graphs :: "memory_storage \<Rightarrow> term_id list res" where
  "mem_named_graphs st = collect_res (index_named_graphs (ms_index st))"

definition predicate_count :: "memory_storage \<Rightarrow> term_id \<Rightarrow> u64" where
  "predicate_count st p = (case map_of (predicate_counts st) p of None \<Rightarrow> 0 | Some n \<Rightarrow> n)"

text \<open>Most frequent first, ties by id: \<open>sort_unstable_by\<close> on a key that is distinct.\<close>

definition histogram_key :: "term_id \<times> u64 \<Rightarrow> int \<times> term_id" where
  "histogram_key e = (- uint (snd e), fst e)"

definition predicate_histogram :: "memory_storage \<Rightarrow> (term_id \<times> u64) list" where
  "predicate_histogram st = sort_key histogram_key (predicate_counts st)"

definition mem_flush :: "memory_storage \<Rightarrow> memory_storage \<times> unit res" where
  "mem_flush st = (st, Inr ())"

definition mem_save_statistics :: "byte list \<Rightarrow> memory_storage \<Rightarrow> memory_storage \<times> unit res" where
  "mem_save_statistics bytes st = (st\<lparr>statistics := Some bytes\<rparr>, Inr ())"

definition mem_load_statistics :: "memory_storage \<Rightarrow> byte list option res" where
  "mem_load_statistics st = Inr (statistics st)"

section \<open>Commit scopes\<close>

definition mem_begin :: "memory_storage \<Rightarrow> memory_storage \<times> unit res" where
  "mem_begin st =
    (if undo st \<noteq> None then
       (st, Inl (Corruption ''a commit scope is already open; nesting them would read as two commits and be one''))
     else (st\<lparr>undo := Some [], generation_at_begin := generation st\<rparr>, Inr ()))"

definition mem_commit :: "memory_storage \<Rightarrow> memory_storage \<times> unit res" where
  "mem_commit st =
    (if undo st = None then (st\<lparr>undo := None\<rparr>, Inl (Corruption ''no commit scope is open''))
     else (st\<lparr>undo := None\<rparr>, Inr ()))"

fun undo_entry_step :: "undo_entry \<Rightarrow> memory_storage \<Rightarrow> memory_storage \<times> bool res" where
  "undo_entry_step (Inserted q) st = mem_remove_encoded q st"
| "undo_entry_step (Removed q) st = mem_insert_encoded q st"
| "undo_entry_step (GraphCreated g) st = mem_remove_named_graph g st"
| "undo_entry_step (GraphDropped g) st = mem_insert_named_graph g st"

definition mem_rollback :: "memory_storage \<Rightarrow> memory_storage" where
  "mem_rollback st =
    (case undo st of
       None \<Rightarrow> st
     | Some entries \<Rightarrow>
         (let st1 = foldl (\<lambda>st e. fst (undo_entry_step e st)) (st\<lparr>undo := None\<rparr>) (rev entries)
          in st1\<lparr>generation := generation_at_begin st1\<rparr>))"

definition mem_in_scope :: "memory_storage \<Rightarrow> bool" where
  "mem_in_scope st \<longleftrightarrow> undo st \<noteq> None"

section \<open>Writes as one step function\<close>

fun mem_step :: "quad_write \<Rightarrow> memory_storage \<Rightarrow> memory_storage \<times> bool res" where
  "mem_step (InsertQuad q) st = mem_insert_encoded q st"
| "mem_step (RemoveQuad q) st = mem_remove_encoded q st"
| "mem_step (CreateGraph g) st = mem_insert_named_graph g st"
| "mem_step (DropGraph g) st = mem_remove_named_graph g st"

definition mem_view :: "memory_storage \<Rightarrow> dataset" where
  "mem_view st = index_view (ms_index st)"

definition mem_index_ok :: "memory_storage \<Rightarrow> bool" where
  "mem_index_ok st \<longleftrightarrow> index_ok (ms_index st)"

fun inverse_write :: "undo_entry \<Rightarrow> quad_write" where
  "inverse_write (Inserted q) = RemoveQuad q"
| "inverse_write (Removed q) = InsertQuad q"
| "inverse_write (GraphCreated g) = DropGraph g"
| "inverse_write (GraphDropped g) = CreateGraph g"

lemma undo_entry_step_eq: "undo_entry_step e st = mem_step (inverse_write e) st"
  by (cases e) simp_all

text \<open>The journal entries a write leaves, given the dataset before it and the quads a drop removes.\<close>

fun journal_of :: "quad_write \<Rightarrow> dataset \<Rightarrow> encoded_quad list \<Rightarrow> undo_entry list" where
  "journal_of (InsertQuad q) (Q, G) ds =
    (if q \<in> Q then [] else (case enc_graph q of Some g \<Rightarrow> if g \<in> G then [] else [GraphCreated g] | None \<Rightarrow> []) @ [Inserted q])"
| "journal_of (RemoveQuad q) (Q, G) ds = (if q \<in> Q then [Removed q] else [])"
| "journal_of (CreateGraph g) (Q, G) ds = (if g \<in> G then [] else [GraphCreated g])"
| "journal_of (DropGraph g) (Q, G) ds = map Removed ds @ (if g \<in> G then [GraphDropped g] else [])"

fun counts_after :: "quad_write \<Rightarrow> dataset \<Rightarrow> encoded_quad list \<Rightarrow> (term_id \<times> u64) list \<Rightarrow> (term_id \<times> u64) list" where
  "counts_after (InsertQuad q) (Q, G) ds pc = (if q \<in> Q then pc else bump (enc_predicate q) pc)"
| "counts_after (RemoveQuad q) (Q, G) ds pc = (if q \<in> Q then decrement_counts (enc_predicate q) pc else pc)"
| "counts_after (CreateGraph g) (Q, G) ds pc = pc"
| "counts_after (DropGraph g) (Q, G) ds pc = foldl (\<lambda>pc q. decrement_counts (enc_predicate q) pc) pc ds"

fun generation_after :: "quad_write \<Rightarrow> dataset \<Rightarrow> u64 \<Rightarrow> u64" where
  "generation_after (InsertQuad q) (Q, G) n = (if q \<in> Q then n else n + 1)"
| "generation_after (RemoveQuad q) (Q, G) n = (if q \<in> Q then n + 1 else n)"
| "generation_after _ _ n = n"

lemma record_undo_sel [simp]:
  "ms_index (record_undo e st) = ms_index st" "predicate_counts (record_undo e st) = predicate_counts st"
  "generation (record_undo e st) = generation st" "generation_at_begin (record_undo e st) = generation_at_begin st"
  "ms_dictionary (record_undo e st) = ms_dictionary st" "statistics (record_undo e st) = statistics st"
  "undo (record_undo e st) = map_option (\<lambda>j. j @ [e]) (undo st)"
  by (auto simp: record_undo_def split: option.splits)

lemma decrement_sel [simp]:
  "ms_index (decrement p st) = ms_index st" "predicate_counts (decrement p st) = decrement_counts p (predicate_counts st)"
  "generation (decrement p st) = generation st" "generation_at_begin (decrement p st) = generation_at_begin st"
  "ms_dictionary (decrement p st) = ms_dictionary st" "statistics (decrement p st) = statistics st"
  "undo (decrement p st) = undo st"
  by (simp_all add: decrement_def)

lemma foldl_record_undo:
  "foldl (\<lambda>st q. record_undo (Removed q) st) st qs = st\<lparr>undo := map_option (\<lambda>j. j @ map Removed qs) (undo st)\<rparr>"
proof (induction qs arbitrary: st)
  case (Cons q qs)
  show ?case unfolding foldl_Cons Cons.IH by (cases "undo st") (auto simp: record_undo_def)
qed (simp add: option.map_ident)

lemma foldl_decrement:
  "foldl (\<lambda>st q. decrement (enc_predicate q) st) st qs =
    st\<lparr>predicate_counts := foldl (\<lambda>pc q. decrement_counts (enc_predicate q) pc) (predicate_counts st) qs\<rparr>"
  by (induction qs arbitrary: st) (simp_all add: decrement_def)

lemma index_insert_known: "index_ok ix \<Longrightarrow> q \<in> index_quads ix \<Longrightarrow> fst (index_insert q ix) = ix"
  using index_ok_graph [of ix q]
  by (intro index_ext) (auto simp: index_write_specs)

lemma index_remove_unknown: "index_ok ix \<Longrightarrow> q \<notin> index_quads ix \<Longrightarrow> fst (index_remove q ix) = ix"
  by (intro index_ext) (auto simp: index_write_specs)

lemma index_graph_known: "index_ok ix \<Longrightarrow> g \<in> index_graphs ix \<Longrightarrow> fst (index_insert_named_graph g ix) = ix"
  by (intro index_ext) (auto simp: index_write_specs)

lemma index_insert_graph_known:
  "index_ok ix \<Longrightarrow> enc_graph q = Some g \<Longrightarrow>
    fst (index_insert_named_graph g (fst (index_insert q ix))) = fst (index_insert q ix)"
  by (rule index_graph_known) (simp_all add: index_write_specs)

text \<open>Every write changes the state by the index step, the counts, the journal and the generation only.\<close>

lemma mem_step_eq:
  assumes ok: "mem_index_ok st"
  shows "\<exists>ds. distinct ds \<and> (\<forall>g. w = DropGraph g \<longrightarrow> set ds = {q \<in> fst (mem_view st). enc_graph q = Some g})
    \<and> mem_step w st =
      (st\<lparr>ms_index := fst (index_step w (ms_index st)),
          predicate_counts := counts_after w (mem_view st) ds (predicate_counts st),
          undo := map_option (\<lambda>j. j @ journal_of w (mem_view st) ds) (undo st),
          generation := generation_after w (mem_view st) (generation st)\<rparr>,
       snd (index_step w (ms_index st)))"
proof (cases w)
  case (InsertQuad q)
  obtain ix r where r: "index_insert q (ms_index st) = (ix, r)" by force
  have r': "r = Inr (q \<notin> index_quads (ms_index st))"
    using index_insert_result [of "ms_index st" q] ok r by (simp add: mem_index_ok_def)
  show ?thesis
  proof (cases "q \<in> index_quads (ms_index st)")
    case True
    with ok r r' InsertQuad show ?thesis
      by (intro exI [of _ "[]"])
        (cases "undo st"; cases "enc_graph q"; simp add: mem_insert_encoded_def Let_def mem_view_def index_view_def
          mem_index_ok_def index_contains_named_graph_def)
  next
    case False
    show ?thesis
    proof (cases "enc_graph q")
      case None
      with False r r' InsertQuad show ?thesis
        by (intro exI [of _ "[]"])
          (cases "undo st"; simp add: mem_insert_encoded_def Let_def mem_view_def index_view_def record_undo_def)
    next
      case (Some g)
      obtain ix2 r2 where g: "index_insert_named_graph g ix = (ix2, r2)" by force
      have "ix2 = ix" using index_insert_graph_known [of "ms_index st" q g] ok Some r g by (simp add: mem_index_ok_def)
      moreover obtain b where "r2 = Inr b" using g by (auto simp: index_insert_named_graph_def split: prod.splits)
      ultimately show ?thesis
        using False Some r r' g InsertQuad
        by (intro exI [of _ "[]"])
          (cases "undo st"; simp add: mem_insert_encoded_def Let_def mem_view_def index_view_def record_undo_def
            index_contains_named_graph_def index_graphs_def)
    qed
  qed
next
  case (RemoveQuad q)
  obtain ix r where r: "index_remove q (ms_index st) = (ix, r)" by force
  have r': "r = Inr (q \<in> index_quads (ms_index st))"
    using index_remove_result [of "ms_index st" q] ok r by (simp add: mem_index_ok_def)
  show ?thesis
    using r r' RemoveQuad
    by (intro exI [of _ "[]"])
      (cases "undo st"; simp add: mem_remove_encoded_def Let_def mem_view_def index_view_def record_undo_def decrement_def)
next
  case (CreateGraph g)
  obtain ix r where r: "index_insert_named_graph g (ms_index st) = (ix, r)" by force
  then show ?thesis
    using CreateGraph
    by (intro exI [of _ "[]"])
      (cases "undo st"; simp add: mem_insert_named_graph_def Let_def mem_view_def index_view_def record_undo_def
        index_contains_named_graph_def index_graphs_def)
next
  case (DropGraph g)
  obtain ds where ds: "collect_res (index_quads_for_pattern (ms_index st) None None None (FilterNamed g)) = Inr ds"
    "distinct ds" "set ds = {q \<in> index_quads (ms_index st). enc_graph q = Some g}"
    using scan_returns_collect [OF pattern_scan_returns, of "ms_index st" None None None "FilterNamed g"] ok
    by (auto simp: matching_def quad_matches_def mem_index_ok_def)
  obtain ix r where r: "index_remove_named_graph g (ms_index st) = (ix, r)" by force
  show ?thesis
    using ds r DropGraph unfolding mem_step.simps DropGraph mem_remove_named_graph_def Let_def foldl_record_undo foldl_decrement
    by (intro exI [of _ ds])
      (cases "undo st"; simp add: mem_view_def index_view_def record_undo_def index_contains_named_graph_def index_graphs_def)
qed

text \<open>The storage keeps the contract of the index.\<close>

lemma mem_step_index:
  assumes "mem_index_ok st"
  shows "ms_index (fst (mem_step w st)) = fst (index_step w (ms_index st))" "snd (mem_step w st) = snd (index_step w (ms_index st))"
  using mem_step_eq [OF assms, of w] by auto

interpretation mem: quad_store mem_step mem_scan mem_quads_with_object_in mem_index_ok mem_view
proof
  fix st w assume ok: "mem_index_ok st"
  then have ix: "index_ok (ms_index st)" by (simp add: mem_index_ok_def)
  show "mem_index_ok (fst (mem_step w st))"
    using qix.step_ok [OF ix] by (simp add: mem_index_ok_def mem_step_index [OF ok])
  show "mem_view (fst (mem_step w st)) = fst (spec_write w (mem_view st))"
    using qix.step_view [OF ix] by (simp add: mem_view_def mem_step_index [OF ok])
  show "snd (mem_step w st) = Inr (snd (spec_write w (mem_view st)))"
    using qix.step_result [OF ix] by (simp add: mem_view_def mem_step_index [OF ok])
next
  fix st s p x g span assume "mem_index_ok st"
  then have ix: "index_ok (ms_index st)" by (simp add: mem_index_ok_def)
  show "scan_returns (mem_scan st s p x g) {q \<in> fst (mem_view st). quad_matches s p x g q}"
    using qix.scan_exact [OF ix] by (simp add: mem_scan_def mem_view_def)
  show "scan_returns (mem_quads_with_object_in st s p span g)
      {q \<in> fst (mem_view st). quad_matches s p None g q \<and> span_contains span (enc_object q)}"
    using qix.span_exact [OF ix] by (simp add: mem_quads_with_object_in_def mem_view_def)
qed

section \<open>Undoing a journal\<close>

definition graphs_recorded :: "dataset \<Rightarrow> bool" where
  "graphs_recorded d \<longleftrightarrow> (\<forall>q\<in>fst d. set_option (enc_graph q) \<subseteq> snd d)"

definition undo_view :: "undo_entry list \<Rightarrow> dataset \<Rightarrow> dataset" where
  "undo_view es d = fst (spec_run (map inverse_write (rev es)) d)"

lemma fst_spec_run_Cons [simp]: "fst (spec_run (w # ws) d) = fst (spec_run ws (fst (spec_write w d)))"
  by (simp add: case_prod_beta)

lemma fst_spec_run_append: "fst (spec_run (us @ ws) d) = fst (spec_run ws (fst (spec_run us d)))"
  by (induction us arbitrary: d) (simp_all del: spec_run.simps(2))

lemma undo_view_append: "undo_view (es @ fs) d = undo_view es (undo_view fs d)"
  by (simp add: undo_view_def fst_spec_run_append)

lemma spec_run_inserts:
  "fst (spec_run (map InsertQuad qs) (Q, G)) = (Q \<union> set qs, G \<union> (\<Union>q\<in>set qs. set_option (enc_graph q)))"
  by (induction qs arbitrary: Q G) (auto simp del: spec_run.simps(2))

lemma undo_view_removed: "undo_view (map Removed ds) (Q, G) = (Q \<union> set ds, G \<union> (\<Union>q\<in>set ds. set_option (enc_graph q)))"
  using spec_run_inserts [of "rev ds" Q G] by (simp add: undo_view_def rev_map comp_def)

lemma undo_view_Nil [simp]: "undo_view [] d = d"
  by (simp add: undo_view_def)

lemma undo_view_single: "undo_view [e] d = fst (spec_write (inverse_write e) d)"
  by (simp add: undo_view_def case_prod_beta)

text \<open>The journal of one write undoes it.\<close>

lemma undo_view_write:
  assumes rec: "graphs_recorded d" and ds: "\<forall>g. w = DropGraph g \<longrightarrow> set ds = {q \<in> fst d. enc_graph q = Some g}"
  shows "undo_view (journal_of w d ds) (fst (spec_write w d)) = d"
proof -
  obtain Q G where d: "d = (Q, G)" by (rule prod.exhaust)
  have used: "q \<in> Q \<Longrightarrow> enc_graph q = Some g \<Longrightarrow> g \<in> G" for q g using rec d by (auto simp: graphs_recorded_def)
  show ?thesis
  proof (cases w)
    case (InsertQuad q)
    then show ?thesis using d used
      by (cases "enc_graph q") (auto simp: undo_view_append undo_view_single)
  next
    case (DropGraph g)
    with ds d have "set ds = {q \<in> Q. enc_graph q = Some g}" by simp
    with DropGraph d used show ?thesis
      by (auto simp: undo_view_append undo_view_single undo_view_removed)
  qed (use d used in \<open>auto simp: undo_view_single\<close>)
qed

lemma graphs_recorded_write: "graphs_recorded d \<Longrightarrow> graphs_recorded (fst (spec_write w d))"
  by (cases w; cases d) (auto simp: graphs_recorded_def)

lemma mem_graphs_recorded: "mem_index_ok st \<Longrightarrow> graphs_recorded (mem_view st)"
  using index_ok_graph by (auto simp: graphs_recorded_def mem_view_def index_view_def mem_index_ok_def)

section \<open>Predicate counts\<close>

definition predicate_card :: "encoded_quad set \<Rightarrow> term_id \<Rightarrow> nat" where
  "predicate_card Q p = card {q \<in> Q. enc_predicate q = p}"

definition counts_ok :: "(term_id \<times> u64) list \<Rightarrow> encoded_quad set \<Rightarrow> bool" where
  "counts_ok pc Q \<longleftrightarrow> distinct (map fst pc)
    \<and> (\<forall>p. map_of pc p = (if predicate_card Q p = 0 then None else Some (word_of_nat (predicate_card Q p))))"

lemma predicate_card_insert:
  "finite Q \<Longrightarrow> q \<notin> Q \<Longrightarrow>
    predicate_card (insert q Q) p = (if p = enc_predicate q then Suc (predicate_card Q p) else predicate_card Q p)"
proof -
  assume a: "finite Q" "q \<notin> Q"
  have "{r \<in> insert q Q. enc_predicate r = p} =
      (if p = enc_predicate q then insert q {r \<in> Q. enc_predicate r = p} else {r \<in> Q. enc_predicate r = p})"
    by auto
  with a show ?thesis by (simp add: predicate_card_def)
qed

lemma predicate_card_le: "finite Q \<Longrightarrow> predicate_card Q p \<le> card Q"
  by (auto simp: predicate_card_def intro: card_mono)

lemma counts_ok_bump:
  assumes "counts_ok pc Q" "finite Q" "q \<notin> Q"
  shows "counts_ok (bump (enc_predicate q) pc) (insert q Q)"
  using assms
  by (auto simp: counts_ok_def bump_def update_conv' distinct_update predicate_card_insert)

lemma counts_ok_decrement:
  assumes ok: "counts_ok pc Q" and fin: "finite Q" "card Q < 2 ^ 64" and q: "q \<in> Q"
  shows "counts_ok (decrement_counts (enc_predicate q) pc) (Q - {q})"
proof -
  let ?p = "enc_predicate q"
  define c where "c = predicate_card (Q - {q}) ?p"
  have split: "predicate_card Q p = (if p = ?p then Suc (predicate_card (Q - {q}) p) else predicate_card (Q - {q}) p)" for p
    using predicate_card_insert [of "Q - {q}" q p] fin q by (simp add: insert_absorb)
  have "Suc c < 2 ^ 64" using predicate_card_le [OF fin(1), of ?p] fin(2) split [of ?p] by (simp add: c_def)
  then have z: "(word_of_nat c :: u64) = 0 \<longleftrightarrow> c = 0"
    by (simp add: word_unat_eq_iff unat_of_nat)
  have n: "map_of pc ?p = Some (word_of_nat (Suc c))" using ok split [of ?p] by (simp add: counts_ok_def c_def)
  show ?thesis
  proof (cases "c = 0")
    case True
    then have "decrement_counts ?p pc = AList.delete ?p (AList.update ?p 0 pc)" using n by (simp add: decrement_counts_def)
    with True ok split show ?thesis
      by (auto simp: counts_ok_def delete_conv' update_conv' distinct_update distinct_delete c_def)
  next
    case False
    then have "decrement_counts ?p pc = AList.update ?p (word_of_nat c) pc"
      using n z by (simp add: decrement_counts_def)
    with False ok split show ?thesis
      by (auto simp: counts_ok_def update_conv' distinct_update c_def)
  qed
qed

lemma counts_ok_decrements:
  assumes "counts_ok pc Q" "finite Q" "card Q < 2 ^ 64" "distinct ds" "set ds \<subseteq> Q"
  shows "counts_ok (foldl (\<lambda>pc q. decrement_counts (enc_predicate q) pc) pc ds) (Q - set ds)"
  using assms
proof (induction ds arbitrary: pc Q)
  case (Cons q ds)
  have "counts_ok (decrement_counts (enc_predicate q) pc) (Q - {q})"
    using counts_ok_decrement Cons.prems by auto
  moreover have "card (Q - {q}) < 2 ^ 64" using card_mono [of Q "Q - {q}"] Cons.prems by auto
  ultimately have "counts_ok (foldl (\<lambda>pc q. decrement_counts (enc_predicate q) pc) (decrement_counts (enc_predicate q) pc) ds)
      (Q - {q} - set ds)"
    using Cons.prems by (intro Cons.IH) auto
  moreover have "Q - {q} - set ds = Q - set (q # ds)" by auto
  ultimately show ?case by simp
qed simp

lemma finite_mem_view [simp]: "finite (fst (mem_view st))"
  by (simp add: mem_view_def index_view_def index_quads_def)

lemma counts_ok_write:
  assumes "counts_ok pc (fst d)" "finite (fst d)" "card (fst d) < 2 ^ 64" "distinct ds"
    and "\<forall>g. w = DropGraph g \<longrightarrow> set ds = {q \<in> fst d. enc_graph q = Some g}"
  shows "counts_ok (counts_after w d ds pc) (fst (fst (spec_write w d)))"
proof -
  obtain Q G where d: "d = (Q, G)" by (rule prod.exhaust)
  show ?thesis
  proof (cases w)
    case (InsertQuad q)
    then show ?thesis using assms d counts_ok_bump by (auto simp: insert_absorb)
  next
    case (RemoveQuad q)
    then show ?thesis using assms d counts_ok_decrement by auto
  next
    case (DropGraph g)
    then have ds: "{q \<in> Q. enc_graph q \<noteq> Some g} = Q - set ds" "set ds \<subseteq> Q" using assms(5) d by auto
    then have "counts_ok (foldl (\<lambda>pc q. decrement_counts (enc_predicate q) pc) pc ds) (Q - set ds)"
      using assms(1-4) d by (intro counts_ok_decrements) simp_all
    then show ?thesis using DropGraph d ds(1) by simp
  qed (use assms d in auto)
qed

section \<open>Commit scopes restore what they found\<close>

text \<open>
  The state as a whole: the index invariant, the predicate counts, and a quad count that fits the
  \<open>usize\<close> that \<open>len\<close> returns.
\<close>

definition mem_ok :: "memory_storage \<Rightarrow> bool" where
  "mem_ok st \<longleftrightarrow> mem_index_ok st \<and> counts_ok (predicate_counts st) (fst (mem_view st)) \<and> mem_len st < 2 ^ 64"

lemma mem_len_card: "mem_index_ok st \<Longrightarrow> mem_len st = card (fst (mem_view st))"
  by (simp add: mem_len_def index_len_card mem_index_ok_def mem_view_def index_view_def)

lemma index_len_new: "index_len new_index = 0"
  by (simp add: index_len_def new_index_def)

lemma mem_ok_new [simp]: "mem_ok new_memory"
  by (simp add: mem_ok_def mem_index_ok_def new_memory_def mem_view_def index_view_def counts_ok_def
      predicate_card_def mem_len_def index_len_new)

lemma mem_ok_step:
  assumes ok: "mem_ok st" and fits: "mem_len (fst (mem_step w st)) < 2 ^ 64"
  shows "mem_ok (fst (mem_step w st))"
proof -
  have ix: "mem_index_ok st" using ok by (simp add: mem_ok_def)
  obtain ds where ds: "distinct ds" "\<forall>g. w = DropGraph g \<longrightarrow> set ds = {q \<in> fst (mem_view st). enc_graph q = Some g}"
    "predicate_counts (fst (mem_step w st)) = counts_after w (mem_view st) ds (predicate_counts st)"
    using mem_step_eq [OF ix, of w] by auto
  have "counts_ok (counts_after w (mem_view st) ds (predicate_counts st)) (fst (fst (spec_write w (mem_view st))))"
    using ok mem_len_card [OF ix] ds(1,2) by (intro counts_ok_write) (auto simp: mem_ok_def)
  then show ?thesis
    using mem.step_ok [OF ix, of w] mem.step_view [OF ix, of w] ds(3) fits by (simp add: mem_ok_def)
qed

text \<open>States reachable inside a commit scope: writes, interning and statistics, in any order.\<close>

inductive scope_reach :: "'dt xsd_lib \<Rightarrow> memory_storage \<Rightarrow> memory_storage \<Rightarrow> bool" for X st0 where
  opened: "mem_begin st0 = (st, Inr ()) \<Longrightarrow> scope_reach X st0 st"
| wrote: "scope_reach X st0 st \<Longrightarrow> mem_len (fst (mem_step w st)) < 2 ^ 64 \<Longrightarrow> scope_reach X st0 (fst (mem_step w st))"
| encoded: "scope_reach X st0 st \<Longrightarrow> scope_reach X st0 (fst (mem_encode X t st))"
| saved: "scope_reach X st0 st \<Longrightarrow> scope_reach X st0 (fst (mem_save_statistics b st))"

definition journal_view :: "memory_storage \<Rightarrow> memory_storage \<Rightarrow> bool" where
  "journal_view st0 st \<longleftrightarrow> mem_index_ok st \<and> generation_at_begin st = generation st0
    \<and> (\<exists>es. undo st = Some es \<and> undo_view es (mem_view st) = mem_view st0)"

definition undo_fits :: "memory_storage \<Rightarrow> bool" where
  "undo_fits st \<longleftrightarrow> (case undo st of None \<Rightarrow> True
    | Some es \<Rightarrow> \<forall>k\<le>length es. card (fst (undo_view (drop k es) (mem_view st))) < 2 ^ 64)"

definition journal_ok :: "memory_storage \<Rightarrow> memory_storage \<Rightarrow> bool" where
  "journal_ok st0 st \<longleftrightarrow> journal_view st0 st \<and> mem_ok st \<and> undo_fits st"

lemma journal_view_step:
  assumes j: "journal_view st0 st"
  shows "journal_view st0 (fst (mem_step w st))"
proof -
  have ix: "mem_index_ok st" using j by (simp add: journal_view_def)
  obtain es where es: "undo st = Some es" "undo_view es (mem_view st) = mem_view st0"
    using j by (auto simp: journal_view_def)
  obtain ds where ds: "\<forall>g. w = DropGraph g \<longrightarrow> set ds = {q \<in> fst (mem_view st). enc_graph q = Some g}"
    "undo (fst (mem_step w st)) = Some (es @ journal_of w (mem_view st) ds)"
    "generation_at_begin (fst (mem_step w st)) = generation_at_begin st"
    using mem_step_eq [OF ix, of w] es(1) by auto
  have "undo_view (es @ journal_of w (mem_view st) ds) (mem_view (fst (mem_step w st))) = mem_view st0"
    using undo_view_write [OF mem_graphs_recorded [OF ix] ds(1)] es(2) mem.step_view [OF ix, of w]
    by (simp add: undo_view_append)
  with j ds(2,3) mem.step_ok [OF ix, of w] show ?thesis by (simp add: journal_view_def)
qed

text \<open>Undoing a journal only puts back quads it lists as removed, so the quad count stays in bounds.\<close>

lemma undo_view_subset: "fst (undo_view es d) \<subseteq> fst d \<union> {q. Removed q \<in> set es}"
proof (induction es arbitrary: d rule: rev_induct)
  case (snoc e es)
  have "fst (undo_view (es @ [e]) d) \<subseteq> fst (fst (spec_write (inverse_write e) d)) \<union> {q. Removed q \<in> set es}"
    using snoc.IH [of "fst (spec_write (inverse_write e) d)"] by (simp add: undo_view_append undo_view_single)
  then show ?case by (cases e; cases d) auto
qed simp

lemma undo_partial_card:
  assumes fin: "finite (fst d)" "finite (fst (fst (spec_write w d)))"
    and fits: "card (fst d) < 2 ^ 64" "card (fst (fst (spec_write w d))) < 2 ^ 64"
    and ds: "\<forall>g. w = DropGraph g \<longrightarrow> set ds = {q \<in> fst d. enc_graph q = Some g}"
  shows "card (fst (undo_view (drop k (journal_of w d ds)) (fst (spec_write w d)))) < 2 ^ 64"
proof -
  let ?u = "fst (undo_view (drop k (journal_of w d ds)) (fst (spec_write w d)))"
  obtain Q G where d: "d = (Q, G)" by (rule prod.exhaust)
  have "{q. Removed q \<in> set (drop k (journal_of w d ds))} \<subseteq> {q. Removed q \<in> set (journal_of w d ds)}"
    using set_drop_subset by fast
  then have u: "?u \<subseteq> fst (fst (spec_write w d)) \<union> {q. Removed q \<in> set (journal_of w d ds)}"
    using undo_view_subset [of "drop k (journal_of w d ds)" "fst (spec_write w d)"] by blast
  have "?u \<subseteq> fst (fst (spec_write w d)) \<or> ?u \<subseteq> Q"
  proof (cases w)
    case (InsertQuad q)
    then have "{q. Removed q \<in> set (journal_of w d ds)} = {}" using d by (auto split: option.splits)
    then show ?thesis using u by blast
  next
    case (CreateGraph g)
    then have "{q. Removed q \<in> set (journal_of w d ds)} = {}" using d by auto
    then show ?thesis using u by blast
  next
    case (RemoveQuad q)
    then show ?thesis using u d by (intro disjI2) (auto split: if_splits)
  next
    case (DropGraph g)
    then show ?thesis using u d ds by (intro disjI2) (auto split: if_splits)
  qed
  then show ?thesis
    using fin fits d card_mono [of "fst (fst (spec_write w d))" ?u] card_mono [of Q ?u] by fastforce
qed

lemma journal_ok_step:
  assumes j: "journal_ok st0 st" and fits: "mem_len (fst (mem_step w st)) < 2 ^ 64"
  shows "journal_ok st0 (fst (mem_step w st))"
proof -
  have ok: "mem_ok st" and ix: "mem_index_ok st" using j by (auto simp: journal_ok_def mem_ok_def)
  obtain es where es: "undo st = Some es" "\<forall>k\<le>length es. card (fst (undo_view (drop k es) (mem_view st))) < 2 ^ 64"
    using j by (auto simp: journal_ok_def journal_view_def undo_fits_def)
  obtain ds where ds: "\<forall>g. w = DropGraph g \<longrightarrow> set ds = {q \<in> fst (mem_view st). enc_graph q = Some g}"
    "undo (fst (mem_step w st)) = Some (es @ journal_of w (mem_view st) ds)"
    using mem_step_eq [OF ix, of w] es(1) by auto
  note view = mem.step_view [OF ix, of w]
  have undone: "undo_view (journal_of w (mem_view st) ds) (fst (spec_write w (mem_view st))) = mem_view st"
    by (rule undo_view_write [OF mem_graphs_recorded [OF ix] ds(1)])
  have "card (fst (undo_view (drop k (es @ journal_of w (mem_view st) ds)) (mem_view (fst (mem_step w st))))) < 2 ^ 64" for k
  proof (cases "k \<le> length es")
    case True
    then show ?thesis using es(2) undone by (simp add: view undo_view_append)
  next
    case False
    have "card (fst (mem_view st)) < 2 ^ 64" "card (fst (fst (spec_write w (mem_view st)))) < 2 ^ 64"
      using ok fits mem_len_card [OF ix] mem_len_card [OF mem.step_ok [OF ix], of w] view by (auto simp: mem_ok_def)
    moreover have "finite (fst (fst (spec_write w (mem_view st))))" using finite_mem_view [of "fst (mem_step w st)"] view by simp
    ultimately show ?thesis using undo_partial_card [of "mem_view st" w ds] ds(1) False by (simp add: view)
  qed
  then have "undo_fits (fst (mem_step w st))" by (simp add: undo_fits_def ds(2))
  then show ?thesis using j journal_view_step mem_ok_step [OF ok fits] by (simp add: journal_ok_def)
qed

lemma mem_encode_sel [simp]:
  "ms_index (fst (mem_encode X t st)) = ms_index st" "predicate_counts (fst (mem_encode X t st)) = predicate_counts st"
  "generation_at_begin (fst (mem_encode X t st)) = generation_at_begin st" "undo (fst (mem_encode X t st)) = undo st"
  by (simp_all add: mem_encode_def case_prod_beta)

lemma journal_ok_irrelevant:
  "journal_ok st0 st \<Longrightarrow> ms_index st' = ms_index st \<Longrightarrow> predicate_counts st' = predicate_counts st
    \<Longrightarrow> generation_at_begin st' = generation_at_begin st \<Longrightarrow> undo st' = undo st \<Longrightarrow> journal_ok st0 st'"
  by (auto simp: journal_ok_def journal_view_def undo_fits_def mem_ok_def mem_index_ok_def mem_view_def mem_len_def)

lemma journal_view_begin: "mem_index_ok st0 \<Longrightarrow> undo st0 = None \<Longrightarrow> journal_view st0 (fst (mem_begin st0))"
  by (simp add: mem_begin_def journal_view_def mem_index_ok_def mem_view_def)

lemma journal_ok_reach:
  assumes "scope_reach X st0 st" "mem_ok st0"
  shows "journal_ok st0 st"
  using assms
proof (induction rule: scope_reach.induct)
  case (opened st)
  then show ?case
    using mem_len_card [of st0] journal_view_begin [of st0]
    by (auto simp: mem_begin_def journal_ok_def undo_fits_def mem_ok_def mem_index_ok_def mem_view_def mem_len_def split: if_splits)
next
  case (wrote st w)
  then show ?case using journal_ok_step by blast
next
  case (encoded st t)
  then show ?case by (auto intro: journal_ok_irrelevant)
next
  case (saved st b)
  then show ?case by (auto simp: mem_save_statistics_def intro: journal_ok_irrelevant)
qed

text \<open>The undo loop is a run of the inverse writes with no scope open.\<close>

lemma undo_loop_eq: "foldl (\<lambda>st e. fst (undo_entry_step e st)) st es = fst (run_with mem_step (map inverse_write es) st)"
  by (induction es arbitrary: st) (simp_all add: undo_entry_step_eq case_prod_beta)

lemma run_keeps:
  "mem_index_ok st \<Longrightarrow> undo st = None \<Longrightarrow> undo (fst (run_with mem_step ws st)) = None
    \<and> generation_at_begin (fst (run_with mem_step ws st)) = generation_at_begin st
    \<and> ms_dictionary (fst (run_with mem_step ws st)) = ms_dictionary st
    \<and> statistics (fst (run_with mem_step ws st)) = statistics st"
proof (induction ws arbitrary: st)
  case (Cons w ws)
  have "undo (fst (mem_step w st)) = None \<and> generation_at_begin (fst (mem_step w st)) = generation_at_begin st
      \<and> ms_dictionary (fst (mem_step w st)) = ms_dictionary st \<and> statistics (fst (mem_step w st)) = statistics st"
    using mem_step_eq [OF Cons.prems(1), of w] Cons.prems(2) by auto
  with Cons.IH [OF mem.step_ok [OF Cons.prems(1), of w]] show ?case by (simp add: case_prod_beta)
qed simp

lemma rollback_view:
  assumes j: "journal_view st0 st"
  shows "mem_view (mem_rollback st) = mem_view st0" "mem_index_ok (mem_rollback st)"
    "generation (mem_rollback st) = generation st0" "undo (mem_rollback st) = None"
    "ms_dictionary (mem_rollback st) = ms_dictionary st" "statistics (mem_rollback st) = statistics st"
proof -
  obtain es where es: "undo st = Some es" "undo_view es (mem_view st) = mem_view st0" "mem_index_ok st"
      "generation_at_begin st = generation st0"
    using j by (auto simp: journal_view_def)
  let ?s = "st\<lparr>undo := None\<rparr>"
  have ix: "mem_index_ok ?s" "mem_view ?s = mem_view st" using es(3) by (simp_all add: mem_index_ok_def mem_view_def)
  let ?r = "fst (run_with mem_step (map inverse_write (rev es)) ?s)"
  have roll: "mem_rollback st = ?r\<lparr>generation := generation_at_begin ?r\<rparr>"
    using es(1) by (simp add: mem_rollback_def undo_loop_eq Let_def)
  have "mem_view ?r = mem_view st0" "mem_index_ok ?r"
    using mem.run_refines [OF ix(1), of "map inverse_write (rev es)"] es(2) ix(2) by (simp_all add: undo_view_def)
  then show "mem_view (mem_rollback st) = mem_view st0" "mem_index_ok (mem_rollback st)"
    unfolding roll by (simp_all add: mem_view_def mem_index_ok_def)
  show "generation (mem_rollback st) = generation st0" "undo (mem_rollback st) = None"
    "ms_dictionary (mem_rollback st) = ms_dictionary st" "statistics (mem_rollback st) = statistics st"
    unfolding roll using run_keeps [OF ix(1)] es(4) by simp_all
qed

lemma view_determines_index:
  "mem_index_ok a \<Longrightarrow> mem_index_ok b \<Longrightarrow> mem_view a = mem_view b \<Longrightarrow> ms_index a = ms_index b"
  by (rule index_ext) (auto simp: mem_index_ok_def mem_view_def index_view_def)

text \<open>The predicate counts stay right through the undo loop, whose quad count never passes the scope's.\<close>

lemma rollback_ok:
  assumes j: "journal_ok st0 st"
  shows "mem_ok (mem_rollback st)"
proof -
  obtain es where ok: "mem_ok st" and undo: "undo st = Some es"
      and bound: "\<forall>k\<le>length es. card (fst (undo_view (drop k es) (mem_view st))) < 2 ^ 64"
    using j by (auto simp: journal_ok_def journal_view_def undo_fits_def)
  have fits: "card (fst (fst (spec_run (map inverse_write (take k (rev es))) (mem_view st)))) < 2 ^ 64" for k
    using bound [rule_format, of "length es - k"] by (simp add: undo_view_def take_rev)
  let ?s = "st\<lparr>undo := None\<rparr>"
  have start: "mem_ok ?s" using ok by (simp add: mem_ok_def mem_index_ok_def mem_view_def mem_len_def)
  have "mem_ok (fst (run_with mem_step ws s))"
    if "mem_ok s" "\<forall>k\<le>length ws. card (fst (fst (spec_run (take k ws) (mem_view s)))) < 2 ^ 64" for ws s
    using that
  proof (induction ws arbitrary: s)
    case (Cons w ws)
    have ix: "mem_index_ok s" using Cons.prems by (simp add: mem_ok_def)
    have "card (fst (fst (spec_write w (mem_view s)))) < 2 ^ 64"
      using Cons.prems(2) [rule_format, of 1] by (simp add: case_prod_beta)
    then have "mem_len (fst (mem_step w s)) < 2 ^ 64"
      using mem_len_card [OF mem.step_ok [OF ix]] mem.step_view [OF ix] by simp
    then have "mem_ok (fst (mem_step w s))" using mem_ok_step Cons.prems(1) by blast
    moreover have "card (fst (fst (spec_run (take k ws) (mem_view (fst (mem_step w s)))))) < 2 ^ 64" if "k \<le> length ws" for k
      using Cons.prems(2) [rule_format, of "Suc k"] that mem.step_view [OF ix, of w] by (simp del: spec_run.simps(2))
    ultimately show ?case using Cons.IH by (simp add: case_prod_beta)
  qed simp
  from this [OF start, of "map inverse_write (rev es)"] fits have
    "mem_ok (fst (run_with mem_step (map inverse_write (rev es)) ?s))"
    by (simp add: take_map mem_view_def)
  then show ?thesis
    using undo by (simp add: mem_rollback_def undo_loop_eq Let_def mem_ok_def mem_index_ok_def mem_view_def mem_len_def)
qed

lemma counts_ok_map: "counts_ok pc Q \<Longrightarrow> counts_ok pc' Q \<Longrightarrow> map_of pc = map_of pc'"
  by (auto simp: counts_ok_def)

lemma histogram_key_inject: "histogram_key a = histogram_key b \<Longrightarrow> a = b"
  by (cases a; cases b) (simp add: histogram_key_def word_uint_eq_iff)

lemma histogram_unique:
  assumes "distinct (map fst a)" "distinct (map fst b)" "map_of a = map_of b"
  shows "sort_key histogram_key a = sort_key histogram_key b"
proof -
  have inj: "inj histogram_key" using histogram_key_inject by (auto intro: injI)
  have s: "set a = set b" using assms by (metis map_of_eq_Some_iff subrelI subset_antisym)
  have d: "distinct (map histogram_key (sort_key histogram_key l))" if "distinct (map fst l)" for l :: "(term_id \<times> u64) list"
    using that inj_on_subset [OF inj] by (simp add: distinct_map)
  have "map histogram_key (sort_key histogram_key a) = map histogram_key (sort_key histogram_key b)"
    using d [OF assms(1)] d [OF assms(2)] s by (intro sorted_distinct_set_unique) simp_all
  then show ?thesis using inj by (simp add: inj_map_eq_map)
qed

section \<open>The contract of a store with commit scopes\<close>

locale scoped_store = quad_store step scan span_scan ok view
  for step :: "quad_write \<Rightarrow> 's \<Rightarrow> 's \<times> bool res"
    and scan :: "'s \<Rightarrow> term_id option \<Rightarrow> term_id option \<Rightarrow> term_id option \<Rightarrow> graph_filter \<Rightarrow> quad_scan"
    and span_scan :: "'s \<Rightarrow> term_id option \<Rightarrow> term_id option \<Rightarrow> id_range \<Rightarrow> graph_filter \<Rightarrow> quad_scan"
    and ok :: "'s \<Rightarrow> bool"
    and view :: "'s \<Rightarrow> dataset" +
  fixes open_scope :: "'s \<Rightarrow> 's \<times> unit res"
    and close_scope :: "'s \<Rightarrow> 's \<times> unit res"
    and abandon :: "'s \<Rightarrow> 's"
    and scoped :: "'s \<Rightarrow> bool"
  assumes open_fresh: "ok st \<Longrightarrow> \<not> scoped st \<Longrightarrow> snd (open_scope st) = Inr () \<and> ok (fst (open_scope st))
      \<and> scoped (fst (open_scope st)) \<and> view (fst (open_scope st)) = view st"
    and open_nested: "scoped st \<Longrightarrow> \<exists>e. open_scope st = (st, Inl e)"
    and step_scoped: "ok st \<Longrightarrow> scoped (fst (step w st)) \<longleftrightarrow> scoped st"
    and close_keeps: "ok st \<Longrightarrow> scoped st \<Longrightarrow> snd (close_scope st) = Inr () \<and> ok (fst (close_scope st))
      \<and> \<not> scoped (fst (close_scope st)) \<and> view (fst (close_scope st)) = view st"
    and abandon_restores: "ok st \<Longrightarrow> \<not> scoped st \<Longrightarrow>
      ok (abandon (fst (run_with step ws (fst (open_scope st)))))
      \<and> \<not> scoped (abandon (fst (run_with step ws (fst (open_scope st)))))
      \<and> view (abandon (fst (run_with step ws (fst (open_scope st))))) = view st"
begin

lemma run_scoped: "ok st \<Longrightarrow> scoped (fst (run_with step ws st)) \<longleftrightarrow> scoped st"
proof (induction ws arbitrary: st)
  case (Cons w ws)
  then show ?case using step_scoped [of st w] step_ok [of st w] by (simp add: case_prod_beta)
qed simp

text \<open>A committed scope is the plain run of its writes; an abandoned one never happened.\<close>

lemma all_or_nothing:
  assumes "ok st" "\<not> scoped st" and inside_def: "inside = fst (run_with step ws (fst (open_scope st)))"
  shows "view (fst (close_scope inside)) = fst (spec_run ws (view st)) \<and> snd (close_scope inside) = Inr ()
    \<and> view (abandon inside) = view st"
proof -
  have o: "ok (fst (open_scope st))" "scoped (fst (open_scope st))" "view (fst (open_scope st)) = view st"
    using open_fresh assms by blast+
  have "ok inside" "view inside = fst (spec_run ws (view st))" "scoped inside"
    using run_refines [OF o(1), of ws] run_scoped [OF o(1), of ws] o by (simp_all add: inside_def)
  then show ?thesis using close_keeps [of inside] abandon_restores [OF assms(1,2), of ws] by (simp add: inside_def)
qed

lemma abandoned_scan:
  assumes "ok st" "\<not> scoped st"
  shows "scan_returns (scan (abandon (fst (run_with step ws (fst (open_scope st))))) s p x g)
    {q \<in> fst (view st). quad_matches s p x g q}"
  using abandon_restores [OF assms, of ws] scan_exact by metis

end

lemma run_journal: "journal_view st0 st \<Longrightarrow> journal_view st0 (fst (run_with mem_step ws st))"
  by (induction ws arbitrary: st) (simp_all add: case_prod_beta journal_view_step)

interpretation scoped: scoped_store mem_step mem_scan mem_quads_with_object_in mem_index_ok mem_view
  mem_begin mem_commit mem_rollback mem_in_scope
proof
  fix st w assume ok: "mem_index_ok st"
  show "mem_in_scope (fst (mem_step w st)) \<longleftrightarrow> mem_in_scope st"
    using mem_step_eq [OF ok, of w] by (auto simp: mem_in_scope_def)
next
  fix st ws assume "mem_index_ok st" "\<not> mem_in_scope st"
  then have "journal_view st (fst (run_with mem_step ws (fst (mem_begin st))))"
    by (intro run_journal journal_view_begin) (simp_all add: mem_in_scope_def)
  from rollback_view [OF this] show
    "mem_index_ok (mem_rollback (fst (run_with mem_step ws (fst (mem_begin st)))))
      \<and> \<not> mem_in_scope (mem_rollback (fst (run_with mem_step ws (fst (mem_begin st)))))
      \<and> mem_view (mem_rollback (fst (run_with mem_step ws (fst (mem_begin st))))) = mem_view st"
    by (simp add: mem_in_scope_def)
qed (auto simp: mem_begin_def mem_commit_def mem_in_scope_def mem_index_ok_def mem_view_def)

section \<open>Properties\<close>

text \<open>
  C25. Abandoning a commit scope puts the store back where the scope found it: whatever was written,
  interned or saved inside, the index is the same in all nine orders, the generation and the
  predicate histogram are the same, no scope is open, and only the dictionary and the
  statistics keep what the scope gave them.
\<close>

theorem rollback_restores:
  assumes "mem_ok st0" "scope_reach X st0 st"
  shows "ms_index (mem_rollback st) = ms_index st0 \<and> generation (mem_rollback st) = generation st0
    \<and> predicate_histogram (mem_rollback st) = predicate_histogram st0 \<and> \<not> mem_in_scope (mem_rollback st)
    \<and> ms_dictionary (mem_rollback st) = ms_dictionary st \<and> statistics (mem_rollback st) = statistics st"
proof -
  have j: "journal_ok st0 st" using journal_ok_reach [OF assms(2,1)] .
  then have v: "journal_view st0 st" by (simp add: journal_ok_def)
  note r = rollback_view [OF v] and ok = rollback_ok [OF j]
  have "predicate_histogram (mem_rollback st) = predicate_histogram st0"
    unfolding predicate_histogram_def
    using ok assms(1) r(1) by (intro histogram_unique counts_ok_map) (auto simp: mem_ok_def counts_ok_def)
  then show ?thesis
    using r view_determines_index [OF r(2) _ r(1)] assms(1) by (simp add: mem_in_scope_def mem_ok_def)
qed

theorem rollback_restores_witness:
  "ms_index (mem_rollback (fst (mem_step (InsertQuad (mk_quad (TermId 1) (TermId 2) (TermId 3) (Some (TermId 4)))) (fst (mem_begin new_memory)))))
    = new_index"
proof -
  let ?q = "mk_quad (TermId 1) (TermId 2) (TermId 3) (Some (TermId 4))"
  let ?st = "fst (mem_step (InsertQuad ?q) (fst (mem_begin new_memory)))"
  have "mem_begin new_memory = (fst (mem_begin new_memory), Inr ())" by (simp add: mem_begin_def new_memory_def)
  then have "scope_reach demo_lib new_memory (fst (mem_begin new_memory))" by (rule scope_reach.opened)
  moreover have "mem_len ?st = 1" by code_simp
  then have "mem_len ?st < 2 ^ 64" by simp
  ultimately have "scope_reach demo_lib new_memory ?st" by (rule scope_reach.wrote)
  from rollback_restores [OF mem_ok_new this] show ?thesis by (simp add: new_memory_def)
qed

text \<open>
  Commit scopes are all or nothing: a committed scope leaves exactly the dataset its writes
  specify, an abandoned one leaves the dataset it found, and every write inside reported what the
  specification reports.
\<close>

lemma scope_all_or_nothing:
  assumes "mem_index_ok st" "\<not> mem_in_scope st" "inside = fst (run_with mem_step ws (fst (mem_begin st)))"
  shows "mem_view (fst (mem_commit inside)) = fst (spec_run ws (mem_view st)) \<and> snd (mem_commit inside) = Inr ()
    \<and> mem_view (mem_rollback inside) = mem_view st
    \<and> snd (run_with mem_step ws (fst (mem_begin st))) = map Inr (snd (spec_run ws (mem_view st)))"
  using scoped.all_or_nothing [OF assms] scoped.open_fresh [OF assms(1,2)]
    mem.run_refines [of "fst (mem_begin st)" ws] by simp

text \<open>Scope operations and writes in any order, and what they do to a dataset with at most one saved copy.\<close>

datatype scope_op = BeginScope | CommitScope | RollbackScope | WriteInStore quad_write

fun scope_step :: "scope_op \<Rightarrow> memory_storage \<Rightarrow> memory_storage \<times> bool res" where
  "scope_step BeginScope st = (case mem_begin st of (st, r) \<Rightarrow> (st, map_sum id (\<lambda>_. True) r))"
| "scope_step CommitScope st = (case mem_commit st of (st, r) \<Rightarrow> (st, map_sum id (\<lambda>_. True) r))"
| "scope_step RollbackScope st = (mem_rollback st, Inr True)"
| "scope_step (WriteInStore w) st = mem_step w st"

fun scope_spec :: "scope_op \<Rightarrow> dataset \<times> dataset option \<Rightarrow> (dataset \<times> dataset option) \<times> bool option" where
  "scope_spec BeginScope (d, None) = ((d, Some d), Some True)"
| "scope_spec BeginScope (d, Some saved) = ((d, Some saved), None)"
| "scope_spec CommitScope (d, None) = ((d, None), None)"
| "scope_spec CommitScope (d, Some saved) = ((d, None), Some True)"
| "scope_spec RollbackScope (d, None) = ((d, None), Some True)"
| "scope_spec RollbackScope (d, Some saved) = ((saved, None), Some True)"
| "scope_spec (WriteInStore w) (d, saved) = ((fst (spec_write w d), saved), Some (snd (spec_write w d)))"

definition scope_answer :: "bool res \<Rightarrow> bool option \<Rightarrow> bool" where
  "scope_answer r expected \<longleftrightarrow> (case expected of Some b \<Rightarrow> r = Inr b | None \<Rightarrow> \<exists>e. r = Inl (Corruption e))"

definition scope_refines :: "memory_storage \<Rightarrow> dataset \<times> dataset option \<Rightarrow> bool" where
  "scope_refines st a \<longleftrightarrow> mem_index_ok st \<and> mem_view st = fst a
    \<and> (case snd a of None \<Rightarrow> undo st = None | Some saved \<Rightarrow> \<exists>st0. journal_view st0 st \<and> mem_view st0 = saved)"

lemma scope_step_refines:
  assumes "scope_refines st a"
  shows "scope_refines (fst (scope_step x st)) (fst (scope_spec x a)) \<and> scope_answer (snd (scope_step x st)) (snd (scope_spec x a))"
proof -
  obtain d saved where a: "a = (d, saved)" by (cases a)
  have ok: "mem_index_ok st" "mem_view st = d" using assms by (simp_all add: a scope_refines_def)
  note wr = mem.step_view [OF ok(1)] mem.step_ok [OF ok(1)] mem.step_result [OF ok(1)]
  show ?thesis
  proof (cases saved)
    case None
    then have "undo st = None" using assms by (simp add: a scope_refines_def)
    then show ?thesis using ok wr journal_view_begin [OF ok(1)] scoped.step_scoped [OF ok(1), unfolded mem_in_scope_def]
      by (cases x) (auto simp: a None scope_refines_def scope_answer_def mem_begin_def mem_commit_def mem_rollback_def mem_index_ok_def mem_view_def)
  next
    case (Some before)
    then obtain st0 where j: "journal_view st0 st" "mem_view st0 = before" using assms by (auto simp: a scope_refines_def)
    then have "undo st \<noteq> None" by (auto simp: journal_view_def)
    then show ?thesis using ok wr j rollback_view [OF j(1)] journal_view_step [OF j(1)]
      by (cases x) (auto simp: a Some scope_refines_def scope_answer_def mem_begin_def mem_commit_def mem_index_ok_def mem_view_def intro!: exI [of _ st0])
  qed
qed

lemma scope_run_refines:
  "scope_refines st a \<Longrightarrow> scope_refines (fst (run_with scope_step xs st)) (fst (run_with scope_spec xs a))
    \<and> list_all2 scope_answer (snd (run_with scope_step xs st)) (snd (run_with scope_spec xs a))"
proof (induction xs arbitrary: st a)
  case (Cons x xs)
  then show ?case using scope_step_refines [OF Cons.prems, of x] by (simp add: case_prod_beta)
qed simp

text \<open>
  C35. Commit scopes follow their protocol through any history of begins, commits, rollbacks and writes on a
  new store: the quads and graphs are those of a dataset with at most one saved copy, taken by a begin,
  dropped by a commit and restored by a rollback; a begin inside a scope and a commit outside one are refused
  as corruption and change nothing; and every write reports what the set specification reports.
\<close>

theorem scope_history:
  "mem_view (fst (run_with scope_step xs new_memory)) = fst (fst (run_with scope_spec xs (({}, {}), None)))
    \<and> (mem_in_scope (fst (run_with scope_step xs new_memory)) \<longleftrightarrow> snd (fst (run_with scope_spec xs (({}, {}), None))) \<noteq> None)
    \<and> list_all2 scope_answer (snd (run_with scope_step xs new_memory)) (snd (run_with scope_spec xs (({}, {}), None)))"
proof -
  have "scope_refines new_memory (({}, {}), None)"
    using mem_ok_new by (simp add: scope_refines_def mem_ok_def) (simp add: new_memory_def mem_view_def index_view_def)
  from scope_run_refines [OF this, of xs] show ?thesis
    by (auto simp: scope_refines_def mem_in_scope_def journal_view_def split: option.splits)
qed

text \<open>
  The trait's default for a span-bounded scan reads the whole pattern and filters; the override reads
  a bounded range of one order.
\<close>

lemma default_span_scan:
  "mem_index_ok st \<Longrightarrow> scan_returns (default_quads_with_object_in (mem_scan st) s p span g)
     {q \<in> fst (mem_view st). quad_matches s p None g q \<and> span_contains span (enc_object q)}"
  using scan_returns_filter [OF mem.scan_exact [of st s p None g], of "\<lambda>q. span_contains span (enc_object q)"]
  by (simp add: default_quads_with_object_in_def conj_assoc)

text \<open>
  The storage's span-bounded scan returns the same quads, each once, as the default method of the
  storage trait, which filters a full pattern scan.
\<close>

lemma span_scan_agrees_with_default:
  assumes "mem_index_ok st"
  shows "\<exists>qs rs. collect_res (mem_quads_with_object_in st s p span g) = Inr qs
    \<and> collect_res (default_quads_with_object_in (mem_scan st) s p span g) = Inr rs
    \<and> distinct qs \<and> distinct rs \<and> set qs = set rs"
  using scan_returns_collect [OF mem.span_exact [OF assms, of s p span g]]
    scan_returns_collect [OF default_span_scan [OF assms, of s p span g]] by force

lemma quad_eqI:
  "enc_subject a = enc_subject b \<Longrightarrow> enc_predicate a = enc_predicate b \<Longrightarrow> enc_object a = enc_object b
    \<Longrightarrow> enc_graph a = enc_graph b \<Longrightarrow> a = b" for a b :: encoded_quad
  by (metis mk_quad_collapse)

lemma quad_matches_self:
  "quad_matches (Some (enc_subject q)) (Some (enc_predicate q)) (Some (enc_object q))
    (case enc_graph q of Some g \<Rightarrow> FilterNamed g | None \<Rightarrow> FilterDefault) r \<longleftrightarrow> r = q" for q :: encoded_quad
  by (cases "enc_graph q") (auto simp: quad_matches_def intro: quad_eqI)

lemma mem_contains_spec: "mem_index_ok st \<Longrightarrow> mem_contains_encoded st q = Inr (q \<in> fst (mem_view st))"
proof -
  assume ok: "mem_index_ok st"
  let ?f = "case enc_graph q of Some g \<Rightarrow> FilterNamed g | None \<Rightarrow> FilterDefault"
  let ?r = "mem_scan st (Some (enc_subject q)) (Some (enc_predicate q)) (Some (enc_object q)) ?f"
  have "{r \<in> fst (mem_view st). quad_matches (Some (enc_subject q)) (Some (enc_predicate q)) (Some (enc_object q)) ?f r}
      = (if q \<in> fst (mem_view st) then {q} else {})"
    unfolding quad_matches_self by auto
  with mem.scan_exact [OF ok, of "Some (enc_subject q)" "Some (enc_predicate q)" "Some (enc_object q)" ?f]
  obtain qs where qs: "?r = map Inr qs" "set qs = (if q \<in> fst (mem_view st) then {q} else {})"
    by (auto simp: scan_returns_def)
  then show ?thesis unfolding mem_contains_encoded_def mem_scan_def by (cases qs) (auto split: if_splits)
qed

lemma mem_ok_run:
  "mem_ok st \<Longrightarrow> mem_len st + length ws < 2 ^ 64 \<Longrightarrow> mem_ok (fst (run_with mem_step ws st))"
proof (induction ws arbitrary: st)
  case (Cons w ws)
  have ix: "mem_index_ok st" using Cons.prems by (simp add: mem_ok_def)
  obtain Q G where v: "mem_view st = (Q, G)" by (rule prod.exhaust)
  have fin: "finite Q" using finite_mem_view [of st] v by simp
  have "card (fst (fst (spec_write w (Q, G)))) \<le> Suc (card Q)"
    using fin card_insert_le_m1 [of "Suc (card Q)"]
    by (cases w) (auto simp: card_insert_if intro: le_SucI card_mono card_Diff1_le)
  then have len: "mem_len (fst (mem_step w st)) \<le> Suc (mem_len st)"
    using mem_len_card [OF mem.step_ok [OF ix], of w] mem_len_card [OF ix] mem.step_view [OF ix, of w] v by simp
  then have "mem_ok (fst (mem_step w st))" using mem_ok_step Cons.prems by simp
  then show ?case using Cons.IH [of "fst (mem_step w st)"] Cons.prems(2) len by (simp add: case_prod_beta)
qed simp

text \<open>
  C26. After any sequence of writes to an empty store, membership, the quad count, the count of every
  predicate and the histogram all agree with the specified set of quads: the histogram lists each
  used predicate once, with its number of quads, most frequent first.
\<close>

theorem storage_history_counts:
  assumes "length ws < 2 ^ 64" "st = fst (run_with mem_step ws new_memory)" "Q = fst (fst (spec_run ws ({}, {})))"
  shows "mem_contains_encoded st q = Inr (q \<in> Q) \<and> mem_len st = card Q
    \<and> predicate_count st p = word_of_nat (predicate_card Q p)
    \<and> set (predicate_histogram st) = {(p, word_of_nat (predicate_card Q p)) | p. predicate_card Q p \<noteq> 0}
    \<and> sorted (map histogram_key (predicate_histogram st)) \<and> distinct (map fst (predicate_histogram st))"
proof -
  have v0: "mem_view new_memory = ({}, {})" by (simp add: mem_view_def index_view_def new_memory_def)
  have len0: "mem_len new_memory = 0" by (simp add: mem_len_def new_memory_def index_len_new)
  have ok: "mem_ok st"
    using mem_ok_run [OF mem_ok_new, of ws] assms(1,2) len0 by simp
  then have ix: "mem_index_ok st" and c: "counts_ok (predicate_counts st) (fst (mem_view st))" by (auto simp: mem_ok_def)
  have Q: "fst (mem_view st) = Q"
    using mem.run_refines [of new_memory ws] mem_ok_new assms v0 by (simp add: mem_ok_def)
  have "distinct (map fst (predicate_counts st))" using c by (simp add: counts_ok_def)
  then have "set (predicate_histogram st) = {(p, n). map_of (predicate_counts st) p = Some n}"
    by (auto simp: predicate_histogram_def map_of_eq_Some_iff)
  also have "\<dots> = {(p, word_of_nat (predicate_card Q p)) | p. predicate_card Q p \<noteq> 0}"
    using c Q by (auto simp: counts_ok_def split: if_splits)
  finally have h: "set (predicate_histogram st) = {(p, word_of_nat (predicate_card Q p)) | p. predicate_card Q p \<noteq> 0}" .
  have "distinct (map fst (predicate_histogram st))"
    using c by (auto simp: predicate_histogram_def counts_ok_def distinct_map)
  then show ?thesis
    using h mem_contains_spec [OF ix] mem_len_card [OF ix] c Q
    by (simp add: predicate_count_def counts_ok_def predicate_histogram_def)
qed

theorem storage_history_counts_witness:
  "predicate_count (fst (run_with mem_step [InsertQuad (mk_quad (TermId 1) (TermId 2) (TermId 3) None),
      InsertQuad (mk_quad (TermId 1) (TermId 2) (TermId 4) None)] new_memory)) (TermId 2) = 2"
proof -
  let ?ws = "[InsertQuad (mk_quad (TermId 1) (TermId 2) (TermId 3) None), InsertQuad (mk_quad (TermId 1) (TermId 2) (TermId 4) None)]"
  have "{q. (q = mk_quad (TermId 1) (TermId 2) (TermId 4) None \<or> q = mk_quad (TermId 1) (TermId 2) (TermId 3) None)
      \<and> enc_predicate q = TermId 2} = {mk_quad (TermId 1) (TermId 2) (TermId 4) None, mk_quad (TermId 1) (TermId 2) (TermId 3) None}"
    by auto
  then have "predicate_card (fst (fst (spec_run ?ws ({}, {})))) (TermId 2) = 2"
    by (simp add: predicate_card_def)
  with storage_history_counts [OF _ refl refl, of ?ws _ "TermId 2"] show ?thesis by simp
qed

text \<open>
  C36. A single-quad write advances the generation by one exactly when it changes the set of quads,
  and dropping a named graph never advances it, even when it removes quads.
\<close>

theorem generation_changes:
  assumes "mem_index_ok st"
  shows "generation (fst (mem_insert_encoded q st)) = generation st + (if q \<in> fst (mem_view st) then 0 else 1)
    \<and> generation (fst (mem_remove_encoded q st)) = generation st + (if q \<in> fst (mem_view st) then 1 else 0)
    \<and> generation (fst (mem_remove_named_graph g st)) = generation st"
  using mem_step_eq [OF assms, of "InsertQuad q"] mem_step_eq [OF assms, of "RemoveQuad q"]
    mem_step_eq [OF assms, of "DropGraph g"]
  by (cases "mem_view st") auto

theorem generation_changes_witness:
  "let q = mk_quad (TermId 1) (TermId 2) (TermId 3) (Some (TermId 4)); st = fst (mem_insert_encoded q new_memory) in
    generation (fst (mem_remove_named_graph (TermId 4) st)) = generation st
    \<and> mem_contains_encoded st q = Inr True
    \<and> mem_contains_encoded (fst (mem_remove_named_graph (TermId 4) st)) q = Inr False"
proof -
  let ?q = "mk_quad (TermId 1) (TermId 2) (TermId 3) (Some (TermId 4))"
  let ?st = "fst (mem_insert_encoded ?q new_memory)"
  have ok: "mem_index_ok ?st" using mem.step_ok [of new_memory "InsertQuad ?q"] mem_ok_new by (simp add: mem_ok_def)
  have "mem_contains_encoded ?st ?q = Inr True" "mem_contains_encoded (fst (mem_remove_named_graph (TermId 4) ?st)) ?q = Inr False"
    by code_simp+
  with generation_changes [OF ok, of ?q "TermId 4"] show ?thesis by (simp add: Let_def)
qed

end
