(* ===== verification/Rocks_Codec.thy ===== *)
theory Rocks_Codec
  imports Term_Id Rdf_Terms "HOL-Library.Sublist"
begin

text \<open>
  The on-disk byte encodings of \<^verbatim>\<open>holos-store/src/rocks/codec.rs\<close>: big-endian index keys, the exclusive
  upper bound of a prefix scan, and the serialised term rows. Byte order of keys is identifier order, a
  prefix and its bound delimit exactly the keys with that prefix, and a term's row identifies it.
\<close>

section \<open>Keys\<close>

definition ID_BYTES :: nat where "ID_BYTES = 8"

definition put_id :: "term_id \<Rightarrow> byte list" where
  "put_id i = to_be_bytes64 (to_raw i)"

definition read_id :: "byte list \<Rightarrow> term_id res" where
  "read_id bs = (if length bs < ID_BYTES then Inl (Corruption ''key is shorter than a term id'')
    else Inr (from_raw (from_be_bytes64 (take ID_BYTES bs))))"

definition key :: "term_id list \<Rightarrow> byte list" where
  "key ids = concat (map put_id ids)"

definition split_key :: "nat \<Rightarrow> byte list \<Rightarrow> term_id list res" where
  "split_key n bs =
    (if length bs \<noteq> n * ID_BYTES then Inl (Corruption ''unexpected key length'')
     else collect_res (map (\<lambda>i. read_id (drop (i * ID_BYTES) bs)) [0..<n]))"

text \<open>The loop pops from the end, so it walks the reversed prefix.\<close>

fun bump_reversed :: "byte list \<Rightarrow> byte list option" where
  "bump_reversed [] = None"
| "bump_reversed (b # rest) = (if b \<noteq> 0xFF then Some (rev ((b + 1) # rest)) else bump_reversed rest)"

definition prefix_upper_bound :: "byte list \<Rightarrow> byte list option" where
  "prefix_upper_bound p = bump_reversed (rev p)"

section \<open>Term rows\<close>

definition T_IRI :: byte where "T_IRI = 0"

definition T_BLANK :: byte where "T_BLANK = 1"

definition T_SIMPLE :: byte where "T_SIMPLE = 2"

definition T_TYPED :: byte where "T_TYPED = 3"

definition T_LANG :: byte where "T_LANG = 4"

definition T_LANG_DIR :: byte where "T_LANG_DIR = 5"

definition T_TRIPLE :: byte where "T_TRIPLE = 6"

definition put_str :: "string \<Rightarrow> byte list res" where
  "put_str s = (if length s < 2 ^ 32 then Inr (to_be_bytes32 (word_of_nat (length s)) @ as_bytes s)
    else Inl (Panic ''a string longer than 4 GiB''))"

definition put_term :: "rdf_term \<Rightarrow> (term_id \<times> term_id \<times> term_id) option \<Rightarrow> byte list res" where
  "put_term t components =
    (case t of
       NamedNode n \<Rightarrow> Inr (T_IRI # as_bytes n)
     | BlankNode b \<Rightarrow> Inr (T_BLANK # as_bytes b)
     | Literal l \<Rightarrow>
         (case (lit_language l, lit_direction l) of
            (Some lang, Some dir) \<Rightarrow>
              (case put_str lang of
                 Inl e \<Rightarrow> Inl e
               | Inr s \<Rightarrow> Inr (T_LANG_DIR # (case dir of Ltr \<Rightarrow> 0 | Rtl \<Rightarrow> 1) # s @ as_bytes (lit_value l)))
          | (Some lang, None) \<Rightarrow>
              (case put_str lang of Inl e \<Rightarrow> Inl e | Inr s \<Rightarrow> Inr (T_LANG # s @ as_bytes (lit_value l)))
          | (None, _) \<Rightarrow>
              (if lit_datatype l = xsd_string then Inr (T_SIMPLE # as_bytes (lit_value l))
               else (case put_str (lit_datatype l) of
                  Inl e \<Rightarrow> Inl e | Inr s \<Rightarrow> Inr (T_TYPED # s @ as_bytes (lit_value l)))))
     | Triple _ _ _ \<Rightarrow>
         (case components of
            None \<Rightarrow> Inl (Panic ''a triple term must be serialised with its component ids'')
          | Some (a, b, c) \<Rightarrow> Inr (T_TRIPLE # put_id a @ put_id b @ put_id c)))"

datatype stored_term = Complete rdf_term | StoredTriple term_id term_id term_id

definition as_str :: "byte list \<Rightarrow> string res" where
  "as_str bs = (case from_utf8 bs of Some s \<Rightarrow> Inr s | None \<Rightarrow> Inl (Corruption ''term row is not UTF-8''))"

definition read_str :: "byte list \<Rightarrow> (string \<times> byte list) res" where
  "read_str bs =
    (if length bs < 4 then Inl (Corruption ''truncated length prefix'')
     else let len = unat (from_be_bytes32 (take 4 bs)) in
       if length bs < 4 + len then Inl (Corruption ''truncated string'')
       else (case as_str (take len (drop 4 bs)) of Inl e \<Rightarrow> Inl e | Inr s \<Rightarrow> Inr (s, drop (4 + len) bs)))"

definition complete :: "(string \<Rightarrow> rdf_term) \<Rightarrow> string res \<Rightarrow> stored_term res" where
  "complete f r = (case r of Inl e \<Rightarrow> Inl e | Inr s \<Rightarrow> Inr (Complete (f s)))"

definition read_tagged :: "(string \<Rightarrow> string \<Rightarrow> literal) \<Rightarrow> byte list \<Rightarrow> stored_term res" where
  "read_tagged f rest =
    (case read_str rest of Inl e \<Rightarrow> Inl e | Inr (s, v) \<Rightarrow> complete (\<lambda>v. Literal (f v s)) (as_str v))"

definition read_term :: "byte list \<Rightarrow> stored_term res" where
  "read_term bytes =
    (case bytes of
       [] \<Rightarrow> Inl (Corruption ''empty term row'')
     | t # rest \<Rightarrow>
         if t = T_IRI then complete NamedNode (as_str rest)
         else if t = T_BLANK then complete BlankNode (as_str rest)
         else if t = T_SIMPLE then complete (\<lambda>v. Literal (SimpleLit v)) (as_str rest)
         else if t = T_TYPED then read_tagged new_typed_literal rest
         else if t = T_LANG then read_tagged LangLit rest
         else if t = T_LANG_DIR then
           (case rest of
              [] \<Rightarrow> Inl (Corruption ''truncated directional literal'')
            | d # rest \<Rightarrow>
                if d = 0 then read_tagged (\<lambda>v l. DirLangLit v l Ltr) rest
                else if d = 1 then read_tagged (\<lambda>v l. DirLangLit v l Rtl) rest
                else Inl (Corruption ''unknown base direction''))
         else if t = T_TRIPLE then
           (case split_key 3 rest of
              Inl e \<Rightarrow> Inl e
            | Inr ids \<Rightarrow> (case ids of [a, b, c] \<Rightarrow> Inr (StoredTriple a b c) | _ \<Rightarrow> Inl (Panic ''split_key'')))
         else Inl (Corruption ''unknown term tag''))"

section \<open>Key lemmas\<close>

lemma length_put_id [simp]: "length (put_id i) = ID_BYTES"
  by (simp add: put_id_def ID_BYTES_def)

lemma length_key [simp]: "length (key ids) = length ids * ID_BYTES"
  by (induction ids) (simp_all add: key_def)

lemma key_simps [simp]: "key [] = []" "key (i # ids) = put_id i @ key ids" "key (is @ js) = key is @ key js"
  by (simp_all add: key_def)

lemma read_put_id [simp]: "read_id (put_id i @ bs) = Inr i"
  by (cases i) (simp add: read_id_def put_id_def ID_BYTES_def from_raw_def)

lemma put_id_less_iff: "put_id i < put_id j \<longleftrightarrow> i < j"
  by (cases i; cases j) (simp add: put_id_def to_be_bytes64_less_iff less_term_id_def)

lemma put_id_inject [simp]: "put_id i = put_id j \<longleftrightarrow> i = j"
  by (metis append_Nil2 old.sum.inject(2) read_put_id)

lemma append_less_append:
  "length a = length b \<Longrightarrow> a @ x < b @ y \<longleftrightarrow> a < b \<or> (a = b \<and> x < y)" for a b x y :: "'a::linorder list"
  by (induction a b rule: list_induct2) auto

lemma key_less_iff: "length is = length js \<Longrightarrow> key is < key js \<longleftrightarrow> is < js"
  by (induction "is" js rule: list_induct2) (auto simp: append_less_append put_id_less_iff)

lemma drop_key: "k \<le> length ids \<Longrightarrow> drop (k * ID_BYTES) (key ids) = key (drop k ids)"
proof (induction k arbitrary: ids)
  case (Suc k)
  then obtain i rest where "ids = i # rest" by (cases ids) auto
  with Suc show ?case by simp
qed simp

lemma split_key_key: "split_key n (key ids) = (if length ids = n then Inr ids else Inl (Corruption ''unexpected key length''))"
proof (cases "length ids = n")
  case True
  have "read_id (drop (k * ID_BYTES) (key ids)) = Inr (ids ! k)" if "k < n" for k
    using that True by (simp add: drop_key Cons_nth_drop_Suc [symmetric])
  then have "map (\<lambda>i. read_id (drop (i * ID_BYTES) (key ids))) [0..<n] = map Inr ids"
    using True by (intro nth_equalityI) simp_all
  then show ?thesis using True by (simp add: split_key_def)
qed (simp add: split_key_def ID_BYTES_def)

lemma prefix_append_append: "length a = length b \<Longrightarrow> prefix (a @ x) (b @ y) \<longleftrightarrow> a = b \<and> prefix x y"
  by (induction a b rule: list_induct2) auto

lemma prefix_key_iff: "length js \<le> length is \<Longrightarrow> prefix (key js) (key is) \<longleftrightarrow> prefix js is"
proof (induction js arbitrary: "is")
  case (Cons j js)
  then obtain i rest where i: "is = i # rest" by (cases "is") auto
  then show ?case using Cons by (simp add: prefix_append_append)
qed simp

section \<open>The bound of a prefix scan\<close>

definition below :: "byte list option \<Rightarrow> byte list \<Rightarrow> bool" where
  "below u k \<longleftrightarrow> (case u of None \<Rightarrow> True | Some b \<Rightarrow> k < b)"

lemma prefix_upper_bound_snoc:
  "prefix_upper_bound (p @ [b]) = (if b \<noteq> 0xFF then Some (p @ [b + 1]) else prefix_upper_bound p)"
  by (simp add: prefix_upper_bound_def)

lemma byte_succ_between: "b \<noteq> 0xFF \<Longrightarrow> x < b + 1 \<longleftrightarrow> x \<le> b" for b x :: byte
proof -
  assume "b \<noteq> 0xFF"
  then have "unat b \<noteq> 255" by (simp add: word_unat_eq_iff)
  moreover have "unat b < 256" by (rule unat_byte_less)
  ultimately have "unat b < 255" by linarith
  then have "unat (b + 1) = unat b + 1" by (simp add: unat_word_ariths)
  then show ?thesis by (simp add: word_less_nat_alt word_le_nat_alt less_Suc_eq_le)
qed

lemma byte_le_max: "x \<le> 0xFF" for x :: byte
proof -
  have "unat x < 256" by (rule unat_byte_less)
  then have "unat x \<le> 255" by linarith
  then show ?thesis by (simp add: word_le_nat_alt)
qed

lemma byte_succ_less: "b \<noteq> 0xFF \<Longrightarrow> b < b + 1" for b :: byte
  using byte_succ_between [of b b] by simp

lemma prefix_between:
  "b \<noteq> 0xFF \<Longrightarrow> prefix (p @ [b]) k \<longleftrightarrow> p @ [b] \<le> k \<and> k < p @ [b + 1]" for b :: byte
proof (induction p arbitrary: k)
  case Nil
  then show ?case by (cases k) (auto simp: byte_succ_between byte_succ_less)
next
  case (Cons a p)
  note IH = Cons.IH [OF Cons.prems]
  show ?case
  proof (cases k)
    case (Cons x ys)
    then show ?thesis using IH [of ys] by (cases "x = a") auto
  qed simp
qed

lemma prefix_le: "prefix p k \<Longrightarrow> p \<le> k" for p :: "'a::linorder list"
proof (induction p arbitrary: k)
  case (Cons a p)
  then show ?case by (cases k) auto
qed simp

lemma append_le_append: "a @ x \<le> a @ y \<longleftrightarrow> x \<le> y" for a x y :: "'a::linorder list"
  by (induction a) auto

lemma prefix_bound_iff: "prefix p k \<longleftrightarrow> p \<le> k \<and> below (prefix_upper_bound p) k"
proof (induction p rule: rev_induct)
  case Nil
  then show ?case by (simp add: prefix_upper_bound_def below_def)
next
  case (snoc b p)
  show ?case
  proof (cases "b = 0xFF")
    case False
    then show ?thesis by (simp add: prefix_upper_bound_snoc below_def prefix_between)
  next
    case True
    have "prefix (p @ [b]) k" if "p @ [b] \<le> k" "below (prefix_upper_bound p) k"
    proof -
      have "p \<le> p @ [b]" by (intro prefix_le) simp
      then have "prefix p k" using snoc that by (meson order_trans)
      then obtain y where y: "k = p @ y" by (auto simp: prefix_def)
      then have "[b] \<le> y" using that(1) append_le_append by blast
      then obtain z zs where "y = z # zs" "b \<le> z" by (cases y) auto
      then have "y = b # zs" using byte_le_max [of z] True by simp
      then show ?thesis using y by (simp add: prefix_def)
    qed
    moreover have "p @ [b] \<le> k \<and> below (prefix_upper_bound p) k" if "prefix (p @ [b]) k"
      using that snoc prefix_le append_prefixD by blast
    ultimately show ?thesis using True by (auto simp: prefix_upper_bound_snoc)
  qed
qed

section \<open>Term rows\<close>

lemma as_str_as_bytes [simp]: "is_str s \<Longrightarrow> as_str (as_bytes s) = Inr s"
  by (simp add: as_str_def)

lemma put_str_length: "put_str s = Inr bs \<Longrightarrow> length s < 2 ^ 32 \<and> bs = to_be_bytes32 (word_of_nat (length s)) @ as_bytes s"
  by (auto simp: put_str_def split: if_splits)

lemma read_put_str:
  assumes "put_str s = Inr bs" "is_str s"
  shows "read_str (bs @ rest) = Inr (s, rest)"
proof -
  have bs: "length s < 2 ^ 32" "bs = to_be_bytes32 (word_of_nat (length s)) @ as_bytes s"
    using put_str_length [OF assms(1)] by blast+
  then have "unat (word_of_nat (length s) :: u32) = length s" by (simp add: unat_of_nat)
  then show ?thesis using bs(2) assms(2) by (simp add: read_str_def Let_def)
qed

lemma read_tagged_put:
  "put_str s = Inr bs \<Longrightarrow> is_str s \<Longrightarrow> is_str v \<Longrightarrow> read_tagged f (bs @ as_bytes v) = Inr (Complete (Literal (f v s)))"
  by (simp add: read_tagged_def read_put_str complete_def)

lemmas term_tags = T_IRI_def T_BLANK_def T_SIMPLE_def T_TYPED_def T_LANG_def T_LANG_DIR_def T_TRIPLE_def

lemma split_key_3: "split_key 3 (put_id a @ put_id b @ put_id c) = Inr [a, b, c]"
  using split_key_key [of 3 "[a, b, c]"] by simp

definition stored_as :: "rdf_term \<Rightarrow> (term_id \<times> term_id \<times> term_id) option \<Rightarrow> stored_term" where
  "stored_as t c = (case t of Triple _ _ _ \<Rightarrow> (case c of Some (a, b, d) \<Rightarrow> StoredTriple a b d | None \<Rightarrow> Complete t) | _ \<Rightarrow> Complete t)"

lemma read_put_literal:
  assumes "wf_literal l" "put_term (Literal l) c = Inr bs"
  shows "read_term bs = Inr (Complete (Literal l))"
proof (cases l)
  case (SimpleLit v)
  then show ?thesis using assms by (auto simp: put_term_def read_term_def complete_def term_tags)
next
  case (TypedLit v dt)
  then show ?thesis using assms read_tagged_put [of dt]
    by (auto simp: put_term_def read_term_def term_tags new_typed_literal_def split: sum.splits)
next
  case (LangLit v g)
  then show ?thesis using assms read_tagged_put [of g]
    by (auto simp: put_term_def read_term_def term_tags split: sum.splits)
next
  case (DirLangLit v g d)
  then show ?thesis using assms read_tagged_put [of g]
    by (cases d) (auto simp: put_term_def read_term_def term_tags split: sum.splits)
qed

lemma read_put_term:
  assumes "wf_term t" "put_term t c = Inr bs"
  shows "read_term bs = Inr (stored_as t c)"
proof (cases t)
  case (Literal l)
  then show ?thesis using assms read_put_literal by (simp add: stored_as_def)
next
  case (Triple s p x)
  then obtain i j k where "c = Some (i, j, k)" "bs = T_TRIPLE # put_id i @ put_id j @ put_id k"
    using assms(2) by (auto simp: put_term_def split: option.splits)
  then show ?thesis using Triple by (simp add: read_term_def split_key_3 term_tags stored_as_def)
qed (use assms in \<open>auto simp: put_term_def read_term_def complete_def term_tags stored_as_def\<close>)

section \<open>Properties\<close>

text \<open>
  C27. Keys of the same length are ordered as bytes exactly as their identifiers are ordered, and split
  back into those identifiers; a key of another length is reported as corrupt.
\<close>

theorem key_order_and_split:
  "(length is = length js \<longrightarrow> (key is < key js \<longleftrightarrow> is < js))
    \<and> split_key n (key is) = (if length is = n then Inr is else Inl (Corruption ''unexpected key length''))"
  using key_less_iff split_key_key by blast

theorem key_order_and_split_witness:
  "key [TermId 1, TermId 0x300] < key [TermId 1, TermId 0x1000] \<and> split_key 2 (key [TermId 1, TermId 0x300]) = Inr [TermId 1, TermId 0x300]"
  using key_order_and_split [of "[TermId 1, TermId 0x300]" "[TermId 1, TermId 0x1000]" 2]
  by (simp add: less_term_id_def)

text \<open>
  C28. The half-open range from a key prefix to its exclusive upper bound holds exactly the keys of
  the identifier tuples that start with the bound identifiers, also when the bound is absent
  because every byte of the prefix is the largest.
\<close>

theorem prefix_scan_exact:
  assumes "length js \<le> length is"
  shows "key js \<le> key is \<and> (case prefix_upper_bound (key js) of None \<Rightarrow> True | Some u \<Rightarrow> key is < u)
    \<longleftrightarrow> prefix js is"
  using prefix_bound_iff [of "key js" "key is"] prefix_key_iff [OF assms] by (simp add: below_def)

theorem prefix_scan_exact_witness:
  "key [TermId (- 1)] \<le> key [TermId (- 1), TermId 5]
    \<and> (case prefix_upper_bound (key [TermId (- 1)]) of None \<Rightarrow> True | Some u \<Rightarrow> key [TermId (- 1), TermId 5] < u)"
  using prefix_scan_exact [of "[TermId (- 1)]" "[TermId (- 1), TermId 5]"] by simp

text \<open>
  C29. A well-formed term that can be serialised is read back exactly, a triple term as its component
  identifiers; so two terms with the same row are the same term.
\<close>

theorem term_row_round_trip:
  assumes "wf_term t" "put_term t c = Inr bs"
  shows "read_term bs = Inr (stored_as t c)
    \<and> (\<forall>u d. wf_term u \<longrightarrow> put_term u d = Inr bs \<longrightarrow> stored_as u d = stored_as t c)"
  using read_put_term [OF assms] read_put_term by fastforce

theorem term_row_round_trip_witness:
  "\<exists>bs. put_term (Literal (DirLangLit ''shalom'' ''he'' Rtl)) None = Inr bs
    \<and> read_term bs = Inr (Complete (Literal (DirLangLit ''shalom'' ''he'' Rtl)))"
proof -
  let ?t = "Literal (DirLangLit ''shalom'' ''he'' Rtl)"
  have w: "wf_term ?t" by code_simp
  obtain bs where bs: "put_term ?t None = Inr bs" by (simp add: put_term_def put_str_def)
  from term_row_round_trip [OF w bs] bs show ?thesis by (simp add: stored_as_def)
qed

end
