(* ===== verification/Store_Facade.thy ===== *)
theory Store_Facade
  imports Memory_Storage
begin

text \<open>
  The store facade of \<^verbatim>\<open>holos-store/src/lib.rs\<close>: RDF quads over a storage backend. \<open>Box<dyn Storage>\<close> is
  a record of the trait's methods; the locale \<open>storage\<close> states what the facade relies on, the facade's
  lemmas are proved once inside it, and the in-memory tier interprets it.

  The abstract state is the set of RDF quads that are stored (\<open>rdf_quads\<close>): inserting, removing, testing
  and listing quads are the operations on that set, whatever identifiers the dictionary chose.
\<close>

section \<open>The storage trait\<close>

record 's storage_ops =
  op_encode :: "rdf_term \<Rightarrow> 's \<Rightarrow> 's \<times> term_id res"
  op_lookup :: "'s \<Rightarrow> rdf_term \<Rightarrow> term_id option res"
  op_decode :: "'s \<Rightarrow> term_id \<Rightarrow> rdf_term option res"
  op_dictionary_len :: "'s \<Rightarrow> nat"
  op_insert_encoded :: "encoded_quad \<Rightarrow> 's \<Rightarrow> 's \<times> bool res"
  op_remove_encoded :: "encoded_quad \<Rightarrow> 's \<Rightarrow> 's \<times> bool res"
  op_contains_encoded :: "'s \<Rightarrow> encoded_quad \<Rightarrow> bool res"
  op_scan :: "'s \<Rightarrow> term_id option \<Rightarrow> term_id option \<Rightarrow> term_id option \<Rightarrow> graph_filter \<Rightarrow> quad_scan"
  op_quads_with_object_in :: "'s \<Rightarrow> term_id option \<Rightarrow> term_id option \<Rightarrow> id_range \<Rightarrow> graph_filter \<Rightarrow> quad_scan"
  op_len :: "'s \<Rightarrow> nat"
  op_insert_named_graph :: "term_id \<Rightarrow> 's \<Rightarrow> 's \<times> bool res"
  op_remove_named_graph :: "term_id \<Rightarrow> 's \<Rightarrow> 's \<times> bool res"
  op_contains_named_graph :: "'s \<Rightarrow> term_id \<Rightarrow> bool res"
  op_named_graphs :: "'s \<Rightarrow> term_id list res"

definition memory_ops :: "'dt xsd_lib \<Rightarrow> memory_storage storage_ops" where
  "memory_ops X = \<lparr>op_encode = mem_encode X, op_lookup = mem_lookup X, op_decode = mem_decode X,
    op_dictionary_len = mem_dictionary_len,
    op_insert_encoded = mem_insert_encoded, op_remove_encoded = mem_remove_encoded,
    op_contains_encoded = mem_contains_encoded, op_scan = mem_scan,
    op_quads_with_object_in = mem_quads_with_object_in, op_len = mem_len,
    op_insert_named_graph = mem_insert_named_graph, op_remove_named_graph = mem_remove_named_graph,
    op_contains_named_graph = mem_contains_named_graph, op_named_graphs = mem_named_graphs\<rparr>"

section \<open>The facade\<close>

text \<open>The question mark operator on a method that changes the state.\<close>

definition and_then :: "'s \<times> 'a res \<Rightarrow> ('a \<Rightarrow> 's \<Rightarrow> 's \<times> 'b res) \<Rightarrow> 's \<times> 'b res" where
  "and_then r f = (case r of (st, Inl e) \<Rightarrow> (st, Inl e) | (st, Inr x) \<Rightarrow> f x st)"

fun graph_term :: "graph_name \<Rightarrow> rdf_term option" where
  "graph_term DefaultGraph = None"
| "graph_term (GraphNamed n) = Some (NamedNode n)"
| "graph_term (GraphBlank b) = Some (BlankNode b)"

definition encode_quad :: "'s storage_ops \<Rightarrow> quad \<Rightarrow> 's \<Rightarrow> 's \<times> encoded_quad res" where
  "encode_quad ops q st =
    and_then (op_encode ops (node_term (q_subject q)) st) (\<lambda>s st.
    and_then (op_encode ops (NamedNode (q_predicate q)) st) (\<lambda>p st.
    and_then (op_encode ops (q_object q) st) (\<lambda>x st.
      (case graph_term (q_graph q) of
         None \<Rightarrow> (st, Inr (mk_quad s p x None))
       | Some g \<Rightarrow> and_then (op_encode ops g st) (\<lambda>g st. (st, Inr (mk_quad s p x (Some g))))))))"

definition lookup_graph_name :: "'s storage_ops \<Rightarrow> 's \<Rightarrow> graph_name \<Rightarrow> term_id option option res" where
  "lookup_graph_name ops st g =
    (case graph_term g of
       None \<Rightarrow> Inr (Some None)
     | Some t \<Rightarrow> (case op_lookup ops st t of Inl e \<Rightarrow> Inl e | Inr r \<Rightarrow> Inr (map_option Some r)))"

definition lookup_quad :: "'s storage_ops \<Rightarrow> 's \<Rightarrow> quad \<Rightarrow> encoded_quad option res" where
  "lookup_quad ops st q =
    (case op_lookup ops st (node_term (q_subject q)) of Inl e \<Rightarrow> Inl e | Inr s \<Rightarrow>
    (case op_lookup ops st (NamedNode (q_predicate q)) of Inl e \<Rightarrow> Inl e | Inr p \<Rightarrow>
    (case op_lookup ops st (q_object q) of Inl e \<Rightarrow> Inl e | Inr x \<Rightarrow>
    (case lookup_graph_name ops st (q_graph q) of Inl e \<Rightarrow> Inl e | Inr g \<Rightarrow>
    (case (s, p, x, g) of
       (Some s, Some p, Some x, Some g) \<Rightarrow> Inr (Some (mk_quad s p x g))
     | _ \<Rightarrow> Inr None)))))"

definition store_insert :: "'s storage_ops \<Rightarrow> quad \<Rightarrow> 's \<Rightarrow> 's \<times> bool res" where
  "store_insert ops q st = and_then (encode_quad ops q st) (\<lambda>e st. op_insert_encoded ops e st)"

definition store_remove :: "'s storage_ops \<Rightarrow> quad \<Rightarrow> 's \<Rightarrow> 's \<times> bool res" where
  "store_remove ops q st =
    (case lookup_quad ops st q of
       Inl e \<Rightarrow> (st, Inl e)
     | Inr None \<Rightarrow> (st, Inr False)
     | Inr (Some e) \<Rightarrow> op_remove_encoded ops e st)"

definition store_contains :: "'s storage_ops \<Rightarrow> 's \<Rightarrow> quad \<Rightarrow> bool res" where
  "store_contains ops st q =
    (case lookup_quad ops st q of
       Inl e \<Rightarrow> Inl e
     | Inr None \<Rightarrow> Inr False
     | Inr (Some e) \<Rightarrow> op_contains_encoded ops st e)"

definition store_insert_named_graph :: "'s storage_ops \<Rightarrow> graph_name \<Rightarrow> 's \<Rightarrow> 's \<times> bool res" where
  "store_insert_named_graph ops g st =
    (case graph_term g of
       None \<Rightarrow> (st, Inr False)
     | Some t \<Rightarrow> and_then (op_encode ops t st) (\<lambda>i st. op_insert_named_graph ops i st))"

definition store_remove_named_graph :: "'s storage_ops \<Rightarrow> graph_name \<Rightarrow> 's \<Rightarrow> 's \<times> bool res" where
  "store_remove_named_graph ops g st =
    (case lookup_graph_name ops st g of
       Inl e \<Rightarrow> (st, Inl e)
     | Inr (Some (Some i)) \<Rightarrow> op_remove_named_graph ops i st
     | Inr _ \<Rightarrow> (st, Inr False))"

definition store_contains_named_graph :: "'s storage_ops \<Rightarrow> 's \<Rightarrow> graph_name \<Rightarrow> bool res" where
  "store_contains_named_graph ops st g =
    (case lookup_graph_name ops st g of
       Inl e \<Rightarrow> Inl e
     | Inr (Some (Some i)) \<Rightarrow> op_contains_named_graph ops st i
     | Inr _ \<Rightarrow> Inr False)"

definition require_term :: "'s storage_ops \<Rightarrow> 's \<Rightarrow> term_id \<Rightarrow> rdf_term res" where
  "require_term ops st i =
    (case op_decode ops st i of
       Inl e \<Rightarrow> Inl e
     | Inr None \<Rightarrow> Inl (Corruption ''term is indexed but not in the dictionary'')
     | Inr (Some t) \<Rightarrow> Inr t)"

definition decode_quad :: "'s storage_ops \<Rightarrow> 's \<Rightarrow> encoded_quad \<Rightarrow> quad res" where
  "decode_quad ops st e =
    (case require_term ops st (enc_subject e) of Inl err \<Rightarrow> Inl err | Inr s \<Rightarrow>
    (case (case s of NamedNode n \<Rightarrow> Some (NodeNamed n) | BlankNode b \<Rightarrow> Some (NodeBlank b) | _ \<Rightarrow> None) of
       None \<Rightarrow> Inl (Corruption ''quad subject decoded to a term which cannot be a subject'')
     | Some subject \<Rightarrow>
    (case require_term ops st (enc_predicate e) of Inl err \<Rightarrow> Inl err | Inr p \<Rightarrow>
    (case p of
       NamedNode predicate \<Rightarrow>
        (case require_term ops st (enc_object e) of Inl err \<Rightarrow> Inl err | Inr obj \<Rightarrow>
        (case enc_graph e of
           None \<Rightarrow> Inr \<lparr>q_subject = subject, q_predicate = predicate, q_object = obj, q_graph = DefaultGraph\<rparr>
         | Some g \<Rightarrow>
            (case require_term ops st g of Inl err \<Rightarrow> Inl err | Inr gt \<Rightarrow>
            (case gt of
               NamedNode n \<Rightarrow> Inr \<lparr>q_subject = subject, q_predicate = predicate, q_object = obj, q_graph = GraphNamed n\<rparr>
             | BlankNode b \<Rightarrow> Inr \<lparr>q_subject = subject, q_predicate = predicate, q_object = obj, q_graph = GraphBlank b\<rparr>
             | _ \<Rightarrow> Inl (Corruption ''graph name decoded to a term which cannot name a graph'')))))
     | _ \<Rightarrow> Inl (Corruption ''quad predicate decoded to a non-IRI'')))))"

definition store_iter :: "'s storage_ops \<Rightarrow> 's \<Rightarrow> quad res list" where
  "store_iter ops st = map (\<lambda>r. case r of Inl e \<Rightarrow> Inl e | Inr e \<Rightarrow> decode_quad ops st e) (op_scan ops st None None None FilterAny)"

definition store_new :: memory_storage where
  "store_new = new_memory"

section \<open>What the facade relies on\<close>

fun wf_graph :: "graph_name \<Rightarrow> bool" where
  "wf_graph DefaultGraph = True"
| "wf_graph (GraphNamed n) = is_str n"
| "wf_graph (GraphBlank b) = is_str b"

definition wf_quad :: "quad \<Rightarrow> bool" where
  "wf_quad q \<longleftrightarrow> wf_node (q_subject q) \<and> is_str (q_predicate q) \<and> wf_term (q_object q) \<and> wf_graph (q_graph q)"

definition quad_cost :: "quad \<Rightarrow> nat" where
  "quad_cost q = 3 + term_cost (q_object q)"

fun op_step :: "'s storage_ops \<Rightarrow> quad_write \<Rightarrow> 's \<Rightarrow> 's \<times> bool res" where
  "op_step ops (InsertQuad q) st = op_insert_encoded ops q st"
| "op_step ops (RemoveQuad q) st = op_remove_encoded ops q st"
| "op_step ops (CreateGraph g) st = op_insert_named_graph ops g st"
| "op_step ops (DropGraph g) st = op_remove_named_graph ops g st"

text \<open>A stored quad, and the quads and graphs of a store, at the level of RDF.\<close>

definition encodes :: "'s storage_ops \<Rightarrow> 's \<Rightarrow> quad \<Rightarrow> encoded_quad \<Rightarrow> bool" where
  "encodes ops st q e \<longleftrightarrow> lookup_quad ops st q = Inr (Some e)"

definition names :: "'s storage_ops \<Rightarrow> 's \<Rightarrow> graph_name \<Rightarrow> term_id option \<Rightarrow> bool" where
  "names ops st g i \<longleftrightarrow> lookup_graph_name ops st g = Inr (Some i)"

definition rdf_quads :: "'s storage_ops \<Rightarrow> ('s \<Rightarrow> dataset) \<Rightarrow> 's \<Rightarrow> quad set" where
  "rdf_quads ops view st = {q. wf_quad q \<and> (\<exists>e\<in>fst (view st). encodes ops st q e)}"

definition rdf_graphs :: "'s storage_ops \<Rightarrow> ('s \<Rightarrow> dataset) \<Rightarrow> 's \<Rightarrow> graph_name set" where
  "rdf_graphs ops view st = {g. wf_graph g \<and> (\<exists>i\<in>snd (view st). names ops st g (Some i))}"

text \<open>Every stored identifier came from a well-formed term.\<close>

definition decodable :: "'s storage_ops \<Rightarrow> ('s \<Rightarrow> dataset) \<Rightarrow> 's \<Rightarrow> bool" where
  "decodable ops view st \<longleftrightarrow> (\<forall>e\<in>fst (view st). \<exists>q. wf_quad q \<and> encodes ops st q e)
    \<and> (\<forall>i\<in>snd (view st). \<exists>g. wf_graph g \<and> names ops st g (Some i))"

definition known_stays :: "'s storage_ops \<Rightarrow> 's \<Rightarrow> 's \<Rightarrow> bool" where
  "known_stays ops st st' \<longleftrightarrow> (\<forall>u j. op_lookup ops st u = Inr (Some j) \<longrightarrow> op_lookup ops st' u = Inr (Some j))"

lemma names_iff:
  "names ops st g i \<longleftrightarrow> (case graph_term g of None \<Rightarrow> i = None
    | Some t \<Rightarrow> \<exists>j. i = Some j \<and> op_lookup ops st t = Inr (Some j))"
  by (auto simp: names_def lookup_graph_name_def split: option.splits sum.splits)

lemma encodes_iff:
  "encodes ops st q e \<longleftrightarrow> op_lookup ops st (node_term (q_subject q)) = Inr (Some (enc_subject e))
    \<and> op_lookup ops st (NamedNode (q_predicate q)) = Inr (Some (enc_predicate e))
    \<and> op_lookup ops st (q_object q) = Inr (Some (enc_object e)) \<and> names ops st (q_graph q) (enc_graph e)"
proof -
  have mk: "mk_quad a b c d = e \<longleftrightarrow> a = enc_subject e \<and> b = enc_predicate e \<and> c = enc_object e \<and> d = enc_graph e" for a b c d
    by (auto simp: mk_quad_def)
  show ?thesis
    unfolding encodes_def names_def lookup_quad_def
    by (auto simp: mk split: sum.splits option.splits)
qed

lemma encodes_functional: "encodes ops st q e \<Longrightarrow> encodes ops st q f \<Longrightarrow> e = f"
  by (simp add: encodes_def)

lemma names_mono: "known_stays ops st st' \<Longrightarrow> names ops st g i \<Longrightarrow> names ops st' g i"
  by (auto simp: names_iff known_stays_def split: option.splits)

lemma encodes_mono: "known_stays ops st st' \<Longrightarrow> encodes ops st q e \<Longrightarrow> encodes ops st' q e"
  unfolding encodes_iff using names_mono by (auto simp: known_stays_def)

lemma known_stays_trans: "known_stays ops a b \<Longrightarrow> known_stays ops b c \<Longrightarrow> known_stays ops a c"
  by (simp add: known_stays_def)

lemma graph_term_wf: "graph_term g = Some t \<Longrightarrow> wf_graph g \<longleftrightarrow> wf_term t" "graph_term g = Some t \<Longrightarrow> term_cost t = 1"
  by (cases g; auto)+

lemma graph_term_inject: "graph_term g = graph_term h \<longleftrightarrow> g = h"
  by (cases g; cases h) auto

lemma node_cost [simp]: "term_cost (node_term n) = 1"
  by (cases n) auto

lemma and_then_Inr [simp]: "and_then (st, Inr x) f = f x st"
  by (simp add: and_then_def)

text \<open>The same writes at the level of RDF, and their specification on sets of quads and graph names.\<close>

datatype rdf_write = PutQuad quad | DeleteQuad quad | NewGraph graph_name | EraseGraph graph_name

type_synonym rdf_dataset = "quad set \<times> graph_name set"

fun rdf_spec :: "rdf_write \<Rightarrow> rdf_dataset \<Rightarrow> rdf_dataset \<times> bool" where
  "rdf_spec (PutQuad q) (Q, G) = ((insert q Q, G \<union> ({q_graph q} - {DefaultGraph})), q \<notin> Q)"
| "rdf_spec (DeleteQuad q) (Q, G) = ((Q - {q}, G), q \<in> Q)"
| "rdf_spec (NewGraph g) (Q, G) = (if g = DefaultGraph then ((Q, G), False) else ((Q, insert g G), g \<notin> G))"
| "rdf_spec (EraseGraph g) (Q, G) =
    (if g = DefaultGraph then ((Q, G), False) else (({q \<in> Q. q_graph q \<noteq> g}, G - {g}), g \<in> G))"

fun rdf_spec_run :: "rdf_write list \<Rightarrow> rdf_dataset \<Rightarrow> rdf_dataset \<times> bool list" where
  "rdf_spec_run [] d = (d, [])"
| "rdf_spec_run (w # ws) d = (case rdf_spec w d of (d1, b) \<Rightarrow> case rdf_spec_run ws d1 of (d2, bs) \<Rightarrow> (d2, b # bs))"

fun rdf_step :: "'s storage_ops \<Rightarrow> rdf_write \<Rightarrow> 's \<Rightarrow> 's \<times> bool res" where
  "rdf_step ops (PutQuad q) st = store_insert ops q st"
| "rdf_step ops (DeleteQuad q) st = store_remove ops q st"
| "rdf_step ops (NewGraph g) st = store_insert_named_graph ops g st"
| "rdf_step ops (EraseGraph g) st = store_remove_named_graph ops g st"

fun rdf_run :: "'s storage_ops \<Rightarrow> rdf_write list \<Rightarrow> 's \<Rightarrow> 's \<times> bool res list" where
  "rdf_run ops [] st = (st, [])"
| "rdf_run ops (w # ws) st = (case rdf_step ops w st of (st1, r) \<Rightarrow> case rdf_run ops ws st1 of (st2, rs) \<Rightarrow> (st2, r # rs))"

fun wf_write :: "rdf_write \<Rightarrow> bool" where
  "wf_write (PutQuad q) = wf_quad q"
| "wf_write (DeleteQuad q) = wf_quad q"
| "wf_write (NewGraph g) = wf_graph g"
| "wf_write (EraseGraph g) = wf_graph g"

fun write_cost :: "rdf_write \<Rightarrow> nat" where
  "write_cost (PutQuad q) = quad_cost q"
| "write_cost (NewGraph g) = 1"
| "write_cost _ = 0"

definition rdf_view :: "'s storage_ops \<Rightarrow> ('s \<Rightarrow> dataset) \<Rightarrow> 's \<Rightarrow> rdf_dataset" where
  "rdf_view ops view st = (rdf_quads ops view st, rdf_graphs ops view st)"

locale storage =
  fixes ops :: "'s storage_ops"
    and ok :: "'s \<Rightarrow> bool"
    and view :: "'s \<Rightarrow> dataset"
  assumes encode_interns: "ok st \<Longrightarrow> wf_term t \<Longrightarrow> op_dictionary_len ops st + term_cost t \<le> 2 ^ 60 \<Longrightarrow>
      \<exists>i st'. op_encode ops t st = (st', Inr i) \<and> op_lookup ops st' t = Inr (Some i) \<and> ok st' \<and> view st' = view st
        \<and> op_dictionary_len ops st' \<le> op_dictionary_len ops st + term_cost t
        \<and> (\<forall>u j. op_lookup ops st u = Inr (Some j) \<longrightarrow> op_lookup ops st' u = Inr (Some j))"
    and lookup_total: "ok st \<Longrightarrow> wf_term t \<Longrightarrow> \<exists>r. op_lookup ops st t = Inr r"
    and decode_lookup: "ok st \<Longrightarrow> wf_term t \<Longrightarrow> op_lookup ops st t = Inr (Some i) \<Longrightarrow> op_decode ops st i = Inr (Some t)"
    and step_ok: "ok st \<Longrightarrow> ok (fst (op_step ops w st))"
    and step_view: "ok st \<Longrightarrow> view (fst (op_step ops w st)) = fst (spec_write w (view st))"
    and step_result: "ok st \<Longrightarrow> snd (op_step ops w st) = Inr (snd (spec_write w (view st)))"
    and step_dictionary: "ok st \<Longrightarrow> op_lookup ops (fst (op_step ops w st)) t = op_lookup ops st t
      \<and> op_dictionary_len ops (fst (op_step ops w st)) = op_dictionary_len ops st"
    and contains_exact: "ok st \<Longrightarrow> op_contains_encoded ops st q = Inr (q \<in> fst (view st))"
    and contains_graph_exact: "ok st \<Longrightarrow> op_contains_named_graph ops st i = Inr (i \<in> snd (view st))"
    and scan_exact: "ok st \<Longrightarrow> scan_returns (op_scan ops st s p x g) {q \<in> fst (view st). quad_matches s p x g q}"
begin

lemma lookup_injective:
  "ok st \<Longrightarrow> wf_term t \<Longrightarrow> wf_term u \<Longrightarrow> op_lookup ops st t = Inr (Some i) \<Longrightarrow> op_lookup ops st u = Inr (Some i) \<Longrightarrow> t = u"
  using decode_lookup [of st t i] decode_lookup [of st u i] by simp

lemma names_inject:
  assumes "ok st" "wf_graph g" "wf_graph h" "names ops st g i" "names ops st h i"
  shows "g = h"
proof -
  have "graph_term g = graph_term h"
  proof (cases "graph_term g"; cases "graph_term h")
    fix t u assume t: "graph_term g = Some t" "graph_term h = Some u"
    then obtain j where "op_lookup ops st t = Inr (Some j)" "op_lookup ops st u = Inr (Some j)"
      using assms(4,5) by (auto simp: names_iff)
    then have "t = u" using lookup_injective [OF assms(1)] graph_term_wf(1) t assms(2,3) by blast
    with t show ?thesis by simp
  qed (use assms(4,5) in \<open>auto simp: names_iff\<close>)
  then show ?thesis by (simp add: graph_term_inject)
qed

lemma encodes_inject:
  assumes "ok st" "wf_quad q" "wf_quad r" "encodes ops st q e" "encodes ops st r e"
  shows "q = r"
proof -
  note wf = assms(2,3) [unfolded wf_quad_def] and e = assms(4,5) [unfolded encodes_iff]
  have "node_term (q_subject q) = node_term (q_subject r)"
    using wf e by (intro lookup_injective [OF assms(1), of _ _ "enc_subject e"]) simp_all
  moreover have "NamedNode (q_predicate q) = NamedNode (q_predicate r)"
    using wf e by (intro lookup_injective [OF assms(1), of _ _ "enc_predicate e"]) simp_all
  moreover have "q_object q = q_object r"
    using wf e by (intro lookup_injective [OF assms(1), of _ _ "enc_object e"]) simp_all
  moreover have "q_graph q = q_graph r"
    using wf e by (intro names_inject [OF assms(1), of _ _ "enc_graph e"]) simp_all
  ultimately show ?thesis by simp
qed

text \<open>Interning keeps the stored quads and graphs.\<close>

lemma interning_keeps:
  assumes ok: "ok st" "ok st'" and view: "view st' = view st" and stays: "known_stays ops st st'" and dec: "decodable ops view st"
  shows "rdf_quads ops view st' = rdf_quads ops view st" "rdf_graphs ops view st' = rdf_graphs ops view st"
    "decodable ops view st'"
proof -
  have "q \<in> rdf_quads ops view st" if q: "wf_quad q" "e \<in> fst (view st)" "encodes ops st' q e" for q e
  proof -
    obtain r where r: "wf_quad r" "encodes ops st r e" using dec q(2) by (auto simp: decodable_def)
    then have "q = r" using encodes_inject [OF ok(2) q(1) r(1) q(3)] encodes_mono [OF stays r(2)] by blast
    with r q(2) show ?thesis by (auto simp: rdf_quads_def)
  qed
  then show "rdf_quads ops view st' = rdf_quads ops view st"
    using encodes_mono [OF stays] unfolding rdf_quads_def view by blast
  have "g \<in> rdf_graphs ops view st" if g: "wf_graph g" "i \<in> snd (view st)" "names ops st' g (Some i)" for g i
  proof -
    obtain h where h: "wf_graph h" "names ops st h (Some i)" using dec g(2) by (auto simp: decodable_def)
    then have "g = h" using names_inject [OF ok(2) g(1) h(1) g(3)] names_mono [OF stays h(2)] by blast
    with h g(2) show ?thesis by (auto simp: rdf_graphs_def)
  qed
  then show "rdf_graphs ops view st' = rdf_graphs ops view st"
    using names_mono [OF stays] unfolding rdf_graphs_def view by blast
  show "decodable ops view st'"
    using dec encodes_mono [OF stays] names_mono [OF stays] unfolding decodable_def view by blast
qed

lemma encode_term:
  assumes "ok st" "wf_term t" "op_dictionary_len ops st + term_cost t \<le> 2 ^ 60"
  obtains i st' where "op_encode ops t st = (st', Inr i)" "op_lookup ops st' t = Inr (Some i)" "ok st'"
    "view st' = view st" "op_dictionary_len ops st' \<le> op_dictionary_len ops st + term_cost t" "known_stays ops st st'"
  using encode_interns [OF assms] by (auto simp: known_stays_def)

lemma encode_quad_spec:
  assumes ok: "ok st" and wf: "wf_quad q" and room: "op_dictionary_len ops st + quad_cost q \<le> 2 ^ 60"
  obtains e st' where "encode_quad ops q st = (st', Inr e)" "encodes ops st' q e" "ok st'" "view st' = view st"
    "op_dictionary_len ops st' \<le> op_dictionary_len ops st + quad_cost q" "known_stays ops st st'"
proof -
  obtain s s1 where 1: "op_encode ops (node_term (q_subject q)) st = (s1, Inr s)"
    "op_lookup ops s1 (node_term (q_subject q)) = Inr (Some s)" "ok s1" "view s1 = view st"
    "op_dictionary_len ops s1 \<le> op_dictionary_len ops st + 1" "known_stays ops st s1"
    by (rule encode_term [OF ok, of "node_term (q_subject q)"]) (use wf room in \<open>simp_all add: wf_quad_def quad_cost_def\<close>)
  obtain p s2 where 2: "op_encode ops (NamedNode (q_predicate q)) s1 = (s2, Inr p)"
    "op_lookup ops s2 (NamedNode (q_predicate q)) = Inr (Some p)" "ok s2" "view s2 = view s1"
    "op_dictionary_len ops s2 \<le> op_dictionary_len ops s1 + 1" "known_stays ops s1 s2"
    by (rule encode_term [OF 1(3), of "NamedNode (q_predicate q)"]) (use wf room 1(5) in \<open>simp_all add: wf_quad_def quad_cost_def\<close>)
  obtain x s3 where 3: "op_encode ops (q_object q) s2 = (s3, Inr x)"
    "op_lookup ops s3 (q_object q) = Inr (Some x)" "ok s3" "view s3 = view s2"
    "op_dictionary_len ops s3 \<le> op_dictionary_len ops s2 + term_cost (q_object q)" "known_stays ops s2 s3"
    by (rule encode_term [OF 2(3), of "q_object q"]) (use wf room 1(5) 2(5) in \<open>simp_all add: wf_quad_def quad_cost_def\<close>)
  have k: "op_lookup ops s3 (node_term (q_subject q)) = Inr (Some s)" "op_lookup ops s3 (NamedNode (q_predicate q)) = Inr (Some p)"
    using 1(2) 2(2,6) 3(6) by (auto simp: known_stays_def)
  have stays: "known_stays ops st s3" by (rule known_stays_trans [OF known_stays_trans [OF 1(6) 2(6)] 3(6)])
  show thesis
  proof (cases "graph_term (q_graph q)")
    case None
    then have "encode_quad ops q st = (s3, Inr (mk_quad s p x None))" using 1(1) 2(1) 3(1) by (simp add: encode_quad_def)
    moreover have "encodes ops s3 q (mk_quad s p x None)" using k 3(2) None by (simp add: encodes_iff names_iff)
    moreover have "op_dictionary_len ops s3 \<le> op_dictionary_len ops st + quad_cost q"
      using 1(5) 2(5) 3(5) by (simp add: quad_cost_def)
    ultimately show thesis using that [of s3] 1(4) 2(4) 3(3,4) stays by simp
  next
    case (Some g)
    obtain i s4 where 4: "op_encode ops g s3 = (s4, Inr i)" "op_lookup ops s4 g = Inr (Some i)" "ok s4" "view s4 = view s3"
      "op_dictionary_len ops s4 \<le> op_dictionary_len ops s3 + 1" "known_stays ops s3 s4"
      by (rule encode_term [OF 3(3), of g])
         (use wf room 1(5) 2(5) 3(5) graph_term_wf [OF Some] in \<open>simp_all add: wf_quad_def quad_cost_def\<close>)
    have "encode_quad ops q st = (s4, Inr (mk_quad s p x (Some i)))" using 1(1) 2(1) 3(1) 4(1) Some by (simp add: encode_quad_def)
    moreover have "encodes ops s4 q (mk_quad s p x (Some i))"
      using k 3(2) 4(2,6) Some by (auto simp: encodes_iff names_iff known_stays_def)
    moreover have "known_stays ops st s4" by (rule known_stays_trans [OF stays 4(6)])
    moreover have "op_dictionary_len ops s4 \<le> op_dictionary_len ops st + quad_cost q"
      using 1(5) 2(5) 3(5) 4(5) by (simp add: quad_cost_def)
    ultimately show thesis using that [of s4] 1(4) 2(4) 3(4) 4(3,4) by simp
  qed
qed

lemma step_keeps:
  assumes "ok st"
  shows "known_stays ops st (fst (op_step ops w st))" "encodes ops (fst (op_step ops w st)) = encodes ops st"
    "names ops (fst (op_step ops w st)) = names ops st"
    "op_dictionary_len ops (fst (op_step ops w st)) = op_dictionary_len ops st"
proof -
  have eq: "op_lookup ops (fst (op_step ops w st)) = op_lookup ops st"
    "op_dictionary_len ops (fst (op_step ops w st)) = op_dictionary_len ops st"
    using step_dictionary [OF assms, of w] by auto
  show "known_stays ops st (fst (op_step ops w st))" by (simp add: known_stays_def eq(1))
  show "encodes ops (fst (op_step ops w st)) = encodes ops st" "names ops (fst (op_step ops w st)) = names ops st"
    by (intro ext, simp only: encodes_def names_def lookup_quad_def lookup_graph_name_def eq(1))+
  show "op_dictionary_len ops (fst (op_step ops w st)) = op_dictionary_len ops st" by (rule eq(2))
qed

text \<open>A stored quad's graph is recorded, so its name is a graph of the store.\<close>

lemma insert_encoded_spec:
  assumes ok: "ok st" and dec: "decodable ops view st" and wf: "wf_quad q" and e: "encodes ops st q e"
  defines "st' \<equiv> fst (op_insert_encoded ops e st)"
  shows "ok st'" "decodable ops view st'" "snd (op_insert_encoded ops e st) = Inr (q \<notin> rdf_quads ops view st)"
    "rdf_quads ops view st' = insert q (rdf_quads ops view st)"
    "rdf_graphs ops view st' = rdf_graphs ops view st \<union> ({q_graph q} - {DefaultGraph})"
    "op_dictionary_len ops st' = op_dictionary_len ops st"
proof -
  obtain Q G where v: "view st = (Q, G)" by (rule prod.exhaust)
  have st': "st' = fst (op_step ops (InsertQuad e) st)" by (simp add: st'_def)
  note keeps = step_keeps [OF ok, of "InsertQuad e", folded st']
  have v': "view st' = (insert e Q, G \<union> set_option (enc_graph e))"
    using step_view [OF ok, of "InsertQuad e"] v by (simp add: st')
  have mem: "q \<in> rdf_quads ops view st \<longleftrightarrow> e \<in> Q"
    using wf e v by (auto simp: rdf_quads_def encodes_def)
  show "ok st'" using step_ok [OF ok, of "InsertQuad e"] by (simp add: st')
  show "snd (op_insert_encoded ops e st) = Inr (q \<notin> rdf_quads ops view st)"
    using step_result [OF ok, of "InsertQuad e"] v mem by simp
  have same: "r = q" if "wf_quad r" "encodes ops st r e" for r using encodes_inject [OF ok that(1) wf that(2) e] .
  show "rdf_quads ops view st' = insert q (rdf_quads ops view st)"
    unfolding rdf_quads_def keeps(2) v v' fst_conv using same wf e by blast
  have g: "names ops st (q_graph q) (enc_graph e)" "wf_graph (q_graph q)" using e wf by (auto simp: encodes_iff wf_quad_def)
  show "decodable ops view st'"
    using dec wf e g unfolding decodable_def keeps(2,3) v v' by auto
  have "{h. wf_graph h \<and> (\<exists>i\<in>set_option (enc_graph e). names ops st h (Some i))} = {q_graph q} - {DefaultGraph}"
  proof (cases "enc_graph e")
    case None
    then have "q_graph q = DefaultGraph" using g(1) by (cases "q_graph q") (auto simp: names_iff)
    with None show ?thesis by simp
  next
    case (Some i)
    then have "q_graph q \<noteq> DefaultGraph" using g(1) by (auto simp: names_iff)
    moreover have n: "names ops st (q_graph q) (Some i)" using g(1) Some by simp
    have "wf_graph h \<and> names ops st h (Some i) \<longleftrightarrow> h = q_graph q" for h
      using names_inject [OF ok _ g(2) _ n, of h] n g(2) by blast
    ultimately show ?thesis by (simp add: Some)
  qed
  then show "rdf_graphs ops view st' = rdf_graphs ops view st \<union> ({q_graph q} - {DefaultGraph})"
    by (auto simp: rdf_graphs_def keeps(3) v v')
  show "op_dictionary_len ops st' = op_dictionary_len ops st" by (rule keeps(4))
qed

lemma store_insert_spec:
  assumes ok: "ok st" "decodable ops view st" and wf: "wf_quad q" and room: "op_dictionary_len ops st + quad_cost q \<le> 2 ^ 60"
  shows "ok (fst (store_insert ops q st)) \<and> decodable ops view (fst (store_insert ops q st))
    \<and> snd (store_insert ops q st) = Inr (q \<notin> rdf_quads ops view st)
    \<and> rdf_quads ops view (fst (store_insert ops q st)) = insert q (rdf_quads ops view st)
    \<and> rdf_graphs ops view (fst (store_insert ops q st)) = rdf_graphs ops view st \<union> ({q_graph q} - {DefaultGraph})
    \<and> op_dictionary_len ops (fst (store_insert ops q st)) \<le> op_dictionary_len ops st + quad_cost q"
proof -
  obtain e s1 where 1: "encode_quad ops q st = (s1, Inr e)" "encodes ops s1 q e" "ok s1" "view s1 = view st"
    "op_dictionary_len ops s1 \<le> op_dictionary_len ops st + quad_cost q" "known_stays ops st s1"
    by (rule encode_quad_spec [OF ok(1) wf room])
  note keep = interning_keeps [OF ok(1) 1(3,4,6) ok(2)]
  have "store_insert ops q st = op_insert_encoded ops e s1" using 1(1) by (simp add: store_insert_def)
  then show ?thesis using insert_encoded_spec [OF 1(3) keep(3) wf 1(2)] 1(5) keep(1,2) by simp
qed

lemma lookup_graph_total: "ok st \<Longrightarrow> wf_graph g \<Longrightarrow> \<exists>r. lookup_graph_name ops st g = Inr r"
  using lookup_total [of st] graph_term_wf(1) [of g]
  by (cases "graph_term g") (fastforce simp: lookup_graph_name_def)+

lemma lookup_quad_total:
  assumes ok: "ok st" and wf: "wf_quad q"
  shows "\<exists>r. lookup_quad ops st q = Inr r"
proof -
  have 1: "\<exists>r. lookup_graph_name ops st (q_graph q) = Inr r"
    using lookup_graph_total [OF ok] wf by (simp add: wf_quad_def)
  have 2: "\<exists>r. op_lookup ops st (node_term (q_subject q)) = Inr r" "\<exists>r. op_lookup ops st (NamedNode (q_predicate q)) = Inr r"
    "\<exists>r. op_lookup ops st (q_object q) = Inr r"
    using lookup_total [OF ok] wf by (auto simp: wf_quad_def)
  show ?thesis using 1 2 by (auto simp: lookup_quad_def split: option.splits)
qed

lemma store_contains_spec:
  assumes "ok st" "wf_quad q"
  shows "store_contains ops st q = Inr (q \<in> rdf_quads ops view st)"
proof -
  obtain r where r: "lookup_quad ops st q = Inr r" using lookup_quad_total [OF assms] by blast
  then show ?thesis using contains_exact [OF assms(1)] assms(2)
    by (cases r) (auto simp: store_contains_def rdf_quads_def encodes_def)
qed

lemma store_remove_spec:
  assumes ok: "ok st" and dec: "decodable ops view st" and wf: "wf_quad q"
  shows "ok (fst (store_remove ops q st)) \<and> decodable ops view (fst (store_remove ops q st))
    \<and> snd (store_remove ops q st) = Inr (q \<in> rdf_quads ops view st)
    \<and> rdf_quads ops view (fst (store_remove ops q st)) = rdf_quads ops view st - {q}
    \<and> rdf_graphs ops view (fst (store_remove ops q st)) = rdf_graphs ops view st
    \<and> op_dictionary_len ops (fst (store_remove ops q st)) = op_dictionary_len ops st"
proof -
  obtain r where r: "lookup_quad ops st q = Inr r" using lookup_quad_total [OF ok wf] by blast
  show ?thesis
  proof (cases r)
    case None
    then have "q \<notin> rdf_quads ops view st" using r by (auto simp: rdf_quads_def encodes_def)
    with None r ok dec show ?thesis by (simp add: store_remove_def)
  next
    case (Some e)
    obtain Q G where v: "view st = (Q, G)" by (rule prod.exhaust)
    have e: "encodes ops st q e" using r Some by (simp add: encodes_def)
    have eq: "store_remove ops q st = op_step ops (RemoveQuad e) st" using r Some by (simp add: store_remove_def)
    note keeps = step_keeps [OF ok, of "RemoveQuad e"]
    have v': "view (fst (op_step ops (RemoveQuad e) st)) = (Q - {e}, G)"
      using step_view [OF ok, of "RemoveQuad e"] v by simp
    have "snd (op_step ops (RemoveQuad e) st) = Inr (q \<in> rdf_quads ops view st)"
      using step_result [OF ok, of "RemoveQuad e"] v wf e by (auto simp: rdf_quads_def encodes_def)
    moreover have "rdf_quads ops view (fst (op_step ops (RemoveQuad e) st)) = rdf_quads ops view st - {q}"
    proof -
      have "f \<noteq> e" if "wf_quad r" "encodes ops st r f" "r \<noteq> q" for r f
        using encodes_inject [OF ok that(1) wf _ e] that(2,3) by blast
      moreover have "f = e" if "encodes ops st q f" for f using encodes_functional [OF that e] .
      ultimately show ?thesis unfolding rdf_quads_def keeps(2) v v' fst_conv by blast
    qed
    moreover have "decodable ops view (fst (op_step ops (RemoveQuad e) st))"
      using dec unfolding decodable_def keeps(2,3) v v' by simp
    moreover have "rdf_graphs ops view (fst (op_step ops (RemoveQuad e) st)) = rdf_graphs ops view st"
      by (simp only: rdf_graphs_def keeps(3) v v' snd_conv)
    ultimately show ?thesis unfolding eq using step_ok [OF ok] keeps(4) by blast
  qed
qed

lemma insert_named_graph_spec:
  assumes ok: "ok st" and dec: "decodable ops view st" and wf: "wf_graph g" and room: "op_dictionary_len ops st + 1 \<le> 2 ^ 60"
  shows "ok (fst (store_insert_named_graph ops g st)) \<and> decodable ops view (fst (store_insert_named_graph ops g st))
    \<and> snd (store_insert_named_graph ops g st) = Inr (g \<noteq> DefaultGraph \<and> g \<notin> rdf_graphs ops view st)
    \<and> rdf_quads ops view (fst (store_insert_named_graph ops g st)) = rdf_quads ops view st
    \<and> rdf_graphs ops view (fst (store_insert_named_graph ops g st)) = rdf_graphs ops view st \<union> ({g} - {DefaultGraph})
    \<and> op_dictionary_len ops (fst (store_insert_named_graph ops g st)) \<le> op_dictionary_len ops st + 1"
proof (cases "graph_term g")
  case None
  then have "g = DefaultGraph" by (cases g) auto
  with ok dec show ?thesis by (simp add: store_insert_named_graph_def)
next
  case (Some t)
  then have g: "g \<noteq> DefaultGraph" by auto
  obtain i s1 where 1: "op_encode ops t st = (s1, Inr i)" "op_lookup ops s1 t = Inr (Some i)" "ok s1" "view s1 = view st"
    "op_dictionary_len ops s1 \<le> op_dictionary_len ops st + 1" "known_stays ops st s1"
    by (rule encode_term [OF ok, of t]) (use wf room graph_term_wf [OF Some] in simp_all)
  note keep = interning_keeps [OF ok 1(3,4,6) dec]
  obtain Q G where v: "view s1 = (Q, G)" by (rule prod.exhaust)
  let ?s = "fst (op_step ops (CreateGraph i) s1)"
  have eq: "store_insert_named_graph ops g st = op_step ops (CreateGraph i) s1"
    using Some 1(1) by (simp add: store_insert_named_graph_def)
  note keeps = step_keeps [OF 1(3), of "CreateGraph i"]
  have v': "view ?s = (Q, insert i G)" using step_view [OF 1(3), of "CreateGraph i"] v by simp
  have n: "names ops s1 g (Some i)" using Some 1(2) by (simp add: names_iff)
  have named: "wf_graph h \<and> names ops s1 h (Some i) \<longleftrightarrow> h = g" for h
    using names_inject [OF 1(3) _ wf _ n, of h] n wf by blast
  have mem: "g \<in> rdf_graphs ops view s1 \<longleftrightarrow> i \<in> G"
    using n wf v by (auto simp: rdf_graphs_def names_def)
  have "snd (op_step ops (CreateGraph i) s1) = Inr (g \<noteq> DefaultGraph \<and> g \<notin> rdf_graphs ops view st)"
    using step_result [OF 1(3), of "CreateGraph i"] v mem g keep(2) by simp
  moreover have "rdf_quads ops view ?s = rdf_quads ops view st"
    unfolding keep(1) [symmetric] by (simp only: rdf_quads_def keeps(2) v v' fst_conv)
  moreover have "rdf_graphs ops view ?s = rdf_graphs ops view st \<union> ({g} - {DefaultGraph})"
  proof -
    have "rdf_graphs ops view ?s = rdf_graphs ops view s1 \<union> {h. wf_graph h \<and> names ops s1 h (Some i)}"
      unfolding rdf_graphs_def keeps(3) v v' snd_conv by blast
    then show ?thesis using g by (simp add: named keep(2))
  qed
  moreover have "decodable ops view ?s"
    using keep(3) n wf unfolding decodable_def keeps(2,3) v v' fst_conv snd_conv by blast
  moreover have "ok ?s" by (rule step_ok [OF 1(3)])
  ultimately show ?thesis unfolding eq using keeps(4) 1(5) by simp
qed

lemma remove_named_graph_spec:
  assumes ok: "ok st" and dec: "decodable ops view st" and wf: "wf_graph g"
  shows "ok (fst (store_remove_named_graph ops g st)) \<and> decodable ops view (fst (store_remove_named_graph ops g st))
    \<and> snd (store_remove_named_graph ops g st) = Inr (g \<noteq> DefaultGraph \<and> g \<in> rdf_graphs ops view st)
    \<and> rdf_quads ops view (fst (store_remove_named_graph ops g st)) = {q \<in> rdf_quads ops view st. g = DefaultGraph \<or> q_graph q \<noteq> g}
    \<and> rdf_graphs ops view (fst (store_remove_named_graph ops g st)) = rdf_graphs ops view st - ({g} - {DefaultGraph})
    \<and> op_dictionary_len ops (fst (store_remove_named_graph ops g st)) = op_dictionary_len ops st"
proof -
  obtain r where r: "lookup_graph_name ops st g = Inr r" using lookup_graph_total [OF ok wf] by blast
  obtain Q G where v: "view st = (Q, G)" by (rule prod.exhaust)
  consider (default) "g = DefaultGraph" "r = Some None" | (unknown) "g \<noteq> DefaultGraph" "r = None"
    | (known) i where "g \<noteq> DefaultGraph" "r = Some (Some i)"
    using r by (cases g; cases r) (auto simp: lookup_graph_name_def split: sum.splits option.splits)
  then show ?thesis
  proof cases
    case default
    with r ok dec show ?thesis by (simp add: store_remove_named_graph_def)
  next
    case unknown
    have no: "\<not> names ops st g i" for i using r unknown by (simp add: names_def)
    then have "g \<notin> rdf_graphs ops view st" by (simp add: rdf_graphs_def)
    moreover have "q_graph q \<noteq> g" if "q \<in> rdf_quads ops view st" for q
      using that no by (auto simp: rdf_quads_def encodes_iff)
    ultimately show ?thesis using r unknown ok dec by (auto simp: store_remove_named_graph_def)
  next
    case (known i)
    let ?s = "fst (op_step ops (DropGraph i) st)"
    have eq: "store_remove_named_graph ops g st = op_step ops (DropGraph i) st"
      using known r by (simp add: store_remove_named_graph_def)
    note keeps = step_keeps [OF ok, of "DropGraph i"]
    have v': "view ?s = ({q \<in> Q. enc_graph q \<noteq> Some i}, G - {i})" using step_view [OF ok, of "DropGraph i"] v by simp
    have n: "names ops st g (Some i)" using known r by (simp add: names_def)
    have named: "names ops st h (Some i) \<longleftrightarrow> h = g" if "wf_graph h" for h
      using names_inject [OF ok that wf _ n] n by blast
    have one: "names ops st g j \<longleftrightarrow> j = Some i" for j using n by (auto simp: names_def)
    have graph: "enc_graph e = Some i \<longleftrightarrow> q_graph q = g" if "wf_quad q" "encodes ops st q e" for q e
      using that named [of "q_graph q"] one [of "enc_graph e"] by (auto simp: encodes_iff wf_quad_def)
    have "snd (op_step ops (DropGraph i) st) = Inr (g \<noteq> DefaultGraph \<and> g \<in> rdf_graphs ops view st)"
      using step_result [OF ok, of "DropGraph i"] v known(1) wf one by (auto simp: rdf_graphs_def)
    moreover have "rdf_quads ops view ?s = {q \<in> rdf_quads ops view st. g = DefaultGraph \<or> q_graph q \<noteq> g}"
      unfolding rdf_quads_def keeps(2) v v' fst_conv using graph known(1) by blast
    moreover have "rdf_graphs ops view ?s = rdf_graphs ops view st - ({g} - {DefaultGraph})"
      unfolding rdf_graphs_def keeps(3) v v' snd_conv using named one known(1) by blast
    moreover have "decodable ops view ?s"
      using dec unfolding decodable_def keeps(2,3) v v' fst_conv snd_conv by blast
    moreover have "ok ?s" by (rule step_ok [OF ok])
    ultimately show ?thesis unfolding eq using keeps(4) by simp
  qed
qed

text \<open>Every write of the facade is the write of the specification.\<close>

lemma rdf_step_refines:
  assumes "ok st" "decodable ops view st" "wf_write w" "op_dictionary_len ops st + write_cost w \<le> 2 ^ 60"
  shows "ok (fst (rdf_step ops w st)) \<and> decodable ops view (fst (rdf_step ops w st))
    \<and> rdf_view ops view (fst (rdf_step ops w st)) = fst (rdf_spec w (rdf_view ops view st))
    \<and> snd (rdf_step ops w st) = Inr (snd (rdf_spec w (rdf_view ops view st)))
    \<and> op_dictionary_len ops (fst (rdf_step ops w st)) \<le> op_dictionary_len ops st + write_cost w"
proof (cases w)
  case (PutQuad q)
  with assms store_insert_spec [of st q] show ?thesis by (simp add: rdf_view_def)
next
  case (DeleteQuad q)
  with assms store_remove_spec [of st q] show ?thesis by (simp add: rdf_view_def)
next
  case (NewGraph g)
  with assms insert_named_graph_spec [of st g] show ?thesis by (auto simp: rdf_view_def)
next
  case (EraseGraph g)
  with assms remove_named_graph_spec [of st g] show ?thesis by (auto simp: rdf_view_def)
qed

lemma rdf_run_refines:
  "ok st \<Longrightarrow> decodable ops view st \<Longrightarrow> \<forall>w\<in>set ws. wf_write w
    \<Longrightarrow> op_dictionary_len ops st + sum_list (map write_cost ws) \<le> 2 ^ 60
    \<Longrightarrow> ok (fst (rdf_run ops ws st)) \<and> decodable ops view (fst (rdf_run ops ws st))
      \<and> rdf_view ops view (fst (rdf_run ops ws st)) = fst (rdf_spec_run ws (rdf_view ops view st))
      \<and> snd (rdf_run ops ws st) = map Inr (snd (rdf_spec_run ws (rdf_view ops view st)))"
proof (induction ws arbitrary: st)
  case (Cons w ws)
  let ?s = "fst (rdf_step ops w st)"
  have step: "ok ?s \<and> decodable ops view ?s \<and> rdf_view ops view ?s = fst (rdf_spec w (rdf_view ops view st))
    \<and> snd (rdf_step ops w st) = Inr (snd (rdf_spec w (rdf_view ops view st)))
    \<and> op_dictionary_len ops ?s \<le> op_dictionary_len ops st + write_cost w"
    by (rule rdf_step_refines) (use Cons.prems in auto)
  with Cons.IH [of ?s] Cons.prems show ?case by (simp add: case_prod_beta)
qed simp

section \<open>Reading back\<close>

lemma decode_encodes:
  assumes ok: "ok st" and wf: "wf_quad q" and e: "encodes ops st q e"
  shows "decode_quad ops st e = Inr q"
proof -
  have d: "require_term ops st i = Inr t" if "wf_term t" "op_lookup ops st t = Inr (Some i)" for t i
    using decode_lookup [OF ok that] by (simp add: require_term_def)
  have s: "require_term ops st (enc_subject e) = Inr (node_term (q_subject q))"
    and p: "require_term ops st (enc_predicate e) = Inr (NamedNode (q_predicate q))"
    and x: "require_term ops st (enc_object e) = Inr (q_object q)"
    using e wf by (auto simp: encodes_iff wf_quad_def intro!: d)
  have g: "case graph_term (q_graph q) of None \<Rightarrow> enc_graph e = None
      | Some t \<Rightarrow> \<exists>j. enc_graph e = Some j \<and> require_term ops st j = Inr t"
    using e wf by (auto simp: encodes_iff names_iff wf_quad_def graph_term_wf(1) split: option.splits intro!: d)
  show ?thesis
    using s p x g by (cases "q_subject q"; cases "q_graph q") (auto simp: decode_quad_def)
qed

lemma iter_exact:
  assumes ok: "ok st" and dec: "decodable ops view st"
  shows "\<exists>qs. store_iter ops st = map Inr qs \<and> distinct qs \<and> set qs = rdf_quads ops view st"
proof -
  obtain es where es: "op_scan ops st None None None FilterAny = map Inr es" "distinct es" "set es = fst (view st)"
    using scan_exact [OF ok, of None None None FilterAny]
    by (auto simp: scan_returns_def quad_matches_def graph_matches_def)
  define f where "f e = (SOME q. wf_quad q \<and> encodes ops st q e)" for e
  have f: "wf_quad (f e) \<and> encodes ops st (f e) e" if "e \<in> set es" for e
    unfolding f_def by (rule someI_ex) (use dec that es(3) in \<open>auto simp: decodable_def\<close>)
  have "decode_quad ops st e = Inr (f e)" if "e \<in> set es" for e
    using decode_encodes [OF ok, of "f e" e] f [OF that] by blast
  then have "store_iter ops st = map Inr (map f es)" by (simp add: store_iter_def es(1))
  moreover have "inj_on f (set es)"
  proof (rule inj_onI)
    fix a b assume "a \<in> set es" "b \<in> set es" "f a = f b"
    then show "a = b" using f [of a] f [of b] encodes_functional [of ops st "f a" a b] by simp
  qed
  moreover have "f ` set es = rdf_quads ops view st"
  proof
    show "f ` set es \<subseteq> rdf_quads ops view st" using f es(3) by (auto simp: rdf_quads_def)
    show "rdf_quads ops view st \<subseteq> f ` set es"
    proof
      fix q assume "q \<in> rdf_quads ops view st"
      then obtain e where e: "wf_quad q" "e \<in> set es" "encodes ops st q e" using es(3) by (auto simp: rdf_quads_def)
      then have "q = f e" using f [OF e(2)] encodes_inject [OF ok, of q "f e" e] by blast
      with e(2) show "q \<in> f ` set es" by blast
    qed
  qed
  ultimately show ?thesis using es(2) by (intro exI [of _ "map f es"]) (simp add: distinct_map)
qed

lemma contains_named_graph_spec:
  assumes "ok st" "wf_graph g"
  shows "store_contains_named_graph ops st g = Inr (g \<in> rdf_graphs ops view st)"
proof -
  obtain r where r: "lookup_graph_name ops st g = Inr r" using lookup_graph_total [OF assms] by blast
  have "names ops st g (Some i) \<longleftrightarrow> r = Some (Some i)" for i by (simp add: names_def r)
  then show ?thesis using r assms(2) contains_graph_exact [OF assms(1)]
    by (auto simp: store_contains_named_graph_def rdf_graphs_def split: option.splits)
qed

end

section \<open>The in-memory tier\<close>

lemma found_id_total: "dense xs m \<Longrightarrow> \<exists>r. found_id t (m x) = Inr r"
  using dense_new_id [of xs m x _ t] by (cases "m x") (fastforce simp: found_id_def)+

lemma lookup_node_total: "dict_ok X d \<Longrightarrow> \<exists>r. lookup_node d n = Inr r"
  using encode_iri_ok found_id_total [of "iris d" "iri_index d" TagIri] found_id_total [of "blank_nodes d" "blank_node_index d" TagBlankNode]
  by (cases n) (fastforce simp: lookup_node_def dict_ok_def or_found_def split: option.splits)+

lemma dict_lookup_total:
  assumes "xsd_lib_ok X" "dict_ok X d"
  shows "wf_term t \<Longrightarrow> \<exists>r. dict_lookup X d t = Inr r"
proof (induction t)
  case (Literal l)
  have f: "\<exists>r. found_id TagLiteral (literal_index d l) = Inr r"
    by (rule found_id_total [of "literals d"]) (use assms(2) in \<open>simp add: dict_ok_def\<close>)
  show ?case
  proof (cases "encode_literal X l")
    case (Some r)
    obtain i where "r = Inr i" by (rule inline_exact [OF assms(1) _ Some]) (use Literal in auto)
    with Some show ?thesis by (simp add: or_found_def)
  qed (use f in \<open>simp add: or_found_def\<close>)
next
  case (Triple s p x)
  obtain a where a: "lookup_node d s = Inr a" using lookup_node_total [OF assms(2)] by blast
  obtain b where b: "lookup_node d (NodeNamed p) = Inr b" using lookup_node_total [OF assms(2)] by blast
  obtain c where c: "dict_lookup X d x = Inr c" using Triple by auto
  have "\<exists>r. found_id TagTripleTerm (triple_term_index d k) = Inr r" for k
    by (rule found_id_total [of "triple_terms d"]) (use assms(2) in \<open>simp add: dict_ok_def\<close>)
  with a b c show ?case by (simp split: option.splits)
qed (use lookup_node_total [OF assms(2)] in simp_all)

definition mem_store_ok :: "'dt xsd_lib \<Rightarrow> memory_storage \<Rightarrow> bool" where
  "mem_store_ok X st \<longleftrightarrow> xsd_lib_ok X \<and> dict_ok X (ms_dictionary st) \<and> mem_index_ok st"

lemma op_step_memory: "op_step (memory_ops X) w st = mem_step w st"
  by (cases w) (simp_all add: memory_ops_def)

lemma mem_contains_exact:
  assumes "mem_index_ok st"
  shows "mem_contains_encoded st q = Inr (q \<in> fst (mem_view st))"
proof -
  define g where "g = (case enc_graph q of Some g \<Rightarrow> FilterNamed g | None \<Rightarrow> FilterDefault)"
  obtain qs where qs: "mem_scan st (Some (enc_subject q)) (Some (enc_predicate q)) (Some (enc_object q)) g = map Inr qs"
    "set qs = {r \<in> fst (mem_view st). quad_matches (Some (enc_subject q)) (Some (enc_predicate q)) (Some (enc_object q)) g r}"
    using mem.scan_exact [OF assms] unfolding scan_returns_def by metis
  have "quad_matches (Some (enc_subject q)) (Some (enc_predicate q)) (Some (enc_object q)) g r \<longleftrightarrow> r = q" for r :: encoded_quad
    by (auto simp: quad_matches_def graph_matches_def g_def split: option.splits)
  then have "set qs = (if q \<in> fst (mem_view st) then {q} else {})" using qs(2) by auto
  then show ?thesis using qs(1)
    by (cases qs) (auto simp: mem_contains_encoded_def mem_scan_def g_def split: if_splits)
qed

lemma mem_contains_graph_exact: "mem_contains_named_graph st i = Inr (i \<in> snd (mem_view st))"
  by (simp add: mem_contains_named_graph_def index_contains_named_graph_def mem_view_def index_view_def index_graphs_def)

lemma mem_encode_interns:
  assumes ok: "mem_store_ok X st" and wf: "wf_term t" and room: "mem_dictionary_len st + term_cost t \<le> 2 ^ 60"
  shows "\<exists>i st'. mem_encode X t st = (st', Inr i) \<and> mem_lookup X st' t = Inr (Some i) \<and> mem_store_ok X st' \<and> mem_view st' = mem_view st
    \<and> mem_dictionary_len st' \<le> mem_dictionary_len st + term_cost t
    \<and> (\<forall>u j. mem_lookup X st u = Inr (Some j) \<longrightarrow> mem_lookup X st' u = Inr (Some j))"
proof -
  obtain i d where d: "dict_encode X t (ms_dictionary st) = (d, Inr i)" "dict_lookup X d t = Inr (Some i)"
    "interned X (term_cost t) (ms_dictionary st) d"
    using dict_encode_spec [where X = X and t = t and d = "ms_dictionary st"] assms by (auto simp: mem_store_ok_def mem_dictionary_len_def)
  then show ?thesis using ok lookup_mono
    by (auto simp: mem_encode_def mem_lookup_def mem_store_ok_def interned_def mem_index_ok_def mem_view_def mem_dictionary_len_def)
qed

interpretation mstore: storage "memory_ops X" "mem_store_ok X" mem_view for X
proof
  fix st t assume "mem_store_ok X st" "wf_term t" "op_dictionary_len (memory_ops X) st + term_cost t \<le> 2 ^ 60"
  then show "\<exists>i st'. op_encode (memory_ops X) t st = (st', Inr i) \<and> op_lookup (memory_ops X) st' t = Inr (Some i)
      \<and> mem_store_ok X st' \<and> mem_view st' = mem_view st
      \<and> op_dictionary_len (memory_ops X) st' \<le> op_dictionary_len (memory_ops X) st + term_cost t
      \<and> (\<forall>u j. op_lookup (memory_ops X) st u = Inr (Some j) \<longrightarrow> op_lookup (memory_ops X) st' u = Inr (Some j))"
    using mem_encode_interns by (simp add: memory_ops_def)
next
  fix st t i assume ok: "mem_store_ok X st" and t: "wf_term t"
  then show "\<exists>r. op_lookup (memory_ops X) st t = Inr r"
    using dict_lookup_total [of X "ms_dictionary st" t] by (auto simp: memory_ops_def mem_lookup_def mem_store_ok_def)
  show "op_lookup (memory_ops X) st t = Inr (Some i) \<Longrightarrow> op_decode (memory_ops X) st i = Inr (Some t)"
    using ok t dict.dec_look [of X "ms_dictionary st" t i] by (simp add: memory_ops_def mem_lookup_def mem_decode_def mem_store_ok_def)
next
  fix st w t q i s p x g assume ok: "mem_store_ok X st"
  then have ix: "mem_index_ok st" by (simp add: mem_store_ok_def)
  have d: "ms_dictionary (fst (mem_step w st)) = ms_dictionary st" using mem_step_eq [OF ix, of w] by auto
  show "mem_store_ok X (fst (op_step (memory_ops X) w st))"
    using ok mem.step_ok [OF ix] d by (simp add: op_step_memory mem_store_ok_def)
  show "mem_view (fst (op_step (memory_ops X) w st)) = fst (spec_write w (mem_view st))"
    "snd (op_step (memory_ops X) w st) = Inr (snd (spec_write w (mem_view st)))"
    using mem.step_view [OF ix] mem.step_result [OF ix] by (simp_all add: op_step_memory)
  show "op_lookup (memory_ops X) (fst (op_step (memory_ops X) w st)) t = op_lookup (memory_ops X) st t
      \<and> op_dictionary_len (memory_ops X) (fst (op_step (memory_ops X) w st)) = op_dictionary_len (memory_ops X) st"
    unfolding op_step_memory by (simp add: memory_ops_def mem_lookup_def mem_dictionary_len_def d)
  show "op_contains_encoded (memory_ops X) st q = Inr (q \<in> fst (mem_view st))"
    using mem_contains_exact [OF ix] by (simp add: memory_ops_def)
  show "op_contains_named_graph (memory_ops X) st i = Inr (i \<in> snd (mem_view st))"
    by (simp add: memory_ops_def mem_contains_graph_exact)
  show "scan_returns (op_scan (memory_ops X) st s p x g) {q \<in> fst (mem_view st). quad_matches s p x g q}"
    using mem.scan_exact [OF ix] by (simp add: memory_ops_def)
qed

lemma new_store_ok: "xsd_lib_ok X \<Longrightarrow> mem_store_ok X store_new \<and> decodable (memory_ops X) mem_view store_new
  \<and> rdf_view (memory_ops X) mem_view store_new = ({}, {}) \<and> op_dictionary_len (memory_ops X) store_new = 0"
proof -
  have v: "mem_view store_new = ({}, {})" by (simp add: store_new_def new_memory_def mem_view_def index_view_def)
  have "mem_index_ok store_new" using mem_ok_new by (simp add: store_new_def mem_ok_def)
  moreover have "dict_ok X (ms_dictionary store_new)" by (simp add: store_new_def new_memory_def dict_ok_new)
  moreover have "mem_dictionary_len store_new = 0"
    by (simp add: store_new_def new_memory_def mem_dictionary_len_def new_dictionary_def dict_len_def)
  ultimately show "xsd_lib_ok X \<Longrightarrow> ?thesis"
    by (simp add: mem_store_ok_def decodable_def v rdf_view_def rdf_quads_def rdf_graphs_def memory_ops_def)
qed

section \<open>The store as a set of RDF quads\<close>

lemma history_ok:
  assumes "xsd_lib_ok X" "\<forall>w\<in>set ws. wf_write w" "sum_list (map write_cost ws) \<le> 2 ^ 60"
  defines "st \<equiv> fst (rdf_run (memory_ops X) ws store_new)"
  shows "mem_store_ok X st" "decodable (memory_ops X) mem_view st"
    "rdf_view (memory_ops X) mem_view st = fst (rdf_spec_run ws ({}, {}))"
    "snd (rdf_run (memory_ops X) ws store_new) = map Inr (snd (rdf_spec_run ws ({}, {})))"
  using mstore.rdf_run_refines [of X store_new ws] new_store_ok [OF assms(1)] assms by auto

text \<open>
  C1. The in-memory store is a set of RDF quads and a set of graph names. After any sequence of
  inserts, removes, graph creations and graph drops of well-formed terms, every call has returned
  what the operation on those sets returns (no error), membership of any quad and of any graph name
  is answered exactly, and iterating the store decodes to precisely the quads of the set, each once,
  whatever identifiers the dictionary chose.
\<close>

theorem store_history:
  assumes "xsd_lib_ok X" "\<forall>w\<in>set ws. wf_write w" "sum_list (map write_cost ws) \<le> 2 ^ 60"
    and "(st, rs) = rdf_run (memory_ops X) ws store_new" and "((Q, G), bs) = rdf_spec_run ws ({}, {})"
  shows "rs = map Inr bs
    \<and> (\<forall>q. wf_quad q \<longrightarrow> store_contains (memory_ops X) st q = Inr (q \<in> Q))
    \<and> (\<forall>g. wf_graph g \<longrightarrow> store_contains_named_graph (memory_ops X) st g = Inr (g \<in> G))
    \<and> (\<exists>qs. store_iter (memory_ops X) st = map Inr qs \<and> distinct qs \<and> set qs = Q)"
proof -
  have st: "st = fst (rdf_run (memory_ops X) ws store_new)" "rs = snd (rdf_run (memory_ops X) ws store_new)"
    using assms(4) by (metis fst_conv, metis snd_conv)
  have sp: "(Q, G) = fst (rdf_spec_run ws ({}, {}))" "bs = snd (rdf_spec_run ws ({}, {}))"
    using assms(5) by (metis fst_conv, metis snd_conv)
  note h = history_ok [OF assms(1-3), folded st sp]
  have v: "rdf_quads (memory_ops X) mem_view st = Q" "rdf_graphs (memory_ops X) mem_view st = G"
    using h(3) by (simp_all add: rdf_view_def)
  show ?thesis
    using h(4) mstore.store_contains_spec [OF h(1)] mstore.contains_named_graph_spec [OF h(1)] mstore.iter_exact [OF h(1,2)]
    unfolding v by blast
qed

definition sample_quad :: quad where
  "sample_quad = \<lparr>q_subject = NodeNamed ''urn:a'', q_predicate = ''urn:p'', q_object = Literal (SimpleLit ''v''), q_graph = GraphNamed ''urn:g''\<rparr>"

theorem store_history_witness:
  "snd (rdf_run (memory_ops demo_lib) [PutQuad sample_quad, PutQuad sample_quad, EraseGraph (GraphNamed ''urn:g'')] store_new)
     = [Inr True, Inr False, Inr True]
   \<and> store_contains (memory_ops demo_lib)
       (fst (rdf_run (memory_ops demo_lib) [PutQuad sample_quad, PutQuad sample_quad, EraseGraph (GraphNamed ''urn:g'')] store_new)) sample_quad
     = Inr False"
proof -
  let ?ws = "[PutQuad sample_quad, PutQuad sample_quad, EraseGraph (GraphNamed ''urn:g'')]"
  have wf: "\<forall>w\<in>set ?ws. wf_write w" "wf_quad sample_quad" by code_simp+
  have c: "sum_list (map write_cost ?ws) \<le> 2 ^ 60" by (simp add: quad_cost_def sample_quad_def)
  have sp: "(({}, {}), [True, False, True]) = rdf_spec_run ?ws ({}, {})" by (auto simp: sample_quad_def)
  show ?thesis
    using store_history [OF demo_lib_ok wf(1) c prod.collapse sp] wf(2) by simp
qed

end
