(* ===== verification/Principal.thy ===== *)
theory Principal
  imports Rdf_Terms "HOL-Library.Char_ord"
begin

text \<open>
  Principals and classification labels, \<^verbatim>\<open>holos-security/src/principal.rs\<close>. A \<open>BTreeSet<String>\<close> is a
  strictly ascending list (\<open>btree_ok\<close>), a \<open>BTreeMap\<close> an association list ascending in its keys, so that
  iteration order and the derived equality are those of the source. Dominance is shown to be a partial
  order with \<open>join\<close> as its least upper bound, principal identifiers to be injective in issuer and
  subject, and the quads of a principal to state its roles, claims and clearance and nothing else.
\<close>

section \<open>Ordered maps and set unions\<close>

fun bmap_insert :: "'k::linorder \<Rightarrow> 'v \<Rightarrow> ('k \<times> 'v) list \<Rightarrow> ('k \<times> 'v) list" where
  "bmap_insert k v [] = [(k, v)]"
| "bmap_insert k v ((l, w) # m) =
    (if k < l then (k, v) # (l, w) # m else if k = l then (k, v) # m else (l, w) # bmap_insert k v m)"

definition btree_extend :: "'a::linorder list \<Rightarrow> 'a list \<Rightarrow> 'a list" where
  "btree_extend s xs = foldl (\<lambda>s x. snd (btree_insert x s)) s xs"

definition bmap_ok :: "('k::linorder \<times> 'v) list \<Rightarrow> bool" where
  "bmap_ok m \<longleftrightarrow> btree_ok (map fst m)"

lemma set_btree_extend [simp, btree_simps]: "set (btree_extend s xs) = set s \<union> set xs"
  by (induction xs arbitrary: s) (auto simp: btree_extend_def set_btree_insert)

lemma btree_extend_Nil_iff [simp]: "btree_extend s xs = [] \<longleftrightarrow> s = [] \<and> xs = []"
  using set_btree_extend [of s xs] by (metis Un_empty set_empty)

lemma btree_ok_extend [simp]: "btree_ok s \<Longrightarrow> btree_ok (btree_extend s xs)"
  by (induction xs arbitrary: s) (simp_all add: btree_extend_def btree_ok_insert)

lemma map_of_bmap_insert: "bmap_ok m \<Longrightarrow> map_of (bmap_insert k v m) = (map_of m)(k \<mapsto> v)"
  by (induction k v m rule: bmap_insert.induct) (auto simp: bmap_ok_def btree_ok_def fun_eq_iff)

lemma keys_bmap_insert: "fst ` set (bmap_insert k v m) = insert k (fst ` set m)"
  by (induction k v m rule: bmap_insert.induct) auto

lemma bmap_ok_insert: "bmap_ok m \<Longrightarrow> bmap_ok (bmap_insert k v m)"
proof (induction k v m rule: bmap_insert.induct)
  case (2 k v l w m)
  then show ?case
    using keys_bmap_insert [of k v m] by (auto simp: bmap_ok_def btree_ok_def)
qed (simp add: bmap_ok_def btree_ok_def)

section \<open>Labels\<close>

record label =
  lab_level :: "16 word"
  lab_compartments :: "string list"

definition default_label :: label where
  "default_label = \<lparr>lab_level = 0, lab_compartments = []\<rparr>"

definition level :: "16 word \<Rightarrow> label" where
  "level n = \<lparr>lab_level = n, lab_compartments = []\<rparr>"

definition dominates :: "label \<Rightarrow> label \<Rightarrow> bool" where
  "dominates a b \<longleftrightarrow> lab_level a \<ge> lab_level b \<and> list_all (\<lambda>c. List.member (lab_compartments a) c) (lab_compartments b)"

definition join :: "label \<Rightarrow> label \<Rightarrow> label" where
  "join a b = \<lparr>lab_level = max (lab_level a) (lab_level b),
    lab_compartments = btree_extend (lab_compartments a) (lab_compartments b)\<rparr>"

definition label_ok :: "label \<Rightarrow> bool" where
  "label_ok l \<longleftrightarrow> btree_ok (lab_compartments l)"

lemma dominates_iff: "dominates a b \<longleftrightarrow> lab_level b \<le> lab_level a \<and> set (lab_compartments b) \<subseteq> set (lab_compartments a)"
  by (auto simp: dominates_def list_all_iff)

lemma dominates_refl [simp]: "dominates a a"
  by (simp add: dominates_iff)

lemma dominates_trans: "dominates a b \<Longrightarrow> dominates b c \<Longrightarrow> dominates a c"
  by (auto simp: dominates_iff)

lemma dominates_antisym: "label_ok a \<Longrightarrow> label_ok b \<Longrightarrow> dominates a b \<Longrightarrow> dominates b a \<Longrightarrow> a = b"
  unfolding dominates_iff label_ok_def by (cases a; cases b) (auto intro: btree_ext)

lemma dominates_join: "dominates c (join a b) \<longleftrightarrow> dominates c a \<and> dominates c b"
  by (auto simp: dominates_iff join_def)

lemma join_ok: "label_ok a \<Longrightarrow> label_ok (join a b)"
  by (simp add: label_ok_def join_def)

section \<open>Principals\<close>

record principal =
  pr_id :: string
  pr_roles :: "string list"
  pr_attributes :: "(string \<times> string list) list"
  pr_clearance :: "label option"

definition new_principal :: "string \<Rightarrow> principal" where
  "new_principal i = \<lparr>pr_id = i, pr_roles = [], pr_attributes = [], pr_clearance = None\<rparr>"

definition anonymous :: principal where
  "anonymous = new_principal ''urn:holos:principal:anonymous''"

definition with_role :: "string \<Rightarrow> principal \<Rightarrow> principal" where
  "with_role r p = p\<lparr>pr_roles := snd (btree_insert r (pr_roles p))\<rparr>"

definition with_attribute :: "string \<Rightarrow> string \<Rightarrow> principal \<Rightarrow> principal" where
  "with_attribute k v p =
    (let old = (case map_of (pr_attributes p) k of None \<Rightarrow> [] | Some vs \<Rightarrow> vs)
     in p\<lparr>pr_attributes := bmap_insert k (snd (btree_insert v old)) (pr_attributes p)\<rparr>)"

definition with_clearance :: "label \<Rightarrow> principal \<Rightarrow> principal" where
  "with_clearance c p = p\<lparr>pr_clearance := Some c\<rparr>"

definition has_role :: "principal \<Rightarrow> string \<Rightarrow> bool" where
  "has_role p r \<longleftrightarrow> List.member (pr_roles p) r"

definition has_attribute :: "principal \<Rightarrow> string \<Rightarrow> string \<Rightarrow> bool" where
  "has_attribute p k v \<longleftrightarrow> (case map_of (pr_attributes p) k of None \<Rightarrow> False | Some vs \<Rightarrow> List.member vs v)"

definition is_cleared_for :: "principal \<Rightarrow> label \<Rightarrow> bool" where
  "is_cleared_for p l = (case pr_clearance p of Some c \<Rightarrow> dominates c l | None \<Rightarrow> l = default_label)"

text \<open>
  \<open>char::is_ascii_alphanumeric\<close> on the bytes of a string: the bytes of a character outside ASCII are
  all above 127, so testing bytes and testing characters agree.
\<close>

definition is_ascii_alphanumeric :: "char \<Rightarrow> bool" where
  "is_ascii_alphanumeric c \<longleftrightarrow> (c \<ge> CHR ''0'' \<and> c \<le> CHR ''9'') \<or> (c \<ge> CHR ''A'' \<and> c \<le> CHR ''Z'') \<or> (c \<ge> CHR ''a'' \<and> c \<le> CHR ''z'')"

definition is_unreserved :: "char \<Rightarrow> bool" where
  "is_unreserved c \<longleftrightarrow> is_ascii_alphanumeric c \<or> c = CHR ''-'' \<or> c = CHR ''.'' \<or> c = CHR ''_'' \<or> c = CHR ''~''"

definition hex_digit :: "nat \<Rightarrow> char" where
  "hex_digit n = (if n < 10 then char_of (48 + n) else char_of (55 + n))"

fun urn_escape :: "string \<Rightarrow> string" where
  "urn_escape [] = []"
| "urn_escape (c # s) =
    (if is_unreserved c then c # urn_escape s
     else CHR ''%'' # hex_digit (of_char c div 16) # hex_digit (of_char c mod 16) # urn_escape s)"

text \<open>One output character per input character: the first byte of it stands for the whole character.\<close>

definition sanitise :: "string \<Rightarrow> string" where
  "sanitise s = map (\<lambda>c. if is_ascii_alphanumeric c then c else CHR ''_'') (filter (\<lambda>c. \<not> is_cont (byte_of_char c)) s)"

definition claim_step :: "string \<Rightarrow> principal \<Rightarrow> string \<times> string list \<Rightarrow> principal" where
  "claim_step roles_claim p kv =
    (if fst kv = roles_claim then p\<lparr>pr_roles := btree_extend (pr_roles p) (snd kv)\<rparr>
     else p\<lparr>pr_attributes := bmap_insert (fst kv) (btree_extend [] (snd kv)) (pr_attributes p)\<rparr>)"

definition from_verified_claims :: "string \<Rightarrow> string \<Rightarrow> (string \<times> string list) list \<Rightarrow> string \<Rightarrow> principal" where
  "from_verified_claims issuer subject claims roles_claim =
    foldl (claim_step roles_claim)
      (new_principal (''urn:holos:principal:'' @ urn_escape issuer @ ''/'' @ urn_escape subject)) claims"

definition holos :: "string \<Rightarrow> string" where
  "holos local = ''https://holos.rdf/ns#'' @ local"

definition rdf_type :: string where
  "rdf_type = ''http://www.w3.org/1999/02/22-rdf-syntax-ns#type''"

definition principal_quad :: "principal \<Rightarrow> string \<Rightarrow> string \<Rightarrow> rdf_term \<Rightarrow> quad" where
  "principal_quad p graph predicate object =
    \<lparr>q_subject = NodeNamed (pr_id p), q_predicate = predicate, q_object = object, q_graph = GraphNamed graph\<rparr>"

definition to_quads :: "principal \<Rightarrow> string \<Rightarrow> quad list" where
  "to_quads p graph =
    [principal_quad p graph rdf_type (NamedNode (holos ''Principal''))]
    @ map (\<lambda>r. principal_quad p graph (holos ''role'') (Literal (SimpleLit r))) (pr_roles p)
    @ concat (map (\<lambda>(k, vs). map (\<lambda>v. principal_quad p graph (holos (''claim_'' @ sanitise k)) (Literal (SimpleLit v))) vs) (pr_attributes p))
    @ (case pr_clearance p of
         None \<Rightarrow> []
       | Some c \<Rightarrow>
           principal_quad p graph (holos ''clearanceLevel'') (Literal (new_typed_literal (show_nat (unat (lab_level c))) xsd_integer))
           # map (\<lambda>x. principal_quad p graph (holos ''compartment'') (Literal (SimpleLit x))) (lab_compartments c))"

definition principal_ok :: "principal \<Rightarrow> bool" where
  "principal_ok p \<longleftrightarrow> btree_ok (pr_roles p) \<and> bmap_ok (pr_attributes p)
    \<and> (\<forall>vs\<in>snd ` set (pr_attributes p). btree_ok vs) \<and> (\<forall>c\<in>set_option (pr_clearance p). label_ok c)"

section \<open>Identifiers\<close>

lemma of_char_hex_digit: "n < 16 \<Longrightarrow> of_char (hex_digit n) = (if n < 10 then 48 + n else 55 + n)"
  by (simp add: hex_digit_def)

lemma hex_digit_inject: "m < 16 \<Longrightarrow> n < 16 \<Longrightarrow> hex_digit m = hex_digit n \<longleftrightarrow> m = n"
proof
  assume m: "m < 16" and n: "n < 16" and "hex_digit m = hex_digit n"
  then have "(of_char (hex_digit m) :: nat) = of_char (hex_digit n)" by simp
  then show "m = n" unfolding of_char_hex_digit [OF m] of_char_hex_digit [OF n] by (simp split: if_splits)
qed simp

lemma unreserved_no_percent [simp]: "\<not> is_unreserved (CHR ''%'')" "\<not> is_unreserved (CHR ''/'')"
  by code_simp+

lemma hex_digit_ne_slash: "n < 16 \<Longrightarrow> hex_digit n \<noteq> CHR ''/''"
  using of_char_hex_digit [of n] by (auto split: if_splits)

lemma urn_escape_inject: "urn_escape s = urn_escape t \<longleftrightarrow> s = t"
proof (induction s arbitrary: t)
  case Nil
  show ?case by (cases t) auto
next
  case (Cons c s)
  show ?case
  proof (cases t)
    case t: (Cons d u)
    have "of_char c div 16 = (of_char d div 16 :: nat) \<and> of_char c mod 16 = (of_char d mod 16 :: nat) \<Longrightarrow> c = d"
      by (metis div_mult_mod_eq of_char_eq_iff)
    then show ?thesis
      using t Cons.IH [of u] by (auto simp: hex_digit_inject less_mult_imp_div_less)
  qed auto
qed

lemma escape_no_slash: "CHR ''/'' \<notin> set (urn_escape s)"
  by (induction s) (auto simp: hex_digit_ne_slash [symmetric] less_mult_imp_div_less dest: hex_digit_ne_slash)

lemma split_at_slash: "x \<notin> set a \<Longrightarrow> x \<notin> set c \<Longrightarrow> a @ x # b = c @ x # d \<longleftrightarrow> a = c \<and> b = d"
proof (induction a arbitrary: c)
  case Nil
  then show ?case by (cases c) auto
next
  case (Cons y a)
  then show ?case by (cases c) auto
qed

lemma claims_keep_id: "pr_id (foldl (claim_step rc) p claims) = pr_id p"
  by (induction claims arbitrary: p) (simp_all add: claim_step_def)

lemma claims_roles:
  "set (pr_roles (foldl (claim_step rc) p claims)) = set (pr_roles p) \<union> (\<Union>kv\<in>{kv \<in> set claims. fst kv = rc}. set (snd kv))"
  by (induction claims arbitrary: p) (auto simp: claim_step_def)

lemma claims_attributes:
  "bmap_ok (pr_attributes p) \<Longrightarrow> distinct (map fst claims) \<Longrightarrow>
    map_of (pr_attributes (foldl (claim_step rc) p claims)) k =
      (if k \<noteq> rc \<and> k \<in> fst ` set claims then map_option (btree_extend []) (map_of claims k) else map_of (pr_attributes p) k)"
proof (induction claims arbitrary: p)
  case (Cons kv claims)
  have "bmap_ok (pr_attributes (claim_step rc p kv))" using Cons.prems(1) by (simp add: claim_step_def bmap_ok_insert)
  with Cons show ?case
    by (cases kv) (auto simp: claim_step_def map_of_bmap_insert map_of_eq_None_iff [symmetric] dom_map_of_conv_image_fst [symmetric]
      image_iff weak_map_of_SomeI)
qed simp

section \<open>Quads of a principal\<close>

lemma holos_inject [simp]: "holos a = holos b \<longleftrightarrow> a = b"
  by (simp add: holos_def)

lemma holos_not_type [simp]: "holos a \<noteq> rdf_type"
  by (simp add: holos_def rdf_type_def)

lemma principal_quad_inject [simp]: "principal_quad p g a x = principal_quad p g b y \<longleftrightarrow> a = b \<and> x = y"
  by (auto simp: principal_quad_def)

lemma claim_names [simp]: "''role'' \<noteq> ''claim_'' @ s" "''compartment'' \<noteq> ''claim_'' @ s" "''clearanceLevel'' \<noteq> ''claim_'' @ s"
  by simp_all

lemma to_quads_iff:
  "principal_quad p g (holos n) x \<in> set (to_quads p g) \<longleftrightarrow>
    n = ''role'' \<and> (\<exists>r. x = Literal (SimpleLit r) \<and> has_role p r)
    \<or> (\<exists>k vs v. n = ''claim_'' @ sanitise k \<and> x = Literal (SimpleLit v) \<and> (k, vs) \<in> set (pr_attributes p) \<and> v \<in> set vs)
    \<or> (\<exists>c. pr_clearance p = Some c \<and>
        (n = ''clearanceLevel'' \<and> x = Literal (TypedLit (show_nat (unat (lab_level c))) xsd_integer)
        \<or> n = ''compartment'' \<and> (\<exists>t\<in>set (lab_compartments c). x = Literal (SimpleLit t))))"
proof -
  have 1: "principal_quad p g (holos n) x \<in> set [principal_quad p g rdf_type (NamedNode (holos ''Principal''))] \<longleftrightarrow> False"
    by simp
  have 2: "principal_quad p g (holos n) x \<in> set (map (\<lambda>r. principal_quad p g (holos ''role'') (Literal (SimpleLit r))) (pr_roles p))
    \<longleftrightarrow> n = ''role'' \<and> (\<exists>r. x = Literal (SimpleLit r) \<and> has_role p r)"
    by (auto simp: has_role_def)
  have 3: "principal_quad p g (holos n) x \<in> set (concat (map (\<lambda>(k, vs). map (\<lambda>v. principal_quad p g (holos (''claim_'' @ sanitise k)) (Literal (SimpleLit v))) vs) (pr_attributes p)))
    \<longleftrightarrow> (\<exists>k vs v. n = ''claim_'' @ sanitise k \<and> x = Literal (SimpleLit v) \<and> (k, vs) \<in> set (pr_attributes p) \<and> v \<in> set vs)"
    by fastforce
  have 4: "principal_quad p g (holos n) x \<in> set (case pr_clearance p of None \<Rightarrow> [] | Some c \<Rightarrow>
        principal_quad p g (holos ''clearanceLevel'') (Literal (new_typed_literal (show_nat (unat (lab_level c))) xsd_integer))
         # map (\<lambda>x. principal_quad p g (holos ''compartment'') (Literal (SimpleLit x))) (lab_compartments c))
    \<longleftrightarrow> (\<exists>c. pr_clearance p = Some c \<and>
        (n = ''clearanceLevel'' \<and> x = Literal (TypedLit (show_nat (unat (lab_level c))) xsd_integer)
        \<or> n = ''compartment'' \<and> (\<exists>t\<in>set (lab_compartments c). x = Literal (SimpleLit t))))"
    by (cases "pr_clearance p") auto
  show ?thesis unfolding to_quads_def set_append Un_iff 1 2 3 4 by blast
qed

section \<open>Properties\<close>

text \<open>
  Joining labels is sound and no stronger than needed: any principal, with or without a clearance,
  may see data labelled with the join of two labels exactly when it may see data carrying either, so
  an inferred fact is visible to precisely those cleared for both of its premises.
\<close>

lemma join_clearance: "is_cleared_for p (join a b) \<longleftrightarrow> is_cleared_for p a \<and> is_cleared_for p b"
proof (cases "pr_clearance p")
  case None
  have max0: "max x y = 0 \<longleftrightarrow> x = 0 \<and> y = 0" for x y :: "16 word" by (auto simp: max_def word_le_0_iff)
  have "join a b = default_label \<longleftrightarrow> a = default_label \<and> b = default_label"
    by (cases a; cases b) (auto simp: join_def max0 default_label_def)
  with None show ?thesis by (simp add: is_cleared_for_def)
qed (simp add: is_cleared_for_def dominates_join)

text \<open>
  C37. Dominance of well-formed labels is a partial order with joins: it is reflexive, antisymmetric and
  transitive, the join of two labels is well formed, dominates both, and is dominated by every label that
  dominates both; and a clearance that dominates another sees everything the other sees.
\<close>

theorem label_lattice:
  assumes "label_ok a" "label_ok b"
  shows "dominates a a \<and> (dominates a b \<and> dominates b a \<longleftrightarrow> a = b) \<and> (\<forall>u. dominates u a \<and> dominates a b \<longrightarrow> dominates u b)
    \<and> label_ok (join a b) \<and> dominates (join a b) a \<and> dominates (join a b) b
    \<and> (\<forall>u. dominates u a \<and> dominates u b \<longrightarrow> dominates u (join a b))
    \<and> (dominates a b \<longleftrightarrow> join a b = a)
    \<and> (dominates a b \<longleftrightarrow> (\<forall>p l. is_cleared_for (with_clearance b p) l \<longrightarrow> is_cleared_for (with_clearance a p) l))"
proof (intro conjI)
  show "dominates a a" using dominates_antisym [OF assms(1,1)] by simp
  show "dominates a b \<and> dominates b a \<longleftrightarrow> a = b" using dominates_antisym [OF assms] by auto
  show "\<forall>u. dominates u a \<and> dominates a b \<longrightarrow> dominates u b" using dominates_trans by blast
  show j: "label_ok (join a b)" using assms by (simp add: join_ok)
  show d: "dominates (join a b) a" "dominates (join a b) b" using dominates_join [of "join a b" a b] by auto
  show "\<forall>u. dominates u a \<and> dominates u b \<longrightarrow> dominates u (join a b)" by (simp add: dominates_join)
  show "dominates a b \<longleftrightarrow> join a b = a"
    using dominates_antisym [OF j assms(1)] d dominates_join [of a a b] by auto
  show "dominates a b \<longleftrightarrow> (\<forall>p l. is_cleared_for (with_clearance b p) l \<longrightarrow> is_cleared_for (with_clearance a p) l)"
    using dominates_trans [of a b] by (auto simp: is_cleared_for_def with_clearance_def)
qed

theorem label_lattice_witness:
  "join \<lparr>lab_level = 2, lab_compartments = [''hr'']\<rparr> (level 1) = \<lparr>lab_level = 2, lab_compartments = [''hr'']\<rparr>"
proof -
  have ok: "label_ok \<lparr>lab_level = 2, lab_compartments = [''hr'']\<rparr>" "label_ok (level 1)"
    by (simp_all add: label_ok_def btree_ok_def level_def)
  have "dominates \<lparr>lab_level = 2, lab_compartments = [''hr'']\<rparr> (level 1)" by code_simp
  then show ?thesis using label_lattice [OF ok] by simp
qed

text \<open>
  A principal identifier cannot be forged through the claims: the identifiers built from two
  issuer and subject pairs are equal only when issuer and subject are, and none is the identifier of
  the anonymous principal.
\<close>

lemma principal_id_injective:
  "(pr_id (from_verified_claims i s c r) = pr_id (from_verified_claims j t d q) \<longleftrightarrow> i = j \<and> s = t)
    \<and> pr_id (from_verified_claims i s c r) \<noteq> pr_id anonymous"
proof
  show "pr_id (from_verified_claims i s c r) = pr_id (from_verified_claims j t d q) \<longleftrightarrow> i = j \<and> s = t"
    by (simp add: from_verified_claims_def claims_keep_id new_principal_def split_at_slash escape_no_slash urn_escape_inject)
  have "CHR ''/'' \<in> set (pr_id (from_verified_claims i s c r))"
    by (simp add: from_verified_claims_def claims_keep_id new_principal_def)
  moreover have "CHR ''/'' \<notin> set (pr_id anonymous)" by (simp add: anonymous_def new_principal_def)
  ultimately show "pr_id (from_verified_claims i s c r) \<noteq> pr_id anonymous" by auto
qed

text \<open>
  Verified claims become roles and attributes exactly: the values of the roles claim are the roles,
  every other claim is an attribute with exactly its values, and no clearance is ever derived from a
  claim.
\<close>

lemma claims_exact:
  assumes "bmap_ok claims"
  shows "(has_role (from_verified_claims i s claims rc) r \<longleftrightarrow> (\<exists>vs. map_of claims rc = Some vs \<and> r \<in> set vs))
    \<and> (has_attribute (from_verified_claims i s claims rc) k v \<longleftrightarrow> k \<noteq> rc \<and> (\<exists>vs. map_of claims k = Some vs \<and> v \<in> set vs))
    \<and> (is_cleared_for (from_verified_claims i s claims rc) l \<longleftrightarrow> l = default_label)"
proof (intro conjI)
  have d: "distinct (map fst claims)" using assms by (simp add: bmap_ok_def btree_ok_distinct)
  show "has_role (from_verified_claims i s claims rc) r \<longleftrightarrow> (\<exists>vs. map_of claims rc = Some vs \<and> r \<in> set vs)"
    using d by (force simp: has_role_def from_verified_claims_def claims_roles new_principal_def)
  have "bmap_ok (pr_attributes (new_principal n))" for n by (simp add: new_principal_def bmap_ok_def)
  note a = claims_attributes [OF this d]
  show "has_attribute (from_verified_claims i s claims rc) k v \<longleftrightarrow> k \<noteq> rc \<and> (\<exists>vs. map_of claims k = Some vs \<and> v \<in> set vs)"
  proof -
    have "k \<in> fst ` set claims \<longleftrightarrow> map_of claims k \<noteq> None" by (simp add: map_of_eq_None_iff)
    then show ?thesis
      by (cases "map_of claims k") (simp_all add: has_attribute_def from_verified_claims_def a, simp_all add: new_principal_def)
  qed
  have "pr_clearance (foldl (claim_step rc) p cs) = pr_clearance p" for p cs
    by (induction cs arbitrary: p) (simp_all add: claim_step_def)
  then show "is_cleared_for (from_verified_claims i s claims rc) l \<longleftrightarrow> l = default_label"
    by (simp add: is_cleared_for_def from_verified_claims_def new_principal_def)
qed

text \<open>
  A principal written as RDF says what the principal is: every quad has the principal as subject
  and lies in the chosen graph, and roles, clearance level, compartments and claim values (under the
  sanitised claim name) can be read back exactly.
\<close>

lemma principal_quads_exact:
  assumes "principal_ok p"
  shows "(\<forall>q\<in>set (to_quads p g). q_subject q = NodeNamed (pr_id p) \<and> q_graph q = GraphNamed g)
    \<and> (\<forall>r. principal_quad p g (holos ''role'') (Literal (SimpleLit r)) \<in> set (to_quads p g) \<longleftrightarrow> has_role p r)
    \<and> (\<forall>n v. principal_quad p g (holos (''claim_'' @ n)) (Literal (SimpleLit v)) \<in> set (to_quads p g)
          \<longleftrightarrow> (\<exists>k. sanitise k = n \<and> has_attribute p k v))
    \<and> (\<forall>n. principal_quad p g (holos ''clearanceLevel'') (Literal (TypedLit (show_nat (unat n)) xsd_integer)) \<in> set (to_quads p g)
          \<longleftrightarrow> (\<exists>c. pr_clearance p = Some c \<and> lab_level c = n))
    \<and> (\<forall>t. principal_quad p g (holos ''compartment'') (Literal (SimpleLit t)) \<in> set (to_quads p g)
          \<longleftrightarrow> (\<exists>c. pr_clearance p = Some c \<and> t \<in> set (lab_compartments c)))"
proof (intro conjI)
  show "\<forall>q\<in>set (to_quads p g). q_subject q = NodeNamed (pr_id p) \<and> q_graph q = GraphNamed g"
    by (auto simp: to_quads_def principal_quad_def split: option.splits)
  have d: "distinct (map fst (pr_attributes p))" using assms by (simp add: principal_ok_def bmap_ok_def btree_ok_distinct)
  have "has_attribute p k v \<longleftrightarrow> (\<exists>vs. (k, vs) \<in> set (pr_attributes p) \<and> v \<in> set vs)" for k v
    by (simp add: has_attribute_def map_of_eq_Some_iff [OF d, symmetric] split: option.splits)
  then show "\<forall>n v. principal_quad p g (holos (''claim_'' @ n)) (Literal (SimpleLit v)) \<in> set (to_quads p g)
          \<longleftrightarrow> (\<exists>k. sanitise k = n \<and> has_attribute p k v)"
    unfolding to_quads_iff by auto
  show "\<forall>n. principal_quad p g (holos ''clearanceLevel'') (Literal (TypedLit (show_nat (unat n)) xsd_integer)) \<in> set (to_quads p g)
          \<longleftrightarrow> (\<exists>c. pr_clearance p = Some c \<and> lab_level c = n)"
    unfolding to_quads_iff by (auto dest!: show_nat_inject simp: word_unat_eq_iff)
qed (auto simp: to_quads_iff)

end
