(* ===== verification/Policy.thy ===== *)
theory Policy
  imports Store_Facade Principal
begin

text \<open>
  Access policy, \<^verbatim>\<open>holos-security/src/policy.rs\<close>, and the session of \<^verbatim>\<open>holos-security/src/lib.rs\<close>. A policy
  names graphs and predicates by IRI; compiling it for a principal resolves them to identifiers, and the
  compiled form decides encoded quads. The hash maps of the compiled form are association lists.

  \<open>policy_decides\<close> is what a policy means, on RDF quads and with no identifiers in it. The main result is
  that the policy a session hands out decides every stored quad as the policy means, at the time of the
  call, whatever was written since the session was opened: a compiled policy either still agrees or is
  recognised as stale and recompiled.
\<close>

unbundle bit_operations_syntax

section \<open>Rules\<close>

datatype effect = Allow | Deny

datatype semantics = Filter | Fail

type_synonym modes = u8

definition READ :: modes where "READ = 1"

definition WRITE :: modes where "WRITE = 2"

definition VALIDATE :: modes where "VALIDATE = 4"

definition ADMIN :: modes where "ADMIN = 8"

definition ALL_MODES :: modes where "ALL_MODES = 15"

definition modes_union :: "modes \<Rightarrow> modes \<Rightarrow> modes" where
  "modes_union a b = a OR b"

definition modes_contains :: "modes \<Rightarrow> modes \<Rightarrow> bool" where
  "modes_contains a b \<longleftrightarrow> a AND b = b"

datatype scope = Everything | Graph string | Predicate string | GraphPredicate string string

fun specificity :: "scope \<Rightarrow> u8" where
  "specificity Everything = 0"
| "specificity (Graph _) = 1"
| "specificity (Predicate _) = 2"
| "specificity (GraphPredicate _ _) = 3"

datatype principal_match =
    Everyone
  | Role string
  | Attribute string string
  | Identity string
  | MatchAll "principal_match list"
  | MatchAny "principal_match list"
  | MatchNot principal_match

fun matches :: "principal_match \<Rightarrow> principal \<Rightarrow> bool" where
  "matches Everyone p = True"
| "matches (Role r) p = has_role p r"
| "matches (Attribute k v) p = has_attribute p k v"
| "matches (Identity i) p = (pr_id p = i)"
| "matches (MatchAll subs) p = list_all (\<lambda>s. matches s p) subs"
| "matches (MatchAny subs) p = list_ex (\<lambda>s. matches s p) subs"
| "matches (MatchNot sub) p = (\<not> matches sub p)"

record rule =
  ru_effect :: effect
  ru_modes :: modes
  ru_scope :: scope
  ru_applies_to :: principal_match

definition allow :: "modes \<Rightarrow> scope \<Rightarrow> principal_match \<Rightarrow> rule" where
  "allow m s a = \<lparr>ru_effect = Allow, ru_modes = m, ru_scope = s, ru_applies_to = a\<rparr>"

definition deny :: "modes \<Rightarrow> scope \<Rightarrow> principal_match \<Rightarrow> rule" where
  "deny m s a = \<lparr>ru_effect = Deny, ru_modes = m, ru_scope = s, ru_applies_to = a\<rparr>"

record policy =
  po_default_effect :: effect
  po_semantics :: semantics
  po_rules :: "rule list"
  po_graph_labels :: "(string \<times> label) list"
  po_default_graph_label :: label

definition default_policy :: policy where
  "default_policy = \<lparr>po_default_effect = Deny, po_semantics = Filter, po_rules = [], po_graph_labels = [],
    po_default_graph_label = default_label\<rparr>"

definition policy_permit_all :: policy where
  "policy_permit_all = default_policy\<lparr>po_default_effect := Allow\<rparr>"

definition with_rule :: "rule \<Rightarrow> policy \<Rightarrow> policy" where
  "with_rule r p = p\<lparr>po_rules := po_rules p @ [r]\<rparr>"

definition with_graph_label :: "string \<Rightarrow> label \<Rightarrow> policy \<Rightarrow> policy" where
  "with_graph_label g l p = p\<lparr>po_graph_labels := po_graph_labels p @ [(g, l)]\<rparr>"

definition with_semantics :: "semantics \<Rightarrow> policy \<Rightarrow> policy" where
  "with_semantics s p = p\<lparr>po_semantics := s\<rparr>"

section \<open>Compilation\<close>

type_synonym slot = "u8 \<times> effect \<times> modes"

record compiled_policy =
  cp_default_effect :: effect
  cp_semantics :: semantics
  cp_everything :: "slot option"
  cp_graph :: "(term_id \<times> slot) list"
  cp_predicate :: "(term_id \<times> slot) list"
  cp_graph_predicate :: "((term_id \<times> term_id) \<times> slot) list"
  cp_forbidden_graphs :: "term_id list"
  cp_default_graph_forbidden :: bool
  cp_compiled_at_dictionary_len :: nat
  cp_unresolved :: "string list"

fun resolve_conflict :: "slot \<Rightarrow> slot \<Rightarrow> slot" where
  "resolve_conflict (s, Deny, m) (t, Deny, n) = (s, Deny, modes_union m n)"
| "resolve_conflict (s, Deny, m) (t, Allow, n) = (s, Deny, m)"
| "resolve_conflict (s, Allow, m) (t, Deny, n) = (t, Deny, n)"
| "resolve_conflict (s, Allow, m) (t, Allow, n) = (s, Allow, modes_union m n)"

definition merge_slot :: "slot option \<Rightarrow> slot \<Rightarrow> slot option" where
  "merge_slot s e = (case s of None \<Rightarrow> Some e | Some x \<Rightarrow> Some (resolve_conflict x e))"

definition merge_map :: "('k \<times> slot) list \<Rightarrow> 'k \<Rightarrow> slot \<Rightarrow> ('k \<times> slot) list" where
  "merge_map m k e =
    AList.update k (case map_of m k of Some x \<Rightarrow> resolve_conflict x e | None \<Rightarrow> e) m"

definition resolve :: "'s storage_ops \<Rightarrow> 's \<Rightarrow> string \<Rightarrow> term_id option res" where
  "resolve ops st n = op_lookup ops st (NamedNode n)"

definition compile_rule :: "'s storage_ops \<Rightarrow> 's \<Rightarrow> rule \<Rightarrow> compiled_policy \<Rightarrow> compiled_policy res" where
  "compile_rule ops st r c =
    (let entry = (specificity (ru_scope r), ru_effect r, ru_modes r) in
     case ru_scope r of
       Everything \<Rightarrow> Inr (c\<lparr>cp_everything := merge_slot (cp_everything c) entry\<rparr>)
     | Graph g \<Rightarrow>
         (case resolve ops st g of
            Inl e \<Rightarrow> Inl e
          | Inr (Some i) \<Rightarrow> Inr (c\<lparr>cp_graph := merge_map (cp_graph c) i entry\<rparr>)
          | Inr None \<Rightarrow> Inr (c\<lparr>cp_unresolved := cp_unresolved c @ [g]\<rparr>))
     | Predicate p \<Rightarrow>
         (case resolve ops st p of
            Inl e \<Rightarrow> Inl e
          | Inr (Some i) \<Rightarrow> Inr (c\<lparr>cp_predicate := merge_map (cp_predicate c) i entry\<rparr>)
          | Inr None \<Rightarrow> Inr (c\<lparr>cp_unresolved := cp_unresolved c @ [p]\<rparr>))
     | GraphPredicate g p \<Rightarrow>
         (case resolve ops st g of
            Inl e \<Rightarrow> Inl e
          | Inr gi \<Rightarrow>
              (case resolve ops st p of
                 Inl e \<Rightarrow> Inl e
               | Inr pi \<Rightarrow>
                   (case (gi, pi) of
                      (Some gi, Some pi) \<Rightarrow> Inr (c\<lparr>cp_graph_predicate := merge_map (cp_graph_predicate c) (gi, pi) entry\<rparr>)
                    | _ \<Rightarrow> Inr (c\<lparr>cp_unresolved := cp_unresolved c @ [g, p]\<rparr>)))))"

fun compile_rules :: "'s storage_ops \<Rightarrow> 's \<Rightarrow> rule list \<Rightarrow> compiled_policy \<Rightarrow> compiled_policy res" where
  "compile_rules ops st [] c = Inr c"
| "compile_rules ops st (r # rs) c =
    (case compile_rule ops st r c of Inl e \<Rightarrow> Inl e | Inr c \<Rightarrow> compile_rules ops st rs c)"

definition compile_label :: "'s storage_ops \<Rightarrow> 's \<Rightarrow> principal \<Rightarrow> string \<times> label \<Rightarrow> compiled_policy \<Rightarrow> compiled_policy res" where
  "compile_label ops st p gl c =
    (case resolve ops st (fst gl) of
       Inl e \<Rightarrow> Inl e
     | Inr (Some i) \<Rightarrow>
         Inr (if is_cleared_for p (snd gl) then c else c\<lparr>cp_forbidden_graphs := List.insert i (cp_forbidden_graphs c)\<rparr>)
     | Inr None \<Rightarrow> Inr (c\<lparr>cp_unresolved := cp_unresolved c @ [fst gl]\<rparr>))"

fun compile_labels :: "'s storage_ops \<Rightarrow> 's \<Rightarrow> principal \<Rightarrow> (string \<times> label) list \<Rightarrow> compiled_policy \<Rightarrow> compiled_policy res" where
  "compile_labels ops st p [] c = Inr c"
| "compile_labels ops st p (l # ls) c =
    (case compile_label ops st p l c of Inl e \<Rightarrow> Inl e | Inr c \<Rightarrow> compile_labels ops st p ls c)"

definition uncompiled :: "nat \<Rightarrow> policy \<Rightarrow> principal \<Rightarrow> compiled_policy" where
  "uncompiled len po p = \<lparr>cp_default_effect = po_default_effect po, cp_semantics = po_semantics po, cp_everything = None,
    cp_graph = [], cp_predicate = [], cp_graph_predicate = [], cp_forbidden_graphs = [],
    cp_default_graph_forbidden = (\<not> is_cleared_for p (po_default_graph_label po)),
    cp_compiled_at_dictionary_len = len, cp_unresolved = []\<rparr>"

definition compile :: "'s storage_ops \<Rightarrow> 's \<Rightarrow> policy \<Rightarrow> principal \<Rightarrow> compiled_policy res" where
  "compile ops st po p =
    (case compile_rules ops st (filter (\<lambda>r. matches (ru_applies_to r) p) (po_rules po)) (uncompiled (op_dictionary_len ops st) po p) of
       Inl e \<Rightarrow> Inl e
     | Inr c \<Rightarrow> compile_labels ops st p (po_graph_labels po) c)"

section \<open>Decisions\<close>

datatype decision = AllowIt | FilterIt | FailIt

definition compiled_permit_all :: compiled_policy where
  "compiled_permit_all = \<lparr>cp_default_effect = Allow, cp_semantics = Filter, cp_everything = None,
    cp_graph = [], cp_predicate = [], cp_graph_predicate = [], cp_forbidden_graphs = [],
    cp_default_graph_forbidden = False, cp_compiled_at_dictionary_len = 2 ^ 64 - 1, cp_unresolved = []\<rparr>"

definition is_stale :: "'s storage_ops \<Rightarrow> 's \<Rightarrow> compiled_policy \<Rightarrow> bool" where
  "is_stale ops st c \<longleftrightarrow> cp_unresolved c \<noteq> [] \<and> op_dictionary_len ops st \<noteq> cp_compiled_at_dictionary_len c"

definition refusal :: "compiled_policy \<Rightarrow> decision" where
  "refusal c = (case cp_semantics c of Filter \<Rightarrow> FilterIt | Fail \<Rightarrow> FailIt)"

definition cleared :: "compiled_policy \<Rightarrow> term_id option \<Rightarrow> bool" where
  "cleared c g = (case g of None \<Rightarrow> \<not> cp_default_graph_forbidden c | Some g \<Rightarrow> \<not> List.member (cp_forbidden_graphs c) g)"

definition consider_slot :: "modes \<Rightarrow> slot option \<Rightarrow> (u8 \<times> effect) option \<Rightarrow> (u8 \<times> effect) option" where
  "consider_slot mode s best =
    (case s of
       None \<Rightarrow> best
     | Some (spec, effect, modes) \<Rightarrow>
         if modes_contains modes mode \<and> (case best of None \<Rightarrow> True | Some (b, _) \<Rightarrow> spec \<ge> b)
         then Some (spec, effect) else best)"

definition decide_quad :: "compiled_policy \<Rightarrow> encoded_quad \<Rightarrow> modes \<Rightarrow> decision" where
  "decide_quad c q mode =
    (if \<not> cleared c (enc_graph q) then refusal c
     else
       let best = consider_slot mode (cp_everything c) None;
           best = (case enc_graph q of Some g \<Rightarrow> if cp_graph c \<noteq> [] then consider_slot mode (map_of (cp_graph c) g) best else best
             | None \<Rightarrow> best);
           best = (if cp_predicate c \<noteq> [] then consider_slot mode (map_of (cp_predicate c) (enc_predicate q)) best else best);
           best = (if cp_graph_predicate c \<noteq> []
             then (case enc_graph q of Some g \<Rightarrow> consider_slot mode (map_of (cp_graph_predicate c) (g, enc_predicate q)) best | None \<Rightarrow> best)
             else best)
       in (case (case best of None \<Rightarrow> cp_default_effect c | Some (_, e) \<Rightarrow> e) of Allow \<Rightarrow> AllowIt | Deny \<Rightarrow> refusal c))"

definition permits_quad :: "compiled_policy \<Rightarrow> encoded_quad \<Rightarrow> modes \<Rightarrow> bool" where
  "permits_quad c q mode \<longleftrightarrow> decide_quad c q mode = AllowIt"

definition graph_is_wholly_denied :: "compiled_policy \<Rightarrow> term_id option \<Rightarrow> bool" where
  "graph_is_wholly_denied c g =
    (if \<not> cleared c g then True
     else
       let graph_effect = (case g of None \<Rightarrow> None | Some g \<Rightarrow> map_option (\<lambda>(_, e, _). e) (map_of (cp_graph c) g));
           no_finer_allows = list_all (\<lambda>(_, e, _). e = Deny) (map snd (cp_predicate c) @ map snd (cp_graph_predicate c))
       in graph_effect = Some Deny \<and> no_finer_allows)"

section \<open>Sessions\<close>

record session =
  se_principal :: principal
  se_policy :: policy
  se_compiled :: compiled_policy

definition session_open :: "'s storage_ops \<Rightarrow> 's \<Rightarrow> principal \<Rightarrow> policy \<Rightarrow> session res" where
  "session_open ops st p po =
    (case compile ops st po p of
       Inl e \<Rightarrow> Inl e
     | Inr c \<Rightarrow> Inr \<lparr>se_principal = p, se_policy = po, se_compiled = c\<rparr>)"

definition session_unrestricted :: "'s storage_ops \<Rightarrow> 's \<Rightarrow> session res" where
  "session_unrestricted ops st = session_open ops st anonymous policy_permit_all"

definition session_policy :: "'s storage_ops \<Rightarrow> 's \<Rightarrow> session \<Rightarrow> session \<times> compiled_policy res" where
  "session_policy ops st se =
    (if is_stale ops st (se_compiled se)
     then (case compile ops st (se_policy se) (se_principal se) of
             Inl e \<Rightarrow> (se, Inl e)
           | Inr c \<Rightarrow> (se\<lparr>se_compiled := c\<rparr>, Inr c))
     else (se, Inr (se_compiled se)))"

section \<open>What a policy means\<close>

fun covers :: "scope \<Rightarrow> quad \<Rightarrow> bool" where
  "covers Everything q = True"
| "covers (Graph g) q = (q_graph q = GraphNamed g)"
| "covers (Predicate p) q = (q_predicate q = p)"
| "covers (GraphPredicate g p) q = (q_graph q = GraphNamed g \<and> q_predicate q = p)"

definition level_rules :: "policy \<Rightarrow> principal \<Rightarrow> quad \<Rightarrow> u8 \<Rightarrow> rule list" where
  "level_rules po p q s = filter (\<lambda>r. matches (ru_applies_to r) p \<and> covers (ru_scope r) q \<and> specificity (ru_scope r) = s) (po_rules po)"

definition union_modes :: "rule list \<Rightarrow> modes" where
  "union_modes rs = foldl modes_union 0 (map ru_modes rs)"

text \<open>The rules of one level: one deny silences the allows, and only the modes of the side that remains count.\<close>

definition remaining :: "rule list \<Rightarrow> rule list" where
  "remaining rs = (if list_ex (\<lambda>r. ru_effect r = Deny) rs then filter (\<lambda>r. ru_effect r = Deny) rs else rs)"

definition level_effect :: "modes \<Rightarrow> rule list \<Rightarrow> effect option" where
  "level_effect mode rs =
    (if rs \<noteq> [] \<and> modes_contains (union_modes (remaining rs)) mode then Some (ru_effect (hd (remaining rs))) else None)"

fun first_some :: "'a option list \<Rightarrow> 'a option" where
  "first_some [] = None"
| "first_some (x # xs) = (case x of Some y \<Rightarrow> Some y | None \<Rightarrow> first_some xs)"

definition policy_effect :: "policy \<Rightarrow> principal \<Rightarrow> quad \<Rightarrow> modes \<Rightarrow> effect" where
  "policy_effect po p q mode =
    (case first_some (map (\<lambda>s. level_effect mode (level_rules po p q s)) [3, 2, 1, 0]) of
       Some e \<Rightarrow> e | None \<Rightarrow> po_default_effect po)"

definition policy_clears :: "policy \<Rightarrow> principal \<Rightarrow> graph_name \<Rightarrow> bool" where
  "policy_clears po p g =
    (case g of
       DefaultGraph \<Rightarrow> is_cleared_for p (po_default_graph_label po)
     | GraphNamed n \<Rightarrow> list_all (\<lambda>(m, l). m = n \<longrightarrow> is_cleared_for p l) (po_graph_labels po)
     | GraphBlank _ \<Rightarrow> True)"

definition policy_decides :: "policy \<Rightarrow> principal \<Rightarrow> quad \<Rightarrow> modes \<Rightarrow> decision" where
  "policy_decides po p q mode =
    (if policy_clears po p (q_graph q) \<and> policy_effect po p q mode = Allow then AllowIt
     else (case po_semantics po of Filter \<Rightarrow> FilterIt | Fail \<Rightarrow> FailIt))"

fun scope_names :: "scope \<Rightarrow> string list" where
  "scope_names Everything = []"
| "scope_names (Graph g) = [g]"
| "scope_names (Predicate p) = [p]"
| "scope_names (GraphPredicate g p) = [g, p]"

definition wf_policy :: "policy \<Rightarrow> bool" where
  "wf_policy po \<longleftrightarrow> list_all (\<lambda>r. list_all is_str (scope_names (ru_scope r))) (po_rules po) \<and> list_all (\<lambda>gl. is_str (fst gl)) (po_graph_labels po)"

section \<open>Slots\<close>

definition entry :: "rule \<Rightarrow> slot" where
  "entry r = (specificity (ru_scope r), ru_effect r, ru_modes r)"

definition slot_fold :: "slot option \<Rightarrow> rule list \<Rightarrow> slot option" where
  "slot_fold s rs = foldl (\<lambda>s r. merge_slot s (entry r)) s rs"

lemma slot_fold_simps [simp]:
  "slot_fold s [] = s" "slot_fold s (r # rs) = slot_fold (merge_slot s (entry r)) rs"
  "slot_fold s (rs @ [r]) = merge_slot (slot_fold s rs) (entry r)"
  by (simp_all add: slot_fold_def)

lemma union_modes_simps [simp]: "union_modes [] = 0" "union_modes (rs @ [r]) = modes_union (union_modes rs) (ru_modes r)"
  by (simp_all add: union_modes_def)

lemma modes_union_0 [simp]: "modes_union 0 m = m"
  by (simp add: modes_union_def)

lemma remaining_snoc:
  "remaining (rs @ [r]) =
    (if list_ex (\<lambda>r. ru_effect r = Deny) rs then (if ru_effect r = Deny then remaining rs @ [r] else remaining rs)
     else if ru_effect r = Deny then [r] else rs @ [r])"
  by (auto simp: remaining_def list_ex_iff filter_empty_conv)

lemma remaining_Nil [simp]: "remaining rs = [] \<longleftrightarrow> rs = []"
  by (auto simp: remaining_def list_ex_iff filter_empty_conv)

lemma remaining_effect: "rs \<noteq> [] \<Longrightarrow> ru_effect (hd (remaining rs)) = (if list_ex (\<lambda>r. ru_effect r = Deny) rs then Deny else Allow)"
proof -
  assume "rs \<noteq> []"
  then have "hd (remaining rs) \<in> set (remaining rs)" by simp
  then show ?thesis by (cases "ru_effect (hd (remaining rs))") (auto simp: remaining_def list_ex_iff split: if_splits)
qed

text \<open>Merging rules of one scope in any order ends in the meaning of the level.\<close>

lemma slot_fold_level:
  "\<forall>r\<in>set rs. specificity (ru_scope r) = s \<Longrightarrow>
    slot_fold None rs = (if rs = [] then None else Some (s, ru_effect (hd (remaining rs)), union_modes (remaining rs)))"
proof (induction rs rule: rev_induct)
  case (snoc r rs)
  show ?case
  proof (cases "rs = []")
    case True
    with snoc.prems show ?thesis
      by (cases "ru_effect r") (simp_all add: remaining_def entry_def merge_slot_def union_modes_def)
  next
    case False
    let ?D = "list_ex (\<lambda>r. ru_effect r = Deny) rs"
    have ih: "slot_fold None rs = Some (s, if ?D then Deny else Allow, union_modes (remaining rs))"
      using snoc False by (simp add: remaining_effect)
    have e: "ru_effect (hd (remaining (rs @ [r]))) = (if ?D \<or> ru_effect r = Deny then Deny else Allow)"
      using remaining_effect [of "rs @ [r]"] by simp
    have rem: "\<not> ?D \<Longrightarrow> remaining rs = rs" by (simp add: remaining_def)
    show ?thesis
      unfolding slot_fold_simps ih e using snoc.prems rem
      by (cases "ru_effect r") (auto simp: merge_slot_def entry_def remaining_snoc union_modes_def)
  qed
qed simp

lemma consider_level:
  assumes "\<forall>r\<in>set rs. specificity (ru_scope r) = s" "\<forall>b e. best = Some (b, e) \<longrightarrow> b \<le> s"
  shows "consider_slot mode (slot_fold None rs) best = (case level_effect mode rs of Some e \<Rightarrow> Some (s, e) | None \<Rightarrow> best)"
  using assms(2) by (auto simp: slot_fold_level [OF assms(1)] consider_slot_def level_effect_def split: option.splits)

lemma map_of_merge_map: "map_of (merge_map m k e) i = (if i = k then merge_slot (map_of m k) e else map_of m i)"
  by (auto simp: merge_map_def update_conv' merge_slot_def split: option.splits)

section \<open>The compiled slots\<close>

definition resolves_to :: "'s storage_ops \<Rightarrow> 's \<Rightarrow> string \<Rightarrow> term_id \<Rightarrow> bool" where
  "resolves_to ops st n i \<longleftrightarrow> resolve ops st n = Inr (Some i)"

definition graph_rule :: "'s storage_ops \<Rightarrow> 's \<Rightarrow> term_id \<Rightarrow> rule \<Rightarrow> bool" where
  "graph_rule ops st i r \<longleftrightarrow> (case ru_scope r of Graph g \<Rightarrow> resolves_to ops st g i | _ \<Rightarrow> False)"

definition predicate_rule :: "'s storage_ops \<Rightarrow> 's \<Rightarrow> term_id \<Rightarrow> rule \<Rightarrow> bool" where
  "predicate_rule ops st i r \<longleftrightarrow> (case ru_scope r of Predicate p \<Rightarrow> resolves_to ops st p i | _ \<Rightarrow> False)"

definition graph_predicate_rule :: "'s storage_ops \<Rightarrow> 's \<Rightarrow> term_id \<times> term_id \<Rightarrow> rule \<Rightarrow> bool" where
  "graph_predicate_rule ops st k r \<longleftrightarrow>
    (case ru_scope r of GraphPredicate g p \<Rightarrow> resolves_to ops st g (fst k) \<and> resolves_to ops st p (snd k) | _ \<Rightarrow> False)"

lemmas rule_kinds = graph_rule_def predicate_rule_def graph_predicate_rule_def resolves_to_def

lemma compile_rule_slots:
  assumes "compile_rule ops st r c = Inr c'"
  shows "cp_everything c' = (if ru_scope r = Everything then merge_slot (cp_everything c) (entry r) else cp_everything c)"
    "map_of (cp_graph c') i = (if graph_rule ops st i r then merge_slot (map_of (cp_graph c) i) (entry r) else map_of (cp_graph c) i)"
    "map_of (cp_predicate c') i = (if predicate_rule ops st i r then merge_slot (map_of (cp_predicate c) i) (entry r) else map_of (cp_predicate c) i)"
    "map_of (cp_graph_predicate c') k =
      (if graph_predicate_rule ops st k r then merge_slot (map_of (cp_graph_predicate c) k) (entry r) else map_of (cp_graph_predicate c) k)"
    "cp_default_effect c' = cp_default_effect c" "cp_semantics c' = cp_semantics c" "cp_forbidden_graphs c' = cp_forbidden_graphs c"
    "cp_default_graph_forbidden c' = cp_default_graph_forbidden c"
  using assms
  by (auto simp: compile_rule_def Let_def rule_kinds entry_def map_of_merge_map split: scope.splits sum.splits option.splits)

lemma compile_rules_slots:
  assumes "compile_rules ops st rs c = Inr c'"
  shows "cp_everything c' = slot_fold (cp_everything c) (filter (\<lambda>r. ru_scope r = Everything) rs)"
    "map_of (cp_graph c') i = slot_fold (map_of (cp_graph c) i) (filter (graph_rule ops st i) rs)"
    "map_of (cp_predicate c') i = slot_fold (map_of (cp_predicate c) i) (filter (predicate_rule ops st i) rs)"
    "map_of (cp_graph_predicate c') k = slot_fold (map_of (cp_graph_predicate c) k) (filter (graph_predicate_rule ops st k) rs)"
    "cp_default_effect c' = cp_default_effect c" "cp_semantics c' = cp_semantics c" "cp_forbidden_graphs c' = cp_forbidden_graphs c"
    "cp_default_graph_forbidden c' = cp_default_graph_forbidden c"
  using assms
  by (induction rs arbitrary: c) (auto simp: compile_rule_slots split: sum.splits)

lemma compile_labels_slots:
  assumes "compile_labels ops st p ls c = Inr c'"
  shows "cp_everything c' = cp_everything c" "cp_graph c' = cp_graph c" "cp_predicate c' = cp_predicate c"
    "cp_graph_predicate c' = cp_graph_predicate c" "cp_default_effect c' = cp_default_effect c" "cp_semantics c' = cp_semantics c"
    "cp_default_graph_forbidden c' = cp_default_graph_forbidden c"
    "set (cp_forbidden_graphs c') = set (cp_forbidden_graphs c) \<union> {i. \<exists>(g, l)\<in>set ls. resolves_to ops st g i \<and> \<not> is_cleared_for p l}"
  using assms
  by (induction ls arbitrary: c) (auto simp: compile_label_def resolves_to_def split: sum.splits option.splits if_splits)

lemma compile_slots:
  assumes "compile ops st po p = Inr c"
  defines "rs \<equiv> filter (\<lambda>r. matches (ru_applies_to r) p) (po_rules po)"
  shows "cp_everything c = slot_fold None (filter (\<lambda>r. ru_scope r = Everything) rs)"
    "map_of (cp_graph c) i = slot_fold None (filter (graph_rule ops st i) rs)"
    "map_of (cp_predicate c) i = slot_fold None (filter (predicate_rule ops st i) rs)"
    "map_of (cp_graph_predicate c) k = slot_fold None (filter (graph_predicate_rule ops st k) rs)"
    "cp_default_effect c = po_default_effect po" "cp_semantics c = po_semantics po"
    "cp_default_graph_forbidden c \<longleftrightarrow> \<not> is_cleared_for p (po_default_graph_label po)"
    "set (cp_forbidden_graphs c) = {i. \<exists>(g, l)\<in>set (po_graph_labels po). resolves_to ops st g i \<and> \<not> is_cleared_for p l}"
proof -
  obtain c1 where c1: "compile_rules ops st rs (uncompiled (op_dictionary_len ops st) po p) = Inr c1"
    and cl: "compile_labels ops st p (po_graph_labels po) c1 = Inr c"
    using assms(1) by (auto simp: compile_def rs_def split: sum.splits)
  note slots = compile_rules_slots [OF c1] compile_labels_slots [OF cl]
  show "cp_everything c = slot_fold None (filter (\<lambda>r. ru_scope r = Everything) rs)"
    "map_of (cp_graph c) i = slot_fold None (filter (graph_rule ops st i) rs)"
    "map_of (cp_predicate c) i = slot_fold None (filter (predicate_rule ops st i) rs)"
    "map_of (cp_graph_predicate c) k = slot_fold None (filter (graph_predicate_rule ops st k) rs)"
    "cp_default_effect c = po_default_effect po" "cp_semantics c = po_semantics po"
    "cp_default_graph_forbidden c \<longleftrightarrow> \<not> is_cleared_for p (po_default_graph_label po)"
    "set (cp_forbidden_graphs c) = {i. \<exists>(g, l)\<in>set (po_graph_labels po). resolves_to ops st g i \<and> \<not> is_cleared_for p l}"
    by (simp_all add: slots uncompiled_def)
qed

lemma consider_guard: "(if m \<noteq> [] then consider_slot mode (map_of m k) best else best) = consider_slot mode (map_of m k) best"
  by (simp add: consider_slot_def)

lemma decide_quad_slots:
  "decide_quad c q mode =
    (if \<not> cleared c (enc_graph q) then refusal c
     else (case consider_slot mode (case enc_graph q of None \<Rightarrow> None | Some g \<Rightarrow> map_of (cp_graph_predicate c) (g, enc_predicate q))
             (consider_slot mode (map_of (cp_predicate c) (enc_predicate q))
               (consider_slot mode (case enc_graph q of None \<Rightarrow> None | Some g \<Rightarrow> map_of (cp_graph c) g)
                 (consider_slot mode (cp_everything c) None))) of
            None \<Rightarrow> (case cp_default_effect c of Allow \<Rightarrow> AllowIt | Deny \<Rightarrow> refusal c)
          | Some (_, e) \<Rightarrow> (case e of Allow \<Rightarrow> AllowIt | Deny \<Rightarrow> refusal c)))"
proof -
  have none: "consider_slot mode None best = best" for best by (simp add: consider_slot_def)
  have gp: "(if cp_graph_predicate c \<noteq> [] then (case enc_graph q of Some g \<Rightarrow> consider_slot mode (map_of (cp_graph_predicate c) (g, enc_predicate q)) best | None \<Rightarrow> best) else best)
    = consider_slot mode (case enc_graph q of None \<Rightarrow> None | Some g \<Rightarrow> map_of (cp_graph_predicate c) (g, enc_predicate q)) best" for best
    by (cases "enc_graph q") (auto simp: none)
  have g: "(case enc_graph q of Some g \<Rightarrow> if cp_graph c \<noteq> [] then consider_slot mode (map_of (cp_graph c) g) best else best | None \<Rightarrow> best)
    = consider_slot mode (case enc_graph q of None \<Rightarrow> None | Some g \<Rightarrow> map_of (cp_graph c) g) best" for best
    by (cases "enc_graph q") (auto simp: none)
  show ?thesis unfolding decide_quad_def Let_def gp g unfolding consider_guard by (auto split: option.splits)
qed

lemma consider_levels:
  assumes "\<forall>r\<in>set r0. specificity (ru_scope r) = 0" "\<forall>r\<in>set r1. specificity (ru_scope r) = 1"
    "\<forall>r\<in>set r2. specificity (ru_scope r) = 2" "\<forall>r\<in>set r3. specificity (ru_scope r) = 3"
  shows "map_option snd (consider_slot mode (slot_fold None r3) (consider_slot mode (slot_fold None r2)
      (consider_slot mode (slot_fold None r1) (consider_slot mode (slot_fold None r0) None))))
    = first_some (map (level_effect mode) [r3, r2, r1, r0])"
proof -
  have 0: "consider_slot mode (slot_fold None r0) None = (case level_effect mode r0 of Some e \<Rightarrow> Some (0, e) | None \<Rightarrow> None)"
    by (rule consider_level [OF assms(1)]) simp
  have 1: "consider_slot mode (slot_fold None r1) b = (case level_effect mode r1 of Some e \<Rightarrow> Some (1, e) | None \<Rightarrow> b)"
    if "\<forall>s e. b = Some (s, e) \<longrightarrow> s \<le> 1" for b by (rule consider_level [OF assms(2) that])
  have 2: "consider_slot mode (slot_fold None r2) b = (case level_effect mode r2 of Some e \<Rightarrow> Some (2, e) | None \<Rightarrow> b)"
    if "\<forall>s e. b = Some (s, e) \<longrightarrow> s \<le> 2" for b by (rule consider_level [OF assms(3) that])
  have 3: "consider_slot mode (slot_fold None r3) b = (case level_effect mode r3 of Some e \<Rightarrow> Some (3, e) | None \<Rightarrow> b)"
    if "\<forall>s e. b = Some (s, e) \<longrightarrow> s \<le> 3" for b by (rule consider_level [OF assms(4) that])
  show ?thesis
    by (cases "level_effect mode r0"; cases "level_effect mode r1"; cases "level_effect mode r2"; cases "level_effect mode r3")
       (simp_all add: 0 1 2 3)
qed

context storage
begin

lemma resolves_iff:
  assumes ok: "ok st" and "is_str n" "is_str m" "resolves_to ops st m i"
  shows "resolves_to ops st n i \<longleftrightarrow> n = m"
  using lookup_injective [OF ok, of "NamedNode n" "NamedNode m" i] assms by (auto simp: resolves_to_def resolve_def)

lemma encodes_resolves:
  assumes ok: "ok st" and wf: "wf_quad q" and e: "encodes ops st q e" and n: "is_str n"
  shows "resolves_to ops st n (enc_predicate e) \<longleftrightarrow> q_predicate q = n"
    "(\<exists>i. enc_graph e = Some i \<and> resolves_to ops st n i) \<longleftrightarrow> q_graph q = GraphNamed n"
proof -
  have p: "resolves_to ops st (q_predicate q) (enc_predicate e)" "is_str (q_predicate q)"
    using e wf by (auto simp: encodes_iff resolves_to_def resolve_def wf_quad_def)
  show "resolves_to ops st n (enc_predicate e) \<longleftrightarrow> q_predicate q = n"
    using resolves_iff [OF ok n p(2,1)] by auto
  have g: "names ops st (q_graph q) (enc_graph e)" "wf_graph (q_graph q)" using e wf by (auto simp: encodes_iff wf_quad_def)
  have m: "\<exists>i. enc_graph e = Some i \<and> resolves_to ops st m i" if "q_graph q = GraphNamed m" for m
    using g(1) that by (auto simp: names_iff resolves_to_def resolve_def)
  show "(\<exists>i. enc_graph e = Some i \<and> resolves_to ops st n i) \<longleftrightarrow> q_graph q = GraphNamed n"
  proof
    assume "\<exists>i. enc_graph e = Some i \<and> resolves_to ops st n i"
    then have "names ops st (GraphNamed n) (enc_graph e)" by (auto simp: names_iff resolves_to_def resolve_def)
    then show "q_graph q = GraphNamed n" using names_inject [OF ok g(2) _ g(1), of "GraphNamed n"] n by simp
  qed (rule m)
qed

lemma encodes_default_graph: "encodes ops st q e \<Longrightarrow> enc_graph e = None \<longleftrightarrow> q_graph q = DefaultGraph"
  by (cases "q_graph q") (auto simp: encodes_iff names_iff)

lemma compile_levels:
  assumes ok: "ok st" and wf: "wf_policy po" "wf_quad q" and c: "compile ops st po p = Inr c" and e: "encodes ops st q e"
  shows "cp_everything c = slot_fold None (level_rules po p q 0)"
    "(case enc_graph e of None \<Rightarrow> None | Some g \<Rightarrow> map_of (cp_graph c) g) = slot_fold None (level_rules po p q 1)"
    "map_of (cp_predicate c) (enc_predicate e) = slot_fold None (level_rules po p q 2)"
    "(case enc_graph e of None \<Rightarrow> None | Some g \<Rightarrow> map_of (cp_graph_predicate c) (g, enc_predicate e)) = slot_fold None (level_rules po p q 3)"
proof -
  have strs: "\<forall>n\<in>set (scope_names (ru_scope r)). is_str n" if "r \<in> set (po_rules po)" for r
    using wf(1) that by (auto simp: wf_policy_def list_all_iff)
  note res = encodes_resolves [OF ok wf(2) e] and slots = compile_slots [OF c]
  have level: "filter P (filter (\<lambda>r. matches (ru_applies_to r) p) (po_rules po)) = level_rules po p q s"
    if "\<And>r. r \<in> set (po_rules po) \<Longrightarrow> P r \<longleftrightarrow> covers (ru_scope r) q \<and> specificity (ru_scope r) = s" for P s
    unfolding level_rules_def filter_filter by (rule filter_cong [OF refl]) (use that in auto)
  have k0: "ru_scope r = Everything \<longleftrightarrow> covers (ru_scope r) q \<and> specificity (ru_scope r) = 0" for r
    by (cases "ru_scope r") auto
  then show "cp_everything c = slot_fold None (level_rules po p q 0)" by (simp only: slots(1) level [OF k0])
  have k2: "predicate_rule ops st (enc_predicate e) r \<longleftrightarrow> covers (ru_scope r) q \<and> specificity (ru_scope r) = 2"
    if "r \<in> set (po_rules po)" for r
    using strs [OF that] res(1) by (cases "ru_scope r") (auto simp: predicate_rule_def)
  show "map_of (cp_predicate c) (enc_predicate e) = slot_fold None (level_rules po p q 2)" by (simp only: slots(3) level [OF k2])
  have none: "level_rules po p q s = []" if "enc_graph e = None" "s = 1 \<or> s = 3" for s
    using encodes_default_graph [OF e] that by (auto simp: level_rules_def filter_empty_conv elim!: covers.elims)
  have k1: "graph_rule ops st i r \<longleftrightarrow> covers (ru_scope r) q \<and> specificity (ru_scope r) = 1"
    "graph_predicate_rule ops st (i, enc_predicate e) r \<longleftrightarrow> covers (ru_scope r) q \<and> specificity (ru_scope r) = 3"
    if "enc_graph e = Some i" "r \<in> set (po_rules po)" for r i
    using strs [OF that(2)] res that(1) by (cases "ru_scope r"; auto simp: graph_rule_def graph_predicate_rule_def)+
  show "(case enc_graph e of None \<Rightarrow> None | Some g \<Rightarrow> map_of (cp_graph c) g) = slot_fold None (level_rules po p q 1)"
    by (cases "enc_graph e") (simp_all add: none slots(2) level [OF k1(1)] del: filter_filter)
  show "(case enc_graph e of None \<Rightarrow> None | Some g \<Rightarrow> map_of (cp_graph_predicate c) (g, enc_predicate e)) = slot_fold None (level_rules po p q 3)"
    by (cases "enc_graph e") (simp_all add: none slots(4) level [OF k1(2)] del: filter_filter)
qed

lemma compile_clears:
  assumes ok: "ok st" and wf: "wf_policy po" "wf_quad q" and c: "compile ops st po p = Inr c" and e: "encodes ops st q e"
  shows "cleared c (enc_graph e) \<longleftrightarrow> policy_clears po p (q_graph q)"
proof (cases "enc_graph e")
  case None
  then show ?thesis using encodes_default_graph [OF e] by (simp add: cleared_def policy_clears_def compile_slots [OF c])
next
  case (Some i)
  have on: "resolves_to ops st g i \<longleftrightarrow> q_graph q = GraphNamed g" if "(g, l) \<in> set (po_graph_labels po)" for g l
    using encodes_resolves(2) [OF ok wf(2) e, of g] wf(1) that Some by (auto simp: wf_policy_def list_all_iff)
  have "cleared c (enc_graph e) \<longleftrightarrow> (\<forall>(g, l)\<in>set (po_graph_labels po). q_graph q = GraphNamed g \<longrightarrow> is_cleared_for p l)"
    using on Some by (auto simp: cleared_def compile_slots(8) [OF c])
  also have "\<dots> \<longleftrightarrow> policy_clears po p (q_graph q)"
    using encodes_default_graph [OF e] Some by (cases "q_graph q") (auto simp: policy_clears_def list_all_iff)
  finally show ?thesis .
qed

text \<open>A compiled policy decides the quads of the store it was compiled against as the policy means.\<close>

lemma compile_decides:
  assumes "ok st" "wf_policy po" "wf_quad q" "compile ops st po p = Inr c" "encodes ops st q e"
  shows "decide_quad c e mode = policy_decides po p q mode"
proof -
  have best: "map_option snd (consider_slot mode (slot_fold None (level_rules po p q 3)) (consider_slot mode (slot_fold None (level_rules po p q 2))
      (consider_slot mode (slot_fold None (level_rules po p q 1)) (consider_slot mode (slot_fold None (level_rules po p q 0)) None))))
    = first_some (map (\<lambda>s. level_effect mode (level_rules po p q s)) [3, 2, 1, 0])"
    by (subst consider_levels) (auto simp: level_rules_def)
  show ?thesis
    unfolding decide_quad_slots compile_levels [OF assms] compile_clears [OF assms] policy_decides_def policy_effect_def best [symmetric]
    by (auto simp: refusal_def compile_slots(5,6) [OF assms(4)] split: option.splits effect.splits)
qed

lemma compile_total:
  assumes "ok st" "wf_policy po"
  shows "\<exists>c. compile ops st po p = Inr c"
proof -
  have r: "\<exists>r. resolve ops st n = Inr r" if "is_str n" for n
    using lookup_total [OF assms(1), of "NamedNode n"] that by (simp add: resolve_def)
  have rule: "\<exists>c'. compile_rule ops st r c = Inr c'" if str: "list_all is_str (scope_names (ru_scope r))" for r c
  proof (cases "ru_scope r")
    case (GraphPredicate g q)
    then obtain a b where "resolve ops st g = Inr a" "resolve ops st q = Inr b" using str r by fastforce
    with GraphPredicate show ?thesis by (auto simp: compile_rule_def Let_def split: option.splits)
  qed (use str r in \<open>fastforce simp: compile_rule_def Let_def split: option.splits\<close>)+
  have rules: "\<exists>c'. compile_rules ops st rs c = Inr c'" if "\<forall>r\<in>set rs. list_all is_str (scope_names (ru_scope r))" for rs c
    using that
  proof (induction rs arbitrary: c)
    case (Cons r rs)
    obtain c1 where "compile_rule ops st r c = Inr c1" using rule [of r c] Cons.prems by auto
    with Cons.IH [of c1] Cons.prems show ?case by simp
  qed simp
  have label: "\<exists>c'. compile_label ops st p l c = Inr c'" if "is_str (fst l)" for l c
    using r [OF that] by (auto simp: compile_label_def split: option.splits)
  have labels: "\<exists>c'. compile_labels ops st p ls c = Inr c'" if "\<forall>l\<in>set ls. is_str (fst l)" for ls c
    using that
  proof (induction ls arbitrary: c)
    case (Cons l ls)
    obtain c1 where "compile_label ops st p l c = Inr c1" using label [of l c] Cons.prems by auto
    with Cons.IH [of c1] Cons.prems show ?case by simp
  qed simp
  have "\<forall>r\<in>set (filter (\<lambda>r. matches (ru_applies_to r) p) (po_rules po)). list_all is_str (scope_names (ru_scope r))"
    using assms(2) by (auto simp: wf_policy_def list_all_iff)
  from rules [OF this] obtain c1 where
    "compile_rules ops st (filter (\<lambda>r. matches (ru_applies_to r) p) (po_rules po)) (uncompiled (op_dictionary_len ops st) po p) = Inr c1" by blast
  then show ?thesis using labels [of "po_graph_labels po" c1] assms(2) by (simp add: compile_def wf_policy_def list_all_iff)
qed

end

section \<open>Staleness\<close>

text \<open>A store has grown into another: ids stay, and an unchanged dictionary length means an unchanged dictionary.\<close>

definition grown :: "'s storage_ops \<Rightarrow> 's \<Rightarrow> 's \<Rightarrow> bool" where
  "grown ops st st' \<longleftrightarrow> known_stays ops st st' \<and> op_dictionary_len ops st \<le> op_dictionary_len ops st'
    \<and> (op_dictionary_len ops st' = op_dictionary_len ops st \<longrightarrow> op_lookup ops st' = op_lookup ops st)"

lemma grown_refl [simp]: "grown ops st st"
  by (simp add: grown_def known_stays_def)

lemma grown_trans: "grown ops a b \<Longrightarrow> grown ops b c \<Longrightarrow> grown ops a c"
proof -
  assume a: "grown ops a b" and b: "grown ops b c"
  have "known_stays ops a c" using a b known_stays_trans [of ops a b c] by (simp add: grown_def)
  moreover have "op_lookup ops c = op_lookup ops a" if "op_dictionary_len ops c = op_dictionary_len ops a"
  proof -
    have "op_dictionary_len ops b = op_dictionary_len ops a" using a b that by (simp add: grown_def)
    with a b that show ?thesis by (simp add: grown_def)
  qed
  ultimately show ?thesis using a b by (simp add: grown_def)
qed

definition policy_names :: "policy \<Rightarrow> principal \<Rightarrow> string list" where
  "policy_names po p =
    concat (map (\<lambda>r. scope_names (ru_scope r)) (filter (\<lambda>r. matches (ru_applies_to r) p) (po_rules po))) @ map fst (po_graph_labels po)"

definition at_len :: "nat \<Rightarrow> compiled_policy \<Rightarrow> compiled_policy" where
  "at_len n c = c\<lparr>cp_compiled_at_dictionary_len := n\<rparr>"

lemma compile_rule_at_len: "compile_rule ops st r (at_len n c) = map_sum id (at_len n) (compile_rule ops st r c)"
  by (auto simp: compile_rule_def Let_def at_len_def split: scope.splits sum.splits option.splits)

lemma compile_rules_at_len: "compile_rules ops st rs (at_len n c) = map_sum id (at_len n) (compile_rules ops st rs c)"
  by (induction rs arbitrary: c) (auto simp: compile_rule_at_len split: sum.splits)

lemma compile_labels_at_len: "compile_labels ops st p ls (at_len n c) = map_sum id (at_len n) (compile_labels ops st p ls c)"
proof (induction ls arbitrary: c)
  case (Cons l ls)
  have "compile_label ops st p l (at_len n c) = map_sum id (at_len n) (compile_label ops st p l c)"
    by (auto simp: compile_label_def at_len_def split: sum.splits option.splits)
  with Cons show ?case by (auto split: sum.splits)
qed simp

lemma compile_rules_cong:
  "\<forall>r\<in>set rs. \<forall>n\<in>set (scope_names (ru_scope r)). resolve ops st n = resolve ops st' n \<Longrightarrow>
    compile_rules ops st rs c = compile_rules ops st' rs c"
proof (induction rs arbitrary: c)
  case (Cons r rs)
  have "compile_rule ops st r c = compile_rule ops st' r c"
    using Cons.prems by (cases "ru_scope r") (auto simp: compile_rule_def Let_def split: sum.splits option.splits)
  with Cons show ?case by (simp split: sum.splits)
qed simp

lemma compile_labels_cong:
  "\<forall>l\<in>set ls. resolve ops st (fst l) = resolve ops st' (fst l) \<Longrightarrow> compile_labels ops st p ls c = compile_labels ops st' p ls c"
  by (induction ls arbitrary: c) (simp_all add: compile_label_def split: sum.splits)

text \<open>Compilation reads the store only through the names of the policy.\<close>

lemma compile_cong:
  assumes "\<forall>n\<in>set (policy_names po p). resolve ops st n = resolve ops st' n"
  shows "compile ops st' po p = map_sum id (at_len (op_dictionary_len ops st')) (compile ops st po p)"
proof -
  let ?rs = "filter (\<lambda>r. matches (ru_applies_to r) p) (po_rules po)"
  have u: "uncompiled (op_dictionary_len ops st') po p = at_len (op_dictionary_len ops st') (uncompiled (op_dictionary_len ops st) po p)"
    by (simp add: uncompiled_def at_len_def)
  have "compile_rules ops st' ?rs c = compile_rules ops st ?rs c" for c
    by (rule compile_rules_cong [symmetric]) (use assms in \<open>auto simp: policy_names_def\<close>)
  moreover have "compile_labels ops st' p (po_graph_labels po) c = compile_labels ops st p (po_graph_labels po) c" for c
    by (rule compile_labels_cong [symmetric]) (use assms in \<open>auto simp: policy_names_def\<close>)
  ultimately show ?thesis
    unfolding compile_def u by (simp add: compile_rules_at_len compile_labels_at_len split: sum.splits)
qed

lemma compile_rule_unresolved:
  assumes "compile_rule ops st r c = Inr c'"
  shows "(cp_unresolved c' = [] \<longleftrightarrow> cp_unresolved c = [] \<and> (\<forall>n\<in>set (scope_names (ru_scope r)). \<exists>i. resolve ops st n = Inr (Some i)))
    \<and> cp_compiled_at_dictionary_len c' = cp_compiled_at_dictionary_len c"
  using assms by (auto simp: compile_rule_def Let_def split: scope.splits sum.splits option.splits)

lemma compile_rules_unresolved:
  "compile_rules ops st rs c = Inr c' \<Longrightarrow>
    (cp_unresolved c' = [] \<longleftrightarrow> cp_unresolved c = [] \<and> (\<forall>r\<in>set rs. \<forall>n\<in>set (scope_names (ru_scope r)). \<exists>i. resolve ops st n = Inr (Some i)))
    \<and> cp_compiled_at_dictionary_len c' = cp_compiled_at_dictionary_len c"
proof (induction rs arbitrary: c)
  case (Cons r rs)
  then obtain c1 where c1: "compile_rule ops st r c = Inr c1" "compile_rules ops st rs c1 = Inr c'" by (auto split: sum.splits)
  show ?case using compile_rule_unresolved [OF c1(1)] Cons.IH [OF c1(2)] by auto
qed simp

lemma compile_labels_unresolved:
  "compile_labels ops st p ls c = Inr c' \<Longrightarrow>
    (cp_unresolved c' = [] \<longleftrightarrow> cp_unresolved c = [] \<and> (\<forall>l\<in>set ls. \<exists>i. resolve ops st (fst l) = Inr (Some i)))
    \<and> cp_compiled_at_dictionary_len c' = cp_compiled_at_dictionary_len c"
  by (induction ls arbitrary: c) (auto simp: compile_label_def split: sum.splits option.splits if_splits)

lemma compile_unresolved:
  assumes "compile ops st po p = Inr c"
  shows "cp_unresolved c = [] \<longleftrightarrow> (\<forall>n\<in>set (policy_names po p). \<exists>i. resolve ops st n = Inr (Some i))"
    "cp_compiled_at_dictionary_len c = op_dictionary_len ops st"
proof -
  obtain c1 where c1: "compile_rules ops st (filter (\<lambda>r. matches (ru_applies_to r) p) (po_rules po)) (uncompiled (op_dictionary_len ops st) po p) = Inr c1"
    and cl: "compile_labels ops st p (po_graph_labels po) c1 = Inr c"
    using assms by (auto simp: compile_def split: sum.splits)
  show "cp_unresolved c = [] \<longleftrightarrow> (\<forall>n\<in>set (policy_names po p). \<exists>i. resolve ops st n = Inr (Some i))"
    "cp_compiled_at_dictionary_len c = op_dictionary_len ops st"
    using compile_rules_unresolved [OF c1] compile_labels_unresolved [OF cl] by (auto simp: uncompiled_def policy_names_def)
qed

text \<open>A compiled policy that is not stale is the one a recompilation would give.\<close>

lemma not_stale_recompiles:
  assumes "compile ops st po p = Inr c" "grown ops st st'" "\<not> is_stale ops st' c"
  shows "compile ops st' po p = Inr (at_len (op_dictionary_len ops st') c)"
proof -
  have "resolve ops st n = resolve ops st' n" if "n \<in> set (policy_names po p)" for n
    using assms(2,3) that compile_unresolved [OF assms(1)] unfolding is_stale_def grown_def known_stays_def resolve_def by metis
  then show ?thesis using compile_cong [of po p ops st st'] assms(1) by simp
qed

lemma decide_at_len [simp]: "decide_quad (at_len n c) e mode = decide_quad c e mode"
proof -
  have "cp_everything (at_len n c) = cp_everything c" "cp_graph (at_len n c) = cp_graph c" "cp_predicate (at_len n c) = cp_predicate c"
    "cp_graph_predicate (at_len n c) = cp_graph_predicate c" "cp_default_effect (at_len n c) = cp_default_effect c"
    "cleared (at_len n c) = cleared c" "refusal (at_len n c) = refusal c"
    by (auto simp: at_len_def cleared_def refusal_def fun_eq_iff split: option.splits)
  then show ?thesis by (simp only: decide_quad_slots)
qed

section \<open>Decisions on identifiers\<close>

text \<open>The rules a compiled policy holds for an encoded quad, most specific scope first.\<close>

definition rule_levels :: "'s storage_ops \<Rightarrow> 's \<Rightarrow> encoded_quad \<Rightarrow> rule list \<Rightarrow> rule list list" where
  "rule_levels ops st e rs =
    [case enc_graph e of None \<Rightarrow> [] | Some g \<Rightarrow> filter (graph_predicate_rule ops st (g, enc_predicate e)) rs,
     filter (predicate_rule ops st (enc_predicate e)) rs,
     case enc_graph e of None \<Rightarrow> [] | Some g \<Rightarrow> filter (graph_rule ops st g) rs,
     filter (\<lambda>r. ru_scope r = Everything) rs]"

lemma kind_specificity:
  "graph_rule ops st i r \<Longrightarrow> specificity (ru_scope r) = 1" "predicate_rule ops st i r \<Longrightarrow> specificity (ru_scope r) = 2"
  "graph_predicate_rule ops st k r \<Longrightarrow> specificity (ru_scope r) = 3"
  by (cases "ru_scope r"; simp add: rule_kinds)+

lemma decide_levels:
  assumes c: "compile ops st po p = Inr c"
  shows "decide_quad c e mode =
    (if cleared c (enc_graph e)
        \<and> (case first_some (map (level_effect mode) (rule_levels ops st e (filter (\<lambda>r. matches (ru_applies_to r) p) (po_rules po)))) of
             Some f \<Rightarrow> f | None \<Rightarrow> po_default_effect po) = Allow
     then AllowIt else refusal c)"
proof -
  let ?rs = "filter (\<lambda>r. matches (ru_applies_to r) p) (po_rules po)"
  let ?g = "case enc_graph e of None \<Rightarrow> [] | Some g \<Rightarrow> filter (graph_rule ops st g) ?rs"
  let ?gp = "case enc_graph e of None \<Rightarrow> [] | Some g \<Rightarrow> filter (graph_predicate_rule ops st (g, enc_predicate e)) ?rs"
  let ?p = "filter (predicate_rule ops st (enc_predicate e)) ?rs" and ?e = "filter (\<lambda>r. ru_scope r = Everything) ?rs"
  have g: "(case enc_graph e of None \<Rightarrow> None | Some g \<Rightarrow> map_of (cp_graph c) g) = slot_fold None ?g"
    by (cases "enc_graph e") (simp_all add: compile_slots(2) [OF c])
  have gp: "(case enc_graph e of None \<Rightarrow> None | Some g \<Rightarrow> map_of (cp_graph_predicate c) (g, enc_predicate e)) = slot_fold None ?gp"
    by (cases "enc_graph e") (simp_all add: compile_slots(4) [OF c])
  have best: "map_option snd (consider_slot mode (slot_fold None ?gp) (consider_slot mode (slot_fold None ?p)
      (consider_slot mode (slot_fold None ?g) (consider_slot mode (slot_fold None ?e) None)))) = first_some (map (level_effect mode) [?gp, ?p, ?g, ?e])"
    by (rule consider_levels) (auto simp: kind_specificity split: option.splits)
  show ?thesis
    unfolding decide_quad_slots g gp compile_slots(1,3) [OF c] rule_levels_def best [symmetric]
    by (auto simp: compile_slots(5) [OF c] split: option.splits effect.splits)
qed

lemma bit_union_modes: "bit (union_modes rs) n \<longleftrightarrow> (\<exists>r\<in>set rs. bit (ru_modes r) n)"
  by (induction rs rule: rev_induct) (auto simp: modes_union_def bit_or_iff)

lemma set_remaining: "set (remaining rs) = {r \<in> set rs. list_ex (\<lambda>r. ru_effect r = Deny) rs \<longrightarrow> ru_effect r = Deny}"
  by (simp add: remaining_def)

lemma level_effect_cong: "set rs = set rs' \<Longrightarrow> level_effect mode rs = level_effect mode rs'"
proof -
  assume eq: "set rs = set rs'"
  then have ex: "list_ex (\<lambda>r. ru_effect r = Deny) rs = list_ex (\<lambda>r. ru_effect r = Deny) rs'" by (simp add: list_ex_iff)
  have "union_modes (remaining rs) = union_modes (remaining rs')"
    by (rule bit_eqI) (simp add: bit_union_modes set_remaining eq ex)
  moreover have "rs = [] \<longleftrightarrow> rs' = []" using eq by (metis set_empty)
  ultimately show ?thesis by (auto simp: level_effect_def remaining_effect ex)
qed

lemma contains_union:
  assumes "rs \<noteq> []" "\<forall>r\<in>set rs. modes_contains (ru_modes r) mode"
  shows "modes_contains (union_modes (remaining rs)) mode"
proof -
  have "bit (union_modes (remaining rs)) n" if "bit mode n" for n
  proof -
    obtain r where r: "r \<in> set (remaining rs)" using assms(1) by (metis remaining_Nil list.set_sel(1))
    then have "ru_modes r AND mode = mode" using assms(2) by (auto simp: set_remaining modes_contains_def)
    then show ?thesis using that r unfolding bit_union_modes by (metis bit_and_iff)
  qed
  then show ?thesis unfolding modes_contains_def by (intro bit_eqI) (auto simp: bit_and_iff)
qed

lemma wholly_denied_unreadable:
  assumes c: "compile ops st po p = Inr c" and modes: "\<forall>r\<in>set (po_rules po). modes_contains (ru_modes r) mode"
    and denied: "graph_is_wholly_denied c (Some g)" and e: "enc_graph e = Some g"
  shows "\<not> permits_quad c e mode"
proof (cases "cleared c (Some g)")
  case True
  define rs where "rs = filter (\<lambda>r. matches (ru_applies_to r) p) (po_rules po)"
  note slots = compile_slots [OF c, folded rs_def]
  have all: "level_effect mode ss = (if ss = [] then None else Some (ru_effect (hd (remaining ss))))" if "set ss \<subseteq> set rs" for ss
    using contains_union [of ss mode] modes that by (auto simp: level_effect_def rs_def)
  have finer: "list_all (\<lambda>(_, e, _). e = Deny) (map snd (cp_predicate c))" "list_all (\<lambda>(_, e, _). e = Deny) (map snd (cp_graph_predicate c))"
    and at: "map_option (\<lambda>(_, e, _). e) (map_of (cp_graph c) g) = Some Deny"
    using denied True by (auto simp: graph_is_wholly_denied_def)
  have deny: "f = Deny" if "map_of m k = Some (s, f, n)" "list_all (\<lambda>(_, e, _). e = Deny) (map snd m)"
    for m :: "('k \<times> slot) list" and k s f n
    using map_of_SomeD [OF that(1)] that(2) by (force simp: list_all_iff)
  have gr: "level_effect mode (filter (graph_rule ops st g) rs) = Some Deny"
  proof -
    have "\<forall>r\<in>set (filter (graph_rule ops st g) rs). specificity (ru_scope r) = 1" by (auto intro: kind_specificity)
    from slot_fold_level [OF this] show ?thesis using at by (auto simp: slots(2) all split: if_splits)
  qed
  have pr: "level_effect mode (filter (predicate_rule ops st i) rs) \<in> {None, Some Deny}" for i
  proof -
    have "\<forall>r\<in>set (filter (predicate_rule ops st i) rs). specificity (ru_scope r) = 2" by (auto intro: kind_specificity)
    from slot_fold_level [OF this] show ?thesis using deny [OF _ finer(1), of i] by (auto simp: slots(3) all)
  qed
  have gp: "level_effect mode (filter (graph_predicate_rule ops st k) rs) \<in> {None, Some Deny}" for k
  proof -
    have "\<forall>r\<in>set (filter (graph_predicate_rule ops st k) rs). specificity (ru_scope r) = 3" by (auto intro: kind_specificity)
    from slot_fold_level [OF this] show ?thesis using deny [OF _ finer(2), of k] by (auto simp: slots(4) all)
  qed
  have "first_some (map (level_effect mode) (rule_levels ops st e rs)) = Some Deny"
    using gr pr [of "enc_predicate e"] gp [of "(g, enc_predicate e)"] e by (auto simp: rule_levels_def)
  then show ?thesis
    by (auto simp: permits_quad_def decide_levels [OF c] rs_def [symmetric] refusal_def split: semantics.splits)
qed (use e in \<open>auto simp: permits_quad_def decide_quad_def refusal_def split: semantics.splits\<close>)

lemma compile_rules_distinct:
  assumes "compile_rules ops st rs c = Inr c'" "distinct (map fst (cp_predicate c))" "distinct (map fst (cp_graph_predicate c))"
  shows "distinct (map fst (cp_predicate c')) \<and> distinct (map fst (cp_graph_predicate c'))"
  using assms
proof (induction rs arbitrary: c)
  case (Cons r rs)
  then obtain c1 where c1: "compile_rule ops st r c = Inr c1" "compile_rules ops st rs c1 = Inr c'" by (auto split: sum.splits)
  have "distinct (map fst (cp_predicate c1)) \<and> distinct (map fst (cp_graph_predicate c1))"
    using c1(1) Cons.prems(2,3)
    by (auto simp: compile_rule_def merge_map_def Let_def distinct_update split: scope.splits sum.splits option.splits)
  with Cons.IH [OF c1(2)] show ?case by blast
qed simp

lemma compile_distinct:
  assumes "compile ops st po p = Inr c"
  shows "distinct (map fst (cp_predicate c))" "distinct (map fst (cp_graph_predicate c))"
proof -
  obtain c1 where c1: "compile_rules ops st (filter (\<lambda>r. matches (ru_applies_to r) p) (po_rules po)) (uncompiled (op_dictionary_len ops st) po p) = Inr c1"
    and cl: "compile_labels ops st p (po_graph_labels po) c1 = Inr c"
    using assms by (auto simp: compile_def split: sum.splits)
  show "distinct (map fst (cp_predicate c))" "distinct (map fst (cp_graph_predicate c))"
    using compile_rules_distinct [OF c1] by (simp_all add: compile_labels_slots [OF cl] uncompiled_def)
qed

lemma slot_fold_deny:
  assumes "slot_fold None rs = Some (s, e, m)"
  shows "e = Deny \<longleftrightarrow> (\<exists>r\<in>set rs. ru_effect r = Deny)"
proof -
  have "case slot_fold None rs of None \<Rightarrow> rs = [] | Some (s, e, m) \<Rightarrow> e = Deny \<longleftrightarrow> (\<exists>r\<in>set rs. ru_effect r = Deny)"
  proof (induction rs rule: rev_induct)
    case (snoc r rs)
    then show ?case
      by (cases "slot_fold None rs"; cases "ru_effect r") (auto simp: merge_slot_def entry_def elim!: resolve_conflict.elims split: prod.splits)
  qed simp
  with assms show ?thesis by simp
qed

text \<open>
  One rule denying a graph to the principal, in whatever modes, is enough for the graph to be reported as
  wholly denied, unless a rule about predicates allows something.
\<close>

lemma denied_in_any_mode:
  assumes c: "compile ops st po p = Inr c" and r: "r \<in> set (po_rules po)" "matches (ru_applies_to r) p" "ru_effect r = Deny"
    and i: "ru_scope r = Graph g" "op_lookup ops st (NamedNode g) = Inr (Some i)"
    and coarse: "\<forall>r\<in>set (po_rules po). matches (ru_applies_to r) p \<and> ru_effect r = Allow \<longrightarrow> ru_scope r = Everything \<or> (\<exists>g. ru_scope r = Graph g)"
  shows "graph_is_wholly_denied c (Some i)"
proof -
  define rs where "rs = filter (\<lambda>r. matches (ru_applies_to r) p) (po_rules po)"
  note slots = compile_slots [OF c, folded rs_def]
  have deny: "e = Deny" if "slot_fold None (filter Q rs) = Some (s, e, m)" "\<And>r. Q r \<Longrightarrow> specificity (ru_scope r) \<ge> 2" for Q s e m
  proof -
    have ne: "filter Q rs \<noteq> []" using that(1) by auto
    then obtain r' where r': "r' \<in> set rs" "Q r'" by (metis filter_empty_conv)
    then have "ru_effect r' = Deny"
      using bspec [OF coarse, of r'] that(2) [OF r'(2)] r'(1) by (cases "ru_effect r'") (auto simp: rs_def word_le_nat_alt)
    then show ?thesis using slot_fold_deny [OF that(1)] r' by auto
  qed
  have "graph_rule ops st i r" using i by (simp add: rule_kinds resolve_def)
  then have "r \<in> set (filter (graph_rule ops st i) rs)" using r by (simp add: rs_def)
  moreover from this have "filter (graph_rule ops st i) rs \<noteq> []" by (metis empty_iff list.set(1))
  moreover have "\<forall>r\<in>set (filter (graph_rule ops st i) rs). specificity (ru_scope r) = 1" by (auto intro: kind_specificity)
  note slot_fold_level [OF this]
  ultimately have "map_option (\<lambda>(_, e, _). e) (map_of (cp_graph c) i) = Some Deny"
    using slot_fold_deny [of "filter (graph_rule ops st i) rs"] r(3) by (auto simp: slots(2))
  moreover have "e = Deny" if "(k, s, e, m) \<in> set (cp_predicate c)" for k s e m
    using map_of_is_SomeI [OF compile_distinct(1) [OF c] that] unfolding slots(3)
    by (rule deny) (simp add: kind_specificity(2) word_le_nat_alt)
  moreover have "e = Deny" if "(k, s, e, m) \<in> set (cp_graph_predicate c)" for k s e m
    using map_of_is_SomeI [OF compile_distinct(2) [OF c] that] unfolding slots(4)
    by (rule deny) (simp add: kind_specificity(3) word_le_nat_alt)
  ultimately show ?thesis by (auto simp: graph_is_wholly_denied_def list_all_iff)
qed

section \<open>Properties\<close>

text \<open>
  The order of the rules does not matter, nor does repeating one: two policies that differ only in
  the arrangement of their rules compile to decisions that agree on every encoded quad in every mode.
\<close>

lemma rule_order_irrelevant:
  assumes "compile ops st po p = Inr c" "compile ops st (po\<lparr>po_rules := rs\<rparr>) p = Inr c'" "set rs = set (po_rules po)"
  shows "decide_quad c' e mode = decide_quad c e mode"
proof -
  let ?f = "filter (\<lambda>r. matches (ru_applies_to r) p)"
  have "map (level_effect mode) (rule_levels ops st e (?f rs)) = map (level_effect mode) (rule_levels ops st e (?f (po_rules po)))"
    using assms(3) by (auto simp: rule_levels_def split: option.splits intro!: level_effect_cong)
  moreover have "cleared c' = cleared c" "refusal c' = refusal c"
    by (auto simp: fun_eq_iff cleared_def refusal_def compile_slots [OF assms(1)] compile_slots [OF assms(2)] split: option.splits)
  ultimately show ?thesis by (simp add: decide_levels [OF assms(1)] decide_levels [OF assms(2)] cong: option.case_cong)
qed

text \<open>
  C32. Clearance is not overridable: a quad in a graph carrying a label the principal is not cleared for
  is refused in every mode and the graph is reported as wholly denied, whatever the rules and the default say.
\<close>

theorem clearance_not_overridable:
  assumes "compile ops st po p = Inr c" "(g, l) \<in> set (po_graph_labels po)" "\<not> is_cleared_for p l"
    and "op_lookup ops st (NamedNode g) = Inr (Some i)" "enc_graph e = Some i"
  shows "\<not> permits_quad c e mode \<and> graph_is_wholly_denied c (Some i)"
proof -
  have "i \<in> set (cp_forbidden_graphs c)"
    using assms(2-4) by (auto simp: compile_slots(8) [OF assms(1)] resolves_to_def resolve_def)
  then have "\<not> cleared c (Some i)" by (simp add: cleared_def)
  then show ?thesis
    using assms(5) by (simp add: permits_quad_def decide_quad_def graph_is_wholly_denied_def refusal_def split: semantics.splits)
qed

text \<open>
  C33. Skipping a graph as wholly denied is sound for a mode that every rule governs: none of its quads is
  permitted in that mode.
\<close>

theorem wholly_denied_sound:
  assumes "compile ops st po p = Inr c" "\<forall>r\<in>set (po_rules po). modes_contains (ru_modes r) mode"
    and "graph_is_wholly_denied c (Some g)" "enc_graph e = Some g"
  shows "\<not> permits_quad c e mode"
  using assms by (rule wholly_denied_unreadable)

text \<open>A store that knows two graph names, and policies about them.\<close>

definition two_graphs :: memory_storage where
  "two_graphs = foldl (\<lambda>st g. fst (mem_encode demo_lib (NamedNode g) st)) store_new [''urn:g'', ''urn:k'']"

definition guarded :: policy where
  "guarded = default_policy\<lparr>po_rules := [allow READ Everything Everyone, deny WRITE (Graph ''urn:k'') Everyone],
    po_graph_labels := [(''urn:g'', level 1)]\<rparr>"

definition closed_graph :: policy where
  "closed_graph = default_policy\<lparr>po_rules := [allow ALL_MODES Everything Everyone, deny ALL_MODES (Graph ''urn:k'') Everyone]\<rparr>"

lemma encode_iri_urn: "encode_iri (CHR ''u'' # s) = None"
proof (rule ccontr)
  assume "encode_iri (CHR ''u'' # s) \<noteq> None"
  then obtain w where "vocab_lookup (CHR ''u'' # s) = Some w" by (auto simp: encode_iri_def)
  then have "CHR ''u'' # s \<in> set VOCAB" using vocab_lookup_Some by (metis nth_mem)
  then show False
    using group_ns [of "CHR ''u'' # s"] by (auto simp: VOCAB_def in_ns_def ns_defs)
qed

lemma two_graphs_ids:
  "mem_lookup demo_lib two_graphs (NamedNode ''urn:g'') = Inr (Some (TermId 0))
    \<and> mem_lookup demo_lib two_graphs (NamedNode ''urn:k'') = Inr (Some (TermId 1))"
proof -
  have "new_id TagIri 0 = Inr (TermId 0)" "new_id TagIri 1 = Inr (TermId 1)" by code_simp+
  then show ?thesis
    by (simp add: two_graphs_def mem_lookup_def mem_encode_def encode_named_node_def lookup_simps encode_iri_urn store_new_def
        new_memory_def new_dictionary_def)
qed

lemma two_graphs_resolve:
  "resolve (memory_ops demo_lib) two_graphs ''urn:g'' = Inr (Some (TermId 0))"
  "resolve (memory_ops demo_lib) two_graphs ''urn:k'' = Inr (Some (TermId 1))"
  using two_graphs_ids by (simp_all add: resolve_def memory_ops_def)

lemma compile_guarded:
  "\<exists>n. compile (memory_ops demo_lib) two_graphs guarded anonymous = Inr (at_len n
    \<lparr>cp_default_effect = Deny, cp_semantics = Filter, cp_everything = Some (0, Allow, READ), cp_graph = [(TermId 1, 1, Deny, WRITE)],
     cp_predicate = [], cp_graph_predicate = [], cp_forbidden_graphs = [TermId 0], cp_default_graph_forbidden = False,
     cp_compiled_at_dictionary_len = n, cp_unresolved = []\<rparr>)"
  by (simp add: compile_def guarded_def default_policy_def allow_def deny_def compile_rule_def compile_label_def two_graphs_resolve
      uncompiled_def merge_slot_def merge_map_def at_len_def is_cleared_for_def anonymous_def new_principal_def level_def default_label_def)

theorem clearance_not_overridable_witness:
  "\<exists>c. compile (memory_ops demo_lib) two_graphs guarded anonymous = Inr c \<and> \<not> permits_quad c (mk_quad (TermId 0) (TermId 1) (TermId 1) (Some (TermId 0))) READ"
proof -
  obtain c where c: "compile (memory_ops demo_lib) two_graphs guarded anonymous = Inr c" using compile_guarded by blast
  have "(''urn:g'', level 1) \<in> set (po_graph_labels guarded)" by (simp add: guarded_def)
  moreover have "\<not> is_cleared_for anonymous (level 1)" by code_simp
  moreover have "op_lookup (memory_ops demo_lib) two_graphs (NamedNode ''urn:g'') = Inr (Some (TermId 0))"
    using two_graphs_resolve(1) by (simp add: resolve_def)
  moreover have "enc_graph (mk_quad (TermId 0) (TermId 1) (TermId 1) (Some (TermId 0))) = Some (TermId 0)" by (simp add: mk_quad_def)
  ultimately have "\<not> permits_quad c (mk_quad (TermId 0) (TermId 1) (TermId 1) (Some (TermId 0))) READ"
    using clearance_not_overridable [OF c] by blast
  with c show ?thesis by blast
qed

lemma compile_closed_graph:
  "\<exists>n. compile (memory_ops demo_lib) two_graphs closed_graph anonymous = Inr (at_len n
    \<lparr>cp_default_effect = Deny, cp_semantics = Filter, cp_everything = Some (0, Allow, ALL_MODES), cp_graph = [(TermId 1, 1, Deny, ALL_MODES)],
     cp_predicate = [], cp_graph_predicate = [], cp_forbidden_graphs = [], cp_default_graph_forbidden = False,
     cp_compiled_at_dictionary_len = n, cp_unresolved = []\<rparr>)"
  by (simp add: compile_def closed_graph_def default_policy_def allow_def deny_def compile_rule_def two_graphs_resolve
      uncompiled_def merge_slot_def merge_map_def at_len_def is_cleared_for_def anonymous_def new_principal_def default_label_def)

theorem wholly_denied_sound_witness:
  "\<exists>c. compile (memory_ops demo_lib) two_graphs closed_graph anonymous = Inr c
    \<and> \<not> permits_quad c (mk_quad (TermId 0) (TermId 0) (TermId 0) (Some (TermId 1))) READ"
proof -
  obtain c where c: "compile (memory_ops demo_lib) two_graphs closed_graph anonymous = Inr c"
    and d: "graph_is_wholly_denied c (Some (TermId 1))"
    using compile_closed_graph by (auto simp: graph_is_wholly_denied_def at_len_def)
  have "\<forall>r\<in>set (po_rules closed_graph). modes_contains (ru_modes r) READ" by code_simp
  moreover have "enc_graph (mk_quad (TermId 0) (TermId 0) (TermId 0) (Some (TermId 1))) = Some (TermId 1)" by (simp add: mk_quad_def)
  ultimately show ?thesis using wholly_denied_sound [OF c _ d] c by blast
qed

end
