(* ===== verification/Access_Session.thy ===== *)
theory Access_Session
  imports Policy
begin

text \<open>
  Sessions over a store that is written to, and what compiled policies guarantee. The locale
  \<open>growing_storage\<close> adds to the storage contract that interning only grows the dictionary and that an
  unchanged length is an unchanged dictionary: the fact the staleness test of the session rests on. The
  in-memory tier interprets it.
\<close>

section \<open>Storage that only grows\<close>

text \<open>The compiled policy of a session was compiled against an earlier state of the store.\<close>

definition session_valid :: "'s storage_ops \<Rightarrow> 's \<Rightarrow> session \<Rightarrow> bool" where
  "session_valid ops st se \<longleftrightarrow> wf_policy (se_policy se)
    \<and> (\<exists>s0. compile ops s0 (se_policy se) (se_principal se) = Inr (se_compiled se) \<and> grown ops s0 st)"

locale growing_storage = storage ops ok view
  for ops :: "'s storage_ops" and ok :: "'s \<Rightarrow> bool" and view :: "'s \<Rightarrow> dataset" +
  assumes encode_grows: "ok st \<Longrightarrow> wf_term t \<Longrightarrow> op_dictionary_len ops st + term_cost t \<le> 2 ^ 60 \<Longrightarrow>
    op_dictionary_len ops st \<le> op_dictionary_len ops (fst (op_encode ops t st))
    \<and> (op_dictionary_len ops (fst (op_encode ops t st)) = op_dictionary_len ops st
        \<longrightarrow> op_lookup ops (fst (op_encode ops t st)) = op_lookup ops st)"
begin

lemma encode_grown:
  assumes "ok st" "wf_term t" "op_dictionary_len ops st + term_cost t \<le> 2 ^ 60"
  obtains i st' where "op_encode ops t st = (st', Inr i)" "ok st'" "grown ops st st'"
    "op_dictionary_len ops st' \<le> op_dictionary_len ops st + term_cost t"
proof (rule encode_term [OF assms])
  fix i st'
  assume e: "op_encode ops t st = (st', Inr i)" and "ok st'" "known_stays ops st st'"
    "op_dictionary_len ops st' \<le> op_dictionary_len ops st + term_cost t"
  then show thesis using encode_grows [OF assms] that [of st' i] by (simp add: grown_def)
qed

lemma step_grown: "ok st \<Longrightarrow> grown ops st (fst (op_step ops w st))"
  using step_dictionary [of st w] by (simp add: grown_def known_stays_def fun_eq_iff)

lemma encode_quad_grown:
  assumes ok: "ok st" and wf: "wf_quad q" and room: "op_dictionary_len ops st + quad_cost q \<le> 2 ^ 60"
  shows "grown ops st (fst (encode_quad ops q st))"
proof -
  obtain s s1 where 1: "op_encode ops (node_term (q_subject q)) st = (s1, Inr s)" "ok s1" "grown ops st s1"
    "op_dictionary_len ops s1 \<le> op_dictionary_len ops st + 1"
    by (rule encode_grown [OF ok, of "node_term (q_subject q)"]) (use wf room in \<open>simp_all add: wf_quad_def quad_cost_def\<close>)
  obtain p s2 where 2: "op_encode ops (NamedNode (q_predicate q)) s1 = (s2, Inr p)" "ok s2" "grown ops s1 s2"
    "op_dictionary_len ops s2 \<le> op_dictionary_len ops s1 + 1"
    by (rule encode_grown [OF 1(2), of "NamedNode (q_predicate q)"]) (use wf room 1(4) in \<open>simp_all add: wf_quad_def quad_cost_def\<close>)
  obtain x s3 where 3: "op_encode ops (q_object q) s2 = (s3, Inr x)" "ok s3" "grown ops s2 s3"
    "op_dictionary_len ops s3 \<le> op_dictionary_len ops s2 + term_cost (q_object q)"
    by (rule encode_grown [OF 2(2), of "q_object q"]) (use wf room 1(4) 2(4) in \<open>simp_all add: wf_quad_def quad_cost_def\<close>)
  have st3: "grown ops st s3" by (rule grown_trans [OF grown_trans [OF 1(3) 2(3)] 3(3)])
  show ?thesis
  proof (cases "graph_term (q_graph q)")
    case None
    with 1 2 3 st3 show ?thesis by (simp add: encode_quad_def)
  next
    case (Some g)
    obtain i s4 where 4: "op_encode ops g s3 = (s4, Inr i)" "grown ops s3 s4"
      by (rule encode_grown [OF 3(2), of g])
         (use wf room 1(4) 2(4) 3(4) graph_term_wf [OF Some] in \<open>simp_all add: wf_quad_def quad_cost_def\<close>)
    with 1 2 3 Some grown_trans [OF st3 4(2)] show ?thesis by (simp add: encode_quad_def)
  qed
qed

lemma rdf_step_grown:
  assumes ok: "ok st" and wf: "wf_write w" and room: "op_dictionary_len ops st + write_cost w \<le> 2 ^ 60"
  shows "grown ops st (fst (rdf_step ops w st))"
proof (cases w)
  case (PutQuad q)
  have q: "wf_quad q" "op_dictionary_len ops st + quad_cost q \<le> 2 ^ 60" using wf room PutQuad by auto
  obtain e s1 where 1: "encode_quad ops q st = (s1, Inr e)" "ok s1" by (rule encode_quad_spec [OF ok q])
  have "grown ops st s1" using encode_quad_grown [OF ok q] 1(1) by simp
  moreover have "grown ops s1 (fst (op_insert_encoded ops e s1))" using step_grown [OF 1(2), of "InsertQuad e"] by simp
  ultimately show ?thesis using PutQuad 1(1) grown_trans by (simp add: store_insert_def)
next
  case (DeleteQuad q)
  then show ?thesis using step_grown [OF ok, of "RemoveQuad e" for e] by (auto simp: store_remove_def split: sum.splits option.splits)
next
  case (NewGraph g)
  show ?thesis
  proof (cases "graph_term g")
    case (Some t)
    obtain i s1 where 1: "op_encode ops t st = (s1, Inr i)" "ok s1" "grown ops st s1"
      by (rule encode_grown [OF ok, of t]) (use wf room NewGraph graph_term_wf [OF Some] in simp_all)
    have "grown ops s1 (fst (op_insert_named_graph ops i s1))" using step_grown [OF 1(2), of "CreateGraph i"] by simp
    with 1 Some NewGraph grown_trans show ?thesis by (simp add: store_insert_named_graph_def)
  qed (use NewGraph in \<open>simp add: store_insert_named_graph_def\<close>)
next
  case (EraseGraph g)
  then show ?thesis using step_grown [OF ok, of "DropGraph i" for i]
    by (auto simp: store_remove_named_graph_def split: sum.splits option.splits)
qed

lemma rdf_run_grown:
  "ok st \<Longrightarrow> decodable ops view st \<Longrightarrow> \<forall>w\<in>set ws. wf_write w
    \<Longrightarrow> op_dictionary_len ops st + sum_list (map write_cost ws) \<le> 2 ^ 60
    \<Longrightarrow> grown ops st (fst (rdf_run ops ws st))
      \<and> op_dictionary_len ops (fst (rdf_run ops ws st)) \<le> op_dictionary_len ops st + sum_list (map write_cost ws)"
proof (induction ws arbitrary: st)
  case (Cons w ws)
  let ?s = "fst (rdf_step ops w st)"
  have wf: "wf_write w" and room: "op_dictionary_len ops st + write_cost w \<le> 2 ^ 60" using Cons.prems by auto
  note step = rdf_step_refines [OF Cons.prems(1,2) wf room]
  have "grown ops st ?s" by (rule rdf_step_grown [OF Cons.prems(1) wf room])
  with grown_trans [of ops st ?s] step Cons.IH [of ?s] Cons.prems show ?case by (simp add: case_prod_beta)
qed simp

section \<open>Sessions\<close>

lemma open_valid:
  assumes "ok st" "wf_policy po"
  obtains se where "session_open ops st p po = Inr se" "session_valid ops st se" "se_policy se = po" "se_principal se = p"
proof -
  obtain c where c: "compile ops st po p = Inr c" using compile_total [OF assms] by blast
  let ?se = "\<lparr>se_principal = p, se_policy = po, se_compiled = c\<rparr>"
  have "session_valid ops st ?se" using c assms(2) grown_refl [of ops st] by (auto simp: session_valid_def)
  then show thesis using c by (intro that [of ?se]) (simp_all add: session_open_def)
qed

lemma valid_mono: "session_valid ops st se \<Longrightarrow> grown ops st st' \<Longrightarrow> session_valid ops st' se"
  unfolding session_valid_def using grown_trans [of ops _ st st'] by blast

text \<open>A valid session hands out a policy that decides as the policy means now, and stays valid.\<close>

lemma session_policy_exact:
  assumes ok: "ok st" and valid: "session_valid ops st se"
  obtains se' c where "session_policy ops st se = (se', Inr c)" "session_valid ops st se'"
    "se_policy se' = se_policy se" "se_principal se' = se_principal se"
    "\<And>q e mode. wf_quad q \<Longrightarrow> encodes ops st q e \<Longrightarrow> decide_quad c e mode = policy_decides (se_policy se) (se_principal se) q mode"
proof -
  have wf: "wf_policy (se_policy se)" using valid by (simp add: session_valid_def)
  obtain s0 where s0: "compile ops s0 (se_policy se) (se_principal se) = Inr (se_compiled se)" "grown ops s0 st"
    using valid by (auto simp: session_valid_def)
  show thesis
  proof (cases "is_stale ops st (se_compiled se)")
    case True
    obtain c where c: "compile ops st (se_policy se) (se_principal se) = Inr c" using compile_total [OF ok wf] by blast
    show thesis
    proof (rule that)
      show "session_policy ops st se = (se\<lparr>se_compiled := c\<rparr>, Inr c)" using True c by (simp add: session_policy_def)
      show "session_valid ops st (se\<lparr>se_compiled := c\<rparr>)" using c wf grown_refl [of ops st] by (auto simp: session_valid_def)
      show "decide_quad c e mode = policy_decides (se_policy se) (se_principal se) q mode" if "wf_quad q" "encodes ops st q e" for q e mode
        by (rule compile_decides [OF ok wf that(1) c that(2)])
    qed simp_all
  next
    case False
    note c = not_stale_recompiles [OF s0 False]
    show thesis
    proof (rule that)
      show "session_policy ops st se = (se, Inr (se_compiled se))" using False by (simp add: session_policy_def)
      show "decide_quad (se_compiled se) e mode = policy_decides (se_policy se) (se_principal se) q mode"
        if "wf_quad q" "encodes ops st q e" for q e mode
        using compile_decides [OF ok wf that(1) c that(2), of mode] by simp
    qed (simp_all add: valid)
  qed
qed

end

section \<open>The in-memory tier\<close>

lemma dense_length_le:
  assumes m: "dense xs m" and n: "dense ys n" and le: "m \<subseteq>\<^sub>m n"
  shows "length xs \<le> length ys" "length xs = length ys \<Longrightarrow> m = n"
proof -
  have at: "k < length ys \<and> ys ! k = xs ! k" if k: "k < length xs" for k
  proof -
    have u: "unat (word_of_nat k :: u64) = k" using m k by (simp add: dense_def unat_of_nat)
    then have "m (xs ! k) = Some (word_of_nat k)" using m k by (simp add: dense_def)
    then have "n (xs ! k) = Some (word_of_nat k)" using le by (auto simp: map_le_def dom_def)
    then show ?thesis using n u by (simp add: dense_def)
  qed
  show "length xs \<le> length ys"
  proof (rule ccontr)
    assume "\<not> length xs \<le> length ys"
    then show False using at [of "length ys"] by simp
  qed
  show "m = n" if "length xs = length ys"
  proof -
    have "xs = ys" using at that by (auto intro: nth_equalityI)
    then have "m x = Some i \<longleftrightarrow> n x = Some i" for x i using m n by (simp add: dense_def)
    then show ?thesis by (metis ext not_None_eq)
  qed
qed

lemma extends_len:
  assumes d: "dict_ok X d" "dict_ok X d'" "extends d d'"
  shows "dict_len d \<le> dict_len d'" "dict_len d' = dict_len d \<Longrightarrow> dict_lookup X d' = dict_lookup X d"
proof -
  note le = dense_length_le [of "iris d" "iri_index d" "iris d'" "iri_index d'"]
    dense_length_le [of "blank_nodes d" "blank_node_index d" "blank_nodes d'" "blank_node_index d'"]
    dense_length_le [of "literals d" "literal_index d" "literals d'" "literal_index d'"]
    dense_length_le [of "triple_terms d" "triple_term_index d" "triple_terms d'" "triple_term_index d'"]
  have len: "length (iris d) \<le> length (iris d')" "length (blank_nodes d) \<le> length (blank_nodes d')"
    "length (literals d) \<le> length (literals d')" "length (triple_terms d) \<le> length (triple_terms d')"
    using le(1,3,5,7) d by (simp_all add: dict_ok_def extends_def)
  then show "dict_len d \<le> dict_len d'" by (simp add: dict_len_def)
  assume "dict_len d' = dict_len d"
  then have "length (iris d) = length (iris d')" "length (blank_nodes d) = length (blank_nodes d')"
    "length (literals d) = length (literals d')" "length (triple_terms d) = length (triple_terms d')"
    using len by (simp_all add: dict_len_def)
  then have eq: "iri_index d' = iri_index d" "blank_node_index d' = blank_node_index d" "literal_index d' = literal_index d"
    "triple_term_index d' = triple_term_index d"
    using le(2,4,6,8) d by (simp_all add: dict_ok_def extends_def)
  have node: "lookup_node d' = lookup_node d" by (simp add: fun_eq_iff lookup_node_def eq split: node.splits)
  have "dict_lookup X d' t = dict_lookup X d t" for t
  proof (induction t)
    case (Triple a p x)
    show ?case unfolding dict_lookup.simps node eq Triple.IH by (rule refl)
  qed (simp_all add: node eq)
  then show "dict_lookup X d' = dict_lookup X d" by (simp add: fun_eq_iff)
qed

interpretation mgrow: growing_storage "memory_ops X" "mem_store_ok X" mem_view for X
proof
  fix st t assume ok: "mem_store_ok X st" and t: "wf_term t" "op_dictionary_len (memory_ops X) st + term_cost t \<le> 2 ^ 60"
  obtain i d where d: "dict_encode X t (ms_dictionary st) = (d, Inr i)" "interned X (term_cost t) (ms_dictionary st) d"
    using dict_encode_spec [where X = X and t = t and d = "ms_dictionary st"] ok t
    by (auto simp: mem_store_ok_def memory_ops_def mem_dictionary_len_def)
  have le: "dict_len (ms_dictionary st) \<le> dict_len d" "dict_len d = dict_len (ms_dictionary st) \<Longrightarrow> dict_lookup X d = dict_lookup X (ms_dictionary st)"
    using extends_len [of X "ms_dictionary st" d] d(2) ok by (simp_all add: interned_def mem_store_ok_def)
  then show "op_dictionary_len (memory_ops X) st \<le> op_dictionary_len (memory_ops X) (fst (op_encode (memory_ops X) t st))
    \<and> (op_dictionary_len (memory_ops X) (fst (op_encode (memory_ops X) t st)) = op_dictionary_len (memory_ops X) st
        \<longrightarrow> op_lookup (memory_ops X) (fst (op_encode (memory_ops X) t st)) = op_lookup (memory_ops X) st)"
    using d(1) by (simp add: memory_ops_def mem_encode_def mem_dictionary_len_def mem_lookup_def fun_eq_iff)
qed

section \<open>Enforcement across writes\<close>

text \<open>A session in use: batches of writes, the session asked for its policy after each.\<close>

fun serve :: "'s storage_ops \<Rightarrow> rdf_write list list \<Rightarrow> 's \<Rightarrow> session \<Rightarrow> 's \<times> session \<times> compiled_policy res" where
  "serve ops [] st se = (st, session_policy ops st se)"
| "serve ops (ws # batches) st se =
    (let st = fst (rdf_run ops ws st) in serve ops batches st (fst (session_policy ops st se)))"

context growing_storage
begin

lemma serve_exact:
  "ok st \<Longrightarrow> decodable ops view st \<Longrightarrow> session_valid ops st se \<Longrightarrow> \<forall>ws\<in>set batches. \<forall>w\<in>set ws. wf_write w
    \<Longrightarrow> op_dictionary_len ops st + sum_list (map write_cost (concat batches)) \<le> 2 ^ 60
    \<Longrightarrow> \<exists>st' se' c. serve ops batches st se = (st', se', Inr c)
      \<and> (\<forall>q e mode. wf_quad q \<longrightarrow> encodes ops st' q e \<longrightarrow> decide_quad c e mode = policy_decides (se_policy se) (se_principal se) q mode)"
proof (induction batches arbitrary: st se)
  case Nil
  obtain se' c where "session_policy ops st se = (se', Inr c)"
    "\<And>q e mode. wf_quad q \<Longrightarrow> encodes ops st q e \<Longrightarrow> decide_quad c e mode = policy_decides (se_policy se) (se_principal se) q mode"
    by (rule session_policy_exact [OF Nil.prems(1,3)]) blast
  then show ?case by simp
next
  case (Cons ws batches)
  let ?st = "fst (rdf_run ops ws st)"
  have wf: "\<forall>w\<in>set ws. wf_write w" and room: "op_dictionary_len ops st + sum_list (map write_cost ws) \<le> 2 ^ 60"
    using Cons.prems(4,5) by simp_all
  note run = rdf_run_refines [OF Cons.prems(1,2) wf room] rdf_run_grown [OF Cons.prems(1,2) wf room]
  have ok: "ok ?st" "decodable ops view ?st" using run by simp_all
  have "session_valid ops ?st se" using valid_mono [OF Cons.prems(3)] run by simp
  then obtain se' c where se': "session_policy ops ?st se = (se', Inr c)" "session_valid ops ?st se'"
    "se_policy se' = se_policy se" "se_principal se' = se_principal se"
    by (rule session_policy_exact [OF ok(1)]) blast
  have "op_dictionary_len ops ?st + sum_list (map write_cost (concat batches)) \<le> 2 ^ 60"
    using run(2) Cons.prems(5) by simp
  then show ?case using Cons.IH [OF ok se'(2)] Cons.prems(4) se' by (simp add: Let_def)
qed

end

text \<open>
  C2. What a session enforces is the policy. Open a session at any point of any history of writes, then
  go on writing in batches and ask the session for its policy after each: opening succeeds, every call
  returns a compiled policy, and that policy decides every quad the store can encode, in every mode,
  exactly as the policy means for that principal (clearance first, then the most specific scope that
  speaks about the mode, deny before allow, and the default effect), including rules naming
  IRIs the store had never seen when the session was opened.
\<close>

theorem session_enforces_policy:
  assumes "xsd_lib_ok X" "\<forall>ws\<in>set (before # batches). \<forall>w\<in>set ws. wf_write w"
    and "sum_list (map write_cost (concat (before # batches))) \<le> 2 ^ 60" and "wf_policy po"
    and "st0 = fst (rdf_run (memory_ops X) before store_new)"
  shows "\<exists>se st se' c. session_open (memory_ops X) st0 p po = Inr se \<and> serve (memory_ops X) batches st0 se = (st, se', Inr c)
    \<and> (\<forall>q e mode. wf_quad q \<longrightarrow> lookup_quad (memory_ops X) st q = Inr (Some e) \<longrightarrow> decide_quad c e mode = policy_decides po p q mode)"
proof -
  have wf: "\<forall>w\<in>set before. wf_write w" and room: "op_dictionary_len (memory_ops X) store_new + sum_list (map write_cost before) \<le> 2 ^ 60"
    using assms(2,3) new_store_ok [OF assms(1)] by simp_all
  have new: "mem_store_ok X store_new" "decodable (memory_ops X) mem_view store_new" using new_store_ok [OF assms(1)] by simp_all
  have st0: "mem_store_ok X st0" "decodable (memory_ops X) mem_view st0"
    using mstore.rdf_run_refines [OF new wf room] assms(5) by simp_all
  obtain se where se: "session_open (memory_ops X) st0 p po = Inr se" "session_valid (memory_ops X) st0 se"
    "se_policy se = po" "se_principal se = p"
    by (rule mgrow.open_valid [OF st0(1) assms(4)])
  have "op_dictionary_len (memory_ops X) st0 + sum_list (map write_cost (concat batches)) \<le> 2 ^ 60"
    using mgrow.rdf_run_grown [OF new wf room] assms(3,5) new_store_ok [OF assms(1)] by simp
  from mgrow.serve_exact [OF st0 se(2) _ this] show ?thesis using se assms(2) by (simp add: encodes_def)
qed

definition hide_salary :: policy where
  "hide_salary = with_rule (deny READ (Predicate ''urn:salary'') (MatchNot (Role ''hr'')))
    (with_rule (allow READ Everything Everyone) default_policy)"

definition salary_quad :: quad where
  "salary_quad = \<lparr>q_subject = NodeNamed ''urn:a'', q_predicate = ''urn:salary'', q_object = Literal (SimpleLit ''1''), q_graph = DefaultGraph\<rparr>"

theorem session_enforces_policy_witness:
  "\<exists>se st se' c. session_open (memory_ops demo_lib) store_new anonymous hide_salary = Inr se
    \<and> serve (memory_ops demo_lib) [[PutQuad salary_quad]] store_new se = (st, se', Inr c)
    \<and> (\<forall>e. lookup_quad (memory_ops demo_lib) st salary_quad = Inr (Some e) \<longrightarrow> decide_quad c e READ = FilterIt)"
proof -
  have wf: "\<forall>ws\<in>set ([] # [[PutQuad salary_quad]]). \<forall>w\<in>set ws. wf_write w" "wf_quad salary_quad" "wf_policy hide_salary" by code_simp+
  have c: "sum_list (map write_cost (concat ([] # [[PutQuad salary_quad]]))) \<le> 2 ^ 60" by (simp add: quad_cost_def salary_quad_def)
  have st0: "store_new = fst (rdf_run (memory_ops demo_lib) [] store_new)" by simp
  have "policy_decides hide_salary anonymous salary_quad READ = FilterIt" by code_simp
  then show ?thesis using session_enforces_policy [OF demo_lib_ok wf(1) c wf(3) st0, of anonymous] wf(2) by metis
qed

end
