(* ===== verification/Dataset_View.thy ===== *)
theory Dataset_View
  imports Access_Session
begin

text \<open>
  The dataset view, \<^verbatim>\<open>holos-engine/src/view.rs\<close>: the one route from a query to the quads. A view pairs a
  store with a compiled policy and keeps the side table of ephemeral terms, the decode cache and two
  counters; the interior mutability of the source is explicit state passing, and a lazy iterator is the
  list of its items when it is read to the end.

  \<open>crate::memory::over_ceiling\<close> observes the process allocator. It is a parameter: \<open>pressure n\<close> is the
  limit and use reported when the n-th quad of a scan is decided, or nothing when below the ceiling.
\<close>

datatype view_error =
    AccessDenied
  | OverMemoryCeiling nat nat
  | Storage storage_error
  | UnknownTerm term_id
  | EphemeralExhausted

type_synonym 'a vres = "view_error + 'a"

definition from_storage :: "'a res \<Rightarrow> 'a vres" where
  "from_storage r = map_sum Storage id r"

record ephemeral =
  eph_terms :: "rdf_term list"
  eph_index :: "rdf_term \<rightharpoonup> u64"

record 's dataset_view =
  vw_store :: 's
  vw_policy :: compiled_policy
  vw_ephemeral :: ephemeral
  vw_decoded :: "(term_id \<times> rdf_term) list"
  vw_filtered :: u64
  vw_bounded :: u64

definition DECODE_CACHE_ENTRIES :: nat where
  "DECODE_CACHE_ENTRIES = 262144"

definition new_view :: "'s \<Rightarrow> compiled_policy \<Rightarrow> 's dataset_view" where
  "new_view st c = \<lparr>vw_store = st, vw_policy = c, vw_ephemeral = \<lparr>eph_terms = [], eph_index = Map.empty\<rparr>,
    vw_decoded = [], vw_filtered = 0, vw_bounded = 0\<rparr>"

section \<open>Terms\<close>

definition view_decode_term :: "'s storage_ops \<Rightarrow> term_id \<Rightarrow> 's dataset_view \<Rightarrow> 's dataset_view \<times> rdf_term option vres" where
  "view_decode_term ops i v =
    (if id_tag i = TagEphemeral then
       (v, Inr (let ts = eph_terms (vw_ephemeral v); k = unat (id_payload i) in if k < length ts then Some (ts ! k) else None))
     else if \<not> is_dictionary_backed (id_tag i) then (v, from_storage (op_decode ops (vw_store v) i))
     else
       (case map_of (vw_decoded v) i of
          Some t \<Rightarrow> (v, Inr (Some t))
        | None \<Rightarrow>
            (case op_decode ops (vw_store v) i of
               Inl e \<Rightarrow> (v, Inl (Storage e))
             | Inr None \<Rightarrow> (v, Inr None)
             | Inr (Some t) \<Rightarrow>
                 (let cache = (if length (vw_decoded v) \<ge> DECODE_CACHE_ENTRIES then [] else vw_decoded v)
                  in (v\<lparr>vw_decoded := AList.update i t cache\<rparr>, Inr (Some t))))))"

definition intern_ephemeral :: "rdf_term \<Rightarrow> 's dataset_view \<Rightarrow> 's dataset_view \<times> term_id vres" where
  "intern_ephemeral t v =
    (let e = vw_ephemeral v in
     case eph_index e t of
       Some i \<Rightarrow> (v, from_storage (new_id TagEphemeral i))
     | None \<Rightarrow>
         (let i = word_of_nat (length (eph_terms e)) in
          if i > PAYLOAD_MASK then (v, Inl EphemeralExhausted)
          else (v\<lparr>vw_ephemeral := \<lparr>eph_terms = eph_terms e @ [t], eph_index = (eph_index e)(t \<mapsto> i)\<rparr>\<rparr>,
                from_storage (new_id TagEphemeral i))))"

definition internalize_term :: "'s storage_ops \<Rightarrow> rdf_term \<Rightarrow> 's dataset_view \<Rightarrow> 's dataset_view \<times> term_id vres" where
  "internalize_term ops t v =
    (case op_lookup ops (vw_store v) t of
       Inl e \<Rightarrow> (v, Inl (Storage e))
     | Inr (Some i) \<Rightarrow> (v, Inr i)
     | Inr None \<Rightarrow> intern_ephemeral t v)"

definition externalize_term :: "'s storage_ops \<Rightarrow> term_id \<Rightarrow> 's dataset_view \<Rightarrow> 's dataset_view \<times> rdf_term vres" where
  "externalize_term ops i v =
    (case view_decode_term ops i v of
       (v, Inl e) \<Rightarrow> (v, Inl e)
     | (v, Inr None) \<Rightarrow> (v, Inl (UnknownTerm i))
     | (v, Inr (Some t)) \<Rightarrow> (v, Inr t))"

section \<open>Scans\<close>

type_synonym pressure = "nat \<Rightarrow> (nat \<times> nat) option"

definition decide :: "(nat \<times> nat) option \<Rightarrow> encoded_quad res \<Rightarrow> 's dataset_view \<Rightarrow> 's dataset_view \<times> encoded_quad vres option" where
  "decide over quad v =
    (case quad of
       Inl e \<Rightarrow> (v, Some (Inl (Storage e)))
     | Inr q \<Rightarrow>
         (case over of
            Some (limit, used) \<Rightarrow> (v, Some (Inl (OverMemoryCeiling used limit)))
          | None \<Rightarrow>
              (case decide_quad (vw_policy v) q READ of
                 AllowIt \<Rightarrow> (v, Some (Inr q))
               | FilterIt \<Rightarrow> (v\<lparr>vw_filtered := vw_filtered v + 1\<rparr>, None)
               | FailIt \<Rightarrow> (v, Some (Inl AccessDenied)))))"

fun decide_all :: "pressure \<Rightarrow> nat \<Rightarrow> quad_scan \<Rightarrow> 's dataset_view \<Rightarrow> 's dataset_view \<times> encoded_quad vres list" where
  "decide_all pressure n [] v = (v, [])"
| "decide_all pressure n (quad # quads) v =
    (case decide (pressure n) quad v of
       (v, r) \<Rightarrow> case decide_all pressure (Suc n) quads v of (v, rs) \<Rightarrow> (v, (case r of None \<Rightarrow> rs | Some x \<Rightarrow> x # rs)))"

definition denied_graph :: "'s dataset_view \<Rightarrow> graph_filter \<Rightarrow> encoded_quad vres list option" where
  "denied_graph v g =
    (case g of
       FilterNamed i \<Rightarrow>
         if graph_is_wholly_denied (vw_policy v) (Some i)
         then Some (case cp_semantics (vw_policy v) of Filter \<Rightarrow> [] | Fail \<Rightarrow> [Inl AccessDenied])
         else None
     | _ \<Rightarrow> None)"

definition pattern_filter :: "term_id option option \<Rightarrow> graph_filter" where
  "pattern_filter g = (case g of Some None \<Rightarrow> FilterDefault | Some (Some i) \<Rightarrow> FilterNamed i | None \<Rightarrow> FilterAnyNamed)"

definition internal_quads_for_pattern ::
  "'s storage_ops \<Rightarrow> pressure \<Rightarrow> term_id option \<Rightarrow> term_id option \<Rightarrow> term_id option \<Rightarrow> term_id option option
    \<Rightarrow> 's dataset_view \<Rightarrow> 's dataset_view \<times> encoded_quad vres list" where
  "internal_quads_for_pattern ops pressure s p x graph_name v =
    (let graph = pattern_filter graph_name in
     case denied_graph v graph of
       Some answer \<Rightarrow> (v, answer)
     | None \<Rightarrow> decide_all pressure 0 (op_scan ops (vw_store v) s p x graph) v)"

definition view_quads_with_object_in ::
  "'s storage_ops \<Rightarrow> pressure \<Rightarrow> term_id option \<Rightarrow> term_id option \<Rightarrow> id_range \<Rightarrow> graph_filter
    \<Rightarrow> 's dataset_view \<Rightarrow> 's dataset_view \<times> encoded_quad vres list" where
  "view_quads_with_object_in ops pressure s p span graph v =
    (let v = v\<lparr>vw_bounded := vw_bounded v + 1\<rparr> in
     case denied_graph v graph of
       Some answer \<Rightarrow> (v, answer)
     | None \<Rightarrow> decide_all pressure 0 (op_quads_with_object_in ops (vw_store v) s p span graph) v)"

text \<open>The default graph never reaches \<open>graph_name_term\<close>; the source returns a placeholder for it.\<close>

fun graph_name_term :: "graph_name \<Rightarrow> rdf_term" where
  "graph_name_term (GraphNamed n) = NamedNode n"
| "graph_name_term (GraphBlank b) = BlankNode b"
| "graph_name_term DefaultGraph = NamedNode ''urn:holos:default-graph''"

fun visible_loop :: "'s storage_ops \<Rightarrow> quad_scan \<Rightarrow> quad list \<Rightarrow> 's dataset_view \<Rightarrow> 's dataset_view \<times> quad list vres" where
  "visible_loop ops [] out v = (v, Inr out)"
| "visible_loop ops (quad # quads) out v =
    (case quad of
       Inl e \<Rightarrow> (v, Inl (Storage e))
     | Inr q \<Rightarrow>
         (case decide_quad (vw_policy v) q READ of
            AllowIt \<Rightarrow>
              (case decode_quad ops (vw_store v) q of
                 Inl e \<Rightarrow> (v, Inl (Storage e))
               | Inr r \<Rightarrow> visible_loop ops quads (out @ [r]) v)
          | FilterIt \<Rightarrow> visible_loop ops quads out (v\<lparr>vw_filtered := vw_filtered v + 1\<rparr>)
          | FailIt \<Rightarrow> (v, Inl AccessDenied)))"

definition visible_quads :: "'s storage_ops \<Rightarrow> graph_name option \<Rightarrow> 's dataset_view \<Rightarrow> 's dataset_view \<times> quad list vres" where
  "visible_quads ops graph v =
    (case graph of
       None \<Rightarrow> visible_loop ops (op_scan ops (vw_store v) None None None FilterAny) [] v
     | Some DefaultGraph \<Rightarrow> visible_loop ops (op_scan ops (vw_store v) None None None FilterDefault) [] v
     | Some name \<Rightarrow>
         (case op_lookup ops (vw_store v) (graph_name_term name) of
            Inl e \<Rightarrow> (v, Inl (Storage e))
          | Inr None \<Rightarrow> (v, Inr [])
          | Inr (Some i) \<Rightarrow>
              if graph_is_wholly_denied (vw_policy v) (Some i)
              then (v, (case cp_semantics (vw_policy v) of Filter \<Rightarrow> Inr [] | Fail \<Rightarrow> Inl AccessDenied))
              else visible_loop ops (op_scan ops (vw_store v) None None None (FilterNamed i)) [] v))"

fun any_readable :: "compiled_policy \<Rightarrow> quad_scan \<Rightarrow> bool vres" where
  "any_readable c [] = Inr False"
| "any_readable c (Inl e # qs) = Inl (Storage e)"
| "any_readable c (Inr q # qs) = (if decide_quad c q READ = AllowIt then Inr True else any_readable c qs)"

fun visible_graphs_loop :: "'s storage_ops \<Rightarrow> 's dataset_view \<Rightarrow> term_id list \<Rightarrow> term_id list vres" where
  "visible_graphs_loop ops v [] = Inr []"
| "visible_graphs_loop ops v (g # gs) =
    (if graph_is_wholly_denied (vw_policy v) (Some g) then visible_graphs_loop ops v gs
     else
       (case any_readable (vw_policy v) (op_scan ops (vw_store v) None None None (FilterNamed g)) of
          Inl e \<Rightarrow> Inl e
        | Inr readable \<Rightarrow>
            (case visible_graphs_loop ops v gs of Inl e \<Rightarrow> Inl e | Inr out \<Rightarrow> Inr (if readable then g # out else out))))"

definition visible_named_graphs :: "'s storage_ops \<Rightarrow> 's dataset_view \<Rightarrow> term_id list vres" where
  "visible_named_graphs ops v =
    (case op_named_graphs ops (vw_store v) of Inl e \<Rightarrow> Inl (Storage e) | Inr gs \<Rightarrow> visible_graphs_loop ops v gs)"

definition internal_named_graphs :: "'s storage_ops \<Rightarrow> 's dataset_view \<Rightarrow> term_id vres list" where
  "internal_named_graphs ops v = (case visible_named_graphs ops v of Inr gs \<Rightarrow> map Inr gs | Inl e \<Rightarrow> [Inl e])"

section \<open>What a scan lets through\<close>

lemma decide_policy [simp]: "vw_policy (fst (decide over quad v)) = vw_policy v" "vw_store (fst (decide over quad v)) = vw_store v"
  by (auto simp: decide_def split: sum.splits option.splits decision.splits)

lemma decide_all_Cons [simp]:
  "decide_all pressure n (quad # quads) v =
    (let v1 = fst (decide (pressure n) quad v); r = decide_all pressure (Suc n) quads v1
     in (fst r, (case snd (decide (pressure n) quad v) of None \<Rightarrow> [] | Some x \<Rightarrow> [x]) @ snd r))"
  by (auto simp: case_prod_beta Let_def split: option.splits)

declare decide_all.simps(2) [simp del]

lemma decide_only_permitted: "snd (decide over quad v) = Some (Inr q) \<Longrightarrow> quad = Inr q \<and> permits_quad (vw_policy v) q READ"
  by (auto simp: decide_def permits_quad_def split: sum.splits option.splits decision.splits)

lemma decide_all_only_permitted:
  "Inr q \<in> set (snd (decide_all pressure n quads v)) \<Longrightarrow> Inr q \<in> set quads \<and> permits_quad (vw_policy v) q READ"
proof (induction quads arbitrary: n v)
  case (Cons quad quads)
  then show ?case
    using decide_only_permitted [of "pressure n" quad v q] Cons.IH [of "Suc n" "fst (decide (pressure n) quad v)"]
    by (auto simp: Let_def split: option.splits)
qed simp

lemma filter_decision: "cp_semantics c = Filter \<Longrightarrow> decide_quad c q m = (if permits_quad c q m then AllowIt else FilterIt)"
  by (auto simp: permits_quad_def decide_quad_def refusal_def Let_def split: effect.splits option.splits)

lemma fail_decision: "cp_semantics c = Fail \<Longrightarrow> decide_quad c q m = (if permits_quad c q m then AllowIt else FailIt)"
  by (auto simp: permits_quad_def decide_quad_def refusal_def Let_def split: effect.splits option.splits)

lemma decide_all_filter:
  "cp_semantics (vw_policy v) = Filter \<Longrightarrow> \<forall>k. pressure k = None \<Longrightarrow>
    decide_all pressure n (map Inr qs) v =
      (v\<lparr>vw_filtered := vw_filtered v + word_of_nat (length (filter (\<lambda>q. \<not> permits_quad (vw_policy v) q READ) qs))\<rparr>,
       map Inr (filter (\<lambda>q. permits_quad (vw_policy v) q READ) qs))"
  by (induction qs arbitrary: n v) (simp_all add: decide_def filter_decision Let_def add.assoc)

lemma decide_all_fail:
  "cp_semantics (vw_policy v) = Fail \<Longrightarrow> \<forall>k. pressure k = None \<Longrightarrow>
    decide_all pressure n (map Inr qs) v =
      (v, map (\<lambda>q. if permits_quad (vw_policy v) q READ then Inr q else Inl AccessDenied) qs)"
  by (induction qs arbitrary: n v) (simp_all add: decide_def fail_decision Let_def)

lemma denied_graph_no_quads: "denied_graph v g = Some answer \<Longrightarrow> Inr q \<notin> set answer"
  by (auto simp: denied_graph_def split: graph_filter.splits if_splits semantics.splits)

lemma visible_loop_filter:
  "cp_semantics (vw_policy v) = Filter \<Longrightarrow> (\<And>e. e \<in> set es \<Longrightarrow> decode_quad ops (vw_store v) e = Inr (f e)) \<Longrightarrow>
    visible_loop ops (map Inr es) out v =
      (v\<lparr>vw_filtered := vw_filtered v + word_of_nat (length (filter (\<lambda>q. \<not> permits_quad (vw_policy v) q READ) es))\<rparr>,
       Inr (out @ map f (filter (\<lambda>q. permits_quad (vw_policy v) q READ) es)))"
  by (induction es arbitrary: out v) (simp_all add: filter_decision add.assoc)

lemma visible_loop_fail:
  "cp_semantics (vw_policy v) = Fail \<Longrightarrow> (\<And>e. e \<in> set es \<Longrightarrow> decode_quad ops (vw_store v) e = Inr (f e)) \<Longrightarrow>
    visible_loop ops (map Inr es) out v =
      (v, if \<forall>e\<in>set es. permits_quad (vw_policy v) e READ then Inr (out @ map f es) else Inl AccessDenied)"
  by (induction es arbitrary: out) (simp_all add: fail_decision)

lemma any_readable_exact: "any_readable c (map Inr qs) = Inr (list_ex (\<lambda>q. permits_quad c q READ) qs)"
  by (induction qs) (auto simp: permits_quad_def)

lemma scan_member: "scan_returns r Q \<Longrightarrow> Inr q \<in> set r \<longleftrightarrow> q \<in> Q"
  by (auto simp: scan_returns_def)

definition view_returns :: "encoded_quad vres list \<Rightarrow> encoded_quad set \<Rightarrow> bool" where
  "view_returns r Q \<longleftrightarrow> (\<exists>qs. r = map Inr qs \<and> distinct qs \<and> set qs = Q)"

lemma view_member: "view_returns r Q \<Longrightarrow> Inr q \<in> set r \<longleftrightarrow> q \<in> Q"
  by (auto simp: view_returns_def)

text \<open>
  What a scan of the quads \<open>Q\<close> shows under a policy. A scan of one named graph that is reported as wholly denied is
  not made at all; any other shows each quad of \<open>Q\<close> once if it may be read, and drops or refuses it if not.
\<close>

definition skipped :: "compiled_policy \<Rightarrow> graph_filter \<Rightarrow> bool" where
  "skipped c f \<longleftrightarrow> (\<exists>i. f = FilterNamed i \<and> graph_is_wholly_denied c (Some i))"

definition view_shows :: "compiled_policy \<Rightarrow> graph_filter \<Rightarrow> encoded_quad set \<Rightarrow> encoded_quad vres list \<Rightarrow> bool" where
  "view_shows c f Q r \<longleftrightarrow>
    (if skipped c f then r = (case cp_semantics c of Filter \<Rightarrow> [] | Fail \<Rightarrow> [Inl AccessDenied])
     else \<exists>qs. distinct qs \<and> set qs = Q
       \<and> r = (case cp_semantics c of
                Filter \<Rightarrow> map Inr (filter (\<lambda>q. permits_quad c q READ) qs)
              | Fail \<Rightarrow> map (\<lambda>q. if permits_quad c q READ then Inr q else Inl AccessDenied) qs))"

lemma denied_graph_skipped:
  "denied_graph v f = (if skipped (vw_policy v) f then Some (case cp_semantics (vw_policy v) of Filter \<Rightarrow> [] | Fail \<Rightarrow> [Inl AccessDenied]) else None)"
  by (auto simp: denied_graph_def skipped_def split: graph_filter.splits)

lemma decide_all_shows:
  assumes "scan_returns r Q" "\<forall>k. pressure k = None" "\<not> skipped (vw_policy v) f"
  shows "view_shows (vw_policy v) f Q (snd (decide_all pressure 0 r v))"
  using assms decide_all_filter [of v pressure 0] decide_all_fail [of v pressure 0]
  unfolding scan_returns_def view_shows_def by (cases "cp_semantics (vw_policy v)") auto

lemma view_shows_filter:
  "view_shows c f Q r \<Longrightarrow> cp_semantics c = Filter \<Longrightarrow> view_returns r {q \<in> Q. permits_quad c q READ \<and> \<not> skipped c f}"
  unfolding view_shows_def view_returns_def by (cases "skipped c f") auto

text \<open>The same for quads that are decoded: under fail semantics one quad that may not be read refuses the whole.\<close>

definition shows_quads :: "policy \<Rightarrow> principal \<Rightarrow> quad set \<Rightarrow> quad list vres \<Rightarrow> bool" where
  "shows_quads po p Q r \<longleftrightarrow>
    (case po_semantics po of
       Filter \<Rightarrow> \<exists>qs. r = Inr qs \<and> distinct qs \<and> set qs = {q \<in> Q. policy_decides po p q READ = AllowIt}
     | Fail \<Rightarrow>
         if \<forall>q\<in>Q. policy_decides po p q READ = AllowIt then \<exists>qs. r = Inr qs \<and> distinct qs \<and> set qs = Q
         else r = Inl AccessDenied)"

text \<open>A graph asked for by name whose listing is refused outright, or answered as empty, without a scan.\<close>

definition hidden_graph :: "'a storage_ops \<Rightarrow> 'a \<Rightarrow> compiled_policy \<Rightarrow> graph_name option \<Rightarrow> bool" where
  "hidden_graph ops st c graph \<longleftrightarrow> (\<exists>g i. graph = Some g \<and> g \<noteq> DefaultGraph \<and> op_lookup ops st (graph_name_term g) = Inr (Some i)
    \<and> graph_is_wholly_denied c (Some i))"

text \<open>Graphs that are skipped as wholly denied hold nothing that may be read.\<close>

definition skips_soundly :: "compiled_policy \<Rightarrow> bool" where
  "skips_soundly c \<longleftrightarrow> (\<forall>q i. enc_graph q = Some i \<longrightarrow> graph_is_wholly_denied c (Some i) \<longrightarrow> \<not> permits_quad c q READ)"

lemma skipped_nothing: "skips_soundly c \<Longrightarrow> quad_matches s p x f q \<Longrightarrow> permits_quad c q READ \<Longrightarrow> \<not> skipped c f"
  by (auto simp: skips_soundly_def skipped_def quad_matches_def graph_matches_def)

section \<open>Storage that can be read through a view\<close>

locale readable_storage = storage ops ok view
  for ops :: "'s storage_ops" and ok :: "'s \<Rightarrow> bool" and view :: "'s \<Rightarrow> dataset" +
  assumes span_exact: "ok st \<Longrightarrow> scan_returns (op_quads_with_object_in ops st s p span g)
      {q \<in> fst (view st). quad_matches s p None g q \<and> span_contains span (enc_object q)}"
    and graphs_exact: "ok st \<Longrightarrow> \<exists>gs. op_named_graphs ops st = Inr gs \<and> distinct gs \<and> set gs = snd (view st)"
    and lookup_not_ephemeral: "ok st \<Longrightarrow> wf_term t \<Longrightarrow> op_lookup ops st t = Inr (Some i) \<Longrightarrow> id_tag i \<noteq> TagEphemeral"
begin

text \<open>Nothing a policy refuses comes out of a scan, whatever its semantics and whatever the allocator reports.\<close>

lemma scans_only_permitted:
  assumes ok: "ok (vw_store v)"
  shows "Inr q \<in> set (snd (internal_quads_for_pattern ops pressure s p x g v)) \<Longrightarrow>
      q \<in> fst (view (vw_store v)) \<and> quad_matches s p x (pattern_filter g) q \<and> permits_quad (vw_policy v) q READ"
    and "Inr q \<in> set (snd (view_quads_with_object_in ops pressure s p span f v)) \<Longrightarrow>
      q \<in> fst (view (vw_store v)) \<and> quad_matches s p None f q \<and> span_contains span (enc_object q) \<and> permits_quad (vw_policy v) q READ"
proof -
  assume a: "Inr q \<in> set (snd (internal_quads_for_pattern ops pressure s p x g v))"
  then have "denied_graph v (pattern_filter g) = None"
    using denied_graph_no_quads [of v "pattern_filter g" _ q]
    by (cases "denied_graph v (pattern_filter g)") (simp_all add: internal_quads_for_pattern_def Let_def)
  with a have "Inr q \<in> set (op_scan ops (vw_store v) s p x (pattern_filter g)) \<and> permits_quad (vw_policy v) q READ"
    using decide_all_only_permitted [of q pressure 0 "op_scan ops (vw_store v) s p x (pattern_filter g)" v]
    by (simp add: internal_quads_for_pattern_def Let_def)
  then show "q \<in> fst (view (vw_store v)) \<and> quad_matches s p x (pattern_filter g) q \<and> permits_quad (vw_policy v) q READ"
    by (simp add: scan_member [OF scan_exact [OF ok]])
next
  let ?v = "v\<lparr>vw_bounded := vw_bounded v + 1\<rparr>"
  assume a: "Inr q \<in> set (snd (view_quads_with_object_in ops pressure s p span f v))"
  then have "denied_graph ?v f = None"
    using denied_graph_no_quads [of ?v f _ q] by (cases "denied_graph ?v f") (simp_all add: view_quads_with_object_in_def Let_def)
  with a have "Inr q \<in> set (op_quads_with_object_in ops (vw_store v) s p span f) \<and> permits_quad (vw_policy v) q READ"
    using decide_all_only_permitted [of q pressure 0 "op_quads_with_object_in ops (vw_store v) s p span f" ?v]
    by (simp add: view_quads_with_object_in_def Let_def)
  then show "q \<in> fst (view (vw_store v)) \<and> quad_matches s p None f q \<and> span_contains span (enc_object q) \<and> permits_quad (vw_policy v) q READ"
    by (simp add: scan_member [OF span_exact [OF ok]])
qed

text \<open>What a scan shows, whatever the policy.\<close>

lemma pattern_scan_shows:
  assumes ok: "ok (vw_store v)" and calm: "\<forall>k. pressure k = None"
  shows "view_shows (vw_policy v) (pattern_filter g) {q \<in> fst (view (vw_store v)). quad_matches s p x (pattern_filter g) q}
    (snd (internal_quads_for_pattern ops pressure s p x g v))"
  using decide_all_shows [OF scan_exact [OF ok, of s p x "pattern_filter g"] calm, of v "pattern_filter g"]
  by (cases "skipped (vw_policy v) (pattern_filter g)") (simp_all add: internal_quads_for_pattern_def denied_graph_skipped view_shows_def Let_def)

lemma span_scan_shows:
  assumes ok: "ok (vw_store v)" and calm: "\<forall>k. pressure k = None"
  shows "view_shows (vw_policy v) f {q \<in> fst (view (vw_store v)). quad_matches s p None f q \<and> span_contains span (enc_object q)}
    (snd (view_quads_with_object_in ops pressure s p span f v))"
  using decide_all_shows [OF span_exact [OF ok, of s p span f] calm, of "v\<lparr>vw_bounded := vw_bounded v + 1\<rparr>" f]
  by (cases "skipped (vw_policy v) f") (simp_all add: view_quads_with_object_in_def denied_graph_skipped view_shows_def Let_def)

text \<open>The named graphs listed are those not wholly denied that hold a quad that may be read.\<close>

lemma graphs_loop_exact:
  assumes ok: "ok (vw_store v)"
  shows "visible_graphs_loop ops v gs =
    Inr (filter (\<lambda>g. \<not> graph_is_wholly_denied (vw_policy v) (Some g) \<and> (\<exists>q\<in>fst (view (vw_store v)). enc_graph q = Some g \<and> permits_quad (vw_policy v) q READ)) gs)"
proof (induction gs)
  case (Cons g gs)
  obtain qs where qs: "op_scan ops (vw_store v) None None None (FilterNamed g) = map Inr qs"
    "set qs = {q \<in> fst (view (vw_store v)). enc_graph q = Some g}"
    using scan_exact [OF ok, of None None None "FilterNamed g"] unfolding scan_returns_def
    by (auto simp: quad_matches_def graph_matches_def)
  have "any_readable (vw_policy v) (op_scan ops (vw_store v) None None None (FilterNamed g))
      = Inr (\<exists>q\<in>fst (view (vw_store v)). enc_graph q = Some g \<and> permits_quad (vw_policy v) q READ)"
    unfolding qs(1) any_readable_exact using qs(2) by (auto simp: list_ex_iff)
  with Cons show ?case by simp
qed simp

text \<open>A scan of the store decodes to the quads of the matching graphs.\<close>

lemma scan_decodes:
  assumes ok: "ok st" and dec: "decodable ops view st"
    and P: "\<And>q e. wf_quad q \<Longrightarrow> encodes ops st q e \<Longrightarrow> graph_matches g (enc_graph e) \<longleftrightarrow> P q"
  obtains es f where "op_scan ops st None None None g = map Inr es" "distinct (map f es)"
    "\<And>e. e \<in> set es \<Longrightarrow> wf_quad (f e) \<and> encodes ops st (f e) e \<and> decode_quad ops st e = Inr (f e)"
    "f ` set es = {q \<in> rdf_quads ops view st. P q}"
proof -
  obtain es where es: "op_scan ops st None None None g = map Inr es" "distinct es" "set es = {e \<in> fst (view st). graph_matches g (enc_graph e)}"
    using scan_exact [OF ok, of None None None g] by (auto simp: scan_returns_def quad_matches_def)
  define f where "f e = (SOME q. wf_quad q \<and> encodes ops st q e)" for e
  have f: "wf_quad (f e) \<and> encodes ops st (f e) e" if "e \<in> set es" for e
    unfolding f_def by (rule someI_ex) (use dec that es(3) in \<open>auto simp: decodable_def\<close>)
  have d: "wf_quad (f e) \<and> encodes ops st (f e) e \<and> decode_quad ops st e = Inr (f e)" if "e \<in> set es" for e
    using decode_encodes [OF ok, of "f e" e] f [OF that] by blast
  have "inj_on f (set es)"
    by (rule inj_onI) (use d in \<open>metis Inr_inject encodes_functional\<close>)
  moreover have "q \<in> f ` set es \<longleftrightarrow> q \<in> rdf_quads ops view st \<and> P q" for q
  proof
    assume "q \<in> f ` set es"
    then obtain e where e: "e \<in> set es" "q = f e" by blast
    with f [OF e(1)] P [of q e] es(3) show "q \<in> rdf_quads ops view st \<and> P q" by (auto simp: rdf_quads_def)
  next
    assume q: "q \<in> rdf_quads ops view st \<and> P q"
    then obtain e where e: "wf_quad q" "e \<in> fst (view st)" "encodes ops st q e" by (auto simp: rdf_quads_def)
    then have "e \<in> set es" using P [OF e(1,3)] q es(3) by simp
    moreover have "q = f e" using encodes_inject [OF ok e(1) _ e(3)] f [OF \<open>e \<in> set es\<close>] by blast
    ultimately show "q \<in> f ` set es" by blast
  qed
  ultimately show thesis using that [of es f] es(1,2) d by (auto simp: distinct_map)
qed

lemma visible_loop_exact:
  assumes ok: "ok (vw_store v)" and dec: "decodable ops view (vw_store v)" and wf: "wf_policy po"
    and c: "compile ops (vw_store v) po p = Inr (vw_policy v)"
    and P: "\<And>q e. wf_quad q \<Longrightarrow> encodes ops (vw_store v) q e \<Longrightarrow> graph_matches g (enc_graph e) \<longleftrightarrow> P q"
  shows "shows_quads po p {q \<in> rdf_quads ops view (vw_store v). P q}
    (snd (visible_loop ops (op_scan ops (vw_store v) None None None g) [] v))"
proof -
  obtain es f where es: "op_scan ops (vw_store v) None None None g = map Inr es" "distinct (map f es)"
    "f ` set es = {q \<in> rdf_quads ops view (vw_store v). P q}"
    and f: "\<And>e. e \<in> set es \<Longrightarrow> wf_quad (f e) \<and> encodes ops (vw_store v) (f e) e \<and> decode_quad ops (vw_store v) e = Inr (f e)"
    by (rule scan_decodes [OF ok dec P]) blast+
  let ?p = "\<lambda>e. permits_quad (vw_policy v) e READ"
  have perm: "?p e \<longleftrightarrow> policy_decides po p (f e) READ = AllowIt" if "e \<in> set es" for e
    using compile_decides [OF ok wf _ c, of "f e" e READ] f [OF that] by (simp add: permits_quad_def)
  have sem: "cp_semantics (vw_policy v) = po_semantics po" by (rule compile_slots(6) [OF c])
  show ?thesis
  proof (cases "po_semantics po")
    case Filter
    have "snd (visible_loop ops (op_scan ops (vw_store v) None None None g) [] v) = Inr (map f (filter ?p es))"
      unfolding es(1) using visible_loop_filter [of v es ops f "[]"] f sem Filter by simp
    moreover have "distinct (map f (filter ?p es))" using es(2) by (simp add: distinct_map inj_on_def)
    moreover have "set (map f (filter ?p es)) = {q \<in> f ` set es. policy_decides po p q READ = AllowIt}" using perm by auto
    ultimately show ?thesis unfolding es(3) [symmetric] by (auto simp: shows_quads_def Filter)
  next
    case Fail
    have "snd (visible_loop ops (op_scan ops (vw_store v) None None None g) [] v) = (if \<forall>e\<in>set es. ?p e then Inr (map f es) else Inl AccessDenied)"
      unfolding es(1) using visible_loop_fail [of v es ops f "[]"] f sem Fail by simp
    moreover have "(\<forall>e\<in>set es. ?p e) \<longleftrightarrow> (\<forall>q\<in>f ` set es. policy_decides po p q READ = AllowIt)" using perm by auto
    ultimately have "snd (visible_loop ops (op_scan ops (vw_store v) None None None g) [] v)
        = (if \<forall>q\<in>f ` set es. policy_decides po p q READ = AllowIt then Inr (map f es) else Inl AccessDenied)" by simp
    then show ?thesis unfolding es(3) [symmetric] shows_quads_def Fail semantics.case
      using es(2) by (cases "\<forall>q\<in>f ` set es. policy_decides po p q READ = AllowIt") simp_all
  qed
qed

lemma graph_name_term_eq: "graph \<noteq> DefaultGraph \<Longrightarrow> graph_term graph = Some (graph_name_term graph)"
  by (cases graph) auto

lemma encodes_in_graph:
  assumes ok: "ok st" and g: "wf_graph g" "g \<noteq> DefaultGraph" and r: "op_lookup ops st (graph_name_term g) = Inr r"
    and q: "wf_quad q" "encodes ops st q e"
  shows "enc_graph e = r \<and> r \<noteq> None \<longleftrightarrow> q_graph q = g"
proof -
  note t = graph_name_term_eq [OF g(2)]
  have n: "names ops st (q_graph q) (enc_graph e)" "wf_graph (q_graph q)" using q by (auto simp: encodes_iff wf_quad_def)
  have "names ops st g r" if "r \<noteq> None" using t r that by (auto simp: names_iff)
  then show ?thesis using n names_inject [OF ok n(2) g(1)] t r by (auto simp: names_iff)
qed

lemma hidden_unreadable:
  assumes ok: "ok st" and wf: "wf_policy po" "\<forall>g\<in>set_option graph. wf_graph g" and c: "compile ops st po p = Inr c"
    and hid: "hidden_graph ops st c graph" and skip: "skips_soundly c"
    and q: "q \<in> rdf_quads ops view st" "\<forall>g\<in>set_option graph. q_graph q = g"
  shows "policy_decides po p q READ \<noteq> AllowIt"
proof -
  obtain g i where g: "graph = Some g" "g \<noteq> DefaultGraph" "op_lookup ops st (graph_name_term g) = Inr (Some i)" "graph_is_wholly_denied c (Some i)"
    using hid by (auto simp: hidden_graph_def)
  obtain e where e: "wf_quad q" "encodes ops st q e" using q(1) by (auto simp: rdf_quads_def)
  have "enc_graph e = Some i" using encodes_in_graph [OF ok _ g(2,3) e] wf(2) q(2) g(1) by simp
  then have "\<not> permits_quad c e READ" using skip g(4) by (simp add: skips_soundly_def)
  then show ?thesis using compile_decides [OF ok wf(1) e(1) c e(2), of READ] by (simp add: permits_quad_def)
qed

lemma visible_quads_exact:
  assumes ok: "ok (vw_store v)" and dec: "decodable ops view (vw_store v)" and wf: "wf_policy po" "\<forall>g\<in>set_option graph. wf_graph g"
    and c: "compile ops (vw_store v) po p = Inr (vw_policy v)"
  shows "if hidden_graph ops (vw_store v) (vw_policy v) graph
    then snd (visible_quads ops graph v) = (case po_semantics po of Filter \<Rightarrow> Inr [] | Fail \<Rightarrow> Inl AccessDenied)
    else shows_quads po p {q \<in> rdf_quads ops view (vw_store v). \<forall>g\<in>set_option graph. q_graph q = g} (snd (visible_quads ops graph v))"
proof -
  note loop = visible_loop_exact [OF ok dec wf(1) c]
  consider (all) "graph = None" | (default) "graph = Some DefaultGraph" | (named) g where "graph = Some g" "g \<noteq> DefaultGraph" by (cases graph) auto
  then show ?thesis
  proof cases
    case all
    then show ?thesis using loop [of FilterAny "\<lambda>q. True"] by (simp add: visible_quads_def graph_matches_def hidden_graph_def)
  next
    case default
    then show ?thesis using loop [of FilterDefault "\<lambda>q. q_graph q = DefaultGraph"] encodes_default_graph
      by (simp add: visible_quads_def graph_matches_def hidden_graph_def)
  next
    case (named g)
    have g: "wf_graph g" using wf(2) named(1) by simp
    obtain r where r: "op_lookup ops (vw_store v) (graph_name_term g) = Inr r"
      using lookup_total [OF ok] graph_term_wf(1) [OF graph_name_term_eq [OF named(2)]] g by blast
    note in_g = encodes_in_graph [OF ok g named(2) r]
    have sem: "cp_semantics (vw_policy v) = po_semantics po" by (rule compile_slots(6) [OF c])
    have vq: "visible_quads ops graph v = (case r of None \<Rightarrow> (v, Inr [])
        | Some i \<Rightarrow> if graph_is_wholly_denied (vw_policy v) (Some i) then (v, (case po_semantics po of Filter \<Rightarrow> Inr [] | Fail \<Rightarrow> Inl AccessDenied))
            else visible_loop ops (op_scan ops (vw_store v) None None None (FilterNamed i)) [] v)"
      using named r sem by (cases g) (auto simp: visible_quads_def split: option.splits)
    have hid: "hidden_graph ops (vw_store v) (vw_policy v) graph \<longleftrightarrow> (\<exists>i. r = Some i \<and> graph_is_wholly_denied (vw_policy v) (Some i))"
      using named r by (auto simp: hidden_graph_def)
    show ?thesis
    proof (cases r)
      case None
      have Q: "{q \<in> rdf_quads ops view (vw_store v). \<forall>g\<in>set_option graph. q_graph q = g} = {}" using in_g None named(1) by (auto simp: rdf_quads_def)
      have "snd (visible_quads ops graph v) = Inr []" using None by (simp add: vq)
      then show ?thesis unfolding hid Q using None by (simp add: shows_quads_def split: semantics.splits)
    next
      case (Some i)
      have "graph_matches (FilterNamed i) (enc_graph e) \<longleftrightarrow> q_graph q = g" if "wf_quad q" "encodes ops (vw_store v) q e" for q e
        using in_g [OF that] Some by (auto simp: graph_matches_def)
      note shown = loop [of "FilterNamed i" "\<lambda>q. q_graph q = g", OF this]
      have Q: "{q \<in> rdf_quads ops view (vw_store v). \<forall>g\<in>set_option graph. q_graph q = g} = {q \<in> rdf_quads ops view (vw_store v). q_graph q = g}"
        using named(1) by simp
      show ?thesis unfolding hid Q vq using Some shown by simp
    qed
  qed
qed

end

section \<open>The side table of terms\<close>

definition view_ok :: "'s storage_ops \<Rightarrow> 's dataset_view \<Rightarrow> bool" where
  "view_ok ops v \<longleftrightarrow> dense (eph_terms (vw_ephemeral v)) (eph_index (vw_ephemeral v))
    \<and> (\<forall>(i, t)\<in>set (vw_decoded v). op_decode ops (vw_store v) i = Inr (Some t))"

definition eph_count :: "'s dataset_view \<Rightarrow> nat" where
  "eph_count v = length (eph_terms (vw_ephemeral v))"

text \<open>The identifier a term has in a view: the store's, or one of the side table.\<close>

definition known_as :: "'s storage_ops \<Rightarrow> 's dataset_view \<Rightarrow> rdf_term \<Rightarrow> term_id \<Rightarrow> bool" where
  "known_as ops v t i \<longleftrightarrow> op_lookup ops (vw_store v) t = Inr (Some i)
    \<or> op_lookup ops (vw_store v) t = Inr None \<and> (\<exists>n. eph_index (vw_ephemeral v) t = Some n \<and> new_id TagEphemeral n = Inr i)"

lemma known_as_functional: "known_as ops v t i \<Longrightarrow> known_as ops v t j \<Longrightarrow> i = j"
  by (auto simp: known_as_def)

lemma new_view_ok [simp]: "view_ok ops (new_view st c)" "eph_count (new_view st c) = 0" "vw_store (new_view st c) = st" "vw_policy (new_view st c) = c"
  by (simp_all add: view_ok_def new_view_def eph_count_def)

lemma internalize_known:
  assumes "view_ok ops v" "op_lookup ops (vw_store v) t = Inr r" "eph_count v < 2 ^ 60"
  obtains v' i where "internalize_term ops t v = (v', Inr i)" "known_as ops v' t i" "view_ok ops v'" "vw_store v' = vw_store v"
    "vw_policy v' = vw_policy v" "eph_count v' \<le> eph_count v + 1" "\<And>u j. known_as ops v u j \<Longrightarrow> known_as ops v' u j"
proof (cases r)
  case (Some i)
  then show thesis using that [of v i] assms by (simp add: internalize_term_def known_as_def)
next
  case None
  let ?e = "vw_ephemeral v"
  have d: "dense (eph_terms ?e) (eph_index ?e)" using assms(1) by (simp add: view_ok_def)
  show thesis
  proof (cases "eph_index ?e t")
    case (Some n)
    obtain i where i: "new_id TagEphemeral n = Inr i" using dense_new_id [OF d Some] by blast
    then show thesis using that [of v i] None Some assms
      by (simp add: internalize_term_def intern_ephemeral_def known_as_def from_storage_def Let_def)
  next
    case new: None
    let ?w = "word_of_nat (length (eph_terms ?e)) :: u64"
    have len: "length (eph_terms ?e) < 2 ^ 60" using assms(3) by (simp add: eph_count_def)
    note push = dense_push [OF d new len]
    obtain i where i: "new_id TagEphemeral ?w = Inr i" using push(3) by blast
    have "\<not> ?w > PAYLOAD_MASK" using len by (simp add: not_less payload_le_iff unat_of_nat)
    let ?v = "v\<lparr>vw_ephemeral := \<lparr>eph_terms = eph_terms ?e @ [t], eph_index = (eph_index ?e)(t \<mapsto> ?w)\<rparr>\<rparr>"
    have run: "internalize_term ops t v = (?v, Inr i)"
      using None new i \<open>\<not> ?w > PAYLOAD_MASK\<close> assms(2) by (simp add: internalize_term_def intern_ephemeral_def from_storage_def Let_def)
    have kept: "known_as ops ?v u j" if "known_as ops v u j" for u j using that new by (auto simp: known_as_def)
    show thesis
      by (rule that [OF run _ _ _ _ _ kept]) (use assms None i push(1) in \<open>simp_all add: known_as_def view_ok_def eph_count_def\<close>)
  qed
qed

fun internalize_all :: "'s storage_ops \<Rightarrow> rdf_term list \<Rightarrow> 's dataset_view \<Rightarrow> 's dataset_view \<times> term_id vres list" where
  "internalize_all ops [] v = (v, [])"
| "internalize_all ops (t # ts) v =
    (case internalize_term ops t v of (v, r) \<Rightarrow> case internalize_all ops ts v of (v, rs) \<Rightarrow> (v, r # rs))"

lemma decode_cached:
  assumes "view_ok ops v" "id_tag i \<noteq> TagEphemeral"
  shows "snd (view_decode_term ops i v) = from_storage (op_decode ops (vw_store v) i)"
  using assms by (auto simp: view_decode_term_def view_ok_def from_storage_def Let_def split: option.splits sum.splits dest!: map_of_SomeD)

lemma decode_keeps:
  assumes "view_ok ops v"
  shows "view_ok ops (fst (view_decode_term ops i v))" "vw_store (fst (view_decode_term ops i v)) = vw_store v"
    "vw_policy (fst (view_decode_term ops i v)) = vw_policy v" "vw_ephemeral (fst (view_decode_term ops i v)) = vw_ephemeral v"
proof -
  have upd: "set (AList.update i t c) \<subseteq> insert (i, t) (set c)" for t and c :: "(term_id \<times> rdf_term) list"
    by (induction c) auto
  show "view_ok ops (fst (view_decode_term ops i v))"
    using assms upd by (fastforce simp: view_decode_term_def view_ok_def Let_def split: option.splits sum.splits)
  show "vw_store (fst (view_decode_term ops i v)) = vw_store v" "vw_policy (fst (view_decode_term ops i v)) = vw_policy v"
    "vw_ephemeral (fst (view_decode_term ops i v)) = vw_ephemeral v"
    by (auto simp: view_decode_term_def Let_def split: option.splits sum.splits)
qed

lemma decide_all_keeps:
  "vw_store (fst (decide_all pressure n qs v)) = vw_store v \<and> vw_ephemeral (fst (decide_all pressure n qs v)) = vw_ephemeral v
    \<and> vw_decoded (fst (decide_all pressure n qs v)) = vw_decoded v \<and> vw_policy (fst (decide_all pressure n qs v)) = vw_policy v"
proof (induction qs arbitrary: n v)
  case (Cons q qs)
  have "vw_ephemeral (fst (decide over q v)) = vw_ephemeral v \<and> vw_decoded (fst (decide over q v)) = vw_decoded v" for over
    by (auto simp: decide_def split: sum.splits option.splits decision.splits)
  with Cons show ?case by (simp add: Let_def)
qed simp

context readable_storage
begin

lemma externalize_known:
  assumes ok: "ok (vw_store v)" and v: "view_ok ops v" and t: "wf_term t" "known_as ops v t i"
  shows "snd (externalize_term ops i v) = Inr t"
proof -
  have "snd (view_decode_term ops i v) = Inr (Some t)"
  proof (cases "op_lookup ops (vw_store v) t = Inr (Some i)")
    case True
    then show ?thesis
      using decode_cached [OF v lookup_not_ephemeral [OF ok t(1) True]] decode_lookup [OF ok t(1) True] by (simp add: from_storage_def)
  next
    case False
    then obtain n where n: "eph_index (vw_ephemeral v) t = Some n" "new_id TagEphemeral n = Inr i" using t(2) by (auto simp: known_as_def)
    then show ?thesis using v new_id_tag [OF n(2)] new_id_payload [OF n(2)]
      by (auto simp: view_decode_term_def view_ok_def dense_def Let_def)
  qed
  then show ?thesis by (cases "view_decode_term ops i v") (simp add: externalize_term_def)
qed

lemma internalize_all_known:
  "ok (vw_store v) \<Longrightarrow> view_ok ops v \<Longrightarrow> \<forall>t\<in>set ts. wf_term t \<Longrightarrow> eph_count v + length ts \<le> 2 ^ 60 \<Longrightarrow>
    \<exists>v' ids. internalize_all ops ts v = (v', map Inr ids) \<and> length ids = length ts \<and> view_ok ops v' \<and> vw_store v' = vw_store v
      \<and> (\<forall>k<length ts. known_as ops v' (ts ! k) (ids ! k)) \<and> (\<forall>u j. known_as ops v u j \<longrightarrow> known_as ops v' u j)"
proof (induction ts arbitrary: v)
  case (Cons t ts)
  obtain r where "op_lookup ops (vw_store v) t = Inr r" using lookup_total [OF Cons.prems(1), of t] Cons.prems(3) by auto
  moreover have "eph_count v < 2 ^ 60" using Cons.prems(4) by simp
  ultimately obtain v1 i where 1: "internalize_term ops t v = (v1, Inr i)" "known_as ops v1 t i" "view_ok ops v1" "vw_store v1 = vw_store v"
    "eph_count v1 \<le> eph_count v + 1" "\<And>u j. known_as ops v u j \<Longrightarrow> known_as ops v1 u j"
    by (rule internalize_known [OF Cons.prems(2)]) blast
  have room: "eph_count v1 + length ts \<le> 2 ^ 60" using Cons.prems(4) 1(5) by simp
  obtain v2 ids where 2: "internalize_all ops ts v1 = (v2, map Inr ids)" "length ids = length ts" "view_ok ops v2" "vw_store v2 = vw_store v1"
    "\<forall>k<length ts. known_as ops v2 (ts ! k) (ids ! k)" "\<forall>u j. known_as ops v1 u j \<longrightarrow> known_as ops v2 u j"
    using Cons.IH [of v1] Cons.prems(1,3) 1(3,4) room by auto
  have "\<forall>k<length (t # ts). known_as ops v2 ((t # ts) ! k) ((i # ids) ! k)"
    using 1(2) 2(5,6) by (auto simp: less_Suc_eq_0_disj)
  then show ?case using 1 2 by (intro exI [of _ v2] exI [of _ "i # ids"]) simp
qed (auto intro: exI [of _ "[]"])

lemma internalize_round_trip:
  assumes ok: "ok st" and ts: "\<forall>t\<in>set ts. wf_term t" "length ts \<le> 2 ^ 60"
  shows "\<exists>v ids. internalize_all ops ts (new_view st c) = (v, map Inr ids) \<and> length ids = length ts
    \<and> (\<forall>k<length ts. snd (externalize_term ops (ids ! k) v) = Inr (ts ! k)
        \<and> (\<forall>j<length ts. ids ! j = ids ! k \<longleftrightarrow> ts ! j = ts ! k))"
proof -
  obtain v ids where v: "internalize_all ops ts (new_view st c) = (v, map Inr ids)" "length ids = length ts" "view_ok ops v" "vw_store v = st"
    "\<forall>k<length ts. known_as ops v (ts ! k) (ids ! k)"
    using internalize_all_known [of "new_view st c" ts] ok ts by auto
  have e: "snd (externalize_term ops (ids ! k) v) = Inr (ts ! k)" if "k < length ts" for k
    using externalize_known [of v] ok v ts(1) that by simp
  have "ids ! j = ids ! k \<longleftrightarrow> ts ! j = ts ! k" if "j < length ts" "k < length ts" for j k
  proof
    show "ids ! j = ids ! k \<Longrightarrow> ts ! j = ts ! k" using e [OF that(1)] e [OF that(2)] by simp
    show "ts ! j = ts ! k \<Longrightarrow> ids ! j = ids ! k"
      using known_as_functional [of ops v "ts ! k" "ids ! j" "ids ! k"] v(5) that by auto
  qed
  with v e show ?thesis by blast
qed

end

section \<open>Views in use\<close>

inductive view_reach :: "'s storage_ops \<Rightarrow> 's \<Rightarrow> compiled_policy \<Rightarrow> 's dataset_view \<Rightarrow> bool" for ops st c where
  Open: "view_reach ops st c (new_view st c)"
| Internalize: "view_reach ops st c v \<Longrightarrow> view_reach ops st c (fst (internalize_term ops t v))"
| Decode: "view_reach ops st c v \<Longrightarrow> view_reach ops st c (fst (view_decode_term ops i v))"
| Scan: "view_reach ops st c v \<Longrightarrow> view_reach ops st c (fst (internal_quads_for_pattern ops pressure s p x g v))"
| SpanScan: "view_reach ops st c v \<Longrightarrow> view_reach ops st c (fst (view_quads_with_object_in ops pressure s p span f v))"

lemma internalize_keeps:
  assumes v: "view_ok ops v"
  shows "view_ok ops (fst (internalize_term ops t v)) \<and> vw_store (fst (internalize_term ops t v)) = vw_store v
    \<and> vw_policy (fst (internalize_term ops t v)) = vw_policy v"
proof (cases "\<exists>r. op_lookup ops (vw_store v) t = Inr r \<and> eph_count v < 2 ^ 60")
  case True
  then obtain r where "op_lookup ops (vw_store v) t = Inr r" "eph_count v < 2 ^ 60" by blast
  then obtain v' i where "internalize_term ops t v = (v', Inr i)" "view_ok ops v'" "vw_store v' = vw_store v" "vw_policy v' = vw_policy v"
    by (rule internalize_known [OF v]) blast
  then show ?thesis by simp
next
  case False
  show ?thesis
  proof (cases "op_lookup ops (vw_store v) t")
    case (Inr r)
    then have "length (eph_terms (vw_ephemeral v)) = 2 ^ 60" using False v by (auto simp: eph_count_def view_ok_def dense_def)
    then have "PAYLOAD_MASK < word_of_nat (length (eph_terms (vw_ephemeral v)))"
      by (simp add: not_le [symmetric] payload_le_iff)
    then have "fst (internalize_term ops t v) = v"
      using Inr by (auto simp: internalize_term_def intern_ephemeral_def Let_def split: option.splits)
    with v show ?thesis by simp
  qed (use v in \<open>simp add: internalize_term_def\<close>)
qed

lemma scan_keeps:
  assumes v: "view_ok ops v"
  shows "view_ok ops (fst (internal_quads_for_pattern ops pressure s p x g v)) \<and> vw_store (fst (internal_quads_for_pattern ops pressure s p x g v)) = vw_store v
      \<and> vw_policy (fst (internal_quads_for_pattern ops pressure s p x g v)) = vw_policy v"
    "view_ok ops (fst (view_quads_with_object_in ops pressure s p span f v)) \<and> vw_store (fst (view_quads_with_object_in ops pressure s p span f v)) = vw_store v
      \<and> vw_policy (fst (view_quads_with_object_in ops pressure s p span f v)) = vw_policy v"
  using v by (simp_all add: internal_quads_for_pattern_def view_quads_with_object_in_def view_ok_def Let_def decide_all_keeps split: option.splits)

lemma view_reach_ok: "view_reach ops st c v \<Longrightarrow> view_ok ops v \<and> vw_store v = st \<and> vw_policy v = c"
proof (induction rule: view_reach.induct)
  case (Internalize v t)
  then show ?case using internalize_keeps [of ops v t] by simp
next
  case (Decode v i)
  then show ?case using decode_keeps [of ops v i] by simp
next
  case (Scan v pressure s p x g)
  then show ?case using scan_keeps(1) [of ops v pressure s p x g] by simp
next
  case (SpanScan v pressure s p span f)
  then show ?case using scan_keeps(2) [of ops v pressure s p span f] by simp
qed simp

section \<open>The in-memory tier\<close>

lemma lookup_tag:
  assumes "xsd_lib_ok X" "wf_term t" "dict_lookup X d t = Inr (Some i)"
  shows "id_tag i \<noteq> TagEphemeral"
proof -
  have node: "id_tag i \<noteq> TagEphemeral" if "lookup_node d n = Inr (Some i)" for n i
    using that encode_iri_ok by (auto simp: lookup_simps dest: new_id_tag split: node.splits) fastforce
  show ?thesis
  proof (cases t)
    case (Literal l)
    show ?thesis
    proof (cases "encode_literal X l")
      case (Some r)
      obtain j where "r = Inr j" "id_tag j \<in> {TagInteger, TagFloat, TagDateTime, TagSmall}"
        by (rule inline_exact [OF assms(1) _ Some]) (use Literal assms(2) in auto)
      then show ?thesis using Literal Some assms(3) by (auto simp: or_found_iff)
    qed (use Literal assms(3) in \<open>auto simp: or_found_iff found_id_iff dest: new_id_tag\<close>)
  next
    case (Triple a p x)
    then obtain k where "found_id TagTripleTerm (triple_term_index d k) = Inr (Some i)"
      using assms(3) by (auto split: sum.splits option.splits)
    then show ?thesis by (auto simp: found_id_iff dest: new_id_tag)
  qed (use assms(3) node in auto)
qed

interpretation mread: readable_storage "memory_ops X" "mem_store_ok X" mem_view for X
proof
  fix st s p span g t i assume ok: "mem_store_ok X st"
  then have ix: "mem_index_ok st" by (simp add: mem_store_ok_def)
  show "scan_returns (op_quads_with_object_in (memory_ops X) st s p span g)
      {q \<in> fst (mem_view st). quad_matches s p None g q \<and> span_contains span (enc_object q)}"
    using mem.span_exact [OF ix] by (simp add: memory_ops_def)
  have "distinct (graphs (ms_index st))" using ix by (auto simp: mem_index_ok_def index_ok_def btree_ok_distinct)
  then show "\<exists>gs. op_named_graphs (memory_ops X) st = Inr gs \<and> distinct gs \<and> set gs = snd (mem_view st)"
    by (simp add: memory_ops_def mem_named_graphs_def index_named_graphs_def mem_view_def index_view_def index_graphs_def)
  show "wf_term t \<Longrightarrow> op_lookup (memory_ops X) st t = Inr (Some i) \<Longrightarrow> id_tag i \<noteq> TagEphemeral"
    using ok lookup_tag [of X t "ms_dictionary st" i] by (simp add: memory_ops_def mem_lookup_def mem_store_ok_def)
qed

section \<open>Properties\<close>

lemma reads_govern_skips:
  assumes "compile ops st po p = Inr c" "\<forall>r\<in>set (po_rules po). modes_contains (ru_modes r) READ"
  shows "skips_soundly c"
  unfolding skips_soundly_def using wholly_denied_unreadable [OF assms] by blast

lemma history_states:
  assumes "xsd_lib_ok X" "\<forall>w\<in>set ws. wf_write w" "sum_list (map write_cost ws) \<le> 2 ^ 60" "st = fst (rdf_run (memory_ops X) ws store_new)"
  shows "mem_store_ok X st" "decodable (memory_ops X) mem_view st" "rdf_quads (memory_ops X) mem_view st = fst (fst (rdf_spec_run ws ({}, {})))"
  using history_ok [OF assms(1-3)] assms(4) by (auto simp: rdf_view_def) (metis fst_conv)+

text \<open>A store holding one quad, and the policy that permits everything.\<close>

definition one_quad :: memory_storage where
  "one_quad = fst (rdf_run (memory_ops demo_lib) [PutQuad sample_quad] store_new)"

lemma one_quad_facts:
  "\<forall>w\<in>set [PutQuad sample_quad]. wf_write w" "sum_list (map write_cost [PutQuad sample_quad]) \<le> 2 ^ 60"
  "wf_policy policy_permit_all" "mem_store_ok demo_lib one_quad" "decodable (memory_ops demo_lib) mem_view one_quad"
  "rdf_quads (memory_ops demo_lib) mem_view one_quad = {sample_quad}"
  "policy_decides policy_permit_all anonymous sample_quad READ = AllowIt"
  "po_semantics policy_permit_all = Filter" "\<forall>r\<in>set (po_rules policy_permit_all). modes_contains (ru_modes r) READ"
proof -
  show wf: "\<forall>w\<in>set [PutQuad sample_quad]. wf_write w" by code_simp
  show c: "sum_list (map write_cost [PutQuad sample_quad]) \<le> 2 ^ 60" by (simp add: quad_cost_def sample_quad_def)
  note h = history_states [OF demo_lib_ok wf c one_quad_def]
  show "mem_store_ok demo_lib one_quad" "decodable (memory_ops demo_lib) mem_view one_quad" by (rule h)+
  show "rdf_quads (memory_ops demo_lib) mem_view one_quad = {sample_quad}" using h(3) by simp
  show "wf_policy policy_permit_all" "policy_decides policy_permit_all anonymous sample_quad READ = AllowIt" by code_simp+
  show "po_semantics policy_permit_all = Filter" "\<forall>r\<in>set (po_rules policy_permit_all). modes_contains (ru_modes r) READ"
    by (simp_all add: policy_permit_all_def default_policy_def)
qed

lemma one_quad_compiled: "\<exists>c. compile (memory_ops demo_lib) one_quad policy_permit_all anonymous = Inr c"
  using mstore.compile_total [OF one_quad_facts(4,3)] .

lemma one_quad_scans:
  assumes c: "compile (memory_ops demo_lib) one_quad policy_permit_all anonymous = Inr c"
  shows "\<exists>e. Inr e \<in> set (snd (internal_quads_for_pattern (memory_ops demo_lib) (\<lambda>_. None) None None None None (new_view one_quad c)))"
proof -
  obtain e where e: "wf_quad sample_quad" "e \<in> fst (mem_view one_quad)" "encodes (memory_ops demo_lib) one_quad sample_quad e"
    using one_quad_facts(6) by (auto simp: rdf_quads_def)
  have "permits_quad c e READ"
    using mstore.compile_decides [OF one_quad_facts(4,3) e(1) c e(3), of READ] one_quad_facts(7) by (simp add: permits_quad_def)
  moreover have "enc_graph e \<noteq> None" using mstore.encodes_default_graph [OF e(3)] by (simp add: sample_quad_def)
  then have "quad_matches None None None (pattern_filter None) e" by (simp add: quad_matches_def graph_matches_def pattern_filter_def)
  moreover have "cp_semantics c = Filter" using compile_slots(6) [OF c] one_quad_facts(8) by simp
  with mread.pattern_scan_shows [of demo_lib "new_view one_quad c" "\<lambda>_. None" None None None None] one_quad_facts(4)
  have "view_returns (snd (internal_quads_for_pattern (memory_ops demo_lib) (\<lambda>_. None) None None None None (new_view one_quad c)))
      {q \<in> {q \<in> fst (mem_view one_quad). quad_matches None None None (pattern_filter None) q}. permits_quad c q READ \<and> \<not> skipped c (pattern_filter None)}"
    by (auto dest: view_shows_filter)
  moreover have "\<not> skipped c (pattern_filter None)" by (simp add: skipped_def pattern_filter_def)
  ultimately show ?thesis using e(2) by (auto simp: view_member)
qed

text \<open>
  C3. Nothing a policy withholds can be read through a view. After any history of writes, for any policy
  and principal, however the view was used before and whatever the allocator reports, every quad that
  a pattern scan or a span-bounded scan yields is a stored quad, and it decodes to an RDF quad the policy
  allows this principal to read.
\<close>

theorem view_no_leak:
  assumes "xsd_lib_ok X" "\<forall>w\<in>set ws. wf_write w" "sum_list (map write_cost ws) \<le> 2 ^ 60" "st = fst (rdf_run (memory_ops X) ws store_new)"
    and "wf_policy po" "compile (memory_ops X) st po pr = Inr c" "view_reach (memory_ops X) st c v"
    and "Inr e \<in> set (snd (internal_quads_for_pattern (memory_ops X) pressure s p x g v))
          \<union> set (snd (view_quads_with_object_in (memory_ops X) pressure s p span f v))"
  shows "\<exists>q. decode_quad (memory_ops X) st e = Inr q \<and> q \<in> fst (fst (rdf_spec_run ws ({}, {}))) \<and> policy_decides po pr q READ = AllowIt"
proof -
  note h = history_states [OF assms(1-4)]
  have v: "vw_store v = st" "vw_policy v = c" using view_reach_ok [OF assms(7)] by simp_all
  have "e \<in> fst (mem_view st)" and perm: "permits_quad c e READ"
    using assms(8) mread.scans_only_permitted [of X v e] h(1) v by auto
  then obtain q where q: "wf_quad q" "encodes (memory_ops X) st q e" using h(2) by (auto simp: decodable_def)
  have "decode_quad (memory_ops X) st e = Inr q" by (rule mstore.decode_encodes [OF h(1) q])
  moreover have "q \<in> fst (fst (rdf_spec_run ws ({}, {})))"
    using q \<open>e \<in> fst (mem_view st)\<close> unfolding h(3) [symmetric] rdf_quads_def by blast
  moreover have "policy_decides po pr q READ = AllowIt"
    using mstore.compile_decides [OF h(1) assms(5) q(1) assms(6) q(2), of READ] perm by (simp add: permits_quad_def)
  ultimately show ?thesis by blast
qed

theorem view_no_leak_witness:
  "\<exists>c e. compile (memory_ops demo_lib) one_quad policy_permit_all anonymous = Inr c
    \<and> Inr e \<in> set (snd (internal_quads_for_pattern (memory_ops demo_lib) (\<lambda>_. None) None None None None (new_view one_quad c)))
    \<and> decode_quad (memory_ops demo_lib) one_quad e = Inr sample_quad"
proof -
  obtain c where c: "compile (memory_ops demo_lib) one_quad policy_permit_all anonymous = Inr c" using one_quad_compiled ..
  obtain e where e: "Inr e \<in> set (snd (internal_quads_for_pattern (memory_ops demo_lib) (\<lambda>_. None) None None None None (new_view one_quad c)))"
    using one_quad_scans [OF c] ..
  have "\<exists>q. decode_quad (memory_ops demo_lib) one_quad e = Inr q \<and> q \<in> fst (fst (rdf_spec_run [PutQuad sample_quad] ({}, {})))
      \<and> policy_decides policy_permit_all anonymous q READ = AllowIt"
    by (rule view_no_leak [OF demo_lib_ok one_quad_facts(1,2) one_quad_def one_quad_facts(3) c view_reach.Open UnI1]) (rule e)
  with c e show ?thesis by auto
qed

text \<open>
  C4. What a view makes visible is the sub-dataset the policy allows, for every policy. Listing the whole
  dataset or one graph after any history of writes returns, under filter semantics, exactly the stored quads
  (of that graph) the policy allows the principal to read, each once; under fail semantics all of them or a
  refusal if there is one that may not be read. The one exception is a named graph reported as wholly
  denied, whose listing is empty, or refused, without a scan; when every rule governs reading, the exception
  loses nothing, because no quad of such a graph may be read.
\<close>

theorem visible_sub_dataset:
  assumes "xsd_lib_ok X" "\<forall>w\<in>set ws. wf_write w" "sum_list (map write_cost ws) \<le> 2 ^ 60" "st = fst (rdf_run (memory_ops X) ws store_new)"
    and "wf_policy po" "compile (memory_ops X) st po pr = Inr c" "\<forall>g\<in>set_option graph. wf_graph g"
    and "Q = {q \<in> fst (fst (rdf_spec_run ws ({}, {}))). \<forall>g\<in>set_option graph. q_graph q = g}"
  shows "(if hidden_graph (memory_ops X) st c graph
      then snd (visible_quads (memory_ops X) graph (new_view st c)) = (case po_semantics po of Filter \<Rightarrow> Inr [] | Fail \<Rightarrow> Inl AccessDenied)
      else shows_quads po pr Q (snd (visible_quads (memory_ops X) graph (new_view st c))))
    \<and> ((\<forall>r\<in>set (po_rules po). modes_contains (ru_modes r) READ) \<and> hidden_graph (memory_ops X) st c graph
        \<longrightarrow> (\<forall>q\<in>Q. policy_decides po pr q READ \<noteq> AllowIt))"
proof (intro conjI impI)
  note h = history_states [OF assms(1-4)]
  show "if hidden_graph (memory_ops X) st c graph
      then snd (visible_quads (memory_ops X) graph (new_view st c)) = (case po_semantics po of Filter \<Rightarrow> Inr [] | Fail \<Rightarrow> Inl AccessDenied)
      else shows_quads po pr Q (snd (visible_quads (memory_ops X) graph (new_view st c)))"
    by (rule mread.visible_quads_exact [of X "new_view st c" po graph pr, unfolded new_view_ok(3,4), OF h(1,2) assms(5,7,6), unfolded h(3), folded assms(8)])
  assume a: "(\<forall>r\<in>set (po_rules po). modes_contains (ru_modes r) READ) \<and> hidden_graph (memory_ops X) st c graph"
  then show "\<forall>q\<in>Q. policy_decides po pr q READ \<noteq> AllowIt"
    using mread.hidden_unreadable [OF h(1) assms(5,7,6)] reads_govern_skips [OF assms(6)] assms(8) by (simp add: h(3))
qed

theorem visible_sub_dataset_witness:
  "\<exists>c. compile (memory_ops demo_lib) one_quad policy_permit_all anonymous = Inr c
    \<and> snd (visible_quads (memory_ops demo_lib) (Some (GraphNamed ''urn:g'')) (new_view one_quad c)) = Inr [sample_quad]"
proof -
  let ?Q = "{q \<in> fst (fst (rdf_spec_run [PutQuad sample_quad] ({}, {}))). \<forall>g\<in>set_option (Some (GraphNamed ''urn:g'')). q_graph q = g}"
  obtain c where c: "compile (memory_ops demo_lib) one_quad policy_permit_all anonymous = Inr c" using one_quad_compiled ..
  have g: "\<forall>g\<in>set_option (Some (GraphNamed ''urn:g'')). wf_graph g" by code_simp
  note v = visible_sub_dataset [OF demo_lib_ok one_quad_facts(1,2) one_quad_def one_quad_facts(3) c g refl]
  have Q: "?Q = {sample_quad}" by (auto simp: sample_quad_def)
  then have "\<not> hidden_graph (memory_ops demo_lib) one_quad c (Some (GraphNamed ''urn:g''))"
    using v one_quad_facts(7,9) by auto
  with v have "shows_quads policy_permit_all anonymous ?Q (snd (visible_quads (memory_ops demo_lib) (Some (GraphNamed ''urn:g'')) (new_view one_quad c)))"
    by simp
  then obtain qs where qs: "snd (visible_quads (memory_ops demo_lib) (Some (GraphNamed ''urn:g'')) (new_view one_quad c)) = Inr qs" "distinct qs"
    "set qs = {q \<in> ?Q. policy_decides policy_permit_all anonymous q READ = AllowIt}"
    unfolding shows_quads_def one_quad_facts(8) by auto
  have "set qs = {sample_quad}" unfolding qs(3) Q using one_quad_facts(7) by auto
  with qs(2) have "qs = [sample_quad]" by (cases qs; cases "tl qs") auto
  with qs(1) c show ?thesis by auto
qed

text \<open>
  C24. Query terms the store does not know get identifiers of their own: interning any list of terms in a
  fresh view succeeds, each identifier reads back as its term, and two terms share an identifier exactly
  when they are equal, be they known to the store or not.
\<close>

theorem query_term_round_trip:
  assumes "mem_store_ok X st" "\<forall>t\<in>set ts. wf_term t" "length ts \<le> 2 ^ 60"
  shows "\<exists>v ids. internalize_all (memory_ops X) ts (new_view st c) = (v, map Inr ids) \<and> length ids = length ts
    \<and> (\<forall>k<length ts. snd (externalize_term (memory_ops X) (ids ! k) v) = Inr (ts ! k)
        \<and> (\<forall>j<length ts. ids ! j = ids ! k \<longleftrightarrow> ts ! j = ts ! k))"
  using assms by (rule mread.internalize_round_trip)

theorem query_term_round_trip_witness:
  "\<exists>v ids. internalize_all (memory_ops demo_lib) [BlankNode ''x'', BlankNode ''y'', BlankNode ''x''] (new_view store_new compiled_permit_all) = (v, map Inr ids)
    \<and> ids ! 0 = ids ! 2 \<and> ids ! 0 \<noteq> ids ! 1 \<and> snd (externalize_term (memory_ops demo_lib) (ids ! 1) v) = Inr (BlankNode ''y'')"
proof -
  let ?ts = "[BlankNode ''x'', BlankNode ''y'', BlankNode ''x'']"
  have ok: "mem_store_ok demo_lib store_new" using new_store_ok [OF demo_lib_ok] by simp
  have wf: "\<forall>t\<in>set ?ts. wf_term t" by code_simp
  have len: "length ?ts \<le> 2 ^ 60" by simp
  obtain v ids where v: "internalize_all (memory_ops demo_lib) ?ts (new_view store_new compiled_permit_all) = (v, map Inr ids)"
    and k: "\<forall>k<length ?ts. snd (externalize_term (memory_ops demo_lib) (ids ! k) v) = Inr (?ts ! k)
        \<and> (\<forall>j<length ?ts. ids ! j = ids ! k \<longleftrightarrow> ?ts ! j = ?ts ! k)"
    using query_term_round_trip [OF ok wf len, of compiled_permit_all] by blast
  have "ids ! 0 = ids ! 2" "ids ! 0 \<noteq> ids ! 1" using k [rule_format, of 2] k [rule_format, of 1] by auto
  moreover have "snd (externalize_term (memory_ops demo_lib) (ids ! 1) v) = Inr (BlankNode ''y'')" using k [rule_format, of 1] by simp
  ultimately show ?thesis using v by blast
qed

text \<open>
  The decode cache is invisible: in any view, however it was used and however often the cache was
  emptied, decoding an identifier of the store through the view gives what the store gives.
\<close>

lemma decode_cache_transparent:
  assumes "view_reach ops st c v" "id_tag i \<noteq> TagEphemeral"
  shows "snd (view_decode_term ops i v) = from_storage (op_decode ops st i)"
  using decode_cached [OF _ assms(2), of ops v] view_reach_ok [OF assms(1)] by simp

text \<open>
  C9. Every scan through a view shows what the policy permits, for every policy and both semantics, as long
  as no memory ceiling is reached. Pattern scans and span-bounded scans show each matching quad that may be read once,
  and drop (filter) or refuse (fail) each that may not; a scan of one named graph that is reported as wholly
  denied is empty, or refused, and the listing of named graphs leaves that graph out. When every rule governs
  reading, nothing readable is lost that way: filtering scans return exactly the matching readable quads and
  the listing exactly the graphs that hold one.
\<close>

theorem view_scans_exact:
  assumes "mem_store_ok X st" "compile (memory_ops X) st po pr = Inr c" "\<forall>k. pressure k = None" "view_reach (memory_ops X) st c v"
    and "P = {q \<in> fst (mem_view st). quad_matches s p x (pattern_filter g) q}"
    and "S = {q \<in> fst (mem_view st). quad_matches s p None f q \<and> span_contains span (enc_object q)}"
  shows "view_shows c (pattern_filter g) P (snd (internal_quads_for_pattern (memory_ops X) pressure s p x g v))
    \<and> view_shows c f S (snd (view_quads_with_object_in (memory_ops X) pressure s p span f v))
    \<and> (\<exists>gs. internal_named_graphs (memory_ops X) v = map Inr gs \<and> distinct gs
        \<and> set gs = {i \<in> snd (mem_view st). \<not> graph_is_wholly_denied c (Some i) \<and> (\<exists>q\<in>fst (mem_view st). enc_graph q = Some i \<and> permits_quad c q READ)})
    \<and> ((\<forall>r\<in>set (po_rules po). modes_contains (ru_modes r) READ) \<longrightarrow>
        (po_semantics po = Filter \<longrightarrow>
          view_returns (snd (internal_quads_for_pattern (memory_ops X) pressure s p x g v)) {q \<in> P. permits_quad c q READ}
          \<and> view_returns (snd (view_quads_with_object_in (memory_ops X) pressure s p span f v)) {q \<in> S. permits_quad c q READ})
        \<and> (\<forall>i q. enc_graph q = Some i \<and> permits_quad c q READ \<longrightarrow> \<not> graph_is_wholly_denied c (Some i)))"
proof (intro conjI impI)
  have v: "vw_store v = st" "vw_policy v = c" using view_reach_ok [OF assms(4)] by simp_all
  show pat: "view_shows c (pattern_filter g) P (snd (internal_quads_for_pattern (memory_ops X) pressure s p x g v))"
    using mread.pattern_scan_shows [of X v pressure g s p x] v assms(1,3,5) by simp
  show span: "view_shows c f S (snd (view_quads_with_object_in (memory_ops X) pressure s p span f v))"
    using mread.span_scan_shows [of X v pressure f s p span] v assms(1,3,6) by simp
  obtain gs where gs: "op_named_graphs (memory_ops X) st = Inr gs" "distinct gs" "set gs = snd (mem_view st)"
    using mread.graphs_exact [OF assms(1)] by blast
  then show "\<exists>gs. internal_named_graphs (memory_ops X) v = map Inr gs \<and> distinct gs
        \<and> set gs = {i \<in> snd (mem_view st). \<not> graph_is_wholly_denied c (Some i) \<and> (\<exists>q\<in>fst (mem_view st). enc_graph q = Some i \<and> permits_quad c q READ)}"
    using mread.graphs_loop_exact [of X v gs] v assms(1) by (simp add: internal_named_graphs_def visible_named_graphs_def)
  assume "\<forall>r\<in>set (po_rules po). modes_contains (ru_modes r) READ"
  then have skip: "skips_soundly c" by (rule reads_govern_skips [OF assms(2)])
  show "\<forall>i q. enc_graph q = Some i \<and> permits_quad c q READ \<longrightarrow> \<not> graph_is_wholly_denied c (Some i)"
    using skip by (auto simp: skips_soundly_def)
  assume "po_semantics po = Filter"
  then have sem: "cp_semantics c = Filter" using compile_slots(6) [OF assms(2)] by simp
  have "{q \<in> P. permits_quad c q READ \<and> \<not> skipped c (pattern_filter g)} = {q \<in> P. permits_quad c q READ}"
    "{q \<in> S. permits_quad c q READ \<and> \<not> skipped c f} = {q \<in> S. permits_quad c q READ}"
    using skipped_nothing [OF skip] by (auto simp: assms(5,6))
  with view_shows_filter [OF pat sem] view_shows_filter [OF span sem]
  show "view_returns (snd (internal_quads_for_pattern (memory_ops X) pressure s p x g v)) {q \<in> P. permits_quad c q READ}"
    "view_returns (snd (view_quads_with_object_in (memory_ops X) pressure s p span f v)) {q \<in> S. permits_quad c q READ}" by simp_all
qed

theorem view_scans_exact_witness:
  "\<exists>c. compile (memory_ops demo_lib) one_quad policy_permit_all anonymous = Inr c
    \<and> view_returns (snd (internal_quads_for_pattern (memory_ops demo_lib) (\<lambda>_. None) None None None None (new_view one_quad c)))
      {q \<in> {q \<in> fst (mem_view one_quad). quad_matches None None None FilterAnyNamed q}. permits_quad c q READ}"
proof -
  obtain c where c: "compile (memory_ops demo_lib) one_quad policy_permit_all anonymous = Inr c" using one_quad_compiled ..
  have calm: "\<forall>k. (\<lambda>_ :: nat. None :: (nat \<times> nat) option) k = None" by simp
  show ?thesis
    using view_scans_exact [OF one_quad_facts(4) c calm view_reach.Open refl refl, of None None None None FilterAny] one_quad_facts(8,9) c
    by (auto simp: pattern_filter_def)
qed

text \<open>
  C39. Denying a graph in any mode hides it from readers who ask for it by name. If one rule denies a graph to the
  principal, in whatever modes, and every rule that allows the principal something is about everything or about
  one named graph, then under filter semantics
  listing that graph is empty and so is every scan of it, whatever may be read; yet a listing of the whole
  dataset still shows each quad of the graph that the policy allows the principal to read.
\<close>

theorem denied_graph_hidden:
  assumes "xsd_lib_ok X" "\<forall>w\<in>set ws. wf_write w" "sum_list (map write_cost ws) \<le> 2 ^ 60" "st = fst (rdf_run (memory_ops X) ws store_new)"
    and "wf_policy po" "compile (memory_ops X) st po pr = Inr c" "po_semantics po = Filter"
    and "r \<in> set (po_rules po)" "matches (ru_applies_to r) pr" "ru_effect r = Deny" "ru_scope r = Graph g"
    and "\<forall>r\<in>set (po_rules po). matches (ru_applies_to r) pr \<and> ru_effect r = Allow \<longrightarrow> ru_scope r = Everything \<or> (\<exists>g. ru_scope r = Graph g)"
    and "op_lookup (memory_ops X) st (NamedNode g) = Inr (Some i)" "view_reach (memory_ops X) st c v"
  shows "snd (visible_quads (memory_ops X) (Some (GraphNamed g)) (new_view st c)) = Inr []
    \<and> snd (internal_quads_for_pattern (memory_ops X) pressure s p x (Some (Some i)) v) = []
    \<and> (\<exists>qs. snd (visible_quads (memory_ops X) None (new_view st c)) = Inr qs
        \<and> (\<forall>q. q \<in> fst (fst (rdf_spec_run ws ({}, {}))) \<and> policy_decides po pr q READ = AllowIt \<longrightarrow> q \<in> set qs))"
proof (intro conjI)
  note h = history_states [OF assms(1-4)]
  have denied: "graph_is_wholly_denied c (Some i)" by (rule denied_in_any_mode [OF assms(6,8-11,13,12)])
  have sem: "cp_semantics c = Filter" using compile_slots(6) [OF assms(6)] assms(7) by simp
  show "snd (visible_quads (memory_ops X) (Some (GraphNamed g)) (new_view st c)) = Inr []"
    using assms(13) denied sem by (simp add: visible_quads_def)
  have v: "vw_policy v = c" using view_reach_ok [OF assms(14)] by simp
  show "snd (internal_quads_for_pattern (memory_ops X) pressure s p x (Some (Some i)) v) = []"
    using denied sem by (simp add: internal_quads_for_pattern_def pattern_filter_def denied_graph_def v)
  show "\<exists>qs. snd (visible_quads (memory_ops X) None (new_view st c)) = Inr qs
        \<and> (\<forall>q. q \<in> fst (fst (rdf_spec_run ws ({}, {}))) \<and> policy_decides po pr q READ = AllowIt \<longrightarrow> q \<in> set qs)"
    using mread.visible_quads_exact [of X "new_view st c" po None pr] h assms(5-7) by (auto simp: hidden_graph_def shows_quads_def)
qed

text \<open>A policy that lets everyone read everything and nobody write one graph.\<close>

definition read_only_graph :: policy where
  "read_only_graph = default_policy\<lparr>po_rules := [allow READ Everything Everyone, deny WRITE (Graph ''urn:g'') Everyone]\<rparr>"

theorem denied_graph_hidden_witness:
  "\<exists>c. compile (memory_ops demo_lib) one_quad read_only_graph anonymous = Inr c
    \<and> policy_decides read_only_graph anonymous sample_quad READ = AllowIt
    \<and> snd (visible_quads (memory_ops demo_lib) (Some (GraphNamed ''urn:g'')) (new_view one_quad c)) = Inr []
    \<and> (\<exists>qs. snd (visible_quads (memory_ops demo_lib) None (new_view one_quad c)) = Inr qs \<and> sample_quad \<in> set qs)"
proof -
  let ?r = "deny WRITE (Graph ''urn:g'') Everyone"
  have wf: "wf_policy read_only_graph" and allowed: "policy_decides read_only_graph anonymous sample_quad READ = AllowIt" by code_simp+
  obtain c where c: "compile (memory_ops demo_lib) one_quad read_only_graph anonymous = Inr c"
    using mstore.compile_total [OF one_quad_facts(4) wf] by blast
  have r: "?r \<in> set (po_rules read_only_graph)" "po_semantics read_only_graph = Filter" "matches (ru_applies_to ?r) anonymous" "ru_effect ?r = Deny"
    "ru_scope ?r = Graph ''urn:g''" "\<forall>r\<in>set (po_rules read_only_graph). matches (ru_applies_to r) anonymous \<and> ru_effect r = Allow
      \<longrightarrow> ru_scope r = Everything \<or> (\<exists>g. ru_scope r = Graph g)"
    by (simp_all add: read_only_graph_def default_policy_def allow_def deny_def)
  obtain e where e: "encodes (memory_ops demo_lib) one_quad sample_quad e" using one_quad_facts(6) by (auto simp: rdf_quads_def)
  then obtain i where i: "op_lookup (memory_ops demo_lib) one_quad (NamedNode ''urn:g'') = Inr (Some i)"
    by (auto simp: encodes_iff names_iff sample_quad_def)
  note hidden = denied_graph_hidden [OF demo_lib_ok one_quad_facts(1,2) one_quad_def wf c r(2,1,3-6) i view_reach.Open]
  have "sample_quad \<in> fst (fst (rdf_spec_run [PutQuad sample_quad] ({}, {})))" by simp
  with hidden allowed c show ?thesis by blast
qed

end
