(* ===== verification/Range_Bounds.thy ===== *)
theory Range_Bounds
  imports Dataset_View
begin

text \<open>
  Range pushdown of \<^verbatim>\<open>holos-engine/src/range.rs\<close>: reading a comparison of one variable with one
  constant out of a filter, and the spans of identifiers a scan has to read to find every object that can
  satisfy it. A span may admit too much and should never admit too little. What the spans admit is
  characterised by the values of the literals: own-datatype literals by their order, in which minus zero comes just
  below plus zero, so that the spans leave out one of the two zeros of \<open>xsd:float\<close> where its value satisfies the comparison.

  Expressions are those of the query parser, reduced to the constructors the source distinguishes;
  \<open>OtherExpr\<close> stands for all others.
\<close>

section \<open>Comparisons\<close>

datatype bound = BoundGreater | BoundGreaterOrEqual | BoundLess | BoundLessOrEqual

fun flipped :: "bound \<Rightarrow> bound" where
  "flipped BoundGreater = BoundLess"
| "flipped BoundGreaterOrEqual = BoundLessOrEqual"
| "flipped BoundLess = BoundGreater"
| "flipped BoundLessOrEqual = BoundGreaterOrEqual"

datatype expression =
    ExprVariable string
  | ExprLiteral literal
  | ExprGreater expression expression
  | ExprGreaterOrEqual expression expression
  | ExprLess expression expression
  | ExprLessOrEqual expression expression
  | ExprUnaryPlus expression
  | ExprUnaryMinus expression
  | OtherExpr

record comparison =
  cmp_variable :: string
  cmp_bound :: bound
  cmp_value :: literal

definition negated :: "literal \<Rightarrow> literal option" where
  "negated l =
    (let datatype = lit_datatype l in
     if datatype = xsd_integer \<or> datatype = xsd_float then
       (let txt = lit_value l;
            flipped = (case txt of c # positive \<Rightarrow> if c = CHR ''-'' then positive else CHR ''-'' # txt
                       | [] \<Rightarrow> CHR ''-'' # txt)
        in Some (new_typed_literal flipped datatype))
     else None)"

fun constant_of :: "expression \<Rightarrow> literal option" where
  "constant_of (ExprLiteral l) = Some l"
| "constant_of (ExprUnaryPlus inner) = constant_of inner"
| "constant_of (ExprUnaryMinus inner) = Option.bind (constant_of inner) negated"
| "constant_of _ = None"

fun comparison_parts :: "expression \<Rightarrow> (bound \<times> expression \<times> expression) option" where
  "comparison_parts (ExprGreater a b) = Some (BoundGreater, a, b)"
| "comparison_parts (ExprGreaterOrEqual a b) = Some (BoundGreaterOrEqual, a, b)"
| "comparison_parts (ExprLess a b) = Some (BoundLess, a, b)"
| "comparison_parts (ExprLessOrEqual a b) = Some (BoundLessOrEqual, a, b)"
| "comparison_parts _ = None"

definition comparison_of :: "expression \<Rightarrow> comparison option" where
  "comparison_of e =
    (case comparison_parts e of
       None \<Rightarrow> None
     | Some (b, left, right) \<Rightarrow>
         (case left of
            ExprVariable v \<Rightarrow> map_option (\<lambda>k. \<lparr>cmp_variable = v, cmp_bound = b, cmp_value = k\<rparr>) (constant_of right)
          | _ \<Rightarrow> (case right of
              ExprVariable v \<Rightarrow> map_option (\<lambda>k. \<lparr>cmp_variable = v, cmp_bound = flipped b, cmp_value = k\<rparr>) (constant_of left)
            | _ \<Rightarrow> None)))"

section \<open>Spans\<close>

definition ordered_tag :: "literal \<Rightarrow> tag option" where
  "ordered_tag l =
    (let datatype = lit_datatype l in
     if datatype = xsd_integer then Some TagInteger
     else if datatype = xsd_float then Some TagFloat
     else if datatype = xsd_date_time then Some TagDateTime
     else None)"

definition next_up :: "term_id \<Rightarrow> term_id option res" where
  "next_up i = (if PAYLOAD_MAX \<le> id_payload i then Inr None else map_sum id Some (new_id (id_tag i) (id_payload i + 1)))"

definition next_down :: "term_id \<Rightarrow> term_id option res" where
  "next_down i = (if id_payload i = 0 then Inr None else map_sum id Some (new_id (id_tag i) (id_payload i - 1)))"

definition companions :: "tag \<Rightarrow> id_range list res" where
  "companions ordered =
    (case whole_tag TagLiteral of
       Inl e \<Rightarrow> Inl e
     | Inr lits \<Rightarrow>
         (case ordered of
            TagInteger \<Rightarrow> map_sum id (\<lambda>r. [lits, r]) (whole_tag TagFloat)
          | TagFloat \<Rightarrow> map_sum id (\<lambda>r. [lits, r]) (whole_tag TagInteger)
          | _ \<Rightarrow> Inr [lits]))"

definition ordered_span :: "bound \<Rightarrow> tag \<Rightarrow> term_id \<Rightarrow> id_range option res" where
  "ordered_span b ordered pivot =
    (case b of
       BoundGreater \<Rightarrow>
         (case next_up pivot of
            Inl e \<Rightarrow> Inl e
          | Inr None \<Rightarrow> Inr None
          | Inr (Some a) \<Rightarrow> map_sum id (\<lambda>z. Some \<lparr>first = a, last_id = z\<rparr>) (new_id ordered PAYLOAD_MAX))
     | BoundGreaterOrEqual \<Rightarrow> map_sum id (\<lambda>z. Some \<lparr>first = pivot, last_id = z\<rparr>) (new_id ordered PAYLOAD_MAX)
     | BoundLess \<Rightarrow>
         (case new_id ordered 0 of
            Inl e \<Rightarrow> Inl e
          | Inr a \<Rightarrow> map_sum id (map_option (\<lambda>z. \<lparr>first = a, last_id = z\<rparr>)) (next_down pivot))
     | BoundLessOrEqual \<Rightarrow> map_sum id (\<lambda>a. Some \<lparr>first = a, last_id = pivot\<rparr>) (new_id ordered 0))"

text \<open>A storage error of the lookup is \<open>None\<close> (\<open>ok()\<close>); a panic stays one.\<close>

definition lookup_ok :: "term_id option res \<Rightarrow> term_id option res" where
  "lookup_ok r = (case r of Inl (Panic m) \<Rightarrow> Inl (Panic m) | Inl _ \<Rightarrow> Inr None | Inr i \<Rightarrow> Inr i)"

definition spans :: "'s storage_ops \<Rightarrow> 's \<Rightarrow> comparison \<Rightarrow> id_range list option res" where
  "spans ops st c =
    (case ordered_tag (cmp_value c) of
       None \<Rightarrow> Inr None
     | Some ordered \<Rightarrow>
         (case lookup_ok (op_lookup ops st (Literal (cmp_value c))) of
            Inl e \<Rightarrow> Inl e
          | Inr None \<Rightarrow> Inr None
          | Inr (Some pivot) \<Rightarrow>
              if id_tag pivot \<noteq> ordered then Inr None
              else (case ordered_span (cmp_bound c) ordered pivot of
                  Inl e \<Rightarrow> Inl e
                | Inr None \<Rightarrow> Inr None
                | Inr (Some span) \<Rightarrow>
                    if span_is_empty span then map_sum id Some (companions ordered)
                    else map_sum id (\<lambda>out. Some (sort_key first (out @ [span]))) (companions ordered))))"

text \<open>The bounded probe of the bind join: the spans are read through the view one after another;
  what the allocator reports may differ from read to read.\<close>

fun bounded_probe :: "'s storage_ops \<Rightarrow> (nat \<Rightarrow> pressure) \<Rightarrow> term_id option \<Rightarrow> term_id option \<Rightarrow> id_range list \<Rightarrow> graph_filter
    \<Rightarrow> 's dataset_view \<Rightarrow> 's dataset_view \<times> encoded_quad vres list" where
  "bounded_probe ops pressure s p [] f v = (v, [])"
| "bounded_probe ops pressure s p (span # rest) f v =
    (case view_quads_with_object_in ops (pressure (length rest)) s p span f v of
       (v1, quads) \<Rightarrow> (case bounded_probe ops pressure s p rest f v1 of (v2, others) \<Rightarrow> (v2, quads @ others)))"

section \<open>What a comparison asks of a value\<close>

text \<open>
  The value of a literal of an ordered datatype, as a list of integers compared lexicographically: an
  integer, a scaled IEEE-754 value, or the fields of an instant.
\<close>

definition ordered_value :: "'dt xsd_lib \<Rightarrow> literal \<Rightarrow> int list option" where
  "ordered_value X l =
    (let v = lit_value l; datatype = lit_datatype l in
     if datatype = xsd_integer then map_option (\<lambda>n. [n]) (parse_i64 v)
     else if datatype = xsd_float then map_option (\<lambda>b. [f32_value b]) (float_parse X v)
     else if datatype = xsd_date_time then
       Option.bind (dt_parse X v) (\<lambda>d. map_option (\<lambda>s. [dt_year X d, dt_month X d, dt_day X d, dt_hour X d, dt_minute X d, s])
         (parse_i64 (dt_second X d)))
     else None)"

fun bound_holds :: "bound \<Rightarrow> 'a::linorder \<Rightarrow> 'a \<Rightarrow> bool" where
  "bound_holds BoundGreater x k \<longleftrightarrow> k < x"
| "bound_holds BoundGreaterOrEqual x k \<longleftrightarrow> k \<le> x"
| "bound_holds BoundLess x k \<longleftrightarrow> x < k"
| "bound_holds BoundLessOrEqual x k \<longleftrightarrow> x \<le> k"

text \<open>
  The two zeros of \<open>xsd:float\<close> have one value and two identifiers. \<open>value_rank\<close> is the value with minus zero put just
  below plus zero, which is how inline identifiers are ordered.
\<close>

definition minus_zero :: "'dt xsd_lib \<Rightarrow> literal \<Rightarrow> bool" where
  "minus_zero X l \<longleftrightarrow> lit_datatype l = xsd_float \<and> float_parse X (lit_value l) = Some 0x80000000"

definition plus_zero :: "'dt xsd_lib \<Rightarrow> literal \<Rightarrow> bool" where
  "plus_zero X l \<longleftrightarrow> lit_datatype l = xsd_float \<and> float_parse X (lit_value l) = Some 0"

definition value_rank :: "'dt xsd_lib \<Rightarrow> literal \<Rightarrow> (int list \<times> int) option" where
  "value_rank X l = map_option (\<lambda>v. (v, if minus_zero X l then 0 else 1)) (ordered_value X l)"

definition left_out :: "'dt xsd_lib \<Rightarrow> comparison \<Rightarrow> literal \<Rightarrow> bool" where
  "left_out X c l \<longleftrightarrow> cmp_bound c = BoundGreaterOrEqual \<and> minus_zero X l \<and> plus_zero X (cmp_value c)
    \<or> cmp_bound c = BoundLessOrEqual \<and> plus_zero X l \<and> minus_zero X (cmp_value c)"

text \<open>
  What a filter can keep, at most: an inline literal of the constant's datatype only if its value compares
  as asked, and any other inline literal only if both are numbers. Literals that are not inlined are not constrained.
\<close>

definition may_keep :: "'dt xsd_lib \<Rightarrow> comparison \<Rightarrow> literal \<Rightarrow> bool" where
  "may_keep X c l \<longleftrightarrow> encode_literal X l = None
    \<or> (if lit_datatype l = lit_datatype (cmp_value c)
        then (\<exists>x y. ordered_value X l = Some x \<and> ordered_value X (cmp_value c) = Some y \<and> bound_holds (cmp_bound c) x y)
        else {lit_datatype l, lit_datatype (cmp_value c)} = {xsd_integer, xsd_float})"

section \<open>Identifiers of one tag\<close>

lemma payload_max: "unat PAYLOAD_MAX = 2 ^ 60 - 1" "unat (0 :: u64) < 2 ^ 60" "unat PAYLOAD_MAX < 2 ^ 60"
  by (simp_all add: PAYLOAD_MAX_def PAYLOAD_MASK_def TAG_SHIFT_def)

lemma new_id_bounds:
  "new_id t 0 = Inr (tag_floor t)" "new_id t PAYLOAD_MAX = Inr (tag_ceil t)"
  by (simp_all add: new_id_def tag_floor_def tag_ceil_def PAYLOAD_MAX_def PAYLOAD_MASK_def)

lemma whole_tag_eq: "whole_tag t = Inr \<lparr>first = tag_floor t, last_id = tag_ceil t\<rparr>"
  by (simp add: whole_tag_def new_id_bounds)

lemma span_whole_tag: "t \<noteq> TagReserved \<Longrightarrow> span_contains \<lparr>first = tag_floor t, last_id = tag_ceil t\<rparr> i \<longleftrightarrow> id_tag i = t"
  using tag_range_iff by (simp add: span_contains_def)

lemma next_up_spec:
  assumes "id_tag i \<noteq> TagReserved"
  shows "next_up i = Inr None \<or> (\<exists>j. next_up i = Inr (Some j) \<and> id_tag j = id_tag i \<and> (\<forall>k. j \<le> k \<longleftrightarrow> i < k))"
proof (cases "PAYLOAD_MAX \<le> id_payload i")
  case False
  then have "unat (id_payload i) + 1 < 2 ^ 60" using payload_max by (simp add: word_le_nat_alt not_le)
  then have p: "unat (id_payload i + 1) = unat (id_payload i) + 1"
    by (simp add: unat_word_ariths)
  obtain j where j: "new_id (id_tag i) (id_payload i + 1) = Inr j"
    using new_id_ok [of "id_payload i + 1" "id_tag i"] p \<open>unat (id_payload i) + 1 < 2 ^ 60\<close> by metis
  have "raw_nat j = raw_nat i + 1"
    using new_id_cases(2) [OF j] new_id_cases(2) [OF new_id_of_parts [OF assms]] p by simp
  then have "\<forall>k. j \<le> k \<longleftrightarrow> i < k" by (auto simp: term_id_le_iff term_id_less_iff)
  then show ?thesis using False j new_id_tag [OF j] by (auto simp: next_up_def)
qed (simp add: next_up_def)

lemma next_down_spec:
  assumes "id_tag i \<noteq> TagReserved"
  shows "next_down i = Inr None \<or> (\<exists>j. next_down i = Inr (Some j) \<and> id_tag j = id_tag i \<and> (\<forall>k. k \<le> j \<longleftrightarrow> k < i))"
proof (cases "id_payload i = 0")
  case False
  then have p: "unat (id_payload i - 1) = unat (id_payload i) - 1" "0 < unat (id_payload i)"
    by (simp_all add: unat_gt_0 unat_minus_one)
  have "unat (id_payload i) < 2 ^ 60" using new_id_cases(1) [OF new_id_of_parts [OF assms]] .
  then obtain j where j: "new_id (id_tag i) (id_payload i - 1) = Inr j"
    using new_id_ok [of "id_payload i - 1" "id_tag i"] p by (metis less_imp_diff_less)
  have "raw_nat i = raw_nat j + 1"
    using new_id_cases(2) [OF j] new_id_cases(2) [OF new_id_of_parts [OF assms]] p by simp
  then have "\<forall>k. k \<le> j \<longleftrightarrow> k < i" by (auto simp: term_id_le_iff term_id_less_iff)
  then show ?thesis using False j new_id_tag [OF j] by (auto simp: next_down_def)
qed (simp add: next_down_def)

text \<open>The ordered span holds exactly the identifiers of its tag on the right side of the pivot.\<close>

lemma ordered_span_spec:
  assumes "id_tag pivot = t" "t \<noteq> TagReserved"
  shows "ordered_span b t pivot = Inr None \<or>
    (\<exists>r. ordered_span b t pivot = Inr (Some r) \<and> id_tag (first r) = t \<and> id_tag (last_id r) = t \<and> first r \<le> last_id r
      \<and> (\<forall>i. span_contains r i \<longleftrightarrow> id_tag i = t \<and> bound_holds b i pivot))"
proof -
  note tag = tag_range_iff [OF assms(2)]
  have ends: "id_tag (tag_floor t) = t" "id_tag (tag_ceil t) = t" "tag_floor t \<le> pivot" "pivot \<le> tag_ceil t"
    using new_id_tag [OF new_id_bounds(1)] new_id_tag [OF new_id_bounds(2)] tag [of pivot] assms(1) by auto
  have res: "id_tag pivot \<noteq> TagReserved" using assms by simp
  show ?thesis
  proof (cases b)
    case BoundGreater
    from next_up_spec [OF res] show ?thesis
    proof
      assume "\<exists>j. next_up pivot = Inr (Some j) \<and> id_tag j = id_tag pivot \<and> (\<forall>k. j \<le> k \<longleftrightarrow> pivot < k)"
      then obtain j where j: "next_up pivot = Inr (Some j)" "id_tag j = t" "\<And>k. j \<le> k \<longleftrightarrow> pivot < k"
        using assms(1) by blast
      have "j \<le> tag_ceil t" using tag [of j] j(2) by simp
      moreover have "span_contains \<lparr>first = j, last_id = tag_ceil t\<rparr> i \<longleftrightarrow> id_tag i = t \<and> pivot < i" for i
        unfolding span_contains_def tag using j(3) [of i] ends(3) by auto
      ultimately show ?thesis using BoundGreater j ends by (simp add: ordered_span_def new_id_bounds)
    qed (simp add: BoundGreater ordered_span_def)
  next
    case BoundGreaterOrEqual
    have "span_contains \<lparr>first = pivot, last_id = tag_ceil t\<rparr> i \<longleftrightarrow> id_tag i = t \<and> pivot \<le> i" for i
      unfolding span_contains_def tag using ends(3) by auto
    then show ?thesis using BoundGreaterOrEqual ends assms(1) by (simp add: ordered_span_def new_id_bounds)
  next
    case BoundLess
    from next_down_spec [OF res] show ?thesis
    proof
      assume "\<exists>j. next_down pivot = Inr (Some j) \<and> id_tag j = id_tag pivot \<and> (\<forall>k. k \<le> j \<longleftrightarrow> k < pivot)"
      then obtain j where j: "next_down pivot = Inr (Some j)" "id_tag j = t" "\<And>k. k \<le> j \<longleftrightarrow> k < pivot"
        using assms(1) by blast
      have "tag_floor t \<le> j" using tag [of j] j(2) by simp
      moreover have "span_contains \<lparr>first = tag_floor t, last_id = j\<rparr> i \<longleftrightarrow> id_tag i = t \<and> i < pivot" for i
        unfolding span_contains_def tag using j(3) [of i] ends(4) by auto
      ultimately show ?thesis using BoundLess j ends by (simp add: ordered_span_def new_id_bounds)
    qed (simp add: BoundLess ordered_span_def new_id_bounds)
  next
    case BoundLessOrEqual
    have "span_contains \<lparr>first = tag_floor t, last_id = pivot\<rparr> i \<longleftrightarrow> id_tag i = t \<and> i \<le> pivot" for i
      unfolding span_contains_def tag using ends(4) by auto
    then show ?thesis using BoundLessOrEqual ends assms(1) by (simp add: ordered_span_def new_id_bounds)
  qed
qed

section \<open>Identifier order is value order\<close>

lemma bound_holds_cong:
  "(i < j \<longleftrightarrow> x < y) \<Longrightarrow> (j < i \<longleftrightarrow> y < x) \<Longrightarrow> bound_holds b i j \<longleftrightarrow> bound_holds b x y"
  by (cases b) (simp_all flip: not_less)

lemma ordered_tag_cases:
  assumes "ordered_tag l = Some t"
  obtains "t = TagInteger" "lit_datatype l = xsd_integer" | "t = TagFloat" "lit_datatype l = xsd_float"
    | "t = TagDateTime" "lit_datatype l = xsd_date_time"
  using assms by (auto simp: ordered_tag_def Let_def split: if_splits)

lemma inline_typed:
  assumes "wf_literal l" "encode_literal X l = Some r" "lit_datatype l \<in> {xsd_integer, xsd_float, xsd_date_time}"
  obtains s where "l = TypedLit s (lit_datatype l)" "lit_value l = s"
  using assms by (cases l) (auto simp: encode_literal_simps)

lemma inline_codecs:
  "encode_literal X (TypedLit s xsd_integer) = encode_integer s"
  "encode_literal X (TypedLit s xsd_float) = encode_float X s"
  "encode_literal X (TypedLit s xsd_date_time) = encode_date_time X s"
  by (simp_all add: encode_literal_def)

lemma integer_ids:
  assumes "encode_integer s = Some (Inr i)" "encode_integer t = Some (Inr j)"
  shows "\<exists>v w. parse_i64 s = Some v \<and> parse_i64 t = Some w \<and> (i < j \<longleftrightarrow> v < w) \<and> (j < i \<longleftrightarrow> w < v)"
  using inline_integer_order [OF assms] inline_integer_order [OF assms(2,1)] by auto

lemma f32_value_zero: "f32_value b = 0 \<longleftrightarrow> b = 0 \<or> b = 0x80000000"
proof -
  have z: "f32_value 0 = 0" "f32_value 0x80000000 = 0" by (simp_all add: f32_value_def)
  have "b = 0 \<or> b = 0x80000000" if "f32_value b = 0"
  proof (rule ccontr)
    assume n: "\<not> (b = 0 \<or> b = 0x80000000)"
    have "\<not> order_preserving_f32 b < order_preserving_f32 0" "\<not> order_preserving_f32 0 < order_preserving_f32 b"
      using f32_order_iff [of b 0] f32_order_iff [of 0 b] n that z by simp_all
    then have "order_preserving_f32 b = order_preserving_f32 0" by simp
    then show False using n f32_order_inverse by metis
  qed
  then show ?thesis using z by auto
qed

lemma f32_zeros [simp]: "f32_value 0 = 0" "f32_value 0x80000000 = 0"
  by (simp_all add: f32_value_zero)

lemma float_ids:
  assumes "encode_float X s = Some (Inr i)" "encode_float X t = Some (Inr j)"
  shows "\<exists>x y. value_rank X (TypedLit s xsd_float) = Some x \<and> value_rank X (TypedLit t xsd_float) = Some y \<and> (i < j \<longleftrightarrow> x < y) \<and> (j < i \<longleftrightarrow> y < x)"
proof -
  obtain a b where ab: "float_parse X s = Some a" "float_parse X t = Some b" "i < j \<longleftrightarrow> f32_value a < f32_value b \<or> a = 0x80000000 \<and> b = 0"
    using inline_float_order [OF assms] by blast
  moreover from this have "j < i \<longleftrightarrow> f32_value b < f32_value a \<or> b = 0x80000000 \<and> a = 0" using inline_float_order [OF assms(2,1)] by auto
  moreover have "f32_value a = f32_value b \<Longrightarrow> a = 0x80000000 \<Longrightarrow> b = 0 \<or> b = 0x80000000" "f32_value a = f32_value b \<Longrightarrow> b = 0x80000000 \<Longrightarrow> a = 0 \<or> a = 0x80000000"
    using f32_value_zero by metis+
  ultimately show ?thesis by (auto simp: value_rank_def ordered_value_def minus_zero_def)
qed

lemma date_time_ids:
  assumes "xsd_lib_ok X" "encode_date_time X s = Some (Inr i)" "encode_date_time X t = Some (Inr j)"
  shows "\<exists>x y. ordered_value X (TypedLit s xsd_date_time) = Some x \<and> ordered_value X (TypedLit t xsd_date_time) = Some y
    \<and> (i < j \<longleftrightarrow> x < y) \<and> (j < i \<longleftrightarrow> y < x)"
  using inline_date_time_order [OF assms] inline_date_time_order [OF assms(1,3,2)]
  by (auto simp: ordered_value_def)

lemma ordered_ids:
  assumes "xsd_lib_ok X" "wf_literal l" "wf_literal k" "encode_literal X l = Some (Inr i)" "encode_literal X k = Some (Inr j)"
    and "lit_datatype l = lit_datatype k" "ordered_tag k = Some t"
  shows "\<exists>x y. value_rank X l = Some x \<and> value_rank X k = Some y \<and> (bound_holds b i j \<longleftrightarrow> bound_holds b x y)"
proof -
  have dt: "lit_datatype k \<in> {xsd_integer, xsd_float, xsd_date_time}" using assms(7) by (auto elim: ordered_tag_cases)
  obtain s where s: "l = TypedLit s (lit_datatype k)" using inline_typed [OF assms(2,4)] dt assms(6) by auto
  obtain u where u: "k = TypedLit u (lit_datatype k)" using inline_typed [OF assms(3,5) dt] by auto
  note e = assms(4) [unfolded s] assms(5) [THEN subst [OF u, of "\<lambda>k. encode_literal X k = Some (Inr j)"]]
  have "\<exists>x y. value_rank X l = Some x \<and> value_rank X k = Some y \<and> (i < j \<longleftrightarrow> x < y) \<and> (j < i \<longleftrightarrow> y < x)"
    using assms(7)
  proof (cases rule: ordered_tag_cases)
    case 1
    then have "encode_integer s = Some (Inr i)" "encode_integer u = Some (Inr j)" using e by (simp_all add: inline_codecs)
    from integer_ids [OF this] have "\<exists>x y. value_rank X (TypedLit s xsd_integer) = Some x \<and> value_rank X (TypedLit u xsd_integer) = Some y \<and> (i < j \<longleftrightarrow> x < y) \<and> (j < i \<longleftrightarrow> y < x)"
      by (auto simp: value_rank_def ordered_value_def minus_zero_def)
    then show ?thesis using s u 1(2) by metis
  next
    case 2
    then have "encode_float X s = Some (Inr i)" "encode_float X u = Some (Inr j)" using e by (simp_all add: inline_codecs)
    from float_ids [OF this] show ?thesis using s u 2(2) by metis
  next
    case 3
    then have "encode_date_time X s = Some (Inr i)" "encode_date_time X u = Some (Inr j)" using e by (simp_all add: inline_codecs)
    from date_time_ids [OF assms(1) this] have "\<exists>x y. value_rank X (TypedLit s xsd_date_time) = Some x \<and> value_rank X (TypedLit u xsd_date_time) = Some y
        \<and> (i < j \<longleftrightarrow> x < y) \<and> (j < i \<longleftrightarrow> y < x)"
      by (auto simp: value_rank_def minus_zero_def)
    then show ?thesis using s u 3(2) by metis
  qed
  then show ?thesis using bound_holds_cong [of i j] by blast
qed

lemma rank_compare:
  fixes v w :: "int list"
  shows "bound_holds b v w \<and> \<not> bound_holds b (v, if m then 0 else 1 :: int) (w, if n then 0 else 1)
    \<longleftrightarrow> v = w \<and> (b = BoundGreaterOrEqual \<and> m \<and> \<not> n \<or> b = BoundLessOrEqual \<and> \<not> m \<and> n)"
  by (cases b) auto

text \<open>Value and rank disagree on the two zeros only.\<close>

lemma rank_differs:
  assumes "value_rank X l = Some x" "value_rank X (cmp_value c) = Some y" "lit_datatype l = lit_datatype (cmp_value c)"
  shows "bound_holds (cmp_bound c) (fst x) (fst y) \<and> \<not> bound_holds (cmp_bound c) x y \<longleftrightarrow> left_out X c l"
proof -
  obtain v w where vw: "ordered_value X l = Some v" "ordered_value X (cmp_value c) = Some w" using assms(1,2) by (auto simp: value_rank_def)
  have x: "x = (v, if minus_zero X l then 0 else 1)" "y = (w, if minus_zero X (cmp_value c) then 0 else 1)"
    using assms(1,2) vw by (auto simp: value_rank_def)
  have zero: "v = w \<Longrightarrow> minus_zero X (cmp_value c) \<Longrightarrow> minus_zero X l \<or> plus_zero X l"
    "v = w \<Longrightarrow> minus_zero X l \<Longrightarrow> minus_zero X (cmp_value c) \<or> plus_zero X (cmp_value c)"
    using vw assms(3) by (auto simp: minus_zero_def plus_zero_def ordered_value_def f32_value_zero)
  have equal: "minus_zero X l \<Longrightarrow> plus_zero X (cmp_value c) \<Longrightarrow> v = w" "plus_zero X l \<Longrightarrow> minus_zero X (cmp_value c) \<Longrightarrow> v = w"
    using vw by (auto simp: minus_zero_def plus_zero_def ordered_value_def)
  have apart: "\<not> (minus_zero X k \<and> plus_zero X k)" for k by (auto simp: minus_zero_def plus_zero_def)
  show ?thesis
    unfolding x fst_conv rank_compare left_out_def using zero equal apart [of l] apart [of "cmp_value c"] by blast
qed

section \<open>Spans: total, disjoint, exact\<close>

lemma companions_eq:
  "companions TagInteger = Inr [\<lparr>first = tag_floor TagLiteral, last_id = tag_ceil TagLiteral\<rparr>, \<lparr>first = tag_floor TagFloat, last_id = tag_ceil TagFloat\<rparr>]"
  "companions TagFloat = Inr [\<lparr>first = tag_floor TagLiteral, last_id = tag_ceil TagLiteral\<rparr>, \<lparr>first = tag_floor TagInteger, last_id = tag_ceil TagInteger\<rparr>]"
  "companions TagDateTime = Inr [\<lparr>first = tag_floor TagLiteral, last_id = tag_ceil TagLiteral\<rparr>]"
  by (simp_all add: companions_def whole_tag_eq)

lemma ordered_tag_not_reserved: "ordered_tag l = Some t \<Longrightarrow> t \<noteq> TagReserved"
  by (auto elim: ordered_tag_cases)

lemma spans_cases:
  assumes "lookup_ok (op_lookup ops st (Literal (cmp_value c))) = Inr found"
  shows "spans ops st c = Inr None \<or> (\<exists>t pivot r cs. ordered_tag (cmp_value c) = Some t
    \<and> op_lookup ops st (Literal (cmp_value c)) = Inr (Some pivot) \<and> id_tag pivot = t
    \<and> companions t = Inr cs \<and> ordered_span (cmp_bound c) t pivot = Inr (Some r)
    \<and> spans ops st c = Inr (Some (sort_key first (cs @ [r]))))"
proof (cases "\<exists>t pivot. ordered_tag (cmp_value c) = Some t \<and> found = Some pivot \<and> id_tag pivot = t")
  case True
  then obtain t pivot where t: "ordered_tag (cmp_value c) = Some t" "found = Some pivot" "id_tag pivot = t" by blast
  have found: "op_lookup ops st (Literal (cmp_value c)) = Inr (Some pivot)"
    using assms t(2) by (auto simp: lookup_ok_def split: sum.splits storage_error.splits)
  obtain cs where cs: "companions t = Inr cs" using t(1) companions_eq by (auto elim!: ordered_tag_cases)
  from ordered_span_spec [OF t(3) ordered_tag_not_reserved [OF t(1)], of "cmp_bound c"] show ?thesis
  proof
    assume "ordered_span (cmp_bound c) t pivot = Inr None"
    then show ?thesis using t assms by (simp add: spans_def)
  next
    assume "\<exists>r. ordered_span (cmp_bound c) t pivot = Inr (Some r) \<and> id_tag (first r) = t \<and> id_tag (last_id r) = t \<and> first r \<le> last_id r
      \<and> (\<forall>i. span_contains r i \<longleftrightarrow> id_tag i = t \<and> bound_holds (cmp_bound c) i pivot)"
    then obtain r where r: "ordered_span (cmp_bound c) t pivot = Inr (Some r)" "first r \<le> last_id r" by blast
    then have "spans ops st c = Inr (Some (sort_key first (cs @ [r])))"
      using t assms cs by (simp add: spans_def span_is_empty_def not_less [symmetric] del: sort_key_simps)
    then show ?thesis using t found cs r(1) by blast
  qed
next
  case False
  then show ?thesis using assms by (auto simp: spans_def split: option.splits)
qed

lemma spans_Some:
  assumes "spans ops st c = Inr (Some ss)"
  obtains t pivot r cs where "ordered_tag (cmp_value c) = Some t" "op_lookup ops st (Literal (cmp_value c)) = Inr (Some pivot)"
    "id_tag pivot = t" "companions t = Inr cs" "ss = sort_key first (cs @ [r])" "id_tag (first r) = t" "id_tag (last_id r) = t"
    "first r \<le> last_id r" "\<And>i. span_contains r i \<longleftrightarrow> id_tag i = t \<and> bound_holds (cmp_bound c) i pivot"
proof -
  obtain found where "lookup_ok (op_lookup ops st (Literal (cmp_value c))) = Inr found"
    using assms by (auto simp: spans_def split: option.splits sum.splits)
  from spans_cases [OF this] assms obtain t pivot r cs where *: "ordered_tag (cmp_value c) = Some t"
    "op_lookup ops st (Literal (cmp_value c)) = Inr (Some pivot)" "id_tag pivot = t" "companions t = Inr cs"
    "ordered_span (cmp_bound c) t pivot = Inr (Some r)" "ss = sort_key first (cs @ [r])" by auto
  show thesis
    using ordered_span_spec [OF *(3) ordered_tag_not_reserved [OF *(1)], of "cmp_bound c"] *(5) that [OF *(1-4,6)] by auto
qed

text \<open>Spans of different tags cannot overlap.\<close>

definition in_one_tag :: "id_range \<Rightarrow> bool" where
  "in_one_tag r \<longleftrightarrow> id_tag (first r) = id_tag (last_id r) \<and> id_tag (first r) \<noteq> TagReserved \<and> first r \<le> last_id r"

lemma tags_apart:
  assumes "in_one_tag a" "in_one_tag b" "id_tag (first a) \<noteq> id_tag (first b)" "first a \<le> first b"
  shows "last_id a < first b"
proof -
  note a = assms(1) [unfolded in_one_tag_def] and b = assms(2) [unfolded in_one_tag_def]
  have d: "raw_nat (last_id a) div 2 ^ 60 = raw_nat (first a) div 2 ^ 60"
    using id_tag_high [of "id_tag (first a)" "first a"] id_tag_high [of "id_tag (first a)" "last_id a"] a by metis
  have "raw_nat (first a) div 2 ^ 60 \<noteq> raw_nat (first b) div 2 ^ 60"
    using id_tag_high [of "id_tag (first a)" "first a"] id_tag_high [of "id_tag (first a)" "first b"] a assms(3) by metis
  moreover have "raw_nat (first a) div 2 ^ 60 \<le> raw_nat (first b) div 2 ^ 60"
    using assms(4) by (simp add: term_id_le_iff div_le_mono)
  ultimately have "raw_nat (last_id a) div 2 ^ 60 < raw_nat (first b) div 2 ^ 60" using d by simp
  then have "raw_nat (last_id a) < raw_nat (first b)" by (meson div_le_mono not_le)
  then show ?thesis by (simp add: term_id_less_iff)
qed

lemma in_one_tag_whole: "t \<noteq> TagReserved \<Longrightarrow> in_one_tag \<lparr>first = tag_floor t, last_id = tag_ceil t\<rparr>"
  using new_id_tag [OF new_id_bounds(1)] new_id_tag [OF new_id_bounds(2)] tag_range_iff [of t "tag_floor t"]
  by (simp add: in_one_tag_def)

lemma sorted_apart:
  assumes "\<forall>r\<in>set rs. in_one_tag r" "distinct (map (\<lambda>r. id_tag (first r)) rs)"
  shows "sorted_wrt (\<lambda>a b. last_id a < first b) (sort_key first rs)"
proof -
  let ?ss = "sort_key first rs"
  have "sorted (map first ?ss)" by simp
  then have le: "first (?ss ! i) \<le> first (?ss ! j)" if "i < j" "j < length ?ss" for i j
    using that by (auto simp: sorted_map sorted_wrt_iff_nth_less)
  have d: "distinct (map (\<lambda>r. id_tag (first r)) ?ss)" using assms(2) by (simp add: distinct_map)
  have ne: "id_tag (first (?ss ! i)) \<noteq> id_tag (first (?ss ! j))" if "i < j" "j < length ?ss" for i j
    using nth_eq_iff_index_eq [OF d, of i j] that by simp
  have one: "in_one_tag (?ss ! i)" if "i < length ?ss" for i using assms(1) nth_mem [OF that] by simp
  show ?thesis
    unfolding sorted_wrt_iff_nth_less using tags_apart [OF one one ne le] by simp
qed

text \<open>What the spans of a comparison admit, by identifier.\<close>

lemma spans_admit_ids:
  assumes "spans ops st c = Inr (Some ss)"
  obtains t pivot where "ordered_tag (cmp_value c) = Some t" "op_lookup ops st (Literal (cmp_value c)) = Inr (Some pivot)"
    "id_tag pivot = t" "sorted_wrt (\<lambda>a b. last_id a < first b) ss" "\<forall>r\<in>set ss. first r \<le> last_id r"
    "\<And>i. (\<exists>r\<in>set ss. span_contains r i) \<longleftrightarrow> id_tag i = TagLiteral \<or> id_tag i = t \<and> bound_holds (cmp_bound c) i pivot
      \<or> t = TagInteger \<and> id_tag i = TagFloat \<or> t = TagFloat \<and> id_tag i = TagInteger"
proof -
  obtain t pivot r cs where s: "ordered_tag (cmp_value c) = Some t" "op_lookup ops st (Literal (cmp_value c)) = Inr (Some pivot)"
    "id_tag pivot = t" "companions t = Inr cs" "ss = sort_key first (cs @ [r])" "id_tag (first r) = t" "id_tag (last_id r) = t"
    "first r \<le> last_id r" and r: "\<And>i. span_contains r i \<longleftrightarrow> id_tag i = t \<and> bound_holds (cmp_bound c) i pivot"
    using assms by (rule spans_Some) blast
  have floor: "id_tag (tag_floor u) = u" for u by (rule new_id_tag [OF new_id_bounds(1)])
  have "in_one_tag r" using s ordered_tag_not_reserved [OF s(1)] by (simp add: in_one_tag_def)
  then have one: "\<forall>x\<in>set (cs @ [r]). in_one_tag x"
    using s(1,4) companions_eq in_one_tag_whole by (auto elim!: ordered_tag_cases)
  have "distinct (map (\<lambda>x. id_tag (first x)) (cs @ [r]))"
    using s(1,4,6) companions_eq floor by (auto elim!: ordered_tag_cases)
  then have "sorted_wrt (\<lambda>a b. last_id a < first b) ss" unfolding s(5) by (rule sorted_apart [OF one])
  moreover have "\<forall>r\<in>set ss. first r \<le> last_id r" using one s(5) by (simp add: in_one_tag_def)
  moreover have "(\<exists>x\<in>set ss. span_contains x i) \<longleftrightarrow> id_tag i = TagLiteral \<or> id_tag i = t \<and> bound_holds (cmp_bound c) i pivot
      \<or> t = TagInteger \<and> id_tag i = TagFloat \<or> t = TagFloat \<and> id_tag i = TagInteger" for i
    using s(1,4) companions_eq unfolding s(5) set_sort by (auto simp: span_whole_tag r elim!: ordered_tag_cases)
  ultimately show thesis using that [OF s(1-3)] by blast
qed

section \<open>Spans and values\<close>

lemma inline_tag:
  assumes "xsd_lib_ok X" "wf_literal l" "encode_literal X l = Some (Inr i)"
  shows "id_tag i = (if lit_datatype l = xsd_integer then TagInteger else if lit_datatype l = xsd_float then TagFloat
    else if lit_datatype l = xsd_date_time then TagDateTime else TagSmall)"
proof (cases l)
  case (SimpleLit v)
  then have "encode_small_string v = Some (Inr i)" using assms by (simp add: encode_literal_simps)
  then show ?thesis using SimpleLit by (auto elim: encode_small_string_Some)
next
  case (TypedLit v dt)
  with assms have e: "encode_literal X (TypedLit v dt) = Some (Inr i)" and dt: "dt \<noteq> xsd_string" by auto
  from e dt show ?thesis
    by (cases rule: encode_typed_cases)
       (use TypedLit assms(1) in \<open>auto elim: encode_integer_Some encode_boolean_Some encode_float_Some encode_date_time_Some\<close>)
qed (use assms in \<open>simp_all add: encode_literal_simps\<close>)

lemma mem_lookup_literal:
  "op_lookup (memory_ops X) st (Literal l) = Inr (Some i) \<longleftrightarrow>
    encode_literal X l = Some (Inr i) \<or> encode_literal X l = None \<and> (\<exists>j. literal_index (ms_dictionary st) l = Some j \<and> new_id TagLiteral j = Inr i)"
  by (simp add: memory_ops_def mem_lookup_def or_found_iff found_id_iff)

lemma spans_exact:
  assumes ok: "xsd_lib_ok X" and k: "wf_literal (cmp_value c)" and ss: "spans (memory_ops X) st c = Inr (Some ss)"
    and l: "wf_literal l" "op_lookup (memory_ops X) st (Literal l) = Inr (Some i)"
  shows "(\<exists>r\<in>set ss. span_contains r i) \<longleftrightarrow> encode_literal X l = None
    \<or> (if lit_datatype l = lit_datatype (cmp_value c)
        then (\<exists>x y. value_rank X l = Some x \<and> value_rank X (cmp_value c) = Some y \<and> bound_holds (cmp_bound c) x y)
        else {lit_datatype l, lit_datatype (cmp_value c)} = {xsd_integer, xsd_float})"
proof -
  obtain t pivot where t: "ordered_tag (cmp_value c) = Some t" "op_lookup (memory_ops X) st (Literal (cmp_value c)) = Inr (Some pivot)" "id_tag pivot = t"
    and admit: "(\<exists>r\<in>set ss. span_contains r i) \<longleftrightarrow> id_tag i = TagLiteral \<or> id_tag i = t \<and> bound_holds (cmp_bound c) i pivot
      \<or> t = TagInteger \<and> id_tag i = TagFloat \<or> t = TagFloat \<and> id_tag i = TagInteger"
    using ss by (rule spans_admit_ids) blast
  have pivot: "encode_literal X (cmp_value c) = Some (Inr pivot)"
    using t by (auto simp: mem_lookup_literal dest!: new_id_tag elim!: ordered_tag_cases)
  show ?thesis
  proof (cases "encode_literal X l")
    case None
    then have "id_tag i = TagLiteral" using l(2) by (auto simp: mem_lookup_literal dest: new_id_tag)
    then show ?thesis using None admit by simp
  next
    case (Some r)
    then have e: "encode_literal X l = Some (Inr i)" using l(2) by (auto simp: mem_lookup_literal)
    note tag = inline_tag [OF ok l(1) e]
    show ?thesis
    proof (cases "lit_datatype l = lit_datatype (cmp_value c)")
      case True
      obtain x y where "value_rank X l = Some x" "value_rank X (cmp_value c) = Some y"
        "bound_holds (cmp_bound c) i pivot \<longleftrightarrow> bound_holds (cmp_bound c) x y"
        using ordered_ids [OF ok l(1) k e pivot True t(1)] by blast
      moreover have "id_tag i = t" using tag True t(1) by (auto elim!: ordered_tag_cases)
      ultimately show ?thesis using admit True e t(1) by (auto elim!: ordered_tag_cases)
    next
      case False
      then show ?thesis
        unfolding admit using tag t(1) e by (auto simp: doubleton_eq_iff elim!: ordered_tag_cases)
    qed
  qed
qed

text \<open>Where the constant has spans, the datatypes that have an order give every inlined literal a rank.\<close>

lemma spans_ranked:
  assumes ok: "xsd_lib_ok X" and k: "wf_literal (cmp_value c)" and ss: "spans (memory_ops X) st c = Inr (Some ss)"
    and l: "wf_literal l" "op_lookup (memory_ops X) st (Literal l) = Inr (Some i)" "encode_literal X l \<noteq> None" "lit_datatype l = lit_datatype (cmp_value c)"
  obtains x y where "value_rank X l = Some x" "value_rank X (cmp_value c) = Some y" "(\<exists>r\<in>set ss. span_contains r i) \<longleftrightarrow> bound_holds (cmp_bound c) x y"
    "ordered_value X l = Some (fst x)" "ordered_value X (cmp_value c) = Some (fst y)"
proof -
  obtain t pivot where t: "ordered_tag (cmp_value c) = Some t" "op_lookup (memory_ops X) st (Literal (cmp_value c)) = Inr (Some pivot)" "id_tag pivot = t"
    using ss by (rule spans_admit_ids) blast
  have pivot: "encode_literal X (cmp_value c) = Some (Inr pivot)"
    using t by (auto simp: mem_lookup_literal dest!: new_id_tag elim!: ordered_tag_cases)
  have e: "encode_literal X l = Some (Inr i)" using l(2,3) by (auto simp: mem_lookup_literal)
  obtain x y where xy: "value_rank X l = Some x" "value_rank X (cmp_value c) = Some y" using ordered_ids [OF ok l(1) k e pivot l(4) t(1)] by blast
  moreover have "(\<exists>r\<in>set ss. span_contains r i) \<longleftrightarrow> bound_holds (cmp_bound c) x y" using spans_exact [OF ok k ss l(1,2)] l(3,4) xy by simp
  moreover have "ordered_value X l = Some (fst x)" "ordered_value X (cmp_value c) = Some (fst y)" using xy by (auto simp: value_rank_def)
  ultimately show thesis by (rule that)
qed

lemma kept_admitted:
  assumes ok: "xsd_lib_ok X" and k: "wf_literal (cmp_value c)" and ss: "spans (memory_ops X) st c = Inr (Some ss)"
    and l: "wf_literal l" "op_lookup (memory_ops X) st (Literal l) = Inr (Some i)" and keep: "may_keep X c l"
  shows "(\<exists>r\<in>set ss. span_contains r i) \<longleftrightarrow> encode_literal X l = None \<or> \<not> left_out X c l"
proof (cases "encode_literal X l \<noteq> None \<and> lit_datatype l = lit_datatype (cmp_value c)")
  case True
  with spans_ranked [OF ok k ss l] obtain x y where xy: "value_rank X l = Some x" "value_rank X (cmp_value c) = Some y"
    "(\<exists>r\<in>set ss. span_contains r i) \<longleftrightarrow> bound_holds (cmp_bound c) x y" "ordered_value X l = Some (fst x)" "ordered_value X (cmp_value c) = Some (fst y)"
    by blast
  then have "bound_holds (cmp_bound c) (fst x) (fst y)" using keep True by (simp add: may_keep_def)
  with rank_differs [OF xy(1,2)] xy(3) True show ?thesis by auto
next
  case False
  then have "encode_literal X l = None \<or> \<not> left_out X c l" by (auto simp: left_out_def minus_zero_def plus_zero_def)
  then show ?thesis using spans_exact [OF ok k ss l] keep False by (auto simp: may_keep_def)
qed

section \<open>Reading the spans\<close>

lemma spans_hold_once:
  assumes "sorted_wrt (\<lambda>a b. last_id a < first b) (r # rs)" "span_contains r i" "x \<in> set rs"
  shows "\<not> span_contains x i"
  using assms by (auto simp: span_contains_def)

lemma bounded_probe_exact:
  assumes ok: "mem_store_ok X st" and sem: "cp_semantics c = Filter"
    and calm: "\<forall>j k. pressure j k = None" and v: "view_reach (memory_ops X) st c v"
    and apart: "sorted_wrt (\<lambda>a b. last_id a < first b) ss"
  shows "view_returns (snd (bounded_probe (memory_ops X) pressure s p ss f v))
    {q \<in> fst (mem_view st). quad_matches s p None f q \<and> (\<exists>r\<in>set ss. span_contains r (enc_object q)) \<and> permits_quad c q READ \<and> \<not> skipped c f}"
  using v apart
proof (induction ss arbitrary: v)
  case Nil
  then show ?case by (simp add: view_returns_def)
next
  case (Cons r rs)
  let ?scan = "view_quads_with_object_in (memory_ops X) (pressure (length rs)) s p r f v"
  let ?sees = "\<lambda>q. permits_quad c q READ \<and> \<not> skipped c f"
  have st: "vw_store v = st" "vw_policy v = c" using view_reach_ok [OF Cons.prems(1)] by simp_all
  obtain as where as: "snd ?scan = map Inr as" "distinct as"
    "set as = {q \<in> fst (mem_view st). quad_matches s p None f q \<and> span_contains r (enc_object q) \<and> ?sees q}"
    using view_shows_filter [OF mread.span_scan_shows [of X v "pressure (length rs)" f s p r]] st ok sem calm by (auto simp: view_returns_def)
  have "view_reach (memory_ops X) st c (fst ?scan)" by (rule view_reach.SpanScan [OF Cons.prems(1)])
  from Cons.IH [OF this] Cons.prems(2) obtain bs where bs: "snd (bounded_probe (memory_ops X) pressure s p rs f (fst ?scan)) = map Inr bs"
    "distinct bs" "set bs = {q \<in> fst (mem_view st). quad_matches s p None f q \<and> (\<exists>r\<in>set rs. span_contains r (enc_object q)) \<and> ?sees q}"
    by (auto simp: view_returns_def)
  have "set as \<inter> set bs = {}" using spans_hold_once [OF Cons.prems(2)] as(3) bs(3) by blast
  moreover have "snd (bounded_probe (memory_ops X) pressure s p (r # rs) f v) = map Inr (as @ bs)"
    using as(1) bs(1) by (simp add: case_prod_beta)
  moreover have "set (as @ bs) = {q \<in> fst (mem_view st). quad_matches s p None f q \<and> (\<exists>x\<in>set (r # rs). span_contains x (enc_object q)) \<and> ?sees q}"
    using as(3) bs(3) by auto
  ultimately show ?case unfolding view_returns_def using as(2) bs(2) by (metis distinct_append)
qed

section \<open>Properties\<close>

text \<open>
  C18. The spans of a comparison are non-empty, ascending and disjoint, and what they admit is exactly this. A
  stored literal the codec declined is admitted, whatever it is. An inline literal of another datatype
  is admitted exactly when both datatypes are the inlined numeric ones, integer and float. An inline literal of the constant's
  own datatype is admitted exactly when its value compares with the constant as asked, minus zero counting as
  less than plus zero.
\<close>

theorem range_spans_exact:
  assumes "xsd_lib_ok X" "wf_literal (cmp_value c)" "spans (memory_ops X) st c = Inr (Some ss)"
    and "wf_literal l" "op_lookup (memory_ops X) st (Literal l) = Inr (Some i)"
  shows "sorted_wrt (\<lambda>a b. last_id a < first b) ss \<and> (\<forall>r\<in>set ss. first r \<le> last_id r)
    \<and> (encode_literal X l = None \<longrightarrow> (\<exists>r\<in>set ss. span_contains r i))
    \<and> (encode_literal X l \<noteq> None \<and> lit_datatype l \<noteq> lit_datatype (cmp_value c)
        \<longrightarrow> ((\<exists>r\<in>set ss. span_contains r i) \<longleftrightarrow> {lit_datatype l, lit_datatype (cmp_value c)} = {xsd_integer, xsd_float}))
    \<and> (encode_literal X l \<noteq> None \<and> lit_datatype l = lit_datatype (cmp_value c)
        \<longrightarrow> (\<exists>x y. value_rank X l = Some x \<and> value_rank X (cmp_value c) = Some y \<and> ((\<exists>r\<in>set ss. span_contains r i) \<longleftrightarrow> bound_holds (cmp_bound c) x y)))"
proof (intro conjI impI)
  show "sorted_wrt (\<lambda>a b. last_id a < first b) ss" "\<forall>r\<in>set ss. first r \<le> last_id r" using spans_admit_ids [OF assms(3)] by blast+
  note exact = spans_exact [OF assms]
  show "\<exists>r\<in>set ss. span_contains r i" if "encode_literal X l = None" using exact that by simp
  show "(\<exists>r\<in>set ss. span_contains r i) \<longleftrightarrow> {lit_datatype l, lit_datatype (cmp_value c)} = {xsd_integer, xsd_float}"
    if "encode_literal X l \<noteq> None \<and> lit_datatype l \<noteq> lit_datatype (cmp_value c)" using exact that by simp
  show "\<exists>x y. value_rank X l = Some x \<and> value_rank X (cmp_value c) = Some y \<and> ((\<exists>r\<in>set ss. span_contains r i) \<longleftrightarrow> bound_holds (cmp_bound c) x y)"
    if "encode_literal X l \<noteq> None \<and> lit_datatype l = lit_datatype (cmp_value c)"
    using spans_ranked [OF assms] that by blast
qed

lemma greater_30:
  "\<exists>ss. spans (memory_ops X) st \<lparr>cmp_variable = ''o'', cmp_bound = BoundGreater, cmp_value = TypedLit ''30'' xsd_integer\<rparr> = Inr (Some ss)"
proof -
  have "case encode_integer ''30'' of Some (Inr i) \<Rightarrow> next_up i \<noteq> Inr None | _ \<Rightarrow> False" by code_simp
  then obtain i where i: "encode_integer ''30'' = Some (Inr i)" "next_up i \<noteq> Inr None" by (auto split: option.splits sum.splits)
  then have tag: "id_tag i = TagInteger" by (auto elim: encode_integer_Some)
  then obtain j where j: "next_up i = Inr (Some j)" "\<And>k. j \<le> k \<longleftrightarrow> i < k" "id_tag j = TagInteger" using next_up_spec [of i] i(2) by auto
  then have "j \<le> tag_ceil TagInteger" using tag_range_iff [of TagInteger j] by simp
  then show ?thesis using i tag j
    by (simp add: spans_def ordered_tag_def memory_ops_def mem_lookup_def inline_codecs or_found_def lookup_ok_def ordered_span_def
        new_id_bounds span_is_empty_def companions_eq)
qed

theorem range_spans_exact_witness:
  "\<exists>ss. spans (memory_ops demo_lib) store_new \<lparr>cmp_variable = ''o'', cmp_bound = BoundGreater, cmp_value = TypedLit ''30'' xsd_integer\<rparr> = Inr (Some ss)
    \<and> (\<exists>i. encode_literal demo_lib (TypedLit ''31'' xsd_integer) = Some (Inr i) \<and> (\<exists>r\<in>set ss. span_contains r i))
    \<and> (\<exists>i. encode_literal demo_lib (TypedLit ''-5'' xsd_integer) = Some (Inr i) \<and> \<not> (\<exists>r\<in>set ss. span_contains r i))"
proof -
  let ?c = "\<lparr>cmp_variable = ''o'', cmp_bound = BoundGreater, cmp_value = TypedLit ''30'' xsd_integer\<rparr>"
  obtain ss where ss: "spans (memory_ops demo_lib) store_new ?c = Inr (Some ss)" using greater_30 ..
  have wf: "wf_literal (cmp_value ?c)" "wf_literal (TypedLit ''31'' xsd_integer)" "wf_literal (TypedLit ''-5'' xsd_integer)" by code_simp+
  have p: "parse_i64 ''31'' = Some 31" "parse_i64 ''-5'' = Some (- 5)" "parse_i64 ''30'' = Some 30"
    "i64_to_string 31 = ''31''" "i64_to_string (- 5) = ''-5''" by code_simp+
  obtain i j where ij: "encode_integer ''31'' = Some (Inr i)" "encode_integer ''-5'' = Some (Inr j)"
    using encode_integer_complete [of 31] encode_integer_complete [of "- 5"] p by (auto simp: INT_MIN_def INT_MAX_def INT_BIAS_def)
  have rank: "value_rank demo_lib (TypedLit ''31'' xsd_integer) = Some ([31], 1)" "value_rank demo_lib (TypedLit ''-5'' xsd_integer) = Some ([- 5], 1)"
    "value_rank demo_lib (cmp_value ?c) = Some ([30], 1)"
    using p by (simp_all add: value_rank_def ordered_value_def minus_zero_def)
  have look: "op_lookup (memory_ops demo_lib) store_new (Literal (TypedLit ''31'' xsd_integer)) = Inr (Some i)"
    "op_lookup (memory_ops demo_lib) store_new (Literal (TypedLit ''-5'' xsd_integer)) = Inr (Some j)"
    using ij by (simp_all add: mem_lookup_literal inline_codecs)
  have "\<exists>r\<in>set ss. span_contains r i"
    using range_spans_exact [OF demo_lib_ok wf(1) ss wf(2) look(1)] rank ij by (simp add: inline_codecs)
  moreover have "\<not> (\<exists>r\<in>set ss. span_contains r j)"
    using range_spans_exact [OF demo_lib_ok wf(1) ss wf(3) look(2)] rank ij by (simp add: inline_codecs)
  ultimately show ?thesis using ss ij by (auto simp: inline_codecs)
qed

text \<open>
  C17. Pushing a filter into the scan loses no row but those of a zero. Take any filter that keeps an inline literal
  of the constant's datatype only if its value compares as asked, and any other inline literal only among numbers.
  For every policy that filters, and while no memory ceiling is reached, reading the spans through the view yields, each once, only
  quads the whole pattern yields; and of those a row the filter keeps is missing exactly when its object is
  minus zero asked to be at least plus zero, or plus zero asked to be at most minus zero.
\<close>

theorem range_pushdown_complete:
  assumes "mem_store_ok X st" "compile (memory_ops X) st po pr = Inr c" "po_semantics po = Filter"
    and "\<forall>j k. pressure j k = None" "view_reach (memory_ops X) st c v"
    and "wf_literal (cmp_value cmp)" "spans (memory_ops X) st cmp = Inr (Some ss)"
    and "\<forall>l. wf_literal l \<and> keep l \<longrightarrow> may_keep X cmp l"
  shows "\<exists>as bs. snd (bounded_probe (memory_ops X) pressure s p ss (pattern_filter g) v) = map Inr as \<and> distinct as
    \<and> snd (internal_quads_for_pattern (memory_ops X) (pressure 0) s p None g v) = map Inr bs \<and> distinct bs \<and> set as \<subseteq> set bs
    \<and> (\<forall>q l. q \<in> set bs \<and> wf_literal l \<and> keep l \<and> op_lookup (memory_ops X) st (Literal l) = Inr (Some (enc_object q))
        \<longrightarrow> (q \<in> set as \<longleftrightarrow> encode_literal X l = None \<or> \<not> left_out X cmp l))"
proof -
  have sem: "cp_semantics c = Filter" using compile_slots(6) [OF assms(2)] assms(3) by simp
  have v: "vw_store v = st" "vw_policy v = c" using view_reach_ok [OF assms(5)] by simp_all
  have X: "xsd_lib_ok X" using assms(1) by (simp add: mem_store_ok_def)
  have apart: "sorted_wrt (\<lambda>a b. last_id a < first b) ss" using assms(7) by (rule spans_admit_ids) blast
  let ?sees = "\<lambda>q. permits_quad c q READ \<and> \<not> skipped c (pattern_filter g)"
  obtain as where as: "snd (bounded_probe (memory_ops X) pressure s p ss (pattern_filter g) v) = map Inr as" "distinct as"
    "set as = {q \<in> fst (mem_view st). quad_matches s p None (pattern_filter g) q \<and> (\<exists>r\<in>set ss. span_contains r (enc_object q)) \<and> ?sees q}"
    using bounded_probe_exact [OF assms(1) sem assms(4,5) apart, of s p "pattern_filter g"] by (auto simp: view_returns_def)
  obtain bs where bs: "snd (internal_quads_for_pattern (memory_ops X) (pressure 0) s p None g v) = map Inr bs" "distinct bs"
    "set bs = {q \<in> fst (mem_view st). quad_matches s p None (pattern_filter g) q \<and> ?sees q}"
    using view_shows_filter [OF mread.pattern_scan_shows [of X v "pressure 0" g s p None]] v sem assms(1,4) by (auto simp: view_returns_def)
  have "set as \<subseteq> set bs" unfolding as(3) bs(3) by blast
  moreover have "q \<in> set as \<longleftrightarrow> encode_literal X l = None \<or> \<not> left_out X cmp l"
    if "q \<in> set bs" "wf_literal l" "keep l" "op_lookup (memory_ops X) st (Literal l) = Inr (Some (enc_object q))" for q l
  proof -
    have "q \<in> set as \<longleftrightarrow> (\<exists>r\<in>set ss. span_contains r (enc_object q))" using that(1) unfolding as(3) bs(3) by blast
    moreover have "may_keep X cmp l" using assms(8) that(2,3) by blast
    ultimately show ?thesis using kept_admitted [OF X assms(6,7) that(2,4)] by blast
  qed
  ultimately show ?thesis using as(1,2) bs(1,2) by blast
qed

theorem range_pushdown_complete_witness:
  "\<exists>c ss as. compile (memory_ops demo_lib) one_quad policy_permit_all anonymous = Inr c
    \<and> spans (memory_ops demo_lib) one_quad \<lparr>cmp_variable = ''o'', cmp_bound = BoundGreater, cmp_value = TypedLit ''30'' xsd_integer\<rparr> = Inr (Some ss)
    \<and> snd (bounded_probe (memory_ops demo_lib) (\<lambda>_ _. None) None None ss (pattern_filter None) (new_view one_quad c)) = map Inr as \<and> distinct as"
proof -
  let ?c = "\<lparr>cmp_variable = ''o'', cmp_bound = BoundGreater, cmp_value = TypedLit ''30'' xsd_integer\<rparr>"
  obtain c where c: "compile (memory_ops demo_lib) one_quad policy_permit_all anonymous = Inr c" using one_quad_compiled ..
  obtain ss where ss: "spans (memory_ops demo_lib) one_quad ?c = Inr (Some ss)" using greater_30 ..
  have wf: "wf_literal (cmp_value ?c)" by code_simp
  have calm: "\<forall>j k. (\<lambda>_ _. None) j k = None" and keep: "\<forall>l. wf_literal l \<and> may_keep demo_lib ?c l \<longrightarrow> may_keep demo_lib ?c l"
    by blast+
  from range_pushdown_complete [OF one_quad_facts(4) c one_quad_facts(8) calm view_reach.Open wf ss keep, of None None None] c ss
  show ?thesis by blast
qed

text \<open>
  The spans admit too little for the zeros of xsd:float and for nothing else. Of the inline literals of the constant's own
  datatype, one whose value satisfies the comparison is left out exactly when it is minus zero and the comparison asks for
  at least plus zero, or plus zero and the comparison asks for at most minus zero; and then its value does satisfy it.
\<close>

lemma range_leaves_out_zeros:
  assumes "xsd_lib_ok X" "wf_literal (cmp_value c)" "spans (memory_ops X) st c = Inr (Some ss)"
    and "wf_literal l" "encode_literal X l = Some (Inr i)" "lit_datatype l = lit_datatype (cmp_value c)"
  shows "\<exists>x y. ordered_value X l = Some x \<and> ordered_value X (cmp_value c) = Some y
    \<and> (bound_holds (cmp_bound c) x y \<and> \<not> (\<exists>r\<in>set ss. span_contains r i) \<longleftrightarrow> left_out X c l)"
proof -
  have "op_lookup (memory_ops X) st (Literal l) = Inr (Some i)" using assms(5) by (simp add: mem_lookup_literal)
  from spans_ranked [OF assms(1-4) this _ assms(6)] assms(5) obtain x y where xy: "value_rank X l = Some x" "value_rank X (cmp_value c) = Some y"
    "(\<exists>r\<in>set ss. span_contains r i) \<longleftrightarrow> bound_holds (cmp_bound c) x y" "ordered_value X l = Some (fst x)" "ordered_value X (cmp_value c) = Some (fst y)"
    by blast
  then show ?thesis using rank_differs [OF xy(1,2) assms(6)] by auto
qed

end
