(* ===== verification/Reach.thy ===== *)
theory Reach
  imports Dataset_View
begin

text \<open>
  Closure property paths, from \<^verbatim>\<open>holos-engine/src/reach.rs\<close>: the semi-naive traversal of one predicate from
  a set of seeds, with separate sets of emitted and of expanded nodes, a consumer that may stop the walk
  and a view that may refuse a read. The traversal always ends, and when it is not stopped it has offered
  exactly the nodes that the path reaches over the edges the principal may see, each once.

  The consumer is a function on a state of its own. A scan of the view is run to its end before its quads
  are used, which only the counter of withheld quads can tell from the iterator of the source.
\<close>

section \<open>Directions and hops\<close>

datatype direction = Forward | Backward

definition direction_of :: "bool \<Rightarrow> bool \<Rightarrow> direction" where
  "direction_of from_subject inverse_path = (if from_subject = inverse_path then Backward else Forward)"

datatype hops = ZeroOrMore | OneOrMore | ZeroOrOne

fun includes_seed :: "hops \<Rightarrow> bool" where
  "includes_seed ZeroOrMore = True"
| "includes_seed OneOrMore = False"
| "includes_seed ZeroOrOne = True"

fun unbounded :: "hops \<Rightarrow> bool" where
  "unbounded ZeroOrMore = True"
| "unbounded OneOrMore = True"
| "unbounded ZeroOrOne = False"

datatype walk = Complete | Stopped

section \<open>The traversal\<close>

record ('s, 'e) walk_state =
  wk_view :: "'s dataset_view"
  wk_emitted :: "term_id set"
  wk_expanded :: "term_id set"
  wk_next :: "term_id list"
  wk_sink :: 'e

type_synonym 'e consumer = "term_id \<Rightarrow> 'e \<Rightarrow> 'e \<times> bool vres"

text \<open>\<open>emitted.insert(reached) && !emit(reached)?\<close>: \<open>None\<close> carries on, \<open>Some\<close> is what the walk returns.\<close>

definition offer :: "'e consumer \<Rightarrow> term_id \<Rightarrow> ('s, 'e) walk_state \<Rightarrow> ('s, 'e) walk_state \<times> walk vres option" where
  "offer emit i w =
    (if i \<in> wk_emitted w then (w, None)
     else (case emit i (wk_sink w) of (sink, r) \<Rightarrow>
       (w\<lparr>wk_emitted := insert i (wk_emitted w), wk_sink := sink\<rparr>,
        (case r of Inl e \<Rightarrow> Some (Inl e) | Inr False \<Rightarrow> Some (Inr Stopped) | Inr True \<Rightarrow> None))))"

fun seed_loop :: "hops \<Rightarrow> 'e consumer \<Rightarrow> term_id list \<Rightarrow> ('s, 'e) walk_state \<Rightarrow> ('s, 'e) walk_state \<times> walk vres option" where
  "seed_loop hops emit [] w = (w, None)"
| "seed_loop hops emit (seed # seeds) w =
    (if seed \<in> wk_expanded w then seed_loop hops emit seeds w
     else (let w1 = w\<lparr>wk_expanded := insert seed (wk_expanded w), wk_next := wk_next w @ [seed]\<rparr>
       in if includes_seed hops
          then (case offer emit seed w1 of
                  (w2, Some r) \<Rightarrow> (w2, Some r)
                | (w2, None) \<Rightarrow> seed_loop hops emit seeds w2)
          else seed_loop hops emit seeds w1))"

definition reached_node :: "direction \<Rightarrow> encoded_quad \<Rightarrow> term_id" where
  "reached_node d q = (case d of Forward \<Rightarrow> enc_object q | Backward \<Rightarrow> enc_subject q)"

fun cross_edges :: "direction \<Rightarrow> hops \<Rightarrow> 'e consumer \<Rightarrow> encoded_quad vres list \<Rightarrow> ('s, 'e) walk_state
    \<Rightarrow> ('s, 'e) walk_state \<times> walk vres option" where
  "cross_edges d hops emit [] w = (w, None)"
| "cross_edges d hops emit (Inl e # quads) w = (w, Some (Inl e))"
| "cross_edges d hops emit (Inr q # quads) w =
    (let reached = reached_node d q in
     case offer emit reached w of
       (w1, Some r) \<Rightarrow> (w1, Some r)
     | (w1, None) \<Rightarrow>
         cross_edges d hops emit quads
           (if unbounded hops \<and> reached \<notin> wk_expanded w1
            then w1\<lparr>wk_expanded := insert reached (wk_expanded w1), wk_next := wk_next w1 @ [reached]\<rparr>
            else w1))"

text \<open>
  One round drains the frontier. Every node is expanded at most once, so readings of the allocator
  indexed by the node are arbitrary.
\<close>

fun expand_round :: "'s storage_ops \<Rightarrow> (term_id \<Rightarrow> pressure) \<Rightarrow> term_id \<Rightarrow> direction \<Rightarrow> hops \<Rightarrow> term_id option option \<Rightarrow> 'e consumer
    \<Rightarrow> term_id list \<Rightarrow> ('s, 'e) walk_state \<Rightarrow> ('s, 'e) walk_state \<times> walk vres option" where
  "expand_round ops pressure predicate d hops graph emit [] w = (w, None)"
| "expand_round ops pressure predicate d hops graph emit (node # nodes) w =
    (let (subject, object) = (case d of Forward \<Rightarrow> (Some node, None) | Backward \<Rightarrow> (None, Some node));
         (view, quads) = internal_quads_for_pattern ops (pressure node) subject (Some predicate) object graph (wk_view w)
     in case cross_edges d hops emit quads (w\<lparr>wk_view := view\<rparr>) of
          (w1, Some r) \<Rightarrow> (w1, Some r)
        | (w1, None) \<Rightarrow> expand_round ops pressure predicate d hops graph emit nodes w1)"

text \<open>What a round may do to the expanded set: it only grows, by what the next frontier holds.\<close>

definition grows_by_next :: "('s, 'e) walk_state \<Rightarrow> ('s, 'e) walk_state \<Rightarrow> bool" where
  "grows_by_next w w' \<longleftrightarrow> wk_expanded w \<subseteq> wk_expanded w'
    \<and> (\<exists>added. wk_next w' = wk_next w @ added \<and> set added \<subseteq> wk_expanded w' - wk_expanded w)"

lemma grows_refl [simp]: "grows_by_next w w"
  by (simp add: grows_by_next_def)

lemma grows_trans: "grows_by_next w w1 \<Longrightarrow> grows_by_next w1 w2 \<Longrightarrow> grows_by_next w w2"
  unfolding grows_by_next_def by (elim conjE exE) (intro conjI exI [of _ "_ @ _"], auto)

lemma offer_grows: "grows_by_next w (fst (offer emit i w))"
  by (auto simp: offer_def grows_by_next_def split: prod.splits)

lemma cross_grows: "grows_by_next w (fst (cross_edges d hops emit quads w))"
proof (induction d hops emit quads w rule: cross_edges.induct)
  case (3 d hops emit q quads w)
  let ?i = "reached_node d q"
  obtain w1 r where o: "offer emit ?i w = (w1, r)" by force
  have g: "grows_by_next w w1" using offer_grows [of w emit ?i] o by simp
  show ?case
  proof (cases r)
    case None
    let ?w2 = "if unbounded hops \<and> ?i \<notin> wk_expanded w1 then w1\<lparr>wk_expanded := insert ?i (wk_expanded w1), wk_next := wk_next w1 @ [?i]\<rparr> else w1"
    have "grows_by_next w1 ?w2" by (auto simp: grows_by_next_def)
    then have "grows_by_next w ?w2" using grows_trans [OF g] by blast
    then show ?thesis using 3 [OF refl o [symmetric] None] o None grows_trans by (auto simp: Let_def)
  qed (use o g in \<open>simp add: Let_def\<close>)
qed simp_all

lemma expand_grows: "grows_by_next w (fst (expand_round ops pressure p d hops graph emit nodes w))"
proof (induction nodes arbitrary: w)
  case (Cons node nodes)
  obtain s x where sx: "(case d of Forward \<Rightarrow> (Some node, None) | Backward \<Rightarrow> (None, Some node)) = (s, x)" by force
  obtain v quads where q: "internal_quads_for_pattern ops (pressure node) s (Some p) x graph (wk_view w) = (v, quads)" by force
  obtain w1 r where c: "cross_edges d hops emit quads (w\<lparr>wk_view := v\<rparr>) = (w1, r)" by force
  have "grows_by_next (w\<lparr>wk_view := v\<rparr>) w1" using cross_grows [of "w\<lparr>wk_view := v\<rparr>" d hops emit quads] c by simp
  then have g: "grows_by_next w w1" by (simp add: grows_by_next_def)
  then show ?case using sx q c Cons.IH [of w1] grows_trans [OF g] by (auto simp: Let_def split: option.splits)
qed simp

lemma finite_ids: "finite (A :: term_id set)"
proof -
  have "(UNIV :: term_id set) = range TermId" by (metis surjI term_id.collapse)
  then show ?thesis by (metis finite finite_imageI rev_finite_subset subset_UNIV)
qed

lemma round_measure:
  assumes "(w1, y) = expand_round ops pressure p d hops graph emit frontier (w\<lparr>wk_next := []\<rparr>)"
  shows "card (- wk_expanded w1) + (if wk_next w1 = [] then 0 else 1) < card (- wk_expanded w) + 1"
proof -
  have g: "grows_by_next (w\<lparr>wk_next := []\<rparr>) w1"
    using expand_grows [of "w\<lparr>wk_next := []\<rparr>" ops pressure p d hops graph emit frontier] assms by (metis fst_conv)
  then have sub: "- wk_expanded w1 \<subseteq> - wk_expanded w" by (auto simp: grows_by_next_def)
  show ?thesis
  proof (cases "wk_next w1")
    case Nil
    then show ?thesis using card_mono [OF finite_ids sub] by simp
  next
    case (Cons i rest)
    then have "i \<in> wk_expanded w1" "i \<notin> wk_expanded w" using g by (auto simp: grows_by_next_def)
    then have lt: "- wk_expanded w1 \<subset> - wk_expanded w" using sub by blast
    have "card (- wk_expanded w1) < card (- wk_expanded w)" by (rule psubset_card_mono [OF finite_ids lt])
    then show ?thesis using Cons by simp
  qed
qed

function walk_rounds :: "'s storage_ops \<Rightarrow> (term_id \<Rightarrow> pressure) \<Rightarrow> term_id \<Rightarrow> direction \<Rightarrow> hops \<Rightarrow> term_id option option \<Rightarrow> 'e consumer
    \<Rightarrow> term_id list \<Rightarrow> ('s, 'e) walk_state \<Rightarrow> ('s, 'e) walk_state \<times> walk vres" where
  "walk_rounds ops pressure predicate d hops graph emit frontier w =
    (if frontier = [] then (w, Inr Complete)
     else (case expand_round ops pressure predicate d hops graph emit frontier (w\<lparr>wk_next := []\<rparr>) of
             (w1, Some r) \<Rightarrow> (w1, r)
           | (w1, None) \<Rightarrow> walk_rounds ops pressure predicate d hops graph emit (wk_next w1) w1))"
  by pat_completeness auto

termination
  by (relation "measure (\<lambda>(ops, pressure, p, d, hops, graph, emit, frontier, w). card (- wk_expanded w) + (if frontier = [] then 0 else 1))")
     (simp, use round_measure in fastforce)

declare walk_rounds.simps [simp del]

definition reachable :: "'s storage_ops \<Rightarrow> (term_id \<Rightarrow> pressure) \<Rightarrow> term_id \<Rightarrow> direction \<Rightarrow> hops \<Rightarrow> term_id option option \<Rightarrow> term_id list
    \<Rightarrow> 'e consumer \<Rightarrow> 'e \<Rightarrow> 's dataset_view \<Rightarrow> 's dataset_view \<times> 'e \<times> walk vres" where
  "reachable ops pressure predicate d hops graph seeds emit sink view =
    (let w0 = \<lparr>wk_view = view, wk_emitted = {}, wk_expanded = {}, wk_next = [], wk_sink = sink\<rparr>;
         (w, r) = (case seed_loop hops emit seeds w0 of
             (w1, Some r) \<Rightarrow> (w1, r)
           | (w1, None) \<Rightarrow> walk_rounds ops pressure predicate d hops graph emit (wk_next w1) w1)
     in (wk_view w, wk_sink w, r))"

section \<open>What a path means\<close>

text \<open>The edges of a predicate a principal may see, in the direction of the walk.\<close>

definition edges :: "dataset \<Rightarrow> compiled_policy \<Rightarrow> term_id \<Rightarrow> direction \<Rightarrow> term_id option option \<Rightarrow> (term_id \<times> term_id) set" where
  "edges ds c p d graph = (case d of
      Forward \<Rightarrow> {(enc_subject q, enc_object q) |q. q \<in> fst ds \<and> enc_predicate q = p \<and> graph_matches (pattern_filter graph) (enc_graph q) \<and> permits_quad c q READ}
    | Backward \<Rightarrow> {(enc_object q, enc_subject q) |q. q \<in> fst ds \<and> enc_predicate q = p \<and> graph_matches (pattern_filter graph) (enc_graph q) \<and> permits_quad c q READ})"

text \<open>The edges a walk crosses: none if its one named graph is skipped as wholly denied.\<close>

definition seen_edges :: "dataset \<Rightarrow> compiled_policy \<Rightarrow> term_id \<Rightarrow> direction \<Rightarrow> term_id option option \<Rightarrow> (term_id \<times> term_id) set" where
  "seen_edges ds c p d graph = (if skipped c (pattern_filter graph) then {} else edges ds c p d graph)"

definition path_answers :: "hops \<Rightarrow> (term_id \<times> term_id) set \<Rightarrow> term_id set \<Rightarrow> term_id set" where
  "path_answers hops E S = (case hops of
      ZeroOrMore \<Rightarrow> E\<^sup>* `` S
    | OneOrMore \<Rightarrow> E\<^sup>+ `` S
    | ZeroOrOne \<Rightarrow> S \<union> E `` S)"

text \<open>A consumer that keeps every node in order and never stops.\<close>

definition collect :: "term_id list consumer" where
  "collect i out = (out @ [i], Inr True)"

section \<open>Loops as set equations\<close>

definition collected :: "('s, term_id list) walk_state \<Rightarrow> bool" where
  "collected w \<longleftrightarrow> distinct (wk_sink w) \<and> set (wk_sink w) = wk_emitted w"

lemma offer_collect:
  assumes "collected w"
  shows "\<exists>w1. offer collect i w = (w1, None) \<and> collected w1 \<and> wk_emitted w1 = insert i (wk_emitted w)
    \<and> wk_expanded w1 = wk_expanded w \<and> wk_next w1 = wk_next w \<and> wk_view w1 = wk_view w"
  using assms by (auto simp: offer_def collect_def collected_def)

lemma seed_loop_collect:
  assumes "collected w" "set (wk_next w) = wk_expanded w"
  shows "\<exists>w1. seed_loop hops collect seeds w = (w1, None) \<and> collected w1 \<and> wk_view w1 = wk_view w
    \<and> wk_expanded w1 = wk_expanded w \<union> set seeds \<and> set (wk_next w1) = wk_expanded w1
    \<and> (wk_emitted w1 = (if includes_seed hops then wk_emitted w \<union> (set seeds - wk_expanded w) else wk_emitted w))"
  using assms
proof (induction seeds arbitrary: w)
  case (Cons seed seeds)
  let ?w1 = "w\<lparr>wk_expanded := insert seed (wk_expanded w), wk_next := wk_next w @ [seed]\<rparr>"
  show ?case
  proof (cases "seed \<in> wk_expanded w")
    case True
    then show ?thesis using Cons.IH [OF Cons.prems] by auto
  next
    case False
    have c1: "collected ?w1" "set (wk_next ?w1) = wk_expanded ?w1" using Cons.prems by (auto simp: collected_def)
    show ?thesis
    proof (cases "includes_seed hops")
      case True
      obtain w2 where w2: "offer collect seed ?w1 = (w2, None)" "collected w2" "wk_emitted w2 = insert seed (wk_emitted w)"
        "wk_expanded w2 = insert seed (wk_expanded w)" "wk_next w2 = wk_next w @ [seed]" "wk_view w2 = wk_view w"
        using offer_collect [OF c1(1), of seed] by auto
      moreover have "set (wk_next w2) = wk_expanded w2" using w2 c1(2) by simp
      ultimately show ?thesis using Cons.IH [of w2] False True by (auto simp: Let_def)
    next
      case no: False
      show ?thesis using Cons.IH [OF c1] False no by (auto simp: Let_def)
    qed
  qed
qed simp

lemma cross_collect:
  assumes "collected w"
  shows "\<exists>w1. cross_edges d hops collect (map Inr qs) w = (w1, None) \<and> collected w1 \<and> wk_view w1 = wk_view w
    \<and> wk_emitted w1 = wk_emitted w \<union> reached_node d ` set qs
    \<and> wk_expanded w1 = (if unbounded hops then wk_expanded w \<union> reached_node d ` set qs else wk_expanded w)
    \<and> set (wk_next w1) = set (wk_next w) \<union> (wk_expanded w1 - wk_expanded w)"
  using assms
proof (induction qs arbitrary: w)
  case (Cons q qs)
  let ?i = "reached_node d q"
  obtain w1 where w1: "offer collect ?i w = (w1, None)" "collected w1" "wk_emitted w1 = insert ?i (wk_emitted w)"
    "wk_expanded w1 = wk_expanded w" "wk_next w1 = wk_next w" "wk_view w1 = wk_view w"
    using offer_collect [OF Cons.prems, of ?i] by auto
  let ?w2 = "if unbounded hops \<and> ?i \<notin> wk_expanded w1 then w1\<lparr>wk_expanded := insert ?i (wk_expanded w1), wk_next := wk_next w1 @ [?i]\<rparr> else w1"
  have "collected ?w2" using w1(2) by (simp add: collected_def)
  from Cons.IH [OF this] w1 show ?case by (auto simp: Let_def)
qed simp

section \<open>The invariant of the rounds\<close>

text \<open>
  Everything expanded is reachable; everything expanded and no longer on the frontier has its
  neighbours emitted and, when the path is unbounded, expanded.
\<close>

definition walk_inv :: "hops \<Rightarrow> (term_id \<times> term_id) set \<Rightarrow> term_id set \<Rightarrow> term_id list \<Rightarrow> ('s, term_id list) walk_state \<Rightarrow> bool" where
  "walk_inv hops E S frontier w \<longleftrightarrow> collected w \<and> set frontier \<subseteq> wk_expanded w \<and> S \<subseteq> wk_expanded w
    \<and> wk_expanded w \<subseteq> (if unbounded hops then E\<^sup>* `` S else S)
    \<and> wk_emitted w \<subseteq> path_answers hops E S \<and> (includes_seed hops \<longrightarrow> S \<subseteq> wk_emitted w)
    \<and> E `` (wk_expanded w - set frontier) \<subseteq> wk_emitted w
    \<and> (unbounded hops \<longrightarrow> E `` (wk_expanded w - set frontier) \<subseteq> wk_expanded w)"

lemma closed_reachable: "S \<subseteq> A \<Longrightarrow> E `` A \<subseteq> A \<Longrightarrow> E\<^sup>* `` S \<subseteq> A"
  by (metis Image_closed_trancl Image_mono order_refl)

lemma trancl_rtrancl_image: "E\<^sup>+ `` S = E `` (E\<^sup>* `` S)"
  by (auto simp: trancl_unfold_right relcomp_unfold)

lemma walk_inv_done:
  assumes "walk_inv hops E S [] w"
  shows "wk_emitted w = path_answers hops E S"
proof -
  have inv: "S \<subseteq> wk_expanded w" "wk_emitted w \<subseteq> path_answers hops E S" "includes_seed hops \<Longrightarrow> S \<subseteq> wk_emitted w"
    "E `` wk_expanded w \<subseteq> wk_emitted w" "unbounded hops \<Longrightarrow> E `` wk_expanded w \<subseteq> wk_expanded w"
    using assms by (auto simp: walk_inv_def)
  have u: "E\<^sup>+ `` S \<subseteq> wk_emitted w" if "unbounded hops"
    unfolding trancl_rtrancl_image using closed_reachable [OF inv(1) inv(5) [OF that]] inv(4) by blast
  have "path_answers hops E S \<subseteq> wk_emitted w"
  proof (cases hops)
    case ZeroOrMore
    then have "E\<^sup>+ `` S \<subseteq> wk_emitted w" "S \<subseteq> wk_emitted w" using u inv(3) by simp_all
    moreover have "path_answers hops E S = S \<union> E\<^sup>+ `` S" using ZeroOrMore by (auto simp: path_answers_def rtrancl_eq_or_trancl)
    ultimately show ?thesis by blast
  next
    case OneOrMore
    then show ?thesis using u by (simp add: path_answers_def)
  next
    case ZeroOrOne
    then show ?thesis using inv(1,3,4) by (auto simp: path_answers_def)
  qed
  with inv(2) show ?thesis by blast
qed

lemma answers_step:
  assumes "x \<in> (if unbounded hops then E\<^sup>* `` S else S)"
  shows "E `` {x} \<subseteq> path_answers hops E S"
  using assms by (cases hops) (auto simp: path_answers_def intro: rtrancl_into_rtrancl rtrancl_into_trancl1)

lemma walk_inv_round:
  assumes inv: "walk_inv hops E S frontier w" and w1: "collected w1" "wk_emitted w1 = wk_emitted w \<union> E `` set frontier"
    "wk_expanded w1 = (if unbounded hops then wk_expanded w \<union> E `` set frontier else wk_expanded w)"
    "set (wk_next w1) = wk_expanded w1 - wk_expanded w"
  shows "walk_inv hops E S (wk_next w1) w1"
proof -
  have i: "set frontier \<subseteq> wk_expanded w" "S \<subseteq> wk_expanded w" "wk_expanded w \<subseteq> (if unbounded hops then E\<^sup>* `` S else S)"
    "wk_emitted w \<subseteq> path_answers hops E S" "includes_seed hops \<Longrightarrow> S \<subseteq> wk_emitted w" "E `` (wk_expanded w - set frontier) \<subseteq> wk_emitted w"
    "unbounded hops \<Longrightarrow> E `` (wk_expanded w - set frontier) \<subseteq> wk_expanded w"
    using inv by (simp_all add: walk_inv_def)
  have front: "set frontier \<subseteq> (if unbounded hops then E\<^sup>* `` S else S)" using i(1,3) by (rule order_trans)
  then have "E `` set frontier \<subseteq> path_answers hops E S" using answers_step [of _ hops E S] by blast
  then have emitted: "wk_emitted w1 \<subseteq> path_answers hops E S" unfolding w1(2) using i(4) by simp
  have "E `` set frontier \<subseteq> E\<^sup>* `` S" if "unbounded hops"
    using front that by (auto intro: rtrancl_into_rtrancl)
  then have expanded: "wk_expanded w1 \<subseteq> (if unbounded hops then E\<^sup>* `` S else S)" 
    using i(3) w1(3) by (cases "unbounded hops") simp_all
  have grow: "wk_expanded w \<subseteq> wk_expanded w1" using w1(3) by simp
  have "wk_expanded w1 - set (wk_next w1) \<subseteq> wk_expanded w" unfolding w1(4) using grow by blast
  then have old: "E `` (wk_expanded w1 - set (wk_next w1)) \<subseteq> E `` (wk_expanded w - set frontier) \<union> E `` set frontier" by blast
  have "E `` (wk_expanded w1 - set (wk_next w1)) \<subseteq> wk_emitted w1" using old i(6) w1(2) by blast
  moreover have "E `` (wk_expanded w1 - set (wk_next w1)) \<subseteq> wk_expanded w1" if "unbounded hops"
    using old i(7) [OF that] w1(3) that by auto
  ultimately show ?thesis
    unfolding walk_inv_def using w1(1,2,4) emitted expanded i(2,5) grow by blast
qed

context readable_storage
begin

lemma neighbours:
  assumes ok: "ok st" and sem: "cp_semantics c = Filter" and calm: "\<forall>k. pressure k = None"
    and v: "view_reach ops st c v" and sx: "(s, x) = (case d of Forward \<Rightarrow> (Some node, None) | Backward \<Rightarrow> (None, Some node))"
  shows "\<exists>qs. snd (internal_quads_for_pattern ops pressure s (Some p) x graph v) = map Inr qs
    \<and> reached_node d ` set qs = seen_edges (view st) c p d graph `` {node}"
proof -
  have st: "vw_store v = st" "vw_policy v = c" using view_reach_ok [OF v] by simp_all
  obtain qs where qs: "snd (internal_quads_for_pattern ops pressure s (Some p) x graph v) = map Inr qs"
    "set qs = {q \<in> {q \<in> fst (view st). quad_matches s (Some p) x (pattern_filter graph) q}. permits_quad c q READ \<and> \<not> skipped c (pattern_filter graph)}"
    using view_shows_filter [OF pattern_scan_shows [of v pressure graph s "Some p" x]] st ok sem calm by (auto simp: view_returns_def)
  have "reached_node d ` set qs = seen_edges (view st) c p d graph `` {node}"
    using sx unfolding qs(2) by (cases d) (auto simp: seen_edges_def edges_def reached_node_def quad_matches_def image_iff)
  with qs(1) show ?thesis by blast
qed

lemma expand_collect:
  assumes ok: "ok st" and sem: "cp_semantics c = Filter" and calm: "\<forall>i k. pressure i k = None"
    and "view_reach ops st c (wk_view w)" "collected w"
  shows "\<exists>w1. expand_round ops pressure p d hops graph collect nodes w = (w1, None) \<and> collected w1 \<and> view_reach ops st c (wk_view w1)
    \<and> wk_emitted w1 = wk_emitted w \<union> seen_edges (view st) c p d graph `` set nodes
    \<and> wk_expanded w1 = (if unbounded hops then wk_expanded w \<union> seen_edges (view st) c p d graph `` set nodes else wk_expanded w)
    \<and> set (wk_next w1) = set (wk_next w) \<union> (wk_expanded w1 - wk_expanded w)"
  using assms(4,5)
proof (induction nodes arbitrary: w)
  case (Cons node nodes)
  let ?E = "seen_edges (view st) c p d graph"
  obtain s x where sx: "(s, x) = (case d of Forward \<Rightarrow> (Some node, None) | Backward \<Rightarrow> (None, Some node))" by (metis surj_pair)
  let ?scan = "internal_quads_for_pattern ops (pressure node) s (Some p) x graph (wk_view w)"
  obtain qs where qs: "snd ?scan = map Inr qs" "reached_node d ` set qs = ?E `` {node}"
    using neighbours [OF ok sem _ Cons.prems(1) sx, of "pressure node" p graph] calm by auto
  have reach: "view_reach ops st c (fst ?scan)" by (rule view_reach.Scan [OF Cons.prems(1)])
  have "collected (w\<lparr>wk_view := fst ?scan\<rparr>)" using Cons.prems(2) by (simp add: collected_def)
  from cross_collect [OF this, of d hops qs] obtain w1 where w1: "cross_edges d hops collect (map Inr qs) (w\<lparr>wk_view := fst ?scan\<rparr>) = (w1, None)"
    "collected w1" "wk_view w1 = fst ?scan" "wk_emitted w1 = wk_emitted w \<union> ?E `` {node}"
    "wk_expanded w1 = (if unbounded hops then wk_expanded w \<union> ?E `` {node} else wk_expanded w)"
    "set (wk_next w1) = set (wk_next w) \<union> (wk_expanded w1 - wk_expanded w)"
    unfolding qs(2) by auto
  have step: "expand_round ops pressure p d hops graph collect (node # nodes) w = expand_round ops pressure p d hops graph collect nodes w1"
    using w1(1) qs(1) sx [symmetric] by (simp add: case_prod_beta Let_def)
  have "view_reach ops st c (wk_view w1)" using reach w1(3) by simp
  from Cons.IH [OF this w1(2)] obtain w2 where w2: "expand_round ops pressure p d hops graph collect nodes w1 = (w2, None)" "collected w2"
    "view_reach ops st c (wk_view w2)" "wk_emitted w2 = wk_emitted w1 \<union> ?E `` set nodes"
    "wk_expanded w2 = (if unbounded hops then wk_expanded w1 \<union> ?E `` set nodes else wk_expanded w1)"
    "set (wk_next w2) = set (wk_next w1) \<union> (wk_expanded w2 - wk_expanded w1)" by blast
  have "?E `` set (node # nodes) = ?E `` {node} \<union> ?E `` set nodes" by auto
  then show ?case unfolding step using w1 w2 by (intro exI [of _ w2]) auto
qed simp

lemma walk_collect:
  assumes ok: "ok st" and sem: "cp_semantics c = Filter" and calm: "\<forall>i k. pressure i k = None"
    and "view_reach ops st c (wk_view w)" "walk_inv hops (seen_edges (view st) c p d graph) S frontier w"
  shows "\<exists>w1. walk_rounds ops pressure p d hops graph collect frontier w = (w1, Inr Complete) \<and> collected w1
    \<and> wk_emitted w1 = path_answers hops (seen_edges (view st) c p d graph) S"
  using assms(3-5)
proof (induction "card (- wk_expanded w) + (if frontier = [] then 0 else 1)" arbitrary: frontier w rule: less_induct)
  case less
  let ?E = "seen_edges (view st) c p d graph"
  show ?case
  proof (cases "frontier = []")
    case True
    then show ?thesis using walk_inv_done [of hops ?E S w] less.prems(3) by (auto simp: walk_rounds.simps walk_inv_def)
  next
    case False
    let ?w = "w\<lparr>wk_next := []\<rparr>"
    have "view_reach ops st c (wk_view ?w)" "collected ?w" using less.prems by (simp_all add: walk_inv_def collected_def)
    from expand_collect [OF ok sem calm this, of p d hops graph frontier] obtain w1 where
      w1: "expand_round ops pressure p d hops graph collect frontier ?w = (w1, None)" "collected w1" "view_reach ops st c (wk_view w1)"
      "wk_emitted w1 = wk_emitted w \<union> ?E `` set frontier"
      "wk_expanded w1 = (if unbounded hops then wk_expanded w \<union> ?E `` set frontier else wk_expanded w)"
      "set (wk_next w1) = wk_expanded w1 - wk_expanded w" by auto
    have inv: "walk_inv hops ?E S (wk_next w1) w1" by (rule walk_inv_round [OF less.prems(3) w1(2,4,5,6)])
    have "card (- wk_expanded w1) + (if wk_next w1 = [] then 0 else 1) < card (- wk_expanded w) + (if frontier = [] then 0 else 1)"
      using round_measure [OF w1(1) [symmetric]] False by simp
    from less.hyps [OF this less.prems(1) w1(3) inv] show ?thesis using w1(1) False by (subst walk_rounds.simps) simp
  qed
qed

lemma reachable_collect:
  assumes ok: "ok st" and sem: "cp_semantics c = Filter" and calm: "\<forall>i k. pressure i k = None"
    and v: "view_reach ops st c v"
  shows "\<exists>v' out. reachable ops pressure p d hops graph seeds collect [] v = (v', out, Inr Complete) \<and> distinct out
    \<and> set out = path_answers hops (seen_edges (view st) c p d graph) (set seeds)"
proof -
  let ?w = "\<lparr>wk_view = v, wk_emitted = {}, wk_expanded = {}, wk_next = [], wk_sink = []\<rparr>" and ?E = "seen_edges (view st) c p d graph"
  have "collected ?w" "set (wk_next ?w) = wk_expanded ?w" by (simp_all add: collected_def)
  from seed_loop_collect [OF this, of hops seeds] obtain w1 where w1: "seed_loop hops collect seeds ?w = (w1, None)" "collected w1"
    "wk_view w1 = v" "wk_expanded w1 = set seeds" "set (wk_next w1) = set seeds"
    "wk_emitted w1 = (if includes_seed hops then set seeds else {})" by auto
  have "walk_inv hops ?E (set seeds) (wk_next w1) w1"
    using w1 by (cases hops) (auto simp: walk_inv_def path_answers_def)
  then obtain w2 where "walk_rounds ops pressure p d hops graph collect (wk_next w1) w1 = (w2, Inr Complete)" "collected w2"
    "wk_emitted w2 = path_answers hops ?E (set seeds)"
    using walk_collect [OF ok sem calm, of w1 hops p d graph "set seeds" "wk_next w1"] v w1(3) by auto
  then show ?thesis using w1(1) by (auto simp: reachable_def collected_def)
qed

end

section \<open>Properties\<close>

text \<open>
  C14. A closure path is answered completely and ends: under a policy that filters, while no memory ceiling is
  reached, a walk whose consumer takes everything returns, on any graph and around any cycle, and has offered each
  once exactly the nodes the path reaches from the seeds over the edges the walk may cross: reflexive and
  transitive closure for star, transitive closure for plus (a seed only around a cycle), one step or none for the
  question mark. The edges it may cross are those the principal may read, except that a walk in one named graph
  reported as wholly denied crosses none; when every rule governs reading, the exception loses nothing.
\<close>

theorem path_walk_exact:
  assumes "mem_store_ok X st" "compile (memory_ops X) st po pr = Inr c" "po_semantics po = Filter"
    and "\<forall>i k. pressure i k = None" "view_reach (memory_ops X) st c v"
  shows "\<exists>v' out. reachable (memory_ops X) pressure p d hops graph seeds collect [] v = (v', out, Inr Complete) \<and> distinct out
    \<and> set out = path_answers hops (seen_edges (mem_view st) c p d graph) (set seeds)
    \<and> ((\<forall>r\<in>set (po_rules po). modes_contains (ru_modes r) READ)
        \<longrightarrow> set out = path_answers hops (edges (mem_view st) c p d graph) (set seeds))"
proof -
  have sem: "cp_semantics c = Filter" using compile_slots(6) [OF assms(2)] assms(3) by simp
  have "seen_edges (mem_view st) c p d graph = edges (mem_view st) c p d graph" if "\<forall>r\<in>set (po_rules po). modes_contains (ru_modes r) READ"
  proof (cases "skipped c (pattern_filter graph)")
    case True
    then have "\<not> (graph_matches (pattern_filter graph) (enc_graph q) \<and> permits_quad c q READ)" for q
      using skipped_nothing [OF reads_govern_skips [OF assms(2) that], of None None None "pattern_filter graph" q] by (auto simp: quad_matches_def)
    with True show ?thesis by (cases d) (auto simp: seen_edges_def edges_def)
  qed (simp add: seen_edges_def)
  with mread.reachable_collect [OF assms(1) sem assms(4,5), of p d hops graph seeds] show ?thesis by metis
qed

theorem path_walk_exact_witness:
  "\<exists>c v' out. compile (memory_ops demo_lib) one_quad policy_permit_all anonymous = Inr c
    \<and> reachable (memory_ops demo_lib) (\<lambda>_ _. None) (TermId 1) Forward ZeroOrMore None [TermId 7] collect [] (new_view one_quad c) = (v', out, Inr Complete)
    \<and> TermId 7 \<in> set out"
proof -
  obtain c where c: "compile (memory_ops demo_lib) one_quad policy_permit_all anonymous = Inr c" using one_quad_compiled ..
  have calm: "\<forall>(i :: term_id) (k :: nat). (\<lambda>_ _. None :: (nat \<times> nat) option) i k = None" by simp
  obtain v' out where "reachable (memory_ops demo_lib) (\<lambda>_ _. None) (TermId 1) Forward ZeroOrMore None [TermId 7] collect [] (new_view one_quad c) = (v', out, Inr Complete)"
    "set out = path_answers ZeroOrMore (seen_edges (mem_view one_quad) c (TermId 1) Forward None) (set [TermId 7])"
    using path_walk_exact [OF one_quad_facts(4) c one_quad_facts(8) calm view_reach.Open, of "TermId 1" Forward ZeroOrMore None "[TermId 7]"] by blast
  moreover have "TermId 7 \<in> path_answers ZeroOrMore (seen_edges (mem_view one_quad) c (TermId 1) Forward None) (set [TermId 7])"
    by (simp add: path_answers_def)
  ultimately show ?thesis using c by blast
qed

end
