(* ===== verification/Sketches.thy ===== *)
theory Sketches
  imports Term_Id
begin

text \<open>
  Two probabilistic structures that must be exact where it matters. The bloom filter of a bulk load
  (\<^verbatim>\<open>holos-store/src/rocks/seen.rs\<close>) must never forget a key, or a term would be interned twice; its key hash
  is a parameter. The distinct-count sketch of the statistics (\<^verbatim>\<open>holos-stats/src/hll.rs\<close>) must not notice
  order or repetition; its mixing function is a bijection. The floating-point estimate of the sketch is not
  modelled.
\<close>

unbundle bit_operations_syntax

type_synonym u128 = "128 word"

section \<open>The bloom filter\<close>

definition DEFAULT_BYTES :: nat where "DEFAULT_BYTES = 256 * 2 ^ 20"

definition HASHES :: nat where "HASHES = 7"

record seen =
  sn_words :: "u64 list"
  sn_bits :: u64
  sn_inserted :: u64

definition with_bytes :: "nat \<Rightarrow> seen" where
  "with_bytes bytes = (let words = max (bytes div 8) 1 in
    \<lparr>sn_words = replicate words 0, sn_bits = word_of_nat words * 64, sn_inserted = 0\<rparr>)"

definition seen_index :: "seen \<Rightarrow> u64 \<Rightarrow> u64" where
  "seen_index sn hash = ucast (drop_bit 64 ((ucast hash :: u128) * ucast (sn_bits sn)))"

definition seen_hashes :: "('k \<Rightarrow> u64) \<Rightarrow> 'k \<Rightarrow> u64 \<times> u64" where
  "seen_hashes hasher k =
    (let h1 = hasher k;
         z = h1 + 0x9E3779B97F4A7C15;
         z = (z XOR drop_bit 30 z) * 0xBF58476D1CE4E5B9;
         z = (z XOR drop_bit 27 z) * 0x94D049BB133111EB
     in (h1, (z XOR drop_bit 31 z) OR 1))"

text \<open>The bit of probe number \<open>i\<close>, and the word and position it lies at.\<close>

definition probe_bit :: "('k \<Rightarrow> u64) \<Rightarrow> seen \<Rightarrow> 'k \<Rightarrow> nat \<Rightarrow> u64" where
  "probe_bit hasher sn k i = (let (h1, h2) = seen_hashes hasher k in seen_index sn (h1 + word_of_nat i * h2))"

definition set_bit_at :: "u64 \<Rightarrow> u64 list \<Rightarrow> u64 list res" where
  "set_bit_at b ws =
    (if unat b div 64 < length ws
     then Inr (ws[unat b div 64 := ws ! (unat b div 64) OR push_bit (unat b mod 64) 1])
     else Inl (Panic ''index out of bounds''))"

definition test_bit_at :: "u64 \<Rightarrow> u64 list \<Rightarrow> bool res" where
  "test_bit_at b ws =
    (if unat b div 64 < length ws
     then Inr (ws ! (unat b div 64) AND push_bit (unat b mod 64) 1 \<noteq> 0)
     else Inl (Panic ''index out of bounds''))"

fun set_bits :: "u64 list \<Rightarrow> u64 list \<Rightarrow> u64 list res" where
  "set_bits [] ws = Inr ws"
| "set_bits (b # bs) ws = (case set_bit_at b ws of Inl e \<Rightarrow> Inl e | Inr ws1 \<Rightarrow> set_bits bs ws1)"

fun test_bits :: "u64 list \<Rightarrow> u64 list \<Rightarrow> bool res" where
  "test_bits [] ws = Inr True"
| "test_bits (b # bs) ws = (case test_bit_at b ws of Inl e \<Rightarrow> Inl e | Inr False \<Rightarrow> Inr False | Inr True \<Rightarrow> test_bits bs ws)"

definition seen_insert :: "('k \<Rightarrow> u64) \<Rightarrow> 'k \<Rightarrow> seen \<Rightarrow> seen res" where
  "seen_insert hasher k sn =
    (case set_bits (map (probe_bit hasher sn k) [0..<HASHES]) (sn_words sn) of
       Inl e \<Rightarrow> Inl e
     | Inr ws \<Rightarrow> Inr (sn\<lparr>sn_words := ws, sn_inserted := sn_inserted sn + 1\<rparr>))"

definition may_contain :: "('k \<Rightarrow> u64) \<Rightarrow> 'k \<Rightarrow> seen \<Rightarrow> bool res" where
  "may_contain hasher k sn = test_bits (map (probe_bit hasher sn k) [0..<HASHES]) (sn_words sn)"

fun seen_insert_all :: "('k \<Rightarrow> u64) \<Rightarrow> 'k list \<Rightarrow> seen \<Rightarrow> seen res" where
  "seen_insert_all hasher [] sn = Inr sn"
| "seen_insert_all hasher (k # ks) sn = (case seen_insert hasher k sn of Inl e \<Rightarrow> Inl e | Inr sn1 \<Rightarrow> seen_insert_all hasher ks sn1)"

section \<open>The distinct-count sketch\<close>

definition PRECISION :: nat where "PRECISION = 14"

definition REGISTERS :: nat where "REGISTERS = 2 ^ PRECISION"

definition MAX_RANK :: nat where "MAX_RANK = 64 - PRECISION + 1"

definition new_distinct_count :: "u8 list" where
  "new_distinct_count = replicate REGISTERS 0"

definition mix :: "u64 \<Rightarrow> u64" where
  "mix z =
    (let z = z + 0x9E3779B97F4A7C15;
         z = (z XOR drop_bit 30 z) * 0xBF58476D1CE4E5B9;
         z = (z XOR drop_bit 27 z) * 0x94D049BB133111EB
     in z XOR drop_bit 31 z)"

definition leading_zeros :: "u64 \<Rightarrow> nat" where
  "leading_zeros w = length (takeWhile (\<lambda>i. \<not> bit w i) (rev [0..<64]))"

definition hll_index :: "term_id \<Rightarrow> nat" where
  "hll_index i = unat (drop_bit (64 - PRECISION) (mix (to_raw i)))"

definition hll_rank :: "term_id \<Rightarrow> u8" where
  "hll_rank i = word_of_nat (min (leading_zeros (push_bit PRECISION (mix (to_raw i))) + 1) MAX_RANK)"

definition hll_add :: "term_id \<Rightarrow> u8 list \<Rightarrow> u8 list res" where
  "hll_add i registers =
    (if hll_index i < length registers
     then Inr (if registers ! hll_index i < hll_rank i then registers[hll_index i := hll_rank i] else registers)
     else Inl (Panic ''index out of bounds''))"

fun hll_add_all :: "term_id list \<Rightarrow> u8 list \<Rightarrow> u8 list res" where
  "hll_add_all [] registers = Inr registers"
| "hll_add_all (i # ids) registers = (case hll_add i registers of Inl e \<Rightarrow> Inl e | Inr r \<Rightarrow> hll_add_all ids r)"

section \<open>No false negatives\<close>

definition seen_ok :: "seen \<Rightarrow> bool" where
  "seen_ok sn \<longleftrightarrow> unat (sn_bits sn) = length (sn_words sn) * 64 \<and> sn_words sn \<noteq> []"

definition bit_set :: "u64 list \<Rightarrow> u64 \<Rightarrow> bool" where
  "bit_set ws b \<longleftrightarrow> bit (ws ! (unat b div 64)) (unat b mod 64)"

definition inside :: "u64 list \<Rightarrow> u64 \<Rightarrow> bool" where
  "inside ws b \<longleftrightarrow> unat b div 64 < length ws"

lemma with_bytes_ok: "bytes < 2 ^ 61 \<Longrightarrow> seen_ok (with_bytes bytes)"
proof -
  assume b: "bytes < 2 ^ 61"
  let ?w = "max (bytes div 8) 1"
  have "?w < 2 ^ 58" using b by (simp add: less_mult_imp_div_less)
  then have "unat (word_of_nat ?w * 64 :: u64) = ?w * 64"
    by (simp add: unat_word_ariths unat_of_nat take_bit_nat_eq_self)
  then show ?thesis by (simp add: with_bytes_def seen_ok_def Let_def)
qed

lemma index_below:
  assumes "0 < unat (sn_bits sn)"
  shows "unat (seen_index sn hash) < unat (sn_bits sn)"
proof -
  let ?h = "unat hash" and ?b = "unat (sn_bits sn)"
  have h: "?h < 2 ^ 64" and b: "?b < 2 ^ 64" using unsigned_less [of hash, where ?'a = nat] unsigned_less [of "sn_bits sn", where ?'a = nat] by simp_all
  have "?h * ?b < 2 ^ 64 * 2 ^ 64" using h b by (intro mult_strict_mono) simp_all
  then have prod: "unat ((ucast hash :: u128) * ucast (sn_bits sn)) = ?h * ?b"
    using h b by (simp add: unat_word_ariths unsigned_ucast_eq take_bit_nat_eq_self)
  have quot: "?h * ?b div 2 ^ 64 < ?b" using h assms by (simp add: less_mult_imp_div_less)
  have "unat (drop_bit 64 ((ucast hash :: u128) * ucast (sn_bits sn))) = ?h * ?b div 2 ^ 64"
    by (subst unat_drop_bit_eq) (simp only: prod drop_bit_eq_div)
  then have "unat (seen_index sn hash) = ?h * ?b div 2 ^ 64"
    unfolding seen_index_def using quot b by (simp add: unsigned_ucast_eq take_bit_nat_eq_self)
  with quot show ?thesis by simp
qed

lemma probe_inside: "seen_ok sn \<Longrightarrow> inside (sn_words sn) (probe_bit hasher sn k i)"
  using index_below [of sn] by (auto simp: inside_def probe_bit_def seen_ok_def Let_def case_prod_beta less_mult_imp_div_less mult.commute)

lemma inside_cong: "length ws = length ws' \<Longrightarrow> inside ws b = inside ws' b"
  by (simp add: inside_def)

lemma set_bit_at_ok:
  assumes "inside ws b"
  shows "\<exists>ws1. set_bit_at b ws = Inr ws1 \<and> length ws1 = length ws \<and> (\<forall>a. bit_set ws1 a \<longleftrightarrow> a = b \<or> bit_set ws a)"
proof -
  let ?n = "unat b div 64" and ?k = "unat b mod 64"
  let ?ws1 = "ws[?n := ws ! ?n OR push_bit ?k 1]"
  have n: "?n < length ws" using assms by (simp add: inside_def)
  have k: "?k < 64" by simp
  have "bit_set ?ws1 a \<longleftrightarrow> a = b \<or> bit_set ws a" for a
  proof (cases "unat a div 64 = ?n")
    case True
    have "a = b \<longleftrightarrow> unat a mod 64 = ?k" using True by (metis div_mult_mod_eq word_unat_eq_iff)
    then show ?thesis using True n k by (auto simp: bit_set_def bit_or_iff bit_exp_iff)
  next
    case False
    then show ?thesis by (auto simp: bit_set_def)
  qed
  then show ?thesis using n by (auto simp: set_bit_at_def)
qed

lemma set_bits_ok:
  assumes "\<forall>b\<in>set bs. inside ws b"
  shows "\<exists>ws1. set_bits bs ws = Inr ws1 \<and> length ws1 = length ws \<and> (\<forall>a. bit_set ws1 a \<longleftrightarrow> a \<in> set bs \<or> bit_set ws a)"
  using assms
proof (induction bs arbitrary: ws)
  case (Cons b bs)
  then obtain ws1 where ws1: "set_bit_at b ws = Inr ws1" "length ws1 = length ws" "\<forall>a. bit_set ws1 a \<longleftrightarrow> a = b \<or> bit_set ws a"
    using set_bit_at_ok [of ws b] by auto
  moreover have "\<forall>b\<in>set bs. inside ws1 b" using Cons.prems ws1(2) by (simp add: inside_def)
  then obtain ws2 where "set_bits bs ws1 = Inr ws2" "length ws2 = length ws1" "\<forall>a. bit_set ws2 a \<longleftrightarrow> a \<in> set bs \<or> bit_set ws1 a"
    using Cons.IH by blast
  ultimately show ?case by auto
qed simp

lemma test_bits_ok:
  "\<forall>b\<in>set bs. inside ws b \<Longrightarrow> test_bits bs ws = Inr (\<forall>b\<in>set bs. bit_set ws b)"
proof (induction bs)
  case (Cons b bs)
  have "ws ! (unat b div 64) AND push_bit (unat b mod 64) 1 \<noteq> 0 \<longleftrightarrow> bit_set ws b"
    unfolding bit_set_def by (metis and_exp_eq_0_iff_not_bit push_bit_of_1)
  then have "test_bit_at b ws = Inr (bit_set ws b)" using Cons.prems by (simp add: test_bit_at_def inside_def)
  then show ?case using Cons by (auto split: bool.splits)
qed simp

text \<open>The probes depend on the size of the filter alone.\<close>

definition probes :: "('k \<Rightarrow> u64) \<Rightarrow> u64 \<Rightarrow> 'k \<Rightarrow> u64 set" where
  "probes hasher n k = probe_bit hasher \<lparr>sn_words = [], sn_bits = n, sn_inserted = 0\<rparr> k ` {0..<HASHES}"

lemma probes_eq: "set (map (probe_bit hasher sn k) [0..<HASHES]) = probes hasher (sn_bits sn) k"
  by (simp add: probes_def probe_bit_def seen_index_def cong: image_cong)

lemma seen_insert_ok:
  assumes "seen_ok sn"
  shows "\<exists>sn1. seen_insert hasher k sn = Inr sn1 \<and> seen_ok sn1 \<and> sn_bits sn1 = sn_bits sn
    \<and> (\<forall>a. bit_set (sn_words sn1) a \<longleftrightarrow> a \<in> probes hasher (sn_bits sn) k \<or> bit_set (sn_words sn) a)
    \<and> sn_inserted sn1 = sn_inserted sn + 1"
proof -
  have "\<forall>b\<in>set (map (probe_bit hasher sn k) [0..<HASHES]). inside (sn_words sn) b" using probe_inside [OF assms] by auto
  from set_bits_ok [OF this] obtain ws where ws: "set_bits (map (probe_bit hasher sn k) [0..<HASHES]) (sn_words sn) = Inr ws"
    "length ws = length (sn_words sn)" "\<forall>a. bit_set ws a \<longleftrightarrow> a \<in> probes hasher (sn_bits sn) k \<or> bit_set (sn_words sn) a"
    unfolding probes_eq by blast
  then have "seen_ok (sn\<lparr>sn_words := ws, sn_inserted := sn_inserted sn + 1\<rparr>)" using assms by (auto simp: seen_ok_def)
  then show ?thesis using ws by (auto simp: seen_insert_def)
qed

lemma may_contain_ok:
  assumes "seen_ok sn"
  shows "may_contain hasher k sn = Inr (probes hasher (sn_bits sn) k \<subseteq> {b. bit_set (sn_words sn) b})"
proof -
  have "\<forall>b\<in>set (map (probe_bit hasher sn k) [0..<HASHES]). inside (sn_words sn) b" using probe_inside [OF assms] by auto
  from test_bits_ok [OF this] show ?thesis unfolding may_contain_def probes_eq by (auto simp: subset_iff)
qed

lemma seen_insert_all_ok:
  assumes "seen_ok sn"
  shows "\<exists>sn1. seen_insert_all hasher ks sn = Inr sn1 \<and> seen_ok sn1 \<and> sn_bits sn1 = sn_bits sn
    \<and> (\<forall>a. bit_set (sn_words sn1) a \<longleftrightarrow> (\<exists>k\<in>set ks. a \<in> probes hasher (sn_bits sn) k) \<or> bit_set (sn_words sn) a)
    \<and> sn_inserted sn1 = sn_inserted sn + word_of_nat (length ks)"
  using assms
proof (induction ks arbitrary: sn)
  case (Cons k ks)
  obtain sn1 where sn1: "seen_insert hasher k sn = Inr sn1" "seen_ok sn1" "sn_bits sn1 = sn_bits sn"
    "\<forall>a. bit_set (sn_words sn1) a \<longleftrightarrow> a \<in> probes hasher (sn_bits sn) k \<or> bit_set (sn_words sn) a" "sn_inserted sn1 = sn_inserted sn + 1"
    using seen_insert_ok [OF Cons.prems, of hasher k] by blast
  with Cons.IH [OF sn1(2)] show ?case by (auto simp: algebra_simps)
qed simp

lemma new_filter_empty: "\<not> bit_set (sn_words (with_bytes bytes)) b" if "inside (sn_words (with_bytes bytes)) b"
  using that by (auto simp: with_bytes_def bit_set_def inside_def Let_def)

section \<open>The sketch forgets order and repetition\<close>

definition hll_value :: "term_id set \<Rightarrow> nat \<Rightarrow> u8" where
  "hll_value A r = Max (insert 0 (hll_rank ` {i \<in> A. hll_index i = r}))"

lemma hll_index_bound: "hll_index i < REGISTERS"
proof -
  have "unat (drop_bit 50 (mix (to_raw i))) = unat (mix (to_raw i)) div 2 ^ 50"
    by (subst unat_drop_bit_eq) (simp only: drop_bit_eq_div)
  also have "\<dots> < 2 ^ 14" using unsigned_less [of "mix (to_raw i)", where ?'a = nat] by (simp add: less_mult_imp_div_less)
  finally show ?thesis by (simp add: hll_index_def REGISTERS_def PRECISION_def)
qed

lemma word_zero_le: "(0 :: 'a::len word) \<le> x"
  by simp

lemma hll_value_insert:
  assumes "finite A"
  shows "hll_value (insert i A) r = (if hll_index i = r then max (hll_rank i) (hll_value A r) else hll_value A r)"
proof (cases "hll_index i = r")
  case True
  then have "{j \<in> insert i A. hll_index j = r} = insert i {j \<in> A. hll_index j = r}" by auto
  then have "insert 0 (hll_rank ` {j \<in> insert i A. hll_index j = r}) = insert (hll_rank i) (insert 0 (hll_rank ` {j \<in> A. hll_index j = r}))" by auto
  then show ?thesis using True assms by (simp add: hll_value_def del: insert_commute)
next
  case False
  then have "{j \<in> insert i A. hll_index j = r} = {j \<in> A. hll_index j = r}" by auto
  then show ?thesis using False by (simp add: hll_value_def)
qed

definition holds_set :: "term_id set \<Rightarrow> u8 list \<Rightarrow> bool" where
  "holds_set A registers \<longleftrightarrow> length registers = REGISTERS \<and> (\<forall>r<REGISTERS. registers ! r = hll_value A r)"

lemma hll_add_holds:
  assumes "finite A" "holds_set A registers"
  shows "\<exists>r1. hll_add i registers = Inr r1 \<and> holds_set (insert i A) r1"
  using assms hll_index_bound [of i]
  by (auto simp: holds_set_def hll_add_def hll_value_insert nth_list_update max_def not_less)

lemma hll_add_all_holds:
  assumes "finite A" "holds_set A registers"
  shows "\<exists>r1. hll_add_all ids registers = Inr r1 \<and> holds_set (set ids \<union> A) r1"
  using assms
proof (induction ids arbitrary: A registers)
  case (Cons i ids)
  obtain r1 where "hll_add i registers = Inr r1" "holds_set (insert i A) r1" using hll_add_holds [OF Cons.prems] by blast
  with Cons.IH [of "insert i A" r1] Cons.prems(1) show ?case by simp
qed simp

lemma new_holds_empty: "holds_set {} new_distinct_count"
  by (simp add: holds_set_def new_distinct_count_def hll_value_def)

lemma holds_set_unique: "holds_set A r \<Longrightarrow> holds_set A r' \<Longrightarrow> r = r'"
  by (auto simp: holds_set_def intro: nth_equalityI)

section \<open>Mixing is a bijection\<close>

lemma xor_shift_inject:
  assumes "0 < k" "x XOR drop_bit k x = y XOR drop_bit k y"
  shows "x = (y :: u64)"
proof (rule bit_word_eqI)
  fix n
  have step: "bit x m = bit y m" if "bit x (m + k) = bit y (m + k)" for m
    using arg_cong [OF assms(2), of "\<lambda>w. bit w m"] that by (auto simp: bit_xor_iff bit_drop_bit_eq add.commute)
  have "bit x n = bit y n" if "64 \<le> n + j" for n j
    using that
  proof (induction j arbitrary: n)
    case 0
    then show ?case using bit_imp_le_length [of x n] bit_imp_le_length [of y n] by auto
  next
    case (Suc j)
    then have "bit x (n + k) = bit y (n + k)" using assms(1) by simp
    then show ?case by (rule step)
  qed
  then show "bit x n = bit y n" by (metis le_add2)
qed

lemma mult_inverse_inject:
  assumes "c * d = (1 :: u64)" "x * c = y * c"
  shows "x = y"
proof -
  have "x = x * (c * d)" by (simp add: assms(1))
  also have "\<dots> = (y * c) * d" by (simp only: mult.assoc [symmetric] assms(2))
  also have "\<dots> = y" by (simp only: mult.assoc assms(1) mult_1_right)
  finally show ?thesis .
qed

lemma mix_inject: "mix x = mix y \<longleftrightarrow> x = y"
proof
  assume m: "mix x = mix y"
  have inv: "0x94D049BB133111EB * 0x319642b2d24d8ec3 = (1 :: u64)" "0xBF58476D1CE4E5B9 * 0x96de1b173f119089 = (1 :: u64)" by simp_all
  note a = xor_shift_inject [OF _ m [unfolded mix_def Let_def]]
  note b = xor_shift_inject [OF _ mult_inverse_inject [OF inv(1) a]]
  note c = xor_shift_inject [OF _ mult_inverse_inject [OF inv(2) b]]
  have "x + 0x9E3779B97F4A7C15 = y + 0x9E3779B97F4A7C15" by (rule c) simp_all
  then show "x = y" by simp
qed simp

section \<open>Properties\<close>

text \<open>
  C31. The filter of a bulk load never forgets: whatever the hash of the keys, a filter of any size below
  two exbibytes takes any sequence of keys without an index out of bounds, reports every inserted key as
  possibly present, answers for every other key, and a fresh filter contains nothing.
\<close>

theorem seen_never_forgets:
  assumes "bytes < 2 ^ 61"
  shows "\<exists>sn. seen_insert_all hasher ks (with_bytes bytes) = Inr sn \<and> (\<forall>k\<in>set ks. may_contain hasher k sn = Inr True)
    \<and> (\<forall>k. may_contain hasher k sn = Inr True \<or> may_contain hasher k sn = Inr False)
    \<and> sn_inserted sn = word_of_nat (length ks) \<and> may_contain hasher k (with_bytes bytes) = Inr False"
proof -
  let ?f = "with_bytes bytes"
  have ok: "seen_ok ?f" by (rule with_bytes_ok [OF assms])
  obtain sn where sn: "seen_insert_all hasher ks ?f = Inr sn" "seen_ok sn" "sn_bits sn = sn_bits ?f"
    "\<forall>a. bit_set (sn_words sn) a \<longleftrightarrow> (\<exists>k\<in>set ks. a \<in> probes hasher (sn_bits ?f) k) \<or> bit_set (sn_words ?f) a"
    "sn_inserted sn = word_of_nat (length ks)"
    using seen_insert_all_ok [OF ok, of hasher ks] by (auto simp: with_bytes_def Let_def)
  have "may_contain hasher k sn = Inr True" if "k \<in> set ks" for k
    unfolding may_contain_ok [OF sn(2)] sn(3) using sn(4) that by auto
  moreover have "probe_bit hasher ?f k 0 \<in> probes hasher (sn_bits ?f) k"
    unfolding probes_eq [symmetric] by (simp add: HASHES_def)
  then have "may_contain hasher k ?f = Inr False"
    unfolding may_contain_ok [OF ok] using new_filter_empty [OF probe_inside [OF ok], of hasher k 0] by auto
  ultimately show ?thesis using sn(1,5) may_contain_ok [OF sn(2), of hasher] by auto
qed

theorem seen_never_forgets_witness:
  "\<exists>sn. seen_insert_all id [3, 5] (with_bytes DEFAULT_BYTES) = Inr sn \<and> may_contain id 5 sn = Inr True"
  using seen_never_forgets [of DEFAULT_BYTES id "[3, 5]"] by (auto simp: DEFAULT_BYTES_def)

text \<open>
  C34. The distinct-count sketch is a function of the set it has seen: adding values never indexes out of
  bounds, two sequences with the same values give the same registers whatever their order and
  repetitions, and every register holds the largest rank among the values that fall to it. The mixing function
  is a bijection on 64-bit values.
\<close>

theorem sketch_is_set_function:
  "(\<exists>r. hll_add_all ids new_distinct_count = Inr r \<and> length r = REGISTERS
      \<and> (\<forall>k<REGISTERS. r ! k = Max (insert 0 (hll_rank ` {i \<in> set ids. hll_index i = k}))))
    \<and> (set ids = set ids' \<longrightarrow> hll_add_all ids new_distinct_count = hll_add_all ids' new_distinct_count)
    \<and> bij mix"
proof (intro conjI impI)
  obtain r where r: "hll_add_all ids new_distinct_count = Inr r" "holds_set (set ids) r"
    using hll_add_all_holds [OF finite.emptyI new_holds_empty, of ids] by auto
  then show "\<exists>r. hll_add_all ids new_distinct_count = Inr r \<and> length r = REGISTERS
      \<and> (\<forall>k<REGISTERS. r ! k = Max (insert 0 (hll_rank ` {i \<in> set ids. hll_index i = k})))"
    by (auto simp: holds_set_def hll_value_def)
  assume "set ids = set ids'"
  then obtain r' where r': "hll_add_all ids' new_distinct_count = Inr r'" "holds_set (set ids) r'"
    using hll_add_all_holds [OF finite.emptyI new_holds_empty, of ids'] by auto
  show "hll_add_all ids new_distinct_count = hll_add_all ids' new_distinct_count"
    using r(1) r'(1) holds_set_unique [OF r(2) r'(2)] by simp
next
  have "inj mix" by (simp add: inj_def mix_inject)
  moreover have "finite (UNIV :: u64 set)" by simp
  ultimately show "bij mix" unfolding bij_def using finite_UNIV_inj_surj by blast
qed

theorem sketch_is_set_function_witness:
  "hll_add_all [TermId 7, TermId 7, TermId 9] new_distinct_count = hll_add_all [TermId 9, TermId 7] new_distinct_count"
proof -
  have "set [TermId 7, TermId 7, TermId 9] = set [TermId 9, TermId 7]" by auto
  then show ?thesis using sketch_is_set_function [of "[TermId 7, TermId 7, TermId 9]" "[TermId 9, TermId 7]"] by blast
qed

end
