(* ===== verification/Merge_Sort.thy ===== *)
theory Merge_Sort
  imports Rust_Std Rocks_Codec
begin

text \<open>
  The external merge sort of a bulk load, from \<^verbatim>\<open>holos-store/src/rocks/sort.rs\<close>: buffers are sorted and
  written as runs, and a heap merges the runs and the last buffer back into one ascending stream without
  duplicates. Spilling does not change the stream.

  The disk is a map from paths to contents. What the operating system may do to a read is a schedule of
  short reads, interruptions and failures for each run; a write may fail part-way. The binary heap is a
  collection whose least element is popped. Rows have \<open>n\<close> identifiers, three or four in the source, and
  the nine index orders are permutations of their positions, so a sort by key leaves no freedom: rows with
  equal keys are equal.
\<close>

section \<open>Rows and keys\<close>

type_synonym row = "term_id list"
type_synonym disk = "string \<rightharpoonup> byte list"

definition READ_ROWS :: nat where "READ_ROWS = 8192"

definition permuted :: "nat list \<Rightarrow> row \<Rightarrow> row" where
  "permuted perm r = map ((!) r) perm"

definition key_bytes :: "nat list \<Rightarrow> row \<Rightarrow> byte list" where
  "key_bytes perm r = concat (map (\<lambda>i. put_id (r ! i)) perm)"

definition pad_key :: "byte list \<Rightarrow> byte list" where
  "pad_key bs = bs @ replicate (32 - length bs) 0"

definition key_of :: "nat list \<Rightarrow> row \<Rightarrow> byte list" where
  "key_of perm r = pad_key (key_bytes perm r)"

fun dedup_by :: "('a \<Rightarrow> 'b) \<Rightarrow> 'a list \<Rightarrow> 'a list" where
  "dedup_by f (x # y # ys) = (if f y = f x then dedup_by f (x # ys) else x # dedup_by f (y # ys))"
| "dedup_by f xs = xs"

definition sort_dedup :: "nat list \<Rightarrow> row list \<Rightarrow> row list" where
  "sort_dedup perm rows = dedup_by (permuted perm) (sort_key (permuted perm) rows)"

section \<open>Runs\<close>

record runs =
  runs_dir :: string
  runs_family :: string
  runs_paths :: "string list"

definition new_runs :: "string \<Rightarrow> string \<Rightarrow> runs" where
  "new_runs dir family = \<lparr>runs_dir = dir, runs_family = family, runs_paths = []\<rparr>"

definition run_path :: "runs \<Rightarrow> string" where
  "run_path r = runs_dir r @ ''/'' @ runs_family r @ ''.'' @ show_nat (length (runs_paths r)) @ ''.run''"

text \<open>What happens to a write: it succeeds, the file is not created, or the write stops after some bytes.\<close>

datatype write_fate = Written | NotCreated storage_error | Torn nat storage_error

definition spill :: "write_fate \<Rightarrow> nat list \<Rightarrow> row list \<Rightarrow> runs \<Rightarrow> disk \<Rightarrow> row list \<times> runs \<times> disk \<times> unit res" where
  "spill fate perm rows r disk =
    (if rows = [] then (rows, r, disk, Inr ())
     else (let rows = sort_dedup perm rows; path = run_path r; bytes = concat (map (key_bytes perm) rows) in
       case fate of
         NotCreated e \<Rightarrow> (rows, r, disk, Inl e)
       | Torn k e \<Rightarrow> (rows, r, disk(path \<mapsto> take k bytes), Inl e)
       | Written \<Rightarrow> (rows, r\<lparr>runs_paths := runs_paths r @ [path]\<rparr>, disk(path \<mapsto> bytes), Inr ())))"

definition drop_runs :: "runs \<Rightarrow> disk \<Rightarrow> disk" where
  "drop_runs r disk = disk |` (- set (runs_paths r))"

section \<open>Reading a run back\<close>

datatype read_event = ShortRead nat | Interrupted | ReadFails storage_error

record run_reader =
  rd_file :: "byte list"
  rd_events :: "read_event list"
  rd_block :: "byte list"
  rd_at :: nat

text \<open>
  The loop that fills a block of \<open>want\<close> bytes: unread events, unread file, bytes read. A short read
  delivers at least one byte; once the schedule is used up, reads deliver what is asked for.
\<close>

fun read_loop :: "nat \<Rightarrow> read_event list \<Rightarrow> byte list \<Rightarrow> byte list \<Rightarrow> (read_event list \<times> byte list \<times> byte list) res" where
  "read_loop want [] file filled = Inr ([], drop (want - length filled) file, filled @ take (want - length filled) file)"
| "read_loop want (ev # events) file filled =
    (if want \<le> length filled then Inr (ev # events, file, filled)
     else (case ev of
         Interrupted \<Rightarrow> read_loop want events file filled
       | ReadFails e \<Rightarrow> Inl e
       | ShortRead k \<Rightarrow>
           (let got = min (Suc k) (min (want - length filled) (length file)) in
            if got = 0 then Inr (events, file, filled)
            else read_loop want events (drop got file) (filled @ take got file))))"

definition read_block :: "nat \<Rightarrow> run_reader \<Rightarrow> run_reader res" where
  "read_block width rd =
    (case read_loop (READ_ROWS * width) (rd_events rd) (rd_file rd) [] of
       Inl e \<Rightarrow> Inl e
     | Inr (events, file, filled) \<Rightarrow>
         if length filled mod width \<noteq> 0 then Inl (Corruption ''a sort run ended mid-row'')
         else Inr \<lparr>rd_file = file, rd_events = events, rd_block = filled, rd_at = 0\<rparr>)"

definition reader_row :: "nat \<Rightarrow> run_reader \<Rightarrow> run_reader \<times> byte list option res" where
  "reader_row width rd =
    (if length (rd_block rd) < rd_at rd + width then (rd, Inl (Panic ''slice out of range''))
     else (rd\<lparr>rd_at := rd_at rd + width\<rparr>, Inr (Some (pad_key (take width (drop (rd_at rd) (rd_block rd)))))))"

definition reader_next :: "nat \<Rightarrow> run_reader \<Rightarrow> run_reader \<times> byte list option res" where
  "reader_next n rd =
    (let width = n * ID_BYTES in
     if width = 0 then (rd, Inl (Panic ''remainder with a divisor of zero''))
     else if length (rd_block rd) \<le> rd_at rd then
       (case read_block width rd of
          Inl e \<Rightarrow> (rd, Inl e)
        | Inr rd1 \<Rightarrow> if rd_block rd1 = [] then (rd1, Inr None) else reader_row width rd1)
     else reader_row width rd)"

definition reader_open :: "(string \<Rightarrow> read_event list) \<Rightarrow> disk \<Rightarrow> string \<Rightarrow> run_reader res" where
  "reader_open schedule disk path =
    (case disk path of
       None \<Rightarrow> Inl (Io ''no such file'')
     | Some file \<Rightarrow> Inr \<lparr>rd_file = file, rd_events = schedule path, rd_block = [], rd_at = 0\<rparr>)"

section \<open>Merging\<close>

record merged =
  mg_sources :: "run_reader list"
  mg_heap :: "(byte list \<times> nat) list"
  mg_tail :: "row list"
  mg_tail_at :: nat
  mg_tail_index :: nat
  mg_perm :: "nat list"
  mg_last :: "byte list option"

definition heap_pop :: "'a::linorder list \<Rightarrow> ('a \<times> 'a list) option" where
  "heap_pop h = (if h = [] then None else Some (Min (set h), remove1 (Min (set h)) h))"

text \<open>The first row of every source, with the index of the source.\<close>

fun prime_heap :: "nat \<Rightarrow> nat \<Rightarrow> run_reader list \<Rightarrow> (run_reader list \<times> (byte list \<times> nat) list) res" where
  "prime_heap n index [] = Inr ([], [])"
| "prime_heap n index (rd # rds) =
    (case reader_next n rd of
       (rd1, Inl e) \<Rightarrow> Inl e
     | (rd1, Inr found) \<Rightarrow>
         (case prime_heap n (Suc index) rds of
            Inl e \<Rightarrow> Inl e
          | Inr (rds1, heap) \<Rightarrow> Inr (rd1 # rds1, (case found of None \<Rightarrow> heap | Some r \<Rightarrow> (r, index) # heap))))"

definition merge :: "nat \<Rightarrow> (string \<Rightarrow> read_event list) \<Rightarrow> disk \<Rightarrow> row list \<Rightarrow> nat list \<Rightarrow> runs \<Rightarrow> merged res" where
  "merge n schedule disk rows perm r =
    (let tail = sort_dedup perm rows in
     case collect_res (map (reader_open schedule disk) (runs_paths r)) of
       Inl e \<Rightarrow> Inl e
     | Inr sources \<Rightarrow>
         (case prime_heap n 0 sources of
            Inl e \<Rightarrow> Inl e
          | Inr (sources1, heap) \<Rightarrow>
              Inr \<lparr>mg_sources = sources1,
                   mg_heap = heap @ (case tail of [] \<Rightarrow> [] | r # _ \<Rightarrow> [(key_of perm r, length sources1)]),
                   mg_tail = tail, mg_tail_at = 0, mg_tail_index = length sources1, mg_perm = perm, mg_last = None\<rparr>))"

text \<open>Refilling the heap from the source a key came from.\<close>

definition refill :: "nat \<Rightarrow> nat \<Rightarrow> merged \<Rightarrow> merged \<times> unit res" where
  "refill n index m =
    (if index = mg_tail_index m then
       (let at = mg_tail_at m + 1 in
        (m\<lparr>mg_tail_at := at,
           mg_heap := (if at < length (mg_tail m) then (key_of (mg_perm m) (mg_tail m ! at), index) # mg_heap m else mg_heap m)\<rparr>, Inr ()))
     else if length (mg_sources m) \<le> index then (m, Inl (Panic ''index out of bounds''))
     else (case reader_next n (mg_sources m ! index) of
         (rd, Inl e) \<Rightarrow> (m\<lparr>mg_sources := (mg_sources m)[index := rd]\<rparr>, Inl e)
       | (rd, Inr None) \<Rightarrow> (m\<lparr>mg_sources := (mg_sources m)[index := rd]\<rparr>, Inr ())
       | (rd, Inr (Some r)) \<Rightarrow> (m\<lparr>mg_sources := (mg_sources m)[index := rd], mg_heap := (r, index) # mg_heap m\<rparr>, Inr ())))"

text \<open>What is left to read, which every turn of the loop decreases.\<close>

definition reader_left :: "run_reader \<Rightarrow> nat" where
  "reader_left rd = length (rd_block rd) - rd_at rd + length (rd_file rd)"

definition merged_left :: "merged \<Rightarrow> nat" where
  "merged_left m = length (mg_heap m) + sum_list (map reader_left (mg_sources m)) + (length (mg_tail m) - mg_tail_at m - 1)"

lemma read_loop_splits:
  "read_loop want events file filled = Inr (events1, file1, filled1) \<Longrightarrow> filled1 @ file1 = filled @ file"
proof (induction events arbitrary: "file" filled)
  case (Cons ev events)
  then show ?case by (cases ev) (auto simp: Let_def split: if_splits)
qed auto

lemma reader_row_left: "reader_row width rd = (rd1, Inr (Some r)) \<Longrightarrow> 0 < width \<Longrightarrow> reader_left rd1 < reader_left rd"
  by (auto simp: reader_row_def reader_left_def split: if_splits)

lemma read_block_left: "read_block width rd = Inr rd1 \<Longrightarrow> reader_left rd1 \<le> reader_left rd"
  by (auto simp: read_block_def reader_left_def dest!: read_loop_splits arg_cong [where f = length] split: sum.splits if_splits)

lemma reader_next_left:
  assumes "reader_next n rd = (rd1, Inr found)"
  shows "reader_left rd1 + (case found of None \<Rightarrow> 0 | Some _ \<Rightarrow> 1) \<le> reader_left rd"
proof -
  define width where "width = n * ID_BYTES"
  have w: "0 < width" using assms by (auto simp: reader_next_def width_def [symmetric] Let_def split: if_splits)
  have row: "reader_left rd1 < reader_left rd0" if "reader_row width rd0 = (rd1, Inr found)" for rd0
    using that reader_row_left [OF _ w, of rd0 rd1] by (auto simp: reader_row_def split: if_splits)
  have none: "found \<noteq> None" if "reader_row width rd0 = (rd1, Inr found)" for rd0
    using that by (auto simp: reader_row_def split: if_splits)
  show ?thesis
  proof (cases "length (rd_block rd) \<le> rd_at rd")
    case True
    then obtain rd0 where "read_block width rd = Inr rd0" "found = None \<and> rd1 = rd0 \<or> reader_row width rd0 = (rd1, Inr found)"
      using assms w by (auto simp: reader_next_def width_def [symmetric] Let_def split: sum.splits if_splits)
    then show ?thesis using read_block_left [of width rd rd0] row [of rd0] by (auto split: option.splits)
  next
    case False
    then have "reader_row width rd = (rd1, Inr found)" using assms w by (auto simp: reader_next_def width_def [symmetric] Let_def)
    then show ?thesis using row [of rd] by (auto split: option.splits)
  qed
qed

lemma sum_list_update_le:
  "k < length xs \<Longrightarrow> f y + d \<le> f (xs ! k) \<Longrightarrow> sum_list (map f (xs[k := y])) + d \<le> sum_list (map f xs)" for f :: "'a \<Rightarrow> nat"
  by (induction xs arbitrary: k) (auto simp: nth_Cons split: nat.splits)

lemma refill_left:
  assumes "refill n index m = (m1, Inr ())"
  shows "merged_left m1 \<le> merged_left m"
proof (cases "index = mg_tail_index m")
  case True
  then show ?thesis using assms by (auto simp: refill_def merged_left_def Let_def)
next
  case False
  then obtain rd found where rd: "index < length (mg_sources m)" "reader_next n (mg_sources m ! index) = (rd, Inr found)"
    "m1 = (case found of None \<Rightarrow> m\<lparr>mg_sources := (mg_sources m)[index := rd]\<rparr>
      | Some r \<Rightarrow> m\<lparr>mg_sources := (mg_sources m)[index := rd], mg_heap := (r, index) # mg_heap m\<rparr>)"
    using assms by (auto simp: refill_def split: if_splits prod.splits sum.splits option.splits)
  then show ?thesis
    using sum_list_update_le [OF rd(1) reader_next_left [OF rd(2)]] by (auto simp: merged_left_def split: option.splits)
qed

lemma pop_left: "heap_pop (mg_heap m) = Some (x, heap) \<Longrightarrow> merged_left (m\<lparr>mg_heap := heap\<rparr>) < merged_left m"
  by (auto simp: heap_pop_def merged_left_def length_remove1 split: if_splits)

lemma turn_left:
  "heap_pop (mg_heap m) = Some (x, heap) \<Longrightarrow> refill n index (m\<lparr>mg_heap := heap\<rparr>) = (m1, Inr ()) \<Longrightarrow> merged_left m1 < merged_left m"
  using pop_left refill_left by fastforce

function merged_next :: "nat \<Rightarrow> merged \<Rightarrow> merged \<times> byte list option res" where
  "merged_next n m =
    (case heap_pop (mg_heap m) of
       None \<Rightarrow> (m, Inr None)
     | Some ((k, index), heap) \<Rightarrow>
         (case refill n index (m\<lparr>mg_heap := heap\<rparr>) of
            (m1, Inl e) \<Rightarrow> (m1, Inl e)
          | (m1, Inr _) \<Rightarrow>
              if mg_last m1 = Some k then merged_next n m1
              else (m1\<lparr>mg_last := Some k\<rparr>, Inr (Some k))))"
  by pat_completeness auto

termination
  by (relation "measure (\<lambda>(n, m). merged_left m)") (auto intro: turn_left)

declare merged_next.simps [simp del]

section \<open>A reader delivers its run\<close>

definition reader_holds :: "nat \<Rightarrow> run_reader \<Rightarrow> byte list list \<Rightarrow> bool" where
  "reader_holds n rd rows \<longleftrightarrow> drop (rd_at rd) (rd_block rd) @ rd_file rd = concat rows \<and> (\<forall>r\<in>set rows. length r = n * ID_BYTES)
    \<and> rd_at rd \<le> length (rd_block rd) \<and> (length (rd_block rd) - rd_at rd) mod (n * ID_BYTES) = 0 \<and> (\<forall>e. ReadFails e \<notin> set (rd_events rd))"

lemma read_loop_ok:
  "\<forall>e. ReadFails e \<notin> set events \<Longrightarrow> \<exists>events1. (\<forall>e. ReadFails e \<notin> set events1)
    \<and> read_loop want events file filled = Inr (events1, drop (want - length filled) file, filled @ take (want - length filled) file)"
proof (induction events arbitrary: "file" filled)
  case (Cons ev events)
  show ?case
  proof (cases "want \<le> length filled")
    case False
    show ?thesis
    proof (cases ev)
      case (ShortRead k)
      let ?got = "min (Suc k) (min (want - length filled) (length file))"
      show ?thesis
      proof (cases "?got = 0")
        case True
        then have "file = []" using False by (auto simp: min_def split: if_splits)
        then show ?thesis using Cons.prems ShortRead False by (auto simp: Let_def)
      next
        case got: False
        have split: "drop (want - length filled) file = drop (want - (length filled + g)) (drop g file)"
          "take (want - length filled) file = take g file @ take (want - (length filled + g)) (drop g file)"
          if "length filled + g \<le> want" for g
        proof -
          have "want - length filled = g + (want - (length filled + g))" using that by simp
          then show "drop (want - length filled) file = drop (want - (length filled + g)) (drop g file)"
            "take (want - length filled) file = take g file @ take (want - (length filled + g)) (drop g file)"
            by (metis add.commute drop_drop, metis take_add)
        qed
        have "length filled + ?got \<le> want" using False by auto
        note split [OF this]
        then show ?thesis
          using Cons.IH [of "drop ?got file" "filled @ take ?got file"] Cons.prems ShortRead False got by (auto simp: Let_def)
      qed
    qed (use Cons False in auto)
  qed (use Cons.prems in auto)
qed auto

lemma length_concat_rows: "\<forall>r\<in>set rows. length r = w \<Longrightarrow> length (concat rows) = length rows * w"
  by (induction rows) auto

lemma read_block_holds:
  assumes "reader_holds n rd rows" "0 < n" "length (rd_block rd) \<le> rd_at rd"
  shows "\<exists>rd1. read_block (n * ID_BYTES) rd = Inr rd1 \<and> reader_holds n rd1 rows \<and> rd_at rd1 = 0 \<and> (rd_block rd1 = [] \<longleftrightarrow> rows = [])"
proof -
  let ?w = "n * ID_BYTES" and ?want = "READ_ROWS * (n * ID_BYTES)"
  have w: "0 < ?w" using assms(2) by (simp add: ID_BYTES_def)
  have rows: "rd_file rd = concat rows" "\<forall>r\<in>set rows. length r = ?w" "\<forall>e. ReadFails e \<notin> set (rd_events rd)"
    using assms by (auto simp: reader_holds_def)
  obtain events1 where e: "\<forall>e. ReadFails e \<notin> set events1"
    "read_loop ?want (rd_events rd) (rd_file rd) [] = Inr (events1, drop ?want (concat rows), take ?want (concat rows))"
    using read_loop_ok [OF rows(3), of ?want "rd_file rd" "[]"] rows(1) by auto
  have len: "length (take ?want (concat rows)) = min READ_ROWS (length rows) * ?w"
    by (auto simp: length_concat_rows [OF rows(2)] min_def)
  have "take ?want (concat rows) = [] \<longleftrightarrow> rows = []"
    unfolding length_0_conv [symmetric] len using w by (auto simp: READ_ROWS_def min_def split: if_splits)
  then show ?thesis
    using e len rows(2) by (simp add: read_block_def reader_holds_def)
qed

lemma reader_row_holds:
  assumes "reader_holds n rd (r # rows)" "0 < n" "rd_at rd < length (rd_block rd)"
  shows "\<exists>rd1. reader_row (n * ID_BYTES) rd = (rd1, Inr (Some (pad_key r))) \<and> reader_holds n rd1 rows"
proof -
  let ?w = "n * ID_BYTES" and ?left = "drop (rd_at rd) (rd_block rd)"
  have h: "?left @ rd_file rd = r @ concat rows" "length r = ?w" "length ?left mod ?w = 0"
    using assms by (auto simp: reader_holds_def)
  have le: "?w \<le> length ?left"
    using h(3) assms(3) by (metis dvd_imp_le length_drop mod_0_imp_dvd zero_less_diff)
  have r: "take ?w ?left = r" using arg_cong [OF h(1), of "take ?w"] h(2) le by simp
  have rest: "drop ?w ?left @ rd_file rd = concat rows" using arg_cong [OF h(1), of "drop ?w"] h(2) le by simp
  have "(length (rd_block rd) - (rd_at rd + ?w)) mod ?w = 0"
    using h(3) le by (simp add: mod_eq_0_iff_dvd dvd_diff_nat flip: diff_diff_left)
  then show ?thesis
    using assms r rest le by (auto simp: reader_row_def reader_holds_def add.commute)
qed

lemma reader_next_holds:
  assumes "reader_holds n rd rows" "0 < n"
  shows "\<exists>rd1. reader_next n rd = (rd1, Inr (case rows of [] \<Rightarrow> None | r # _ \<Rightarrow> Some (pad_key r))) \<and> reader_holds n rd1 (tl rows)"
proof -
  have w: "n * ID_BYTES \<noteq> 0" using assms(2) by (simp add: ID_BYTES_def)
  have row: "\<exists>rd1. reader_row (n * ID_BYTES) rd0 = (rd1, Inr (case rows of [] \<Rightarrow> None | r # _ \<Rightarrow> Some (pad_key r))) \<and> reader_holds n rd1 (tl rows)"
    if "reader_holds n rd0 rows" "rd_at rd0 < length (rd_block rd0)" for rd0
  proof (cases rows)
    case Nil
    then show ?thesis using that by (auto simp: reader_holds_def)
  next
    case (Cons r rest)
    then show ?thesis using reader_row_holds [OF _ assms(2) that(2), of r rest] that(1) by simp
  qed
  show ?thesis
  proof (cases "length (rd_block rd) \<le> rd_at rd")
    case True
    obtain rd0 where rd0: "read_block (n * ID_BYTES) rd = Inr rd0" "reader_holds n rd0 rows" "rd_at rd0 = 0" "rd_block rd0 = [] \<longleftrightarrow> rows = []"
      using read_block_holds [OF assms True] by blast
    then show ?thesis using True w row [OF rd0(2)] by (cases rows) (auto simp: reader_next_def Let_def)
  next
    case False
    then show ?thesis using w row [OF assms(1)] by (simp add: reader_next_def Let_def)
  qed
qed

section \<open>The merge delivers every key once, in order\<close>

text \<open>
  \<open>rest k\<close> is what source number \<open>k\<close> still has to deliver, the heap entry of the source excluded; the
  tail of the buffer is the last source.
\<close>

definition merged_holds :: "nat \<Rightarrow> merged \<Rightarrow> (nat \<Rightarrow> byte list list) \<Rightarrow> bool" where
  "merged_holds n m rest \<longleftrightarrow> mg_tail_index m = length (mg_sources m)
    \<and> (\<forall>k<length (mg_sources m). \<exists>rows. reader_holds n (mg_sources m ! k) rows \<and> rest k = map pad_key rows)
    \<and> rest (mg_tail_index m) = map (key_of (mg_perm m)) (drop (mg_tail_at m + 1) (mg_tail m))
    \<and> distinct (map snd (mg_heap m)) \<and> (\<forall>(x, k)\<in>set (mg_heap m). k \<le> mg_tail_index m)"

definition heap_leads :: "(byte list \<times> nat) list \<Rightarrow> (nat \<Rightarrow> byte list list) \<Rightarrow> bool" where
  "heap_leads heap rest \<longleftrightarrow> (\<forall>(x, k)\<in>set heap. sorted_wrt (<) (x # rest k)) \<and> (\<forall>k. k \<notin> snd ` set heap \<longrightarrow> rest k = [])"

definition pending :: "(byte list \<times> nat) list \<Rightarrow> (nat \<Rightarrow> byte list list) \<Rightarrow> byte list set" where
  "pending heap rest = fst ` set heap \<union> (\<Union>k. set (rest k))"

lemma refill_holds:
  assumes "merged_holds n m rest" "0 < n" "index \<notin> snd ` set (mg_heap m)" "index \<le> mg_tail_index m"
  shows "\<exists>m1. refill n index m = (m1, Inr ()) \<and> merged_holds n m1 (rest(index := tl (rest index))) \<and> mg_last m1 = mg_last m
    \<and> mg_heap m1 = (case rest index of [] \<Rightarrow> mg_heap m | x # _ \<Rightarrow> (x, index) # mg_heap m)"
proof (cases "index = mg_tail_index m")
  case True
  have tail: "rest index = map (key_of (mg_perm m)) (drop (mg_tail_at m + 1) (mg_tail m))" using assms(1) unfolding True merged_holds_def by blast
  show ?thesis
  proof (cases "mg_tail_at m + 1 < length (mg_tail m)")
    case more: True
    then have r: "rest index = key_of (mg_perm m) (mg_tail m ! (mg_tail_at m + 1)) # map (key_of (mg_perm m)) (drop (mg_tail_at m + 1 + 1) (mg_tail m))"
      unfolding tail by (simp only: Cons_nth_drop_Suc [symmetric] list.map Suc_eq_plus1)
    show ?thesis using assms True more r by (auto simp: refill_def Let_def merged_holds_def)
  next
    case False
    then have "rest index = []" unfolding tail by simp
    then show ?thesis using assms True False by (auto simp: refill_def Let_def merged_holds_def)
  qed
next
  case False
  then have index: "index < length (mg_sources m)" using assms(1,4) by (auto simp: merged_holds_def)
  then obtain rows where rows: "reader_holds n (mg_sources m ! index) rows" "rest index = map pad_key rows"
    using assms(1) by (auto simp: merged_holds_def)
  obtain rd where rd: "reader_next n (mg_sources m ! index) = (rd, Inr (case rows of [] \<Rightarrow> None | r # _ \<Rightarrow> Some (pad_key r)))"
    "reader_holds n rd (tl rows)"
    using reader_next_holds [OF rows(1) assms(2)] by blast
  have "merged_holds n (m\<lparr>mg_sources := (mg_sources m)[index := rd]\<rparr>) (rest(index := tl (rest index)))"
    using assms(1) index False rd(2) rows(2) by (auto simp: merged_holds_def nth_list_update map_tl)
  then show ?thesis
    using assms(3) rd(1) rows(2) False index
    by (cases rows) (auto simp: refill_def merged_holds_def nth_list_update)
qed

lemma heap_pop_least:
  assumes "heap_pop heap = Some ((x, index), heap1)" "heap_leads heap rest" "distinct (map snd heap)"
  shows "(x, index) \<in> set heap" "index \<notin> snd ` set heap1" "set heap = insert (x, index) (set heap1)"
    "distinct (map snd heap1)" "y \<in> pending heap rest \<Longrightarrow> x \<le> y"
proof -
  have h: "heap \<noteq> []" "(x, index) = Min (set heap)" "heap1 = remove1 (x, index) heap"
    using assms(1) by (auto simp: heap_pop_def split: if_splits)
  show mem: "(x, index) \<in> set heap" unfolding h(2) using h(1) by (intro Min_in) auto
  have d: "distinct heap" using assms(3) by (simp add: distinct_map)
  show "set heap = insert (x, index) (set heap1)" using mem d by (auto simp: h(3))
  show "index \<notin> snd ` set heap1" using assms(3) mem d by (fastforce simp: h(3) distinct_map inj_on_def)
  show "distinct (map snd heap1)" using assms(3) by (auto simp: h(3) distinct_map intro: inj_on_subset distinct_remove1 dest: notin_set_remove1)
  have least: "x \<le> z" if "(z, k) \<in> set heap" for z k
  proof -
    have "(x, index) \<le> (z, k)" unfolding h(2) using that by (intro Min_le) auto
    then show ?thesis by (auto simp: less_eq_prod_def)
  qed
  assume "y \<in> pending heap rest"
  then consider z k where "(z, k) \<in> set heap" "y = z" | k where "y \<in> set (rest k)" by (auto simp: pending_def)
  then show "x \<le> y"
  proof cases
    case 2
    then obtain z where z: "(z, k) \<in> set heap" using assms(2) by (fastforce simp: heap_leads_def)
    then have "z < y" using assms(2) 2 by (fastforce simp: heap_leads_def)
    with least [OF z] show ?thesis by simp
  qed (use least in auto)
qed

lemma leads_after_refill:
  assumes "heap_leads heap rest" "set heap = insert (x, index) (set heap1)" "index \<notin> snd ` set heap1"
    and "heap2 = (case rest index of [] \<Rightarrow> heap1 | y # _ \<Rightarrow> (y, index) # heap1)" "rest2 = rest(index := tl (rest index))"
  shows "heap_leads heap2 rest2" "insert x (pending heap2 rest2) = pending heap rest"
proof -
  show "heap_leads heap2 rest2"
    using assms by (cases "rest index") (auto simp: heap_leads_def image_iff split: prod.splits)
  let ?others = "\<Union>k\<in>- {index}. set (rest k)"
  have "(\<Union>k. set (rest k)) = set (rest index) \<union> ?others" "(\<Union>k. set (rest2 k)) = set (tl (rest index)) \<union> ?others"
    unfolding assms(5) by (blast, auto split: if_splits)
  then show "insert x (pending heap2 rest2) = pending heap rest"
    unfolding pending_def assms(2,4) by (cases "rest index") auto
qed

lemma merged_next_exact:
  assumes "merged_holds n m rest" "heap_leads (mg_heap m) rest" "0 < n" "\<forall>l\<in>set_option (mg_last m). \<forall>y\<in>pending (mg_heap m) rest. l \<le> y"
  shows "pending (mg_heap m) rest - set_option (mg_last m) = {} \<and> (\<exists>m1. merged_next n m = (m1, Inr None))
    \<or> (\<exists>m1 rest1 x. merged_next n m = (m1, Inr (Some x)) \<and> merged_holds n m1 rest1 \<and> heap_leads (mg_heap m1) rest1
        \<and> mg_last m1 = Some x \<and> x \<in> pending (mg_heap m) rest - set_option (mg_last m)
        \<and> (\<forall>y\<in>pending (mg_heap m1) rest1. x \<le> y)
        \<and> pending (mg_heap m1) rest1 - {x} = pending (mg_heap m) rest - set_option (mg_last m) - {x})"
  using assms
proof (induction "merged_left m" arbitrary: m rest rule: less_induct)
  case less
  show ?case
  proof (cases "heap_pop (mg_heap m)")
    case None
    then have "mg_heap m = []" by (simp add: heap_pop_def split: if_splits)
    then have "pending (mg_heap m) rest = {}" using less.prems(2) by (auto simp: pending_def heap_leads_def)
    then show ?thesis using None by (simp add: merged_next.simps)
  next
    case (Some p)
    then obtain x index heap1 where pop: "heap_pop (mg_heap m) = Some ((x, index), heap1)" by (metis prod.exhaust)
    have d: "distinct (map snd (mg_heap m))" "\<forall>(x, k)\<in>set (mg_heap m). k \<le> mg_tail_index m" using less.prems(1) by (auto simp: merged_holds_def)
    note least = heap_pop_least [OF pop less.prems(2) d(1)]
    let ?m0 = "m\<lparr>mg_heap := heap1\<rparr>" and ?rest = "rest(index := tl (rest index))"
    have "merged_holds n ?m0 rest" using less.prems(1) least(3,4) by (auto simp: merged_holds_def)
    moreover have "index \<notin> snd ` set (mg_heap ?m0)" "index \<le> mg_tail_index ?m0" using least(1,2) d(2) by auto
    ultimately obtain m1 where m1: "refill n index ?m0 = (m1, Inr ())" "merged_holds n m1 ?rest" "mg_last m1 = mg_last m"
      "mg_heap m1 = (case rest index of [] \<Rightarrow> heap1 | y # _ \<Rightarrow> (y, index) # heap1)"
      using refill_holds [of n ?m0 rest index] less.prems(3) by (auto cong: list.case_cong)
    note leads = leads_after_refill [OF less.prems(2) least(3,2) m1(4) refl]
    have ge: "\<forall>y\<in>pending (mg_heap m1) ?rest. x \<le> y" using leads(2) least(5) by blast
    show ?thesis
    proof (cases "mg_last m1 = Some x")
      case True
      then have step: "merged_next n m = merged_next n m1" using pop m1(1) by (subst merged_next.simps) simp
      have "merged_left m1 < merged_left m" by (rule turn_left [OF pop m1(1)])
      moreover have "\<forall>l\<in>set_option (mg_last m1). \<forall>y\<in>pending (mg_heap m1) ?rest. l \<le> y" using True ge by simp
      moreover have "pending (mg_heap m1) ?rest - set_option (mg_last m1) = pending (mg_heap m) rest - set_option (mg_last m)"
        using leads(2) True m1(3) by auto
      ultimately show ?thesis using less.hyps [of m1 ?rest] m1(2) leads(1) less.prems(3) unfolding step by simp
    next
      case False
      then have "merged_next n m = (m1\<lparr>mg_last := Some x\<rparr>, Inr (Some x))" using pop m1(1) by (subst merged_next.simps) simp
      moreover have "x \<in> pending (mg_heap m) rest" using leads(2) by blast
      moreover have "set_option (mg_last m) \<inter> pending (mg_heap m) rest = {}"
        using False m1(3) less.prems(4) least(5) \<open>x \<in> pending (mg_heap m) rest\<close> by (cases "mg_last m") (auto dest: order_antisym)
      moreover have "merged_holds n (m1\<lparr>mg_last := Some x\<rparr>) ?rest" using m1(2) unfolding merged_holds_def by auto
      ultimately show ?thesis
        using leads ge by (intro disjI2 exI [of _ "m1\<lparr>mg_last := Some x\<rparr>"] exI [of _ ?rest] exI [of _ x]) auto
    qed
  qed
qed

text \<open>Draining a merge, as the writer of the index files does.\<close>

lemma merged_next_left: "merged_next n m = (m1, Inr (Some x)) \<Longrightarrow> merged_left m1 < merged_left m"
proof (induction n m arbitrary: m1 rule: merged_next.induct)
  case (1 n m)
  then obtain y index heap m0 where pop: "heap_pop (mg_heap m) = Some ((y, index), heap)" "refill n index (m\<lparr>mg_heap := heap\<rparr>) = (m0, Inr ())"
    by (subst (asm) merged_next.simps) (auto split: option.splits prod.splits sum.splits)
  have lt: "merged_left m0 < merged_left m" by (rule turn_left [OF pop])
  show ?case
  proof (cases "mg_last m0 = Some y")
    case True
    then have "merged_next n m0 = (m1, Inr (Some x))" using 1(2) pop by (subst (asm) merged_next.simps) simp
    then have "merged_left m1 < merged_left m0" by (rule 1(1) [OF pop(1) refl refl pop(2) [symmetric] refl True])
    with lt show ?thesis by simp
  next
    case False
    then have "m1 = m0\<lparr>mg_last := Some y\<rparr>" using 1(2) pop by (subst (asm) merged_next.simps) auto
    then show ?thesis using lt by (simp add: merged_left_def)
  qed
qed

function merge_drain :: "nat \<Rightarrow> merged \<Rightarrow> byte list list res" where
  "merge_drain n m =
    (case merged_next n m of
       (m1, Inl e) \<Rightarrow> Inl e
     | (m1, Inr None) \<Rightarrow> Inr []
     | (m1, Inr (Some k)) \<Rightarrow> map_sum id ((#) k) (merge_drain n m1))"
  by pat_completeness auto

termination
  by (relation "measure (\<lambda>(n, m). merged_left m)") (auto dest: sym [THEN merged_next_left])

declare merge_drain.simps [simp del]

lemma merge_drain_exact:
  assumes "merged_holds n m rest" "heap_leads (mg_heap m) rest" "0 < n" "\<forall>l\<in>set_option (mg_last m). \<forall>y\<in>pending (mg_heap m) rest. l \<le> y"
  shows "\<exists>ks. merge_drain n m = Inr ks \<and> sorted_wrt (<) ks \<and> set ks = pending (mg_heap m) rest - set_option (mg_last m)"
  using assms
proof (induction "merged_left m" arbitrary: m rest rule: less_induct)
  case less
  from merged_next_exact [OF less.prems] show ?case
  proof
    assume "pending (mg_heap m) rest - set_option (mg_last m) = {} \<and> (\<exists>m1. merged_next n m = (m1, Inr None))"
    then have empty: "pending (mg_heap m) rest - set_option (mg_last m) = {}" and "\<exists>m1. merged_next n m = (m1, Inr None)" by blast+
    then obtain m1 where "merged_next n m = (m1, Inr None)" by blast
    then have "merge_drain n m = Inr []" by (subst merge_drain.simps) simp
    then show ?thesis using empty by (intro exI [of _ "[]"]) simp
  next
    assume "\<exists>m1 rest1 x. merged_next n m = (m1, Inr (Some x)) \<and> merged_holds n m1 rest1 \<and> heap_leads (mg_heap m1) rest1
        \<and> mg_last m1 = Some x \<and> x \<in> pending (mg_heap m) rest - set_option (mg_last m)
        \<and> (\<forall>y\<in>pending (mg_heap m1) rest1. x \<le> y)
        \<and> pending (mg_heap m1) rest1 - {x} = pending (mg_heap m) rest - set_option (mg_last m) - {x}"
    then obtain m1 rest1 x where n: "merged_next n m = (m1, Inr (Some x))" and h: "merged_holds n m1 rest1" "heap_leads (mg_heap m1) rest1"
      and last: "mg_last m1 = Some x" and x: "x \<in> pending (mg_heap m) rest - set_option (mg_last m)"
      and ge: "\<forall>y\<in>pending (mg_heap m1) rest1. x \<le> y"
      and eq: "pending (mg_heap m1) rest1 - {x} = pending (mg_heap m) rest - set_option (mg_last m) - {x}" by blast
    have "\<forall>l\<in>set_option (mg_last m1). \<forall>y\<in>pending (mg_heap m1) rest1. l \<le> y" using last ge by simp
    from less.hyps [OF merged_next_left [OF n] h less.prems(3) this]
    obtain ks where ks: "merge_drain n m1 = Inr ks" "sorted_wrt (<) ks" "set ks = pending (mg_heap m1) rest1 - {x}" using last by auto
    have "sorted_wrt (<) (x # ks)" using ks(2,3) ge by (auto simp: le_less)
    moreover have "set (x # ks) = pending (mg_heap m) rest - set_option (mg_last m)" using ks(3) eq x by auto
    moreover have "merge_drain n m = Inr (x # ks)" using n ks(1) by (subst merge_drain.simps) simp
    ultimately show ?thesis by blast
  qed
qed

section \<open>Sorting a buffer\<close>

lemma dedup_by_subset: "set (dedup_by f xs) \<subseteq> set xs"
  by (induction f xs rule: dedup_by.induct) auto

lemma dedup_by_head: "xs \<noteq> [] \<Longrightarrow> \<exists>ys. dedup_by f xs = hd xs # ys"
  by (induction f xs rule: dedup_by.induct) auto

lemma dedup_by_set: "inj_on f (set xs) \<Longrightarrow> set (dedup_by f xs) = set xs"
proof (induction f xs rule: dedup_by.induct)
  case (1 f x y ys)
  show ?case
  proof (cases "f y = f x")
    case True
    have "inj_on f (set (x # ys))" using 1(3) by (rule inj_on_subset) auto
    then have "set (dedup_by f (x # ys)) = set (x # ys)" by (rule 1(1) [OF True])
    moreover have "y = x" by (rule inj_onD [OF 1(3) True]) simp_all
    moreover have "dedup_by f (x # y # ys) = dedup_by f (x # ys)" using True by simp
    ultimately show ?thesis by auto
  next
    case False
    have "inj_on f (set (y # ys))" using 1(3) by (rule inj_on_subset) auto
    then show ?thesis using 1(2) [OF False] False by simp
  qed
qed simp_all

lemma dedup_by_sorted: "sorted (map f xs) \<Longrightarrow> sorted_wrt (<) (map f (dedup_by f xs))"
proof (induction f xs rule: dedup_by.induct)
  case (1 f x y ys)
  show ?case
  proof (cases "f y = f x")
    case True
    then show ?thesis using 1(1) [OF True] 1(3) by simp
  next
    case False
    then have "f x < f y" using 1(3) by (simp add: le_less)
    moreover have "f y \<le> f z" if "z \<in> set (dedup_by f (y # ys))" for z
      using that subsetD [OF dedup_by_subset [of f "y # ys"] that] 1(3) by auto
    ultimately have "\<forall>z\<in>set (dedup_by f (y # ys)). f x < f z" using less_le_trans by blast
    then show ?thesis using False 1(2) [OF False] 1(3) by simp
  qed
qed simp_all

text \<open>Under a permutation of the positions, key order is the order of the permuted rows.\<close>

definition perm_ok :: "nat \<Rightarrow> nat list \<Rightarrow> bool" where
  "perm_ok n perm \<longleftrightarrow> length perm = n \<and> set perm = {0..<n} \<and> 0 < n \<and> n \<le> 4"

lemma permuted_inject:
  assumes "perm_ok n perm" "length r = n" "length q = n" "permuted perm r = permuted perm q"
  shows "r = q"
proof (rule nth_equalityI)
  fix i assume "i < length r"
  then have "i \<in> set perm" using assms(1,2) by (simp add: perm_ok_def)
  then show "r ! i = q ! i" using assms(4) by (auto simp: permuted_def)
qed (use assms in simp)

lemma key_bytes_permuted: "key_bytes perm r = key (permuted perm r)"
  by (simp add: key_bytes_def permuted_def key_def comp_def)

lemma pad_key_less_iff: "length a = length b \<Longrightarrow> pad_key a < pad_key b \<longleftrightarrow> a < b"
  by (simp add: pad_key_def append_less_append)

lemma key_of_less_iff: "key_of perm r < key_of perm q \<longleftrightarrow> permuted perm r < permuted perm q"
  by (simp add: key_of_def key_bytes_permuted pad_key_less_iff key_less_iff permuted_def)

lemma sort_dedup_keys:
  assumes "perm_ok n perm" "\<forall>r\<in>set rows. length r = n"
  shows "sorted_wrt (<) (map (key_of perm) (sort_dedup perm rows))" "set (sort_dedup perm rows) = set rows"
proof -
  have "sorted_wrt (<) (map (permuted perm) (sort_dedup perm rows))"
    unfolding sort_dedup_def by (rule dedup_by_sorted) simp
  then show "sorted_wrt (<) (map (key_of perm) (sort_dedup perm rows))" by (simp add: sorted_wrt_map key_of_less_iff)
  have "inj_on (permuted perm) (set (sort_key (permuted perm) rows))"
    using permuted_inject [OF assms(1)] assms(2) by (auto intro!: inj_onI)
  from dedup_by_set [OF this] show "set (sort_dedup perm rows) = set rows" by (simp add: sort_dedup_def)
qed

section \<open>Starting a merge\<close>

fun heads :: "nat \<Rightarrow> byte list list list \<Rightarrow> (byte list \<times> nat) list" where
  "heads index [] = []"
| "heads index (rows # rowss) = (case rows of [] \<Rightarrow> heads (Suc index) rowss | r # _ \<Rightarrow> (pad_key r, index) # heads (Suc index) rowss)"

lemma heads_append: "heads index (xs @ ys) = heads index xs @ heads (index + length xs) ys"
  by (induction xs arbitrary: index) (auto split: list.splits)

lemma heads_iff: "(x, k) \<in> set (heads index rowss) \<longleftrightarrow> (\<exists>j<length rowss. k = index + j \<and> rowss ! j \<noteq> [] \<and> x = pad_key (hd (rowss ! j)))"
proof (induction rowss arbitrary: index)
  case (Cons rows rowss)
  have "(\<exists>j<length (rows # rowss). k = index + j \<and> (rows # rowss) ! j \<noteq> [] \<and> x = pad_key (hd ((rows # rowss) ! j)))
    \<longleftrightarrow> k = index \<and> rows \<noteq> [] \<and> x = pad_key (hd rows) \<or> (\<exists>j<length rowss. k = Suc index + j \<and> rowss ! j \<noteq> [] \<and> x = pad_key (hd (rowss ! j)))"
    by (simp add: Ex_less_Suc2)
  then show ?case using Cons.IH [of "Suc index"] by (cases rows) auto
qed simp

lemma heads_distinct: "distinct (map snd (heads index rowss))"
proof (induction rowss arbitrary: index)
  case (Cons rows rowss)
  have "index \<notin> snd ` set (heads (Suc index) rowss)" by (auto simp: heads_iff)
  then show ?case using Cons.IH by (auto split: list.splits)
qed simp

lemma prime_heap_holds:
  assumes "list_all2 (reader_holds n) rds rowss" "0 < n"
  shows "\<exists>rds1. prime_heap n index rds = Inr (rds1, heads index rowss) \<and> list_all2 (reader_holds n) rds1 (map tl rowss)"
  using assms(1)
proof (induction arbitrary: index rule: list_all2_induct)
  case (Cons rd rds rows rowss)
  obtain rd1 where rd1: "reader_next n rd = (rd1, Inr (case rows of [] \<Rightarrow> None | r # _ \<Rightarrow> Some (pad_key r)))" "reader_holds n rd1 (tl rows)"
    using reader_next_holds [OF Cons.hyps(1) assms(2)] by blast
  with Cons.IH [of "Suc index"] show ?case by (auto split: list.splits)
qed simp

lemma heads_lead:
  assumes "\<forall>rows\<in>set rowss. sorted_wrt (<) (map pad_key rows)"
    and "rest = (\<lambda>k. if k < length rowss then map pad_key (tl (rowss ! k)) else [])"
  shows "heap_leads (heads 0 rowss) rest" "pending (heads 0 rowss) rest = (\<Union>rows\<in>set rowss. pad_key ` set rows)"
proof -
  have hd_tl: "pad_key (hd (rowss ! k)) # rest k = map pad_key (rowss ! k)" if "k < length rowss" "rowss ! k \<noteq> []" for k
    using that by (cases "rowss ! k") (simp_all add: assms(2))
  have "sorted_wrt (<) (x # rest k)" if "(x, k) \<in> set (heads 0 rowss)" for x k
    using that assms(1) hd_tl [of k] by (auto simp: heads_iff simp del: sorted_wrt.simps)
  moreover have "rest k = []" if "k \<notin> snd ` set (heads 0 rowss)" for k
  proof (rule ccontr)
    assume r: "rest k \<noteq> []"
    then have "k < length rowss" "rowss ! k \<noteq> []" by (auto simp: assms(2) split: if_splits)
    then have "(pad_key (hd (rowss ! k)), k) \<in> set (heads 0 rowss)" by (simp add: heads_iff)
    then have "k \<in> snd ` set (heads 0 rowss)" by force
    with that show False by contradiction
  qed
  ultimately show "heap_leads (heads 0 rowss) rest" by (auto simp: heap_leads_def)
  have "y \<in> pending (heads 0 rowss) rest \<longleftrightarrow> (\<exists>k<length rowss. y \<in> pad_key ` set (rowss ! k))" for y
  proof -
    have "y \<in> pending (heads 0 rowss) rest \<longleftrightarrow> (\<exists>k<length rowss. rowss ! k \<noteq> [] \<and> y = pad_key (hd (rowss ! k)))
        \<or> (\<exists>k<length rowss. y \<in> pad_key ` set (tl (rowss ! k)))"
      unfolding pending_def by (auto simp: heads_iff assms(2) image_iff Bex_def split: if_splits)
    moreover have "y \<in> pad_key ` set (rowss ! k) \<longleftrightarrow> rowss ! k \<noteq> [] \<and> y = pad_key (hd (rowss ! k)) \<or> y \<in> pad_key ` set (tl (rowss ! k))" for k
      by (cases "rowss ! k") auto
    ultimately show ?thesis by blast
  qed
  moreover have "y \<in> (\<Union>rows\<in>set rowss. pad_key ` set rows) \<longleftrightarrow> (\<exists>k<length rowss. y \<in> pad_key ` set (rowss ! k))" for y
    unfolding UN_iff by (metis in_set_conv_nth)
  ultimately show "pending (heads 0 rowss) rest = (\<Union>rows\<in>set rowss. pad_key ` set rows)" by (intro set_eqI) simp
qed

section \<open>Spilled runs\<close>

definition path_of :: "string \<Rightarrow> string \<Rightarrow> nat \<Rightarrow> string" where
  "path_of dir family k = dir @ ''/'' @ family @ ''.'' @ show_nat k @ ''.run''"

lemma path_of_inject [simp]: "path_of dir family j = path_of dir family k \<longleftrightarrow> j = k"
  by (auto simp: path_of_def) (metis option.inject parse_digits_show)

text \<open>The runs on disk: number \<open>k\<close> holds the keys of the rows \<open>stored ! k\<close>.\<close>

definition runs_hold :: "nat list \<Rightarrow> runs \<Rightarrow> disk \<Rightarrow> row list list \<Rightarrow> bool" where
  "runs_hold perm r disk stored \<longleftrightarrow> runs_paths r = map (path_of (runs_dir r) (runs_family r)) [0..<length stored]
    \<and> (\<forall>k<length stored. disk (path_of (runs_dir r) (runs_family r) k) = Some (concat (map (key_bytes perm) (stored ! k))))"

fun spill_all :: "nat list \<Rightarrow> row list list \<Rightarrow> runs \<Rightarrow> disk \<Rightarrow> runs \<times> disk" where
  "spill_all perm [] r disk = (r, disk)"
| "spill_all perm (rows # rowss) r disk = (case spill Written perm rows r disk of (_, r1, disk1, _) \<Rightarrow> spill_all perm rowss r1 disk1)"

lemma run_path_eq: "run_path r = path_of (runs_dir r) (runs_family r) (length (runs_paths r))"
  by (simp add: run_path_def path_of_def)

lemma spill_holds:
  assumes "runs_hold perm r disk stored" "spill Written perm rows r disk = (rows1, r1, disk1, res)"
  shows "runs_hold perm r1 disk1 (stored @ (if rows = [] then [] else [sort_dedup perm rows]))"
  using assms by (auto simp: spill_def Let_def runs_hold_def run_path_eq nth_append less_Suc_eq split: if_splits)

lemma spill_all_holds:
  assumes "runs_hold perm r disk stored" "spill_all perm rowss r disk = (r1, disk1)"
  shows "runs_hold perm r1 disk1 (stored @ map (sort_dedup perm) (filter (\<lambda>rows. rows \<noteq> []) rowss))"
  using assms
proof (induction rowss arbitrary: r disk stored)
  case (Cons rows rowss)
  obtain rows0 r0 disk0 res where s: "spill Written perm rows r disk = (rows0, r0, disk0, res)" by (metis prod.exhaust)
  have "spill_all perm rowss r0 disk0 = (r1, disk1)" using Cons.prems(2) s by simp
  from Cons.IH [OF spill_holds [OF Cons.prems(1) s] this] show ?case by (cases "rows = []") simp_all
qed simp

lemma open_runs:
  assumes "runs_hold perm r disk stored" "\<forall>rows\<in>set stored. \<forall>x\<in>set rows. length x = n" "length perm = n"
    and "\<forall>p\<in>set (runs_paths r). \<forall>e. ReadFails e \<notin> set (schedule p)"
  shows "\<exists>rds. collect_res (map (reader_open schedule disk) (runs_paths r)) = Inr rds
    \<and> list_all2 (reader_holds n) rds (map (map (key_bytes perm)) stored)"
proof -
  let ?p = "path_of (runs_dir r) (runs_family r)"
  let ?rd = "\<lambda>k. \<lparr>rd_file = concat (map (key_bytes perm) (stored ! k)), rd_events = schedule (?p k), rd_block = [], rd_at = 0\<rparr>"
  have paths: "runs_paths r = map ?p [0..<length stored]" using assms(1) by (simp add: runs_hold_def)
  have "map (reader_open schedule disk) (runs_paths r) = map Inr (map ?rd [0..<length stored])"
    using assms(1) unfolding paths by (simp add: runs_hold_def reader_open_def)
  then have "collect_res (map (reader_open schedule disk) (runs_paths r)) = Inr (map ?rd [0..<length stored])"
    by (simp only: collect_res_map_Inr)
  moreover have "reader_holds n (?rd k) (map (key_bytes perm) (stored ! k))" if "k < length stored" for k
    using assms that unfolding paths by (auto simp: reader_holds_def key_bytes_permuted permuted_def)
  then have "list_all2 (reader_holds n) (map ?rd [0..<length stored]) (map (map (key_bytes perm)) stored)"
    by (simp add: list_all2_conv_all_nth)
  ultimately show ?thesis by blast
qed

lemma merge_exact:
  assumes "runs_hold perm r disk stored" "perm_ok n perm" "\<forall>rows\<in>set stored. sorted_wrt (<) (map (key_of perm) rows) \<and> (\<forall>x\<in>set rows. length x = n)"
    and "\<forall>x\<in>set tail. length x = n" "\<forall>p\<in>set (runs_paths r). \<forall>e. ReadFails e \<notin> set (schedule p)"
  shows "\<exists>m ks. merge n schedule disk tail perm r = Inr m \<and> merge_drain n m = Inr ks \<and> sorted_wrt (<) ks
    \<and> set ks = key_of perm ` (\<Union> (set ` set stored) \<union> set tail)"
proof -
  let ?tail = "sort_dedup perm tail" and ?rowss = "map (map (key_bytes perm)) stored"
  let ?all = "?rowss @ [map (key_bytes perm) ?tail]"
  let ?rest = "\<lambda>k. if k < length ?all then map pad_key (tl (?all ! k)) else []"
  have n: "0 < n" "length perm = n" using assms(2) by (simp_all add: perm_ok_def)
  have pad: "key_of perm = pad_key \<circ> key_bytes perm" by (simp add: fun_eq_iff key_of_def)
  obtain rds where rds: "collect_res (map (reader_open schedule disk) (runs_paths r)) = Inr rds" "list_all2 (reader_holds n) rds ?rowss"
    using open_runs [OF assms(1) _ n(2) assms(5)] assms(3) by blast
  obtain rds1 where rds1: "prime_heap n 0 rds = Inr (rds1, heads 0 ?rowss)" "list_all2 (reader_holds n) rds1 (map tl ?rowss)"
    using prime_heap_holds [OF rds(2) n(1), of 0] by blast
  have len: "length rds1 = length stored" using list_all2_lengthD [OF rds1(2)] by simp
  have heap: "heads 0 ?rowss @ (case ?tail of [] \<Rightarrow> [] | r # _ \<Rightarrow> [(key_of perm r, length rds1)]) = heads 0 ?all"
    unfolding heads_append len by (cases ?tail) (simp_all add: key_of_def)
  define m where "m = \<lparr>mg_sources = rds1, mg_heap = heads 0 ?all, mg_tail = ?tail, mg_tail_at = 0, mg_tail_index = length rds1, mg_perm = perm, mg_last = None\<rparr>"
  have merge: "merge n schedule disk tail perm r = Inr m"
    using rds(1) rds1(1) heap by (simp add: merge_def m_def Let_def)
  have src: "reader_holds n (rds1 ! k) (tl (?rowss ! k)) \<and> ?rest k = map pad_key (tl (?rowss ! k))" if "k < length rds1" for k
    using that list_all2_nthD [OF rds1(2) that] len by (simp add: nth_append)
  have "?rest (length rds1) = map (key_of perm) (drop 1 ?tail)" using len by (simp add: nth_append key_of_def drop_Suc flip: map_tl)
  then have holds: "merged_holds n m ?rest"
    using src heads_distinct [of 0 ?all] len by (auto simp: merged_holds_def m_def heads_iff)
  have "\<forall>rows\<in>set ?all. sorted_wrt (<) (map pad_key rows)"
    using assms(3) sort_dedup_keys(1) [OF assms(2,4)] by (auto simp: pad)
  note lead = heads_lead [OF this refl]
  have "heap_leads (mg_heap m) ?rest" "pending (mg_heap m) ?rest = (\<Union>rows\<in>set ?all. pad_key ` set rows)" "mg_last m = None"
    using lead by (simp_all add: m_def)
  moreover have "(\<Union>rows\<in>set ?all. pad_key ` set rows) = key_of perm ` (\<Union> (set ` set stored) \<union> set tail)"
    using sort_dedup_keys(2) [OF assms(2,4)] by (simp add: pad image_Un image_UN image_image Un_commute)
  ultimately show ?thesis using merge_drain_exact [OF holds _ n(1)] merge by auto
qed

text \<open>
  Dropping the runs removes every run that was written whole, and nothing else. A run whose write failed
  part-way was not recorded yet and stays on the disk.
\<close>

lemma drop_after_spill:
  assumes "runs_hold perm r disk stored" "spill Written perm rows r disk = (rows1, r1, disk1, res)"
  shows "drop_runs r1 disk1 = drop_runs r (disk(run_path r := if rows = [] then disk (run_path r) else None))"
  using assms(2) by (intro ext) (auto simp: spill_def Let_def drop_runs_def restrict_map_def split: if_splits)

lemma torn_run_left_behind:
  assumes "runs_hold perm r disk stored" "rows \<noteq> []" "spill (Torn k e) perm rows r disk = (rows1, r1, disk1, res)"
  shows "res = Inl e \<and> run_path r \<in> dom (drop_runs r1 disk1)"
  using assms by (auto simp: spill_def Let_def drop_runs_def runs_hold_def run_path_eq)

section \<open>Properties\<close>

text \<open>
  C30. Spilling changes nothing: however a load was cut into buffers, and whatever short reads and
  interruptions the operating system deals out, merging the runs with the last buffer ends and yields the
  keys of all rows in ascending byte order, each once.
\<close>

theorem external_sort_exact:
  assumes "perm_ok n perm" "\<forall>rows\<in>set buffers. \<forall>x\<in>set rows. length x = n" "\<forall>x\<in>set tail. length x = n"
    and "spill_all perm buffers (new_runs dir family) disk = (r, disk1)" "\<forall>p\<in>set (runs_paths r). \<forall>e. ReadFails e \<notin> set (schedule p)"
  shows "\<exists>m ks. merge n schedule disk1 tail perm r = Inr m \<and> merge_drain n m = Inr ks \<and> sorted_wrt (<) ks
    \<and> set ks = key_of perm ` (set tail \<union> \<Union> (set ` set buffers))"
proof -
  let ?stored = "map (sort_dedup perm) (filter (\<lambda>rows. rows \<noteq> []) buffers)"
  have "runs_hold perm (new_runs dir family) disk []" by (simp add: runs_hold_def new_runs_def)
  from spill_all_holds [OF this assms(4)] have hold: "runs_hold perm r disk1 ?stored" by simp
  have rows: "\<forall>rows\<in>set ?stored. sorted_wrt (<) (map (key_of perm) rows) \<and> (\<forall>x\<in>set rows. length x = n)"
    using sort_dedup_keys [OF assms(1)] assms(2) by auto
  have "\<Union> (set ` set ?stored) = \<Union> (set ` set buffers)"
    using sort_dedup_keys(2) [OF assms(1)] assms(2) by force
  with merge_exact [OF hold assms(1) rows assms(3,5)] show ?thesis by (simp add: Un_commute)
qed

theorem external_sort_exact_witness:
  "\<exists>r disk1 m ks. spill_all [1, 0] [[[TermId 5, TermId 1], [TermId 2, TermId 9]]] (new_runs ''d'' ''dspo'') Map.empty = (r, disk1)
    \<and> merge 2 (\<lambda>_. [Interrupted, ShortRead 3]) disk1 [[TermId 2, TermId 9]] [1, 0] r = Inr m \<and> merge_drain 2 m = Inr ks
    \<and> sorted_wrt (<) ks \<and> set ks = {key_of [1, 0] [TermId 5, TermId 1], key_of [1, 0] [TermId 2, TermId 9]}"
proof -
  obtain r disk1 where s: "spill_all [1, 0] [[[TermId 5, TermId 1], [TermId 2, TermId 9]]] (new_runs ''d'' ''dspo'') Map.empty = (r, disk1)"
    by (metis prod.exhaust)
  have p: "perm_ok 2 [1, 0]" by (auto simp: perm_ok_def)
  have b: "\<forall>rows\<in>set [[[TermId 5, TermId 1], [TermId 2, TermId 9]]]. \<forall>x\<in>set rows. length x = 2" by simp
  have t: "\<forall>x\<in>set [[TermId 2, TermId 9]]. length x = 2" by simp
  have e: "\<forall>p\<in>set (runs_paths r). \<forall>e. ReadFails e \<notin> set ((\<lambda>_. [Interrupted, ShortRead 3]) p)" by simp
  from external_sort_exact [OF p b t s e] s show ?thesis by (auto simp: insert_commute)
qed

end
