(* ===== verification/Holon_Model.thy ===== *)
theory Holon_Model
  imports Access_Session
begin

text \<open>
  What a holon is, \<^verbatim>\<open>holos-holon/src/model.rs\<close>, the record a tick leaves, \<^verbatim>\<open>holos-holon/src/event.rs\<close>, and
  the quads that define a holon in the system graph, \<^verbatim>\<open>holos-holon/src/registry.rs\<close>: the pure part of the
  holon crate. An IRI is its string; the operations on a store are in the next theory.
\<close>

section \<open>Holons\<close>

definition system_graph :: string where
  "system_graph = ''urn:holos:system''"

datatype admission = Reject | AdmitAndRecord

fun admission_iri :: "admission \<Rightarrow> string" where
  "admission_iri Reject = holos ''Reject''"
| "admission_iri AdmitAndRecord = holos ''AdmitAndRecord''"

datatype regime = Maintained | Recomputed

record projection =
  prj_id :: string
  prj_query :: string
  prj_regime :: regime

record holon =
  hl_id :: string
  hl_scene :: string
  hl_boundary :: string
  hl_events :: string
  hl_admission :: admission
  hl_projections :: "projection list"

text \<open>\<open>str::trim_end_matches\<close> with a set of characters.\<close>

definition trim_end_matches :: "char list \<Rightarrow> string \<Rightarrow> string" where
  "trim_end_matches cs s = rev (dropWhile (\<lambda>c. c \<in> set cs) (rev s))"

definition holon_new :: "string \<Rightarrow> holon" where
  "holon_new i =
    (let base = trim_end_matches [CHR ''#'', CHR ''/''] i in
     \<lparr>hl_id = i, hl_scene = base @ ''/scene'', hl_boundary = base @ ''/boundary'', hl_events = base @ ''/events'',
      hl_admission = Reject, hl_projections = []\<rparr>)"

definition with_admission :: "admission \<Rightarrow> holon \<Rightarrow> holon" where
  "with_admission a h = h\<lparr>hl_admission := a\<rparr>"

definition with_projection :: "string \<Rightarrow> string \<Rightarrow> holon \<Rightarrow> holon" where
  "with_projection i q h = h\<lparr>hl_projections := hl_projections h @ [\<lparr>prj_id = i, prj_query = q, prj_regime = Recomputed\<rparr>]\<rparr>"

section \<open>Deltas\<close>

record triple =
  tr_subject :: node
  tr_predicate :: string
  tr_object :: rdf_term

record delta =
  dl_added :: "triple list"
  dl_removed :: "triple list"

definition delta_adding :: "triple list \<Rightarrow> delta" where
  "delta_adding ts = \<lparr>dl_added = ts, dl_removed = []\<rparr>"

definition delta_add :: "triple \<Rightarrow> delta \<Rightarrow> delta" where
  "delta_add t d = d\<lparr>dl_added := dl_added d @ [t]\<rparr>"

definition delta_remove :: "triple \<Rightarrow> delta \<Rightarrow> delta" where
  "delta_remove t d = d\<lparr>dl_removed := dl_removed d @ [t]\<rparr>"

definition delta_is_empty :: "delta \<Rightarrow> bool" where
  "delta_is_empty d \<longleftrightarrow> dl_added d = [] \<and> dl_removed d = []"

definition into_scene :: "triple \<Rightarrow> string \<Rightarrow> quad" where
  "into_scene t scene = \<lparr>q_subject = tr_subject t, q_predicate = tr_predicate t, q_object = tr_object t, q_graph = GraphNamed scene\<rparr>"

section \<open>Events\<close>

datatype operation = OpAdded | OpRemoved

fun operation_iri :: "operation \<Rightarrow> string" where
  "operation_iri OpAdded = holos ''Added''"
| "operation_iri OpRemoved = holos ''Removed''"

definition prov :: "string \<Rightarrow> string" where
  "prov local = ''http://www.w3.org/ns/prov#'' @ local"

definition rdf_reifies :: string where
  "rdf_reifies = ''http://www.w3.org/1999/02/22-rdf-syntax-ns#reifies''"

record tick_record =
  tk_holon :: holon
  tk_version :: u64
  tk_at :: int
  tk_principal :: string
  tk_changes :: "(operation \<times> triple) list"
  tk_admitted :: bool
  tk_violations :: nat

definition say :: "string \<Rightarrow> string \<Rightarrow> string \<Rightarrow> rdf_term \<Rightarrow> quad" where
  "say graph b p x = \<lparr>q_subject = NodeBlank b, q_predicate = p, q_object = x, q_graph = GraphNamed graph\<rparr>"

definition tick_label :: "u64 \<Rightarrow> string" where
  "tick_label v = ''tick'' @ show_nat (unat v)"

definition change_label :: "u64 \<Rightarrow> nat \<Rightarrow> string" where
  "change_label v i = ''change'' @ show_nat (unat v) @ ''_'' @ show_nat i"

definition change_quads :: "tick_record \<Rightarrow> nat \<Rightarrow> operation \<times> triple \<Rightarrow> quad list" where
  "change_quads r i ch =
    (let g = hl_events (tk_holon r); c = change_label (tk_version r) i; t = snd ch in
     [say g c rdf_reifies (Triple (tr_subject t) (tr_predicate t) (tr_object t)),
      say g c (holos ''inTick'') (BlankNode (tick_label (tk_version r))),
      say g c (holos ''operation'') (NamedNode (operation_iri (fst ch)))])"

definition tick_quads :: "tick_record \<Rightarrow> quad list" where
  "tick_quads r =
    (let g = hl_events (tk_holon r); tick = tick_label (tk_version r) in
     [say g tick rdf_type (NamedNode (prov ''Activity'')),
      say g tick rdf_type (NamedNode (holos ''Tick'')),
      say g tick (holos ''onHolon'') (NamedNode (hl_id (tk_holon r))),
      say g tick (holos ''version'') (Literal (new_typed_literal (show_nat (unat (tk_version r))) xsd_integer))]
     @ (case format_utc_seconds (tk_at r) of
          None \<Rightarrow> []
        | Some stamp \<Rightarrow> [say g tick (prov ''startedAtTime'') (Literal (new_typed_literal stamp xsd_date_time))])
     @ [say g tick (prov ''wasAssociatedWith'') (NamedNode (tk_principal r)),
        say g tick (holos ''admitted'') (Literal (new_typed_literal (if tk_admitted r then ''true'' else ''false'') xsd_boolean))]
     @ (if tk_violations r > 0
        then [say g tick (holos ''violations'') (Literal (new_typed_literal (show_nat (tk_violations r)) xsd_integer))] else []))"

definition event_to_quads :: "tick_record \<Rightarrow> quad list" where
  "event_to_quads r = tick_quads r @ concat (map (\<lambda>p. change_quads r (fst p) (snd p)) (enumerate 0 (tk_changes r)))"

section \<open>A holon's definition\<close>

definition named_quad :: "string \<Rightarrow> string \<Rightarrow> string \<Rightarrow> string \<Rightarrow> quad" where
  "named_quad s p x graph = \<lparr>q_subject = NodeNamed s, q_predicate = p, q_object = NamedNode x, q_graph = GraphNamed graph\<rparr>"

definition literal_quad :: "string \<Rightarrow> string \<Rightarrow> literal \<Rightarrow> string \<Rightarrow> quad" where
  "literal_quad s p l graph = \<lparr>q_subject = NodeNamed s, q_predicate = p, q_object = Literal l, q_graph = GraphNamed graph\<rparr>"

definition projection_quads :: "holon \<Rightarrow> projection \<Rightarrow> quad list" where
  "projection_quads h p =
    [named_quad (hl_id h) (holos ''projection'') (prj_id p) system_graph,
     literal_quad (prj_id p) (holos ''query'') (SimpleLit (prj_query p)) system_graph,
     named_quad (prj_id p) (holos ''regime'')
       (case prj_regime p of Maintained \<Rightarrow> holos ''Maintained'' | Recomputed \<Rightarrow> holos ''Recomputed'') system_graph]"

definition holon_quads :: "holon \<Rightarrow> quad list" where
  "holon_quads h =
    [named_quad (hl_id h) rdf_type (holos ''Holon'') system_graph,
     named_quad (hl_id h) (holos ''scene'') (hl_scene h) system_graph,
     named_quad (hl_id h) (holos ''boundary'') (hl_boundary h) system_graph,
     named_quad (hl_id h) (holos ''events'') (hl_events h) system_graph,
     named_quad (hl_id h) (holos ''admits'') (admission_iri (hl_admission h)) system_graph]
    @ concat (map (projection_quads h) (hl_projections h))"

definition version_quad :: "holon \<Rightarrow> u64 \<Rightarrow> quad" where
  "version_quad h v = literal_quad (hl_id h) (holos ''version'') (new_typed_literal (show_nat (unat v)) xsd_integer) system_graph"

text \<open>\<open>str::parse::<u64>\<close>.\<close>

definition parse_u64 :: "string \<Rightarrow> u64 option" where
  "parse_u64 s =
    (let ds = (case s of [] \<Rightarrow> [] | c # cs \<Rightarrow> if c = CHR ''+'' then cs else c # cs) in
     if ds = [] then None
     else (case parse_digits 0 ds of None \<Rightarrow> None | Some n \<Rightarrow> if n < 2 ^ 64 then Some (word_of_nat n) else None))"

section \<open>Well-formedness\<close>

definition wf_triple :: "triple \<Rightarrow> bool" where
  "wf_triple t \<longleftrightarrow> wf_node (tr_subject t) \<and> is_str (tr_predicate t) \<and> wf_term (tr_object t)"

definition wf_holon :: "holon \<Rightarrow> bool" where
  "wf_holon h \<longleftrightarrow> is_str (hl_id h) \<and> is_str (hl_scene h) \<and> is_str (hl_boundary h) \<and> is_str (hl_events h)
    \<and> (\<forall>p\<in>set (hl_projections h). is_str (prj_id p) \<and> is_str (prj_query p))"

lemma is_str_ascii: "\<forall>c\<in>set s. (of_char c :: nat) < 128 \<Longrightarrow> is_str s"
proof (induction s)
  case (Cons c s)
  have "byte_of_char c \<le> 0x7F" using Cons.prems unat_byte_of_char [of c] by (simp add: word_le_nat_alt)
  with Cons show ?case by (simp add: is_str_def as_bytes_def)
qed (simp add: is_str_def as_bytes_def)

text \<open>A valid sequence starts with the bytes of one character, whose last byte continues it or is its only one.\<close>

lemma utf8_head:
  assumes "valid_utf8 (a # bs)"
  obtains u rest where "a # bs = u @ rest" "u \<noteq> []" "valid_utf8 rest" "\<And>ys. valid_utf8 (u @ ys) \<longleftrightarrow> valid_utf8 ys"
    "length u = 1 \<or> is_cont (last u)"
proof (cases "a \<le> 0x7F")
  case True
  then show thesis using assms by (intro that [of "[a]" bs]) simp_all
next
  case a: False
  then obtain b cs where bs: "bs = b # cs" using assms by (cases bs) simp_all
  show thesis
  proof (cases "0xC2 \<le> a \<and> a \<le> 0xDF")
    case True
    then show thesis using assms a bs by (intro that [of "[a, b]" cs]) simp_all
  next
    case two: False
    then obtain c ds where cs: "cs = c # ds" using assms a bs by (cases cs) (auto split: if_splits)
    show thesis
    proof (cases "0xE0 \<le> a \<and> a \<le> 0xEF")
      case True
      then show thesis using assms a two bs cs by (intro that [of "[a, b, c]" ds]) (auto split: if_splits)
    next
      case three: False
      then obtain d es where ds: "ds = d # es" using assms a two bs cs by (cases ds) (auto split: if_splits)
      then show thesis using assms a two three bs cs by (intro that [of "[a, b, c, d]" es]) (auto split: if_splits)
    qed
  qed
qed

lemma valid_utf8_append: "valid_utf8 xs \<Longrightarrow> valid_utf8 ys \<Longrightarrow> valid_utf8 (xs @ ys)"
proof (induction xs rule: length_induct)
  case (1 xs)
  show ?case
  proof (cases xs)
    case (Cons a bs)
    obtain u rest where u: "a # bs = u @ rest" "u \<noteq> []" "valid_utf8 rest" "\<And>ys. valid_utf8 (u @ ys) \<longleftrightarrow> valid_utf8 ys"
      by (rule utf8_head [of a bs]) (use 1 Cons in auto)
    then have "length rest < length xs" using Cons by simp
    then have "valid_utf8 (rest @ ys)" using 1 u(3) by blast
    then show ?thesis using u(1,4) Cons by simp
  qed (use 1 in simp)
qed

lemma valid_utf8_butlast:
  assumes "b \<le> 0x7F"
  shows "valid_utf8 (xs @ [b]) \<Longrightarrow> valid_utf8 xs"
proof (induction xs rule: length_induct)
  case (1 xs)
  have b: "\<not> is_cont b" using assms by (auto simp: is_cont_def word_le_nat_alt)
  show ?case
  proof (cases xs)
    case (Cons a bs)
    obtain u rest where u: "a # bs @ [b] = u @ rest" "u \<noteq> []" "valid_utf8 rest" "\<And>ys. valid_utf8 (u @ ys) \<longleftrightarrow> valid_utf8 ys"
      "length u = 1 \<or> is_cont (last u)"
      by (rule utf8_head [of a "bs @ [b]"]) (use 1 Cons in auto)
    have "rest \<noteq> []"
    proof
      assume "rest = []"
      with u(1) have "u = (a # bs) @ [b]" by simp
      with u(5) b show False by (simp only: last_snoc) simp
    qed
    then obtain r where r: "rest = r @ [b]" "a # bs = u @ r" using u(1) by (cases rest rule: rev_cases) (auto simp flip: append_Cons append_assoc)
    then have "valid_utf8 r" using 1 u(2,3) Cons by simp
    then show ?thesis using r(2) u(4) Cons by simp
  qed simp
qed

lemma is_str_append [simp]: "is_str s \<Longrightarrow> is_str t \<Longrightarrow> is_str (s @ t)"
  by (simp add: is_str_def as_bytes_def valid_utf8_append)

lemma is_str_butlast: "is_str (s @ [c]) \<Longrightarrow> (of_char c :: nat) < 128 \<Longrightarrow> is_str s"
  using valid_utf8_butlast [of "byte_of_char c" "as_bytes s"] unat_byte_of_char [of c]
  by (simp add: is_str_def as_bytes_def word_le_nat_alt)

lemma is_str_trim: "is_str s \<Longrightarrow> \<forall>c\<in>set cs. (of_char c :: nat) < 128 \<Longrightarrow> is_str (trim_end_matches cs s)"
proof (induction s rule: rev_induct)
  case (snoc c s)
  then show ?case using is_str_butlast [of s c] by (simp add: trim_end_matches_def)
qed (simp add: trim_end_matches_def)

lemma is_str_show_nat [simp]: "is_str (show_nat n)"
  by (rule is_str_ascii) (auto dest!: is_digit_show simp: is_digit_def)

lemma is_str_i64 [simp]: "is_str (i64_to_string v)"
proof -
  have "is_str [CHR ''-'']" by (rule is_str_ascii) simp
  from is_str_append [OF this is_str_show_nat] show ?thesis by (simp add: i64_to_string_def)
qed

lemma is_str_pad_zero [simp]: "is_str (pad_zero w v)"
proof -
  have "is_str (replicate n (CHR ''0''))" for n by (rule is_str_ascii) simp
  then show ?thesis by (simp add: pad_zero_def Let_def)
qed

lemma is_str_stamp: "format_utc_seconds secs = Some s \<Longrightarrow> is_str s"
proof -
  have "is_str ''-''" "is_str ''T''" "is_str '':''" "is_str ''Z''" by code_simp+
  then have "is_str (format_date_time y m d h mi s)" for y m d h mi s
    unfolding format_date_time_def by (intro is_str_append is_str_pad_zero)
  then show "format_utc_seconds secs = Some s \<Longrightarrow> is_str s"
    by (auto simp: format_utc_seconds_def Let_def split: prod.splits if_splits)
qed

lemma is_str_holos [simp]: "is_str l \<Longrightarrow> is_str (holos l)" "is_str l \<Longrightarrow> is_str (prov l)"
proof -
  have ns: "is_str ''https://holos.rdf/ns#''" "is_str ''http://www.w3.org/ns/prov#''" by code_simp+
  show "is_str l \<Longrightarrow> is_str (holos l)" unfolding holos_def by (rule is_str_append [OF ns(1)])
  show "is_str l \<Longrightarrow> is_str (prov l)" unfolding prov_def by (rule is_str_append [OF ns(2)])
qed

lemma is_str_names [simp]: "is_str system_graph" "is_str rdf_type" "is_str rdf_reifies" "is_str xsd_integer" "is_str xsd_boolean" "is_str xsd_date_time"
  by code_simp+

lemma is_str_locals [simp]:
  "is_str ''Activity''" "is_str ''Tick''" "is_str ''onHolon''" "is_str ''version''" "is_str ''startedAtTime''" "is_str ''wasAssociatedWith''"
  "is_str ''admitted''" "is_str ''violations''" "is_str ''inTick''" "is_str ''operation''" "is_str ''Added''" "is_str ''Removed''"
  "is_str ''Holon''" "is_str ''scene''" "is_str ''boundary''" "is_str ''events''" "is_str ''admits''" "is_str ''projection''" "is_str ''query''"
  "is_str ''regime''" "is_str ''Maintained''" "is_str ''Recomputed''" "is_str ''Reject''" "is_str ''AdmitAndRecord''" "is_str ''true''"
  "is_str ''false''" "is_str ''tick''" "is_str ''change''" "is_str ''_''" "is_str ''branchedFrom''" "is_str ''branchedAtVersion''"
  "is_str ''branchedAtTime''"
  by code_simp+

lemma wf_holon_new: "is_str i \<Longrightarrow> wf_holon (holon_new i)"
proof -
  assume i: "is_str i"
  have "is_str (trim_end_matches [CHR ''#'', CHR ''/''] i)" by (rule is_str_trim [OF i]) simp
  moreover have "is_str ''/scene''" "is_str ''/boundary''" "is_str ''/events''" by code_simp+
  ultimately show ?thesis using i by (simp add: wf_holon_def holon_new_def Let_def)
qed

section \<open>The quads of a tick and of a definition\<close>

lemma wf_named_quad: "is_str s \<Longrightarrow> is_str p \<Longrightarrow> is_str x \<Longrightarrow> is_str g \<Longrightarrow> wf_quad (named_quad s p x g)"
  by (simp add: named_quad_def wf_quad_def)

lemma wf_literal_quad: "is_str s \<Longrightarrow> is_str p \<Longrightarrow> wf_literal l \<Longrightarrow> is_str g \<Longrightarrow> wf_quad (literal_quad s p l g)"
  by (simp add: literal_quad_def wf_quad_def)

lemma wf_say: "is_str g \<Longrightarrow> is_str b \<Longrightarrow> is_str p \<Longrightarrow> wf_term x \<Longrightarrow> wf_quad (say g b p x)"
  by (simp add: say_def wf_quad_def)

lemma wf_into_scene: "wf_triple t \<Longrightarrow> is_str g \<Longrightarrow> wf_quad (into_scene t g)"
  by (simp add: wf_triple_def into_scene_def wf_quad_def)

lemma is_str_labels [simp]: "is_str (tick_label v)" "is_str (change_label v i)"
  unfolding tick_label_def change_label_def by (intro is_str_append is_str_show_nat is_str_locals)+

lemma admission_iri_str [simp]: "is_str (admission_iri a)" by (cases a) simp_all

lemma operation_iri_str [simp]: "is_str (operation_iri a)" by (cases a) simp_all

lemma regime_iri: "is_str (case r of Maintained \<Rightarrow> holos ''Maintained'' | Recomputed \<Rightarrow> holos ''Recomputed'')"
  by (cases r) simp_all

lemma wf_holon_quads: "wf_holon h \<Longrightarrow> q \<in> set (holon_quads h) \<Longrightarrow> wf_quad q"
  by (auto simp: holon_quads_def projection_quads_def wf_holon_def intro!: wf_named_quad wf_literal_quad simp: regime_iri)

lemma wf_change_quads: "is_str (hl_events (tk_holon r)) \<Longrightarrow> wf_triple (snd ch) \<Longrightarrow> q \<in> set (change_quads r i ch) \<Longrightarrow> wf_quad q"
  by (auto simp: change_quads_def Let_def wf_triple_def intro!: wf_say)

lemma set_enumerate_values: "(i, x) \<in> set (enumerate n xs) \<Longrightarrow> x \<in> set xs"
  by (metis in_set_enumerate_eq snd_conv nth_mem le_add_diff_inverse less_diff_conv2 add.commute)

lemma wf_tick_quads:
  assumes "wf_holon (tk_holon r)" "is_str (tk_principal r)" "q \<in> set (tick_quads r)"
  shows "wf_quad q"
proof -
  have g: "is_str (hl_events (tk_holon r))" "is_str (hl_id (tk_holon r))" using assms(1) by (simp_all add: wf_holon_def)
  have b: "is_str (if tk_admitted r then ''true'' else ''false'')" by simp
  have s: "is_str stamp" if "format_utc_seconds (tk_at r) = Some stamp" for stamp using is_str_stamp [OF that] .
  have "list_all wf_quad (tick_quads r)"
    unfolding tick_quads_def Let_def list_all_append list.pred_inject
    by (intro conjI wf_say g is_str_labels)
       (use g assms(2) s b in \<open>auto intro!: wf_say split: option.split simp del: if_split\<close>)
  then show ?thesis using assms(3) by (simp add: list_all_iff)
qed

lemma wf_event_quads:
  assumes "wf_holon (tk_holon r)" "is_str (tk_principal r)" "\<forall>ch\<in>set (tk_changes r). wf_triple (snd ch)" "q \<in> set (event_to_quads r)"
  shows "wf_quad q"
proof -
  have g: "is_str (hl_events (tk_holon r))" using assms(1) by (simp_all add: wf_holon_def)
  have "q \<in> set (tick_quads r) \<or> (\<exists>p\<in>set (enumerate 0 (tk_changes r)). q \<in> set (change_quads r (fst p) (snd p)))"
    using assms(4) unfolding event_to_quads_def set_append set_concat set_map by blast
  then consider (change) i ch where "(i, ch) \<in> set (enumerate 0 (tk_changes r))" "q \<in> set (change_quads r i ch)"
    | (tick) "q \<in> set (tick_quads r)"
    by (metis prod.collapse)
  then show ?thesis
  proof cases
    case change
    have "wf_triple (snd ch)" using assms(3) set_enumerate_values [OF change(1)] by blast
    then show ?thesis by (rule wf_change_quads [OF g _ change(2)])
  qed (rule wf_tick_quads [OF assms(1,2)])
qed

lemma event_graph: "q \<in> set (event_to_quads r) \<Longrightarrow> q_graph q = GraphNamed (hl_events (tk_holon r))"
  by (auto simp: event_to_quads_def tick_quads_def change_quads_def say_def Let_def split: option.splits if_splits)

lemma parse_u64_show: "parse_u64 (show_nat (unat v)) = Some v"
proof -
  obtain c cs where s: "show_nat (unat v) = c # cs" by (cases "show_nat (unat v)") auto
  with hd_show_digit [of "unat v"] have "c \<noteq> CHR ''+''" by (auto simp: is_digit_def)
  moreover have "unat v < 2 ^ 64" using unsigned_less [of v] by simp
  ultimately show ?thesis using s parse_digits_show [of "unat v"] by (simp add: parse_u64_def Let_def)
qed

text \<open>The three graphs of a derived holon are apart from one another and from the system graph.\<close>

definition graphs_apart :: "holon \<Rightarrow> bool" where
  "graphs_apart h \<longleftrightarrow> distinct [hl_scene h, hl_boundary h, hl_events h, system_graph]"

lemma holon_new_apart: "graphs_apart (holon_new i)"
proof -
  have "system_graph \<noteq> b @ s" if "last s \<noteq> CHR ''m''" "s \<noteq> []" for b s
  proof
    assume "system_graph = b @ s"
    then have "last system_graph = last (b @ s)" by (rule arg_cong)
    then have "last system_graph = last s" using that(2) by simp
    with that(1) show False by (simp add: system_graph_def)
  qed
  from this [of "''/scene''"] this [of "''/boundary''"] this [of "''/events''"]
  have "system_graph \<noteq> b @ ''/scene''" "system_graph \<noteq> b @ ''/boundary''" "system_graph \<noteq> b @ ''/events''" for b by simp_all
  from this [symmetric] show ?thesis by (simp add: graphs_apart_def holon_new_def Let_def)
qed

end
