(* ===== verification/Holon_Ops.thy ===== *)
theory Holon_Ops
  imports Holon_Model Dataset_View
begin

text \<open>
  The operations of the holon crate on a store: commit scopes, the registry, ticks and branches,
  \<^verbatim>\<open>holos-holon/src/lib.rs\<close>, \<^verbatim>\<open>registry.rs\<close> and \<^verbatim>\<open>branch.rs\<close>. The engine is its store. The SHACL validator and
  the rule engine are parameters, records of the functions the crate calls; the clock is an argument.

  Every way out of an operation passes through its commit scope. The section on atomicity states what
  that gives, once, for any invariant a store's scope carries.
\<close>

section \<open>Errors and sequencing\<close>

datatype shacl_error = ShaclStorage storage_error | IllFormedShape string | ShaclUnsupported string | TooDeep u32

text \<open>\<open>holos_engine::EngineError\<close>; an error of a parser or of the evaluator is its message.\<close>

datatype engine_error =
    EngineSyntax string
  | Evaluation string
  | EngineParse string
  | EngineIo string
  | EngineStorage storage_error
  | EngineView view_error
  | BadRequest string
  | Refused string
  | EngineAccessDenied

datatype holon_error =
    HolonStorage storage_error
  | HolonShacl shacl_error
  | HolonEngine engine_error
  | WriteDenied string
  | Invalid string
  | UnsupportedRegime string

type_synonym 'a hres = "holon_error + 'a"

definition from_store :: "'a res \<Rightarrow> 'a hres" where
  "from_store r = map_sum HolonStorage id r"

definition from_shacl :: "shacl_error + 'a \<Rightarrow> 'a hres" where
  "from_shacl r = map_sum HolonShacl id r"

text \<open>The question mark operator on a computation that changes the state.\<close>

definition bindr :: "'c \<times> ('e + 'a) \<Rightarrow> ('a \<Rightarrow> 'c \<Rightarrow> 'c \<times> ('e + 'b)) \<Rightarrow> 'c \<times> ('e + 'b)" where
  "bindr r f = (case r of (c, Inl e) \<Rightarrow> (c, Inl e) | (c, Inr x) \<Rightarrow> f x c)"

definition on_store :: "('s \<Rightarrow> 's \<times> 'a res) \<Rightarrow> 's \<times> session \<Rightarrow> ('s \<times> session) \<times> 'a hres" where
  "on_store f c = ((fst (f (fst c)), snd c), from_store (snd (f (fst c))))"

definition hon_store :: "('s \<Rightarrow> 's \<times> 'a hres) \<Rightarrow> 's \<times> session \<Rightarrow> ('s \<times> session) \<times> 'a hres" where
  "hon_store f c = ((fst (f (fst c)), snd c), snd (f (fst c)))"

definition ask_policy :: "'s storage_ops \<Rightarrow> 's \<times> session \<Rightarrow> ('s \<times> session) \<times> compiled_policy hres" where
  "ask_policy ops c = ((fst c, fst (session_policy ops (fst c) (snd c))), from_store (snd (session_policy ops (fst c) (snd c))))"

section \<open>Commit scopes\<close>

record 's scope_ops =
  op_begin :: "'s \<Rightarrow> 's \<times> unit res"
  op_commit :: "'s \<Rightarrow> 's \<times> unit res"
  op_rollback :: "'s \<Rightarrow> 's"
  op_in_scope :: "'s \<Rightarrow> bool"

definition memory_scope :: "memory_storage scope_ops" where
  "memory_scope = \<lparr>op_begin = mem_begin, op_commit = mem_commit, op_rollback = mem_rollback, op_in_scope = mem_in_scope\<rparr>"

definition begin_commit :: "'s scope_ops \<Rightarrow> 's \<Rightarrow> 's \<times> bool hres" where
  "begin_commit sc st =
    (let owned = \<not> op_in_scope sc st in
     if owned then (case op_begin sc st of (st, Inl e) \<Rightarrow> (st, Inl (HolonStorage e)) | (st, Inr _) \<Rightarrow> (st, Inr owned))
     else (st, Inr owned))"

definition end_commit :: "'s scope_ops \<Rightarrow> bool \<Rightarrow> bool \<Rightarrow> 's \<Rightarrow> 's \<times> unit hres" where
  "end_commit sc owned kept st =
    (if owned then
       (if kept then (case op_commit sc st of (st, r) \<Rightarrow> (st, from_store r)) else (op_rollback sc st, Inr ()))
     else (st, Inr ()))"

text \<open>
  The wrapper \<open>register\<close>, \<open>set_version\<close>, \<open>branch\<close> and \<open>tick\<close> put around their bodies: open a scope
  unless one is open, run the body, and close it according to the body's result.
\<close>

definition in_commit ::
  "'s scope_ops \<Rightarrow> ('c \<Rightarrow> 's) \<Rightarrow> ('s \<Rightarrow> 'c \<Rightarrow> 'c) \<Rightarrow> ('c \<Rightarrow> 'c \<times> 'a hres) \<Rightarrow> 'c \<Rightarrow> 'c \<times> 'a hres" where
  "in_commit sc get put body c =
    (case begin_commit sc (get c) of
       (st, Inl e) \<Rightarrow> (put st c, Inl e)
     | (st, Inr owned) \<Rightarrow>
         (case body (put st c) of (c1, result) \<Rightarrow>
          (case end_commit sc owned (\<not> isl result) (get c1) of
             (st, Inl e) \<Rightarrow> (put st c1, Inl e)
           | (st, Inr _) \<Rightarrow> (put st c1, result))))"

definition commit_store :: "'s scope_ops \<Rightarrow> ('s \<Rightarrow> 's \<times> 'a hres) \<Rightarrow> 's \<Rightarrow> 's \<times> 'a hres" where
  "commit_store sc body st = in_commit sc (\<lambda>s. s) (\<lambda>s c. s) body st"

definition commit_session :: "'s scope_ops \<Rightarrow> ('s \<times> session \<Rightarrow> ('s \<times> session) \<times> 'a hres) \<Rightarrow> 's \<times> session \<Rightarrow> ('s \<times> session) \<times> 'a hres" where
  "commit_session sc body c = in_commit sc fst (\<lambda>s c. (s, snd c)) body c"

section \<open>The registry\<close>

fun register_loop :: "'s storage_ops \<Rightarrow> quad list \<Rightarrow> 's \<times> session \<Rightarrow> ('s \<times> session) \<times> unit hres" where
  "register_loop ops [] c = (c, Inr ())"
| "register_loop ops (q # qs) c =
    bindr (on_store (encode_quad ops q) c) (\<lambda>encoded c.
    bindr (ask_policy ops c) (\<lambda>policy c.
      if \<not> permits_quad policy encoded ADMIN then (c, Inl (WriteDenied system_graph))
      else bindr (on_store (op_insert_encoded ops encoded) c) (\<lambda>_ c. register_loop ops qs c)))"

definition register_body :: "'s storage_ops \<Rightarrow> holon \<Rightarrow> 's \<times> session \<Rightarrow> ('s \<times> session) \<times> unit hres" where
  "register_body ops h c = register_loop ops (holon_quads h) c"

definition register :: "'s storage_ops \<Rightarrow> 's scope_ops \<Rightarrow> holon \<Rightarrow> 's \<times> session \<Rightarrow> ('s \<times> session) \<times> unit hres" where
  "register ops sc h c = commit_session sc (register_body ops h) c"

definition registry_graph_filter :: "'s storage_ops \<Rightarrow> 's \<Rightarrow> string \<Rightarrow> (graph_filter option) hres" where
  "registry_graph_filter ops st g = from_store (map_sum id (map_option FilterNamed) (op_lookup ops st (NamedNode g)))"

text \<open>\<open>iter.next().transpose()?\<close>.\<close>

fun first_quad :: "quad_scan \<Rightarrow> (encoded_quad option) hres" where
  "first_quad [] = Inr None"
| "first_quad (Inl e # _) = Inl (HolonStorage e)"
| "first_quad (Inr q # _) = Inr (Some q)"

definition registry_object :: "'s storage_ops \<Rightarrow> 's \<Rightarrow> graph_filter \<Rightarrow> term_id \<Rightarrow> string \<Rightarrow> (rdf_term option) hres" where
  "registry_object ops st graph subject predicate =
    (case op_lookup ops st (NamedNode predicate) of
       Inl e \<Rightarrow> Inl (HolonStorage e)
     | Inr None \<Rightarrow> Inr None
     | Inr (Some p) \<Rightarrow>
         (case first_quad (op_scan ops st (Some subject) (Some p) None graph) of
            Inl e \<Rightarrow> Inl e
          | Inr None \<Rightarrow> Inr None
          | Inr (Some q) \<Rightarrow> from_store (op_decode ops st (enc_object q))))"

text \<open>\<open>if let Some(Term::NamedNode(n)) = object(..)?\<close>, then an assignment.\<close>

definition load_field ::
  "'s storage_ops \<Rightarrow> 's \<Rightarrow> graph_filter \<Rightarrow> term_id \<Rightarrow> string \<Rightarrow> (string \<Rightarrow> holon \<Rightarrow> holon) \<Rightarrow> holon \<Rightarrow> holon hres" where
  "load_field ops st graph subject predicate assign h =
    (case registry_object ops st graph subject predicate of
       Inl e \<Rightarrow> Inl e
     | Inr (Some (NamedNode n)) \<Rightarrow> Inr (assign n h)
     | Inr _ \<Rightarrow> Inr h)"

definition load :: "'s storage_ops \<Rightarrow> 's \<Rightarrow> string \<Rightarrow> (holon option) hres" where
  "load ops st i =
    (case registry_graph_filter ops st system_graph of Inl e \<Rightarrow> Inl e | Inr None \<Rightarrow> Inr None | Inr (Some graph) \<Rightarrow>
    (case op_lookup ops st (NamedNode i) of Inl e \<Rightarrow> Inl (HolonStorage e) | Inr None \<Rightarrow> Inr None | Inr (Some subject) \<Rightarrow>
    (case op_lookup ops st (NamedNode (holos ''Holon'')) of Inl e \<Rightarrow> Inl (HolonStorage e) | Inr None \<Rightarrow> Inr None | Inr (Some holon_class) \<Rightarrow>
    (case op_lookup ops st (NamedNode rdf_type) of Inl e \<Rightarrow> Inl (HolonStorage e) | Inr None \<Rightarrow> Inr None | Inr (Some type_id) \<Rightarrow>
    (case first_quad (op_scan ops st (Some subject) (Some type_id) (Some holon_class) graph) of Inl e \<Rightarrow> Inl e | Inr None \<Rightarrow> Inr None | Inr (Some _) \<Rightarrow>
    (case load_field ops st graph subject (holos ''scene'') (\<lambda>n h. h\<lparr>hl_scene := n\<rparr>) (holon_new i) of Inl e \<Rightarrow> Inl e | Inr h \<Rightarrow>
    (case load_field ops st graph subject (holos ''boundary'') (\<lambda>n h. h\<lparr>hl_boundary := n\<rparr>) h of Inl e \<Rightarrow> Inl e | Inr h \<Rightarrow>
    (case load_field ops st graph subject (holos ''events'') (\<lambda>n h. h\<lparr>hl_events := n\<rparr>) h of Inl e \<Rightarrow> Inl e | Inr h \<Rightarrow>
    (case load_field ops st graph subject (holos ''admits'')
        (\<lambda>n h. h\<lparr>hl_admission := if n = holos ''AdmitAndRecord'' then AdmitAndRecord else Reject\<rparr>) h of Inl e \<Rightarrow> Inl e | Inr h \<Rightarrow>
     Inr (Some h))))))))))"

definition version :: "'s storage_ops \<Rightarrow> 's \<Rightarrow> holon \<Rightarrow> u64 hres" where
  "version ops st h =
    (case registry_graph_filter ops st system_graph of Inl e \<Rightarrow> Inl e | Inr None \<Rightarrow> Inr 0 | Inr (Some graph) \<Rightarrow>
    (case op_lookup ops st (NamedNode (hl_id h)) of Inl e \<Rightarrow> Inl (HolonStorage e) | Inr None \<Rightarrow> Inr 0 | Inr (Some subject) \<Rightarrow>
    (case registry_object ops st graph subject (holos ''version'') of
       Inl e \<Rightarrow> Inl e
     | Inr (Some (Literal l)) \<Rightarrow> Inr (case parse_u64 (lit_value l) of Some v \<Rightarrow> v | None \<Rightarrow> 0)
     | Inr _ \<Rightarrow> Inr 0)))"

text \<open>The addition wraps: release builds of the workspace do not check overflow.\<close>

definition next_version :: "'s storage_ops \<Rightarrow> 's \<Rightarrow> holon \<Rightarrow> u64 hres" where
  "next_version ops st h = map_sum id (\<lambda>v. v + 1) (version ops st h)"

definition set_version_body :: "'s storage_ops \<Rightarrow> holon \<Rightarrow> u64 \<Rightarrow> 's \<Rightarrow> 's \<times> unit hres" where
  "set_version_body ops h v st =
    (case version ops st h of
       Inl e \<Rightarrow> (st, Inl e)
     | Inr previous \<Rightarrow>
         (let removed = (if previous \<noteq> 0 then store_remove ops (version_quad h previous) st else (st, Inr False)) in
          case removed of
            (st, Inl e) \<Rightarrow> (st, Inl (HolonStorage e))
          | (st, Inr _) \<Rightarrow>
              (case store_insert ops (version_quad h v) st of
                 (st, Inl e) \<Rightarrow> (st, Inl (HolonStorage e))
               | (st, Inr _) \<Rightarrow> (st, Inr ()))))"

definition set_version :: "'s storage_ops \<Rightarrow> 's scope_ops \<Rightarrow> holon \<Rightarrow> u64 \<Rightarrow> 's \<Rightarrow> 's \<times> unit hres" where
  "set_version ops sc h v st = commit_store sc (set_version_body ops h v) st"

section \<open>Validation and rules\<close>

record change =
  ch_quad :: encoded_quad
  ch_added :: bool

record ('s, 'shapes, 'report) shacl_lib =
  sh_compile :: "'s \<Rightarrow> graph_filter \<Rightarrow> graph_filter \<Rightarrow> shacl_error + 'shapes"
  sh_shapes_empty :: "'shapes \<Rightarrow> bool"
  sh_revalidate :: "'shapes \<Rightarrow> 's \<Rightarrow> change list \<Rightarrow> shacl_error + 'report"
  sh_results_len :: "'report \<Rightarrow> nat"

record ('s, 'run) rule_lib =
  rl_prepare :: "'s \<Rightarrow> graph_filter \<Rightarrow> graph_filter \<Rightarrow> shacl_error + 'run"
  rl_checkpoint :: "'run \<Rightarrow> 'run"
  rl_apply :: "'s \<Rightarrow> change list \<Rightarrow> 'run \<Rightarrow> 'run \<times> (shacl_error + unit)"
  rl_infer :: "nat \<Rightarrow> 'run \<Rightarrow> 'run \<times> (shacl_error + triple list)"
  rl_accept :: "'run \<Rightarrow> 'run"
  rl_revert :: "'s \<Rightarrow> 'run \<Rightarrow> 'run"

definition validate ::
  "('s, 'shapes, 'report) shacl_lib \<Rightarrow> 's storage_ops \<Rightarrow> 's \<Rightarrow> holon \<Rightarrow> change list \<Rightarrow> (nat \<times> 'report option) hres" where
  "validate V ops st h changes =
    (case registry_graph_filter ops st (hl_scene h) of Inl e \<Rightarrow> Inl e | Inr scene_id \<Rightarrow>
    (case registry_graph_filter ops st (hl_boundary h) of Inl e \<Rightarrow> Inl e | Inr boundary_id \<Rightarrow>
    (case (scene_id, boundary_id) of
       (Some data_graph, Some shapes_graph) \<Rightarrow>
         (case from_shacl (sh_compile V st data_graph shapes_graph) of
            Inl e \<Rightarrow> Inl e
          | Inr shapes \<Rightarrow>
              if sh_shapes_empty V shapes then Inr (0, None)
              else map_sum id (\<lambda>report. (sh_results_len V report, Some report)) (from_shacl (sh_revalidate V shapes st changes)))
     | _ \<Rightarrow> Inr (0, None))))"

record 'run rules =
  ru_run :: 'run
  ru_for_scene :: string

definition MAX_ROUNDS :: nat where
  "MAX_ROUNDS = 16"

definition fire :: "('s, 'run) rule_lib \<Rightarrow> 's \<Rightarrow> holon \<Rightarrow> change list \<Rightarrow> 'run rules \<Rightarrow> 'run rules \<times> (triple list) hres" where
  "fire R st h changes ru =
    (if ru_for_scene ru \<noteq> hl_scene h then
       (ru, Inl (HolonShacl (ShaclUnsupported
         (''these rules were bridged against <'' @ ru_for_scene ru @ ''> and cannot be used on <'' @ hl_scene h @ ''>''))))
     else
       (case rl_apply R st changes (rl_checkpoint R (ru_run ru)) of
          (run, Inl e) \<Rightarrow> (ru\<lparr>ru_run := run\<rparr>, Inl (HolonShacl e))
        | (run, Inr _) \<Rightarrow>
            (case rl_infer R MAX_ROUNDS run of (run, r) \<Rightarrow> (ru\<lparr>ru_run := run\<rparr>, from_shacl r))))"

definition settle :: "('s, 'run) rule_lib \<Rightarrow> 's \<Rightarrow> bool \<Rightarrow> 'run rules \<Rightarrow> 'run rules" where
  "settle R st committed ru = ru\<lparr>ru_run := (if committed then rl_accept R (ru_run ru) else rl_revert R st (ru_run ru))\<rparr>"

definition rules_prepare ::
  "('s, 'run) rule_lib \<Rightarrow> 's storage_ops \<Rightarrow> holon \<Rightarrow> 's \<Rightarrow> 's \<times> ('run rules option) hres" where
  "rules_prepare R ops h st =
    (case registry_graph_filter ops st (hl_boundary h) of
       Inl e \<Rightarrow> (st, Inl e)
     | Inr None \<Rightarrow> (st, Inr None)
     | Inr (Some shapes_graph) \<Rightarrow>
         (case encode_quad ops \<lparr>q_subject = NodeNamed (hl_scene h), q_predicate = hl_scene h, q_object = NamedNode (hl_scene h),
             q_graph = DefaultGraph\<rparr> st of
            (st, Inl e) \<Rightarrow> (st, Inl (HolonStorage e))
          | (st, Inr q) \<Rightarrow>
              (case rl_prepare R st (FilterNamed (enc_subject q)) shapes_graph of
                 Inl e \<Rightarrow> (st, Inl (HolonShacl e))
               | Inr run \<Rightarrow> (st, Inr (Some \<lparr>ru_run = run, ru_for_scene = hl_scene h\<rparr>)))))"

section \<open>Ticks\<close>

type_synonym applied = "(operation \<times> triple \<times> encoded_quad) list"

record 'report tick_outcome =
  to_version :: u64
  to_admitted :: bool
  to_violations :: nat
  to_applied :: nat
  to_report :: "'report option"

definition committed :: "'report tick_outcome \<Rightarrow> bool" where
  "committed t \<longleftrightarrow> to_admitted t"

text \<open>The loop over the additions; the inferred triples go through the same statements.\<close>

fun apply_added :: "'s storage_ops \<Rightarrow> string \<Rightarrow> triple list \<Rightarrow> applied \<Rightarrow> 's \<times> session \<Rightarrow> ('s \<times> session) \<times> applied hres" where
  "apply_added ops scene [] applied c = (c, Inr applied)"
| "apply_added ops scene (t # ts) applied c =
    bindr (on_store (encode_quad ops (into_scene t scene)) c) (\<lambda>encoded c.
    bindr (ask_policy ops c) (\<lambda>policy c.
      if \<not> permits_quad policy encoded WRITE then (c, Inl (WriteDenied scene))
      else bindr (on_store (op_insert_encoded ops encoded) c) (\<lambda>fresh c.
        apply_added ops scene ts (if fresh then applied @ [(OpAdded, t, encoded)] else applied) c)))"

fun apply_removed :: "'s storage_ops \<Rightarrow> string \<Rightarrow> triple list \<Rightarrow> applied \<Rightarrow> 's \<times> session \<Rightarrow> ('s \<times> session) \<times> applied hres" where
  "apply_removed ops scene [] applied c = (c, Inr applied)"
| "apply_removed ops scene (t # ts) applied c =
    bindr (on_store (encode_quad ops (into_scene t scene)) c) (\<lambda>encoded c.
    bindr (ask_policy ops c) (\<lambda>policy c.
      if \<not> permits_quad policy encoded WRITE \<or> \<not> permits_quad policy encoded READ then (c, Inl (WriteDenied scene))
      else bindr (on_store (store_remove ops (into_scene t scene)) c) (\<lambda>found c.
        apply_removed ops scene ts (if found then applied @ [(OpRemoved, t, encoded)] else applied) c)))"

definition change_of :: "operation \<times> triple \<times> encoded_quad \<Rightarrow> change" where
  "change_of a = \<lparr>ch_quad = snd (snd a), ch_added = (fst a = OpAdded)\<rparr>"

fun undo_loop :: "'s storage_ops \<Rightarrow> applied \<Rightarrow> 's \<Rightarrow> 's \<times> unit res" where
  "undo_loop ops [] st = (st, Inr ())"
| "undo_loop ops ((op, _, encoded) # rest) st =
    and_then (case op of OpAdded \<Rightarrow> op_remove_encoded ops encoded st | OpRemoved \<Rightarrow> op_insert_encoded ops encoded st)
      (\<lambda>_ st. undo_loop ops rest st)"

definition undo_applied :: "'s storage_ops \<Rightarrow> applied \<Rightarrow> 's \<Rightarrow> 's \<times> unit res" where
  "undo_applied ops applied st = undo_loop ops (rev applied) st"

fun insert_all :: "'s storage_ops \<Rightarrow> quad list \<Rightarrow> 's \<Rightarrow> 's \<times> unit res" where
  "insert_all ops [] st = (st, Inr ())"
| "insert_all ops (q # qs) st = and_then (store_insert ops q st) (\<lambda>_ st. insert_all ops qs st)"

fun refused_regime :: "projection list \<Rightarrow> string option" where
  "refused_regime [] = None"
| "refused_regime (p # ps) = (if prj_regime p = Maintained then Some (prj_id p) else refused_regime ps)"

text \<open>Step 2, when the caller brought rules.\<close>

definition fire_rules ::
  "('s, 'run) rule_lib \<Rightarrow> 's storage_ops \<Rightarrow> holon \<Rightarrow> applied \<Rightarrow> 'run rules option \<Rightarrow> 's \<times> session
    \<Rightarrow> 'run rules option \<times> ('s \<times> session) \<times> applied hres" where
  "fire_rules R ops h applied rules c =
    (case rules of
       None \<Rightarrow> (None, c, Inr applied)
     | Some ru \<Rightarrow>
         (case fire R (fst c) h (map change_of applied) ru of
            (ru, Inl e) \<Rightarrow> (Some ru, c, Inl e)
          | (ru, Inr inferred) \<Rightarrow> (Some ru, apply_added ops (hl_scene h) inferred applied c)))"

text \<open>Steps 3 and 4: validate, undo a refused delta, record the event and the version.\<close>

definition tick_record_of :: "holon \<Rightarrow> u64 \<Rightarrow> int \<Rightarrow> session \<Rightarrow> applied \<Rightarrow> bool \<Rightarrow> nat \<Rightarrow> tick_record" where
  "tick_record_of h v at se applied admitted violations =
    \<lparr>tk_holon = h, tk_version = v, tk_at = at, tk_principal = pr_id (se_principal se),
     tk_changes = map (\<lambda>(op, t, _). (op, t)) applied, tk_admitted = admitted, tk_violations = violations\<rparr>"

definition tick_finish ::
  "('s, 'shapes, 'report) shacl_lib \<Rightarrow> 's storage_ops \<Rightarrow> 's scope_ops \<Rightarrow> holon \<Rightarrow> int \<Rightarrow> u64 \<Rightarrow> applied \<Rightarrow> 's \<times> session
    \<Rightarrow> ('s \<times> session) \<times> ('report tick_outcome) hres" where
  "tick_finish V ops sc h at v applied c =
    (case validate V ops (fst c) h (map change_of applied) of
       Inl e \<Rightarrow> (c, Inl e)
     | Inr (violations, report) \<Rightarrow>
         (let admitted = (violations = 0 \<or> hl_admission h = AdmitAndRecord) in
          bindr (if \<not> admitted then on_store (undo_applied ops applied) c else (c, Inr ())) (\<lambda>_ c.
          bindr (on_store (insert_all ops (event_to_quads (tick_record_of h v at (snd c) applied admitted violations))) c) (\<lambda>_ c.
          bindr (hon_store (set_version ops sc h v) c) (\<lambda>_ c.
            (c, Inr \<lparr>to_version = v, to_admitted = admitted, to_violations = violations,
                     to_applied = (if admitted then length applied else 0), to_report = report\<rparr>))))))"

definition apply_delta :: "'s storage_ops \<Rightarrow> string \<Rightarrow> delta \<Rightarrow> 's \<times> session \<Rightarrow> ('s \<times> session) \<times> applied hres" where
  "apply_delta ops scene d c = bindr (apply_added ops scene (dl_added d) [] c) (apply_removed ops scene (dl_removed d))"

definition tick_steps ::
  "('s, 'shapes, 'report) shacl_lib \<Rightarrow> ('s, 'run) rule_lib \<Rightarrow> 's storage_ops \<Rightarrow> 's scope_ops \<Rightarrow> holon \<Rightarrow> int \<Rightarrow> delta \<Rightarrow> u64
    \<Rightarrow> 'run rules option \<Rightarrow> 's \<times> session \<Rightarrow> 'run rules option \<times> ('s \<times> session) \<times> ('report tick_outcome) hres" where
  "tick_steps V R ops sc h at d v rules c =
    (case apply_delta ops (hl_scene h) d c of
       (c, Inl e) \<Rightarrow> (rules, c, Inl e)
     | (c, Inr applied) \<Rightarrow>
         (case fire_rules R ops h applied rules c of
            (rules, c, Inl e) \<Rightarrow> (rules, c, Inl e)
          | (rules, c, Inr applied) \<Rightarrow> (rules, tick_finish V ops sc h at v applied c)))"

definition tick_body ::
  "('s, 'shapes, 'report) shacl_lib \<Rightarrow> ('s, 'run) rule_lib \<Rightarrow> 's storage_ops \<Rightarrow> 's scope_ops \<Rightarrow> holon \<Rightarrow> int \<Rightarrow> delta
    \<Rightarrow> 'run rules option \<Rightarrow> 's \<times> session \<Rightarrow> 'run rules option \<times> ('s \<times> session) \<times> ('report tick_outcome) hres" where
  "tick_body V R ops sc h at d rules c =
    (case refused_regime (hl_projections h) of
       Some i \<Rightarrow> (rules, c, Inl (UnsupportedRegime i))
     | None \<Rightarrow>
         (case next_version ops (fst c) h of
            Inl e \<Rightarrow> (rules, c, Inl e)
          | Inr v \<Rightarrow> tick_steps V R ops sc h at d v rules c))"

definition tick_with_rules ::
  "('s, 'shapes, 'report) shacl_lib \<Rightarrow> ('s, 'run) rule_lib \<Rightarrow> 's storage_ops \<Rightarrow> 's scope_ops \<Rightarrow> holon \<Rightarrow> int \<Rightarrow> delta
    \<Rightarrow> 'run rules option \<Rightarrow> 's \<times> session \<Rightarrow> 'run rules option \<times> ('s \<times> session) \<times> ('report tick_outcome) hres" where
  "tick_with_rules V R ops sc h at d rules c =
    (case begin_commit sc (fst c) of
       (st, Inl e) \<Rightarrow> (rules, (st, snd c), Inl e)
     | (st, Inr owned) \<Rightarrow>
         (case tick_body V R ops sc h at d rules (st, snd c) of (rules, c, outcome) \<Rightarrow>
          (case end_commit sc owned (\<not> isl outcome) (fst c) of
             (st, Inl e) \<Rightarrow> (rules, (st, snd c), Inl e)
           | (st, Inr _) \<Rightarrow>
               (map_option (settle R st (case outcome of Inr t \<Rightarrow> committed t | Inl _ \<Rightarrow> False)) rules, (st, snd c), outcome))))"

definition tick ::
  "('s, 'shapes, 'report) shacl_lib \<Rightarrow> ('s, 'run) rule_lib \<Rightarrow> 's storage_ops \<Rightarrow> 's scope_ops \<Rightarrow> holon \<Rightarrow> int \<Rightarrow> delta
    \<Rightarrow> 's \<times> session \<Rightarrow> ('s \<times> session) \<times> ('report tick_outcome) hres" where
  "tick V R ops sc h at d c = snd (tick_with_rules V R ops sc h at d None c)"

definition run_projection :: "('v \<Rightarrow> string \<Rightarrow> engine_error + 'answers) \<Rightarrow> 'v \<Rightarrow> holon \<Rightarrow> string \<Rightarrow> 'answers hres option" where
  "run_projection query view h i =
    map_option (\<lambda>p. map_sum HolonEngine id (query view (prj_query p))) (find (\<lambda>p. prj_id p = i) (hl_projections h))"

definition graph_size :: "'s storage_ops \<Rightarrow> 's \<Rightarrow> string \<Rightarrow> nat" where
  "graph_size ops st g =
    (case op_lookup ops st (NamedNode g) of
       Inr (Some i) \<Rightarrow> length (filter is_ok (op_scan ops st None None None (FilterNamed i)))
     | _ \<Rightarrow> 0)"

section \<open>Branches\<close>

record branch_point =
  bp_parent :: string
  bp_version :: u64

fun decode_into :: "'s storage_ops \<Rightarrow> 's \<Rightarrow> string \<Rightarrow> quad_scan \<Rightarrow> quad list \<Rightarrow> quad list res" where
  "decode_into ops st to [] out = Inr out"
| "decode_into ops st to (Inl e # _) out = Inl e"
| "decode_into ops st to (Inr e # es) out =
    (case decode_quad ops st e of Inl err \<Rightarrow> Inl err | Inr q \<Rightarrow> decode_into ops st to es (out @ [q\<lparr>q_graph := GraphNamed to\<rparr>]))"

definition copy_graph :: "'s storage_ops \<Rightarrow> string \<Rightarrow> string \<Rightarrow> 's \<Rightarrow> 's \<times> unit res" where
  "copy_graph ops from to st =
    (case op_lookup ops st (NamedNode from) of
       Inl e \<Rightarrow> (st, Inl e)
     | Inr r \<Rightarrow>
         (case (case r of None \<Rightarrow> Inr [] | Some source \<Rightarrow> decode_into ops st to (op_scan ops st None None None (FilterNamed source)) []) of
            Inl e \<Rightarrow> (st, Inl e)
          | Inr quads \<Rightarrow>
              if quads = [] then and_then (store_insert_named_graph ops (GraphNamed to) st) (\<lambda>_ st. (st, Inr ()))
              else insert_all ops quads st))"

definition branch_quads :: "holon \<Rightarrow> branch_point \<Rightarrow> int \<Rightarrow> quad list" where
  "branch_quads child point at =
    [named_quad (hl_id child) (holos ''branchedFrom'') (bp_parent point) (hl_events child),
     literal_quad (hl_id child) (holos ''branchedAtVersion'') (new_typed_literal (show_nat (unat (bp_version point))) xsd_integer) (hl_events child),
     literal_quad (hl_id child) (holos ''branchedAtTime'') (new_typed_literal (i64_to_string at) xsd_integer) (hl_events child)]"

definition record_branch_point :: "'s storage_ops \<Rightarrow> holon \<Rightarrow> branch_point \<Rightarrow> int \<Rightarrow> 's \<Rightarrow> 's \<times> unit res" where
  "record_branch_point ops child point at st = insert_all ops (branch_quads child point at) st"

definition branch_child :: "holon \<Rightarrow> string \<Rightarrow> holon" where
  "branch_child source child_id = (holon_new child_id)\<lparr>hl_admission := hl_admission source, hl_projections := hl_projections source\<rparr>"

definition branch_body ::
  "'s storage_ops \<Rightarrow> 's scope_ops \<Rightarrow> holon \<Rightarrow> string \<Rightarrow> int \<Rightarrow> 's \<times> session \<Rightarrow> ('s \<times> session) \<times> holon hres" where
  "branch_body ops sc source child_id at c =
    (case version ops (fst c) source of
       Inl e \<Rightarrow> (c, Inl e)
     | Inr v \<Rightarrow>
         (let child = branch_child source child_id in
          bindr (on_store (copy_graph ops (hl_scene source) (hl_scene child)) c) (\<lambda>_ c.
          bindr (on_store (copy_graph ops (hl_boundary source) (hl_boundary child)) c) (\<lambda>_ c.
          bindr (register ops sc child c) (\<lambda>_ c.
          bindr (hon_store (set_version ops sc child v) c) (\<lambda>_ c.
          bindr (on_store (record_branch_point ops child \<lparr>bp_parent = hl_id source, bp_version = v\<rparr> at) c) (\<lambda>_ c.
            (c, Inr child))))))))"

definition branch ::
  "'s storage_ops \<Rightarrow> 's scope_ops \<Rightarrow> holon \<Rightarrow> string \<Rightarrow> int \<Rightarrow> 's \<times> session \<Rightarrow> ('s \<times> session) \<times> holon hres" where
  "branch ops sc source child_id at c =
    (case load ops (fst c) child_id of
       Inl e \<Rightarrow> (c, Inl e)
     | Inr (Some _) \<Rightarrow> (c, Inl (Invalid (''<'' @ child_id @ ''> is already registered; branching onto it would merge two scenes'')))
     | Inr None \<Rightarrow> commit_session sc (branch_body ops sc source child_id at) c)"

fun branch_scan :: "'s storage_ops \<Rightarrow> 's \<Rightarrow> quad_scan \<Rightarrow> string option \<Rightarrow> u64 option \<Rightarrow> (string option \<times> u64 option) res" where
  "branch_scan ops st [] parent v = Inr (parent, v)"
| "branch_scan ops st (Inl e # _) parent v = Inl e"
| "branch_scan ops st (Inr e # es) parent v =
    (case decode_quad ops st e of
       Inl err \<Rightarrow> Inl err
     | Inr q \<Rightarrow>
         if q_predicate q = holos ''branchedFrom'' then
           branch_scan ops st es (case q_object q of NamedNode n \<Rightarrow> Some n | _ \<Rightarrow> parent) v
         else if q_predicate q = holos ''branchedAtVersion'' then
           branch_scan ops st es parent (case q_object q of Literal l \<Rightarrow> parse_u64 (lit_value l) | _ \<Rightarrow> v)
         else branch_scan ops st es parent v)"

definition branch_point_of :: "'s storage_ops \<Rightarrow> 's \<Rightarrow> holon \<Rightarrow> (branch_point option) hres" where
  "branch_point_of ops st h =
    (case op_lookup ops st (NamedNode (hl_events h)) of
       Inl e \<Rightarrow> Inl (HolonStorage e)
     | Inr None \<Rightarrow> Inr None
     | Inr (Some events) \<Rightarrow>
         (case branch_scan ops st (op_scan ops st None None None (FilterNamed events)) None None of
            Inl e \<Rightarrow> Inl (HolonStorage e)
          | Inr (Some parent, Some v) \<Rightarrow> Inr (Some \<lparr>bp_parent = parent, bp_version = v\<rparr>)
          | Inr _ \<Rightarrow> Inr None))"

end
