(* ===== verification/Holon_Commit.thy ===== *)
theory Holon_Commit
  imports Holon_Ops
begin

text \<open>
  Atomicity of the holon operations. The locale \<open>commit_scopes\<close> states what a storage's commit scopes
  promise (what is reached inside a scope can be committed or rolled back to where the scope began);
  every operation of the crate keeps that invariant, whatever the validator, the rules, the policy or
  the data do, so an operation that fails outside a scope leaves no trace and one that runs inside a
  caller's scope leaves that caller's rollback intact. The in-memory tier interprets the locale.
\<close>

named_theorems scope_intros \<open>what keeps an invariant of the state\<close>

locale commit_scopes =
  fixes ops :: "'s storage_ops"
    and sc :: "'s scope_ops"
    and ready :: "'s \<Rightarrow> bool"
    and inside :: "'s \<Rightarrow> 's \<Rightarrow> bool"
    and seen :: "'s \<Rightarrow> 'v"
  assumes begin_inside: "ready st \<Longrightarrow> \<not> op_in_scope sc st \<Longrightarrow> \<exists>st'. op_begin sc st = (st', Inr ()) \<and> inside st st'"
    and inside_scope: "inside st0 st \<Longrightarrow> op_in_scope sc st"
    and encode_inside: "inside st0 st \<Longrightarrow> inside st0 (fst (op_encode ops t st))"
    and step_inside: "inside st0 st \<Longrightarrow> inside st0 (fst (op_step ops w st))"
    and commit_inside: "inside st0 st \<Longrightarrow> \<exists>st'. op_commit sc st = (st', Inr ()) \<and> ready st' \<and> \<not> op_in_scope sc st' \<and> seen st' = seen st"
    and rollback_inside: "inside st0 st \<Longrightarrow> ready (op_rollback sc st) \<and> \<not> op_in_scope sc (op_rollback sc st)
      \<and> seen (op_rollback sc st) = seen st0"
begin

lemma and_then_inside [scope_intros]:
  "inside st0 (fst r) \<Longrightarrow> (\<And>x st. inside st0 st \<Longrightarrow> inside st0 (fst (f x st))) \<Longrightarrow> inside st0 (fst (and_then r f))"
  by (auto simp: and_then_def split: prod.splits sum.splits)

lemma bindr_inside [scope_intros]:
  "inside st0 (fst (fst r)) \<Longrightarrow> (\<And>x c. inside st0 (fst c) \<Longrightarrow> inside st0 (fst (fst (f x c)))) \<Longrightarrow> inside st0 (fst (fst (bindr r f)))"
  by (auto simp: bindr_def split: prod.splits sum.splits)

lemma on_store_inside [scope_intros]:
  "inside st0 (fst (f (fst c))) \<Longrightarrow> inside st0 (fst (fst (on_store f c)))"
  "inside st0 (fst (g (fst c))) \<Longrightarrow> inside st0 (fst (fst (hon_store g c)))"
  "inside st0 (fst c) \<Longrightarrow> inside st0 (fst (fst (ask_policy ops c)))"
  by (simp_all add: on_store_def hon_store_def ask_policy_def)

lemma case_inside [scope_intros]:
  "inside st0 (fst r) \<Longrightarrow> (\<And>st e. inside st0 st \<Longrightarrow> inside st0 (fst (f st e))) \<Longrightarrow> (\<And>st x. inside st0 st \<Longrightarrow> inside st0 (fst (g st x)))
    \<Longrightarrow> inside st0 (fst (case r of (st, Inl e) \<Rightarrow> f st e | (st, Inr x) \<Rightarrow> g st x))"
  by (auto split: prod.splits sum.splits)

lemma read_inside [scope_intros]:
  "(\<And>e. inside st0 (fst (f e))) \<Longrightarrow> (\<And>x. inside st0 (fst (g x))) \<Longrightarrow> inside st0 (fst (case r of Inl e \<Rightarrow> f e | Inr x \<Rightarrow> g x))"
  "(\<And>e. inside st0 (fst (fst (h e)))) \<Longrightarrow> (\<And>x. inside st0 (fst (fst (k x)))) \<Longrightarrow> inside st0 (fst (fst (case r of Inl e \<Rightarrow> h e | Inr x \<Rightarrow> k x)))"
  by (auto split: sum.split)

lemma encode_quad_inside [scope_intros]: "inside st0 st \<Longrightarrow> inside st0 (fst (encode_quad ops q st))"
  unfolding encode_quad_def
  by (cases "graph_term (q_graph q)") (auto intro!: and_then_inside encode_inside)

lemma write_inside [scope_intros]:
  "inside st0 st \<Longrightarrow> inside st0 (fst (op_insert_encoded ops e st))"
  "inside st0 st \<Longrightarrow> inside st0 (fst (op_remove_encoded ops e st))"
  "inside st0 st \<Longrightarrow> inside st0 (fst (op_insert_named_graph ops g st))"
  using step_inside [of st0 st "InsertQuad e"] step_inside [of st0 st "RemoveQuad e"] step_inside [of st0 st "CreateGraph g"] by simp_all

lemma store_inside [scope_intros]:
  "inside st0 st \<Longrightarrow> inside st0 (fst (store_insert ops q st))"
  "inside st0 st \<Longrightarrow> inside st0 (fst (store_remove ops q st))"
  "inside st0 st \<Longrightarrow> inside st0 (fst (store_insert_named_graph ops g st))"
  unfolding store_insert_def store_remove_def store_insert_named_graph_def
  by (auto intro!: scope_intros encode_inside split: sum.split option.split)

lemma insert_all_inside [scope_intros]: "inside st0 st \<Longrightarrow> inside st0 (fst (insert_all ops qs st))"
  by (induction qs arbitrary: st) (auto intro!: and_then_inside store_inside)

lemma undo_loop_inside: "inside st0 st \<Longrightarrow> inside st0 (fst (undo_loop ops as st))"
proof (induction as arbitrary: st)
  case (Cons a as)
  obtain op t e where a: "a = (op, t, e)" by (cases a)
  show ?case using Cons by (cases op) (auto simp: a intro!: and_then_inside write_inside)
qed simp

lemma undo_inside [scope_intros]: "inside st0 st \<Longrightarrow> inside st0 (fst (undo_applied ops as st))"
  by (simp add: undo_applied_def undo_loop_inside)

lemma copy_graph_inside [scope_intros]: "inside st0 st \<Longrightarrow> inside st0 (fst (copy_graph ops from to st))"
  unfolding copy_graph_def by (auto intro!: scope_intros split: sum.split option.split)

lemma joined: "inside st0 st \<Longrightarrow> begin_commit sc st = (st, Inr False)"
  using inside_scope by (simp add: begin_commit_def)

lemma in_commit_joined:
  assumes c: "inside st0 (get c)" and put: "\<And>c. put (get c) c = c"
    and body: "\<And>c. inside st0 (get c) \<Longrightarrow> inside st0 (get (fst (body c)))"
  shows "inside st0 (get (fst (in_commit sc get put body c)))"
proof -
  have "in_commit sc get put body c = body c"
    by (cases "body c") (simp add: in_commit_def joined [OF c] end_commit_def put)
  then show ?thesis using body [OF c] by simp
qed

lemma set_version_body_inside: "inside st0 s \<Longrightarrow> inside st0 (fst (set_version_body ops h v s))"
  unfolding set_version_body_def Let_def by (auto intro!: scope_intros)

lemma set_version_inside [scope_intros]: "inside st0 st \<Longrightarrow> inside st0 (fst (set_version ops sc h v st))"
  unfolding set_version_def commit_store_def
  by (rule in_commit_joined [where get = "\<lambda>s. s" and put = "\<lambda>s c. s"]) (simp_all add: set_version_body_inside)

lemma register_loop_inside: "inside st0 (fst c) \<Longrightarrow> inside st0 (fst (fst (register_loop ops qs c)))"
  by (induction qs arbitrary: c) (auto intro!: scope_intros)

lemma apply_inside [scope_intros]:
  "inside st0 (fst c) \<Longrightarrow> inside st0 (fst (fst (apply_added ops scene ts as c)))"
  "inside st0 (fst c) \<Longrightarrow> inside st0 (fst (fst (apply_removed ops scene ts as c)))"
  by (induction ts arbitrary: as c) (auto intro!: bindr_inside on_store_inside encode_quad_inside write_inside store_inside)

lemma apply_delta_inside: "inside st0 (fst c) \<Longrightarrow> inside st0 (fst (fst (apply_delta ops g d c)))"
  unfolding apply_delta_def by (intro bindr_inside apply_inside)

lemma register_inside [scope_intros]: "inside st0 (fst c) \<Longrightarrow> inside st0 (fst (fst (register ops sc h c)))"
  unfolding register_def commit_session_def register_body_def
  by (rule in_commit_joined [where get = fst and put = "\<lambda>s c. (s, snd c)"]) (simp_all add: register_loop_inside)

lemma tick_finish_inside: "inside st0 (fst c) \<Longrightarrow> inside st0 (fst (fst (tick_finish V ops sc h at v as c)))"
  unfolding tick_finish_def Let_def
  by (intro read_inside) (auto intro!: bindr_inside on_store_inside undo_inside insert_all_inside set_version_inside)

lemma fire_rules_inside: "inside st0 (fst c) \<Longrightarrow> inside st0 (fst (fst (snd (fire_rules R ops h as rules c))))"
  by (auto simp: fire_rules_def apply_inside split: option.split prod.split sum.split)

lemma with_rules_inside:
  "inside st0 (fst (fst r)) \<Longrightarrow> (\<And>c e. inside st0 (fst c) \<Longrightarrow> inside st0 (fst (fst (snd (f c e)))))
    \<Longrightarrow> (\<And>c x. inside st0 (fst c) \<Longrightarrow> inside st0 (fst (fst (snd (g c x)))))
    \<Longrightarrow> inside st0 (fst (fst (snd (case r of (c, Inl e) \<Rightarrow> f c e | (c, Inr x) \<Rightarrow> g c x))))"
  "inside st0 (fst (fst (snd t))) \<Longrightarrow> (\<And>ru c e. inside st0 (fst c) \<Longrightarrow> inside st0 (fst (fst (snd (f' ru c e)))))
    \<Longrightarrow> (\<And>ru c x. inside st0 (fst c) \<Longrightarrow> inside st0 (fst (fst (snd (g' ru c x)))))
    \<Longrightarrow> inside st0 (fst (fst (snd (case t of (ru, c, Inl e) \<Rightarrow> f' ru c e | (ru, c, Inr x) \<Rightarrow> g' ru c x))))"
  by (auto split: prod.splits sum.splits)

lemma tick_steps_inside: "inside st0 (fst c) \<Longrightarrow> inside st0 (fst (fst (snd (tick_steps V R ops sc h at d v rules c))))"
  unfolding tick_steps_def
  by (intro with_rules_inside apply_delta_inside fire_rules_inside) (simp_all add: tick_finish_inside)

lemma tick_body_inside: "inside st0 (fst c) \<Longrightarrow> inside st0 (fst (fst (snd (tick_body V R ops sc h at d rules c))))"
  unfolding tick_body_def by (simp add: tick_steps_inside split: option.split sum.split)

lemma branch_body_inside: "inside st0 (fst c) \<Longrightarrow> inside st0 (fst (fst (branch_body ops sc source i at c)))"
  unfolding branch_body_def Let_def record_branch_point_def
  by (intro read_inside) (auto intro!: bindr_inside on_store_inside copy_graph_inside insert_all_inside set_version_inside register_inside)

text \<open>Closing a scope of one's own: the body's changes stand, or nothing has happened.\<close>

definition closed_at :: "'s \<Rightarrow> 's \<Rightarrow> bool" where
  "closed_at st0 st \<longleftrightarrow> ready st \<and> \<not> op_in_scope sc st \<and> seen st = seen st0"

lemma begin_owned:
  assumes "ready st" "\<not> op_in_scope sc st"
  obtains st1 where "op_begin sc st = (st1, Inr ())" "begin_commit sc st = (st1, Inr True)" "inside st st1"
  using begin_inside [OF assms] assms(2) by (auto simp: begin_commit_def)

lemma end_owned:
  assumes "inside st0 st"
  shows "\<exists>st1. end_commit sc True kept st = (st1, Inr ()) \<and> closed_at (if kept then st else st0) st1"
  using commit_inside [OF assms] rollback_inside [OF assms] by (cases kept) (auto simp: end_commit_def closed_at_def from_store_def)

text \<open>An operation outside every scope commits what its body did, or leaves nothing behind.\<close>

lemma in_commit_owned:
  fixes body :: "'c \<Rightarrow> 'c \<times> 'x hres"
  assumes c: "ready (get c)" "\<not> op_in_scope sc (get c)" and put: "\<And>s c. get (put s c) = s"
    and body: "\<And>c. inside (get c0) (get c) \<Longrightarrow> inside (get c0) (get (fst (body c)))" and c0: "c0 = c"
  shows "case in_commit sc get put body c of
      (c', Inl e) \<Rightarrow> closed_at (get c) (get c')
    | (c', Inr x) \<Rightarrow> ready (get c') \<and> \<not> op_in_scope sc (get c')
        \<and> (\<exists>st1 c1. op_begin sc (get c) = (st1, Inr ()) \<and> body (put st1 c) = (c1, Inr x) \<and> seen (get c') = seen (get c1))"
proof -
  obtain st1 where st1: "op_begin sc (get c) = (st1, Inr ())" "inside (get c) st1" using begin_inside [OF c] by blast
  then have b: "(begin_commit sc (get c) :: 's \<times> bool hres) = (st1, Inr True)" using c(2) by (simp add: begin_commit_def)
  obtain c1 r where r: "body (put st1 c) = (c1, r)" by (cases "body (put st1 c)")
  have i: "inside (get c) (get c1)" using body [of "put st1 c"] st1(2) r c0 by (simp add: put)
  have e: "\<exists>st2. (end_commit sc True (\<not> isl r) (get c1) :: 's \<times> unit hres) = (st2, Inr ()) \<and> closed_at (if isl r then get c else get c1) st2"
    using end_owned [OF i, of "\<not> isl r"] by (simp split: if_splits)
  show ?thesis using e st1(1) r b by (cases r) (auto simp: in_commit_def closed_at_def put)
qed

lemma tick_owned:
  fixes V :: "('s, 'shapes, 'report) shacl_lib"
  assumes c: "ready (fst c)" "\<not> op_in_scope sc (fst c)"
  shows "case (tick_with_rules V R ops sc h at d rules c :: 'run rules option \<times> ('s \<times> session) \<times> ('report tick_outcome) hres) of
      (ru, c', Inl e) \<Rightarrow> closed_at (fst c) (fst c')
    | (ru, c', Inr t) \<Rightarrow> ready (fst c') \<and> \<not> op_in_scope sc (fst c')
        \<and> (\<exists>st1 ru1 c1. op_begin sc (fst c) = (st1, Inr ()) \<and> tick_body V R ops sc h at d rules (st1, snd c) = (ru1, c1, Inr t :: ('report tick_outcome) hres)
            \<and> seen (fst c') = seen (fst c1))"
proof -
  obtain st1 where st1: "op_begin sc (fst c) = (st1, Inr ())" "inside (fst c) st1" using begin_inside [OF c] by blast
  then have b: "(begin_commit sc (fst c) :: 's \<times> bool hres) = (st1, Inr True)" using c(2) by (simp add: begin_commit_def)
  obtain ru1 c1 and r :: "('report tick_outcome) hres" where r: "tick_body V R ops sc h at d rules (st1, snd c) = (ru1, c1, r)"
    by (rule prod_cases3)
  have i: "inside (fst c) (fst c1)" using tick_body_inside [of "fst c" "(st1, snd c)" V R h at d rules] st1(2) r
    by (metis fst_conv snd_conv)
  have e: "\<exists>st2. (end_commit sc True (\<not> isl r) (fst c1) :: 's \<times> unit hres) = (st2, Inr ()) \<and> closed_at (if isl r then fst c else fst c1) st2"
    using end_owned [OF i, of "\<not> isl r"] by (simp split: if_splits)
  show ?thesis using e st1(1) r b by (cases r; cases c1) (auto simp: tick_with_rules_def closed_at_def)
qed

text \<open>The operations on a store and a session, each as a whole.\<close>

lemma session_op_owned:
  fixes body :: "'s \<times> session \<Rightarrow> ('s \<times> session) \<times> 'x hres"
  assumes c: "ready (fst c)" "\<not> op_in_scope sc (fst c)"
    and body: "\<And>c'. inside (fst c) (fst c') \<Longrightarrow> inside (fst c) (fst (fst (body c')))" and r: "commit_session sc body c = (c', r)"
  shows "if isl r then closed_at (fst c) (fst c') else ready (fst c') \<and> \<not> op_in_scope sc (fst c')"
  using in_commit_owned [where get = fst and put = "\<lambda>s c. (s, snd c)" and body = body and c = c, OF c _ body refl] r
  by (cases r) (auto simp: commit_session_def)

lemma register_owned:
  assumes "ready (fst c)" "\<not> op_in_scope sc (fst c)" "register ops sc h c = (c', r)"
  shows "if isl r then closed_at (fst c) (fst c') else ready (fst c') \<and> \<not> op_in_scope sc (fst c')"
  using assms(3) unfolding register_def
  by (rule session_op_owned [OF assms(1,2), rotated]) (simp add: register_body_def register_loop_inside)

lemma branch_owned:
  assumes "ready (fst c)" "\<not> op_in_scope sc (fst c)" "branch ops sc source i at c = (c', r)"
  shows "if isl r then closed_at (fst c) (fst c') else ready (fst c') \<and> \<not> op_in_scope sc (fst c')"
proof -
  have "closed_at (fst c) (fst c)" using assms(1,2) by (simp add: closed_at_def)
  moreover have "if isl r then closed_at (fst c) (fst c') else ready (fst c') \<and> \<not> op_in_scope sc (fst c')"
    if "commit_session sc (branch_body ops sc source i at) c = (c', r)"
    by (rule session_op_owned [OF assms(1,2) _ that]) (simp add: branch_body_inside)
  ultimately show ?thesis using assms(3) by (auto simp: branch_def split: sum.splits option.splits)
qed

lemma set_version_owned:
  fixes r :: "unit hres"
  assumes "ready st" "\<not> op_in_scope sc st" "set_version ops sc h v st = (st', r)"
  shows "if isl r then closed_at st st' else ready st' \<and> \<not> op_in_scope sc st'"
  using in_commit_owned [where get = "\<lambda>s. s" and put = "\<lambda>s c. s" and body = "set_version_body ops h v :: 's \<Rightarrow> 's \<times> unit hres" and c = st,
      OF assms(1,2) _ set_version_body_inside refl] assms(3)
  by (cases r) (auto simp: set_version_def commit_store_def)

lemma tick_owned_closed:
  fixes r :: "('report tick_outcome) hres"
  assumes "ready (fst c)" "\<not> op_in_scope sc (fst c)" "tick_with_rules V R ops sc h at d rules c = (ru, c', r)"
  shows "if isl r then closed_at (fst c) (fst c') else ready (fst c') \<and> \<not> op_in_scope sc (fst c')"
  using tick_owned [OF assms(1,2), of V R h at d rules] assms(3) by (cases r) auto

text \<open>Inside a caller's scope every operation stays inside it: the caller's rollback still restores everything.\<close>

lemma tick_joined: "inside st0 (fst c) \<Longrightarrow> inside st0 (fst (fst (snd (tick_with_rules V R ops sc h at d rules c))))"
  unfolding tick_with_rules_def joined using tick_body_inside [of st0 c V R h at d rules]
  by (simp add: joined end_commit_def case_prod_beta split: sum.split)

lemma branch_joined: "inside st0 (fst c) \<Longrightarrow> inside st0 (fst (fst (branch ops sc source i at c)))"
  unfolding branch_def commit_session_def
  by (auto split: sum.split option.split intro!: in_commit_joined [where get = fst and put = "\<lambda>s c. (s, snd c)"] branch_body_inside)

end

section \<open>The in-memory tier\<close>

lemma journal_view_encode: "journal_view st0 st \<Longrightarrow> journal_view st0 (fst (mem_encode X t st))"
  by (auto simp: journal_view_def mem_encode_def mem_index_ok_def mem_view_def split: prod.split)

lemma journal_index:
  "journal_view st0 st \<Longrightarrow> mem_index_ok st0 \<Longrightarrow> ms_index (mem_rollback st) = ms_index st0"
  using rollback_view [of st0 st] view_determines_index by blast

definition scope_of :: "memory_storage \<Rightarrow> memory_storage \<Rightarrow> bool" where
  "scope_of st0 st \<longleftrightarrow> mem_index_ok st0 \<and> journal_view st0 st"

interpretation mscope: commit_scopes "memory_ops X" memory_scope mem_index_ok scope_of "\<lambda>st. (ms_index st, generation st)" for X
proof
  fix st0 st w t
  show "scope_of st0 st \<Longrightarrow> op_in_scope memory_scope st"
    by (auto simp: memory_scope_def scope_of_def journal_view_def mem_in_scope_def)
  show "scope_of st0 st \<Longrightarrow> scope_of st0 (fst (op_encode (memory_ops X) t st))"
    by (simp add: memory_ops_def scope_of_def journal_view_encode)
  show "scope_of st0 st \<Longrightarrow> scope_of st0 (fst (op_step (memory_ops X) w st))"
    by (simp add: op_step_memory scope_of_def journal_view_step)
  show "mem_index_ok st \<Longrightarrow> \<not> op_in_scope memory_scope st \<Longrightarrow> \<exists>st'. op_begin memory_scope st = (st', Inr ()) \<and> scope_of st st'"
    using journal_view_begin [of st] by (simp add: memory_scope_def mem_in_scope_def mem_begin_def scope_of_def)
  show "scope_of st0 st \<Longrightarrow> \<exists>st'. op_commit memory_scope st = (st', Inr ()) \<and> mem_index_ok st' \<and> \<not> op_in_scope memory_scope st'
      \<and> (ms_index st', generation st') = (ms_index st, generation st)"
    by (auto simp: memory_scope_def mem_commit_def mem_in_scope_def scope_of_def journal_view_def mem_index_ok_def)
  show "scope_of st0 st \<Longrightarrow> mem_index_ok (op_rollback memory_scope st) \<and> \<not> op_in_scope memory_scope (op_rollback memory_scope st)
      \<and> (ms_index (op_rollback memory_scope st), generation (op_rollback memory_scope st)) = (ms_index st0, generation st0)"
    using rollback_view [of st0 st] journal_index [of st0 st] by (simp add: memory_scope_def scope_of_def mem_in_scope_def)
qed

definition untouched :: "memory_storage \<Rightarrow> memory_storage \<Rightarrow> bool" where
  "untouched st st' \<longleftrightarrow> ms_index st' = ms_index st \<and> generation st' = generation st \<and> \<not> mem_in_scope st'"

lemma closed_untouched: "mscope.closed_at st0 st \<Longrightarrow> untouched st0 st"
  unfolding mscope.closed_at_def by (simp add: untouched_def memory_scope_def)

definition all_or_nothing :: "memory_storage \<Rightarrow> memory_storage \<Rightarrow> 'e + 'a \<Rightarrow> bool" where
  "all_or_nothing st st' r \<longleftrightarrow> \<not> mem_in_scope st' \<and> (isl r \<longrightarrow> untouched st st')"

lemma closes_of_owned:
  "(if isl r then mscope.closed_at st s else mem_index_ok s \<and> \<not> op_in_scope memory_scope s) \<Longrightarrow> all_or_nothing st s r"
  using closed_untouched [of st s] by (auto simp: all_or_nothing_def memory_scope_def untouched_def split: if_splits)

lemma scope_rollback: "scope_of st st' \<Longrightarrow> untouched st (mem_rollback st')"
  using mscope.rollback_inside [of st st'] by (simp add: untouched_def memory_scope_def)

text \<open>
  C12. Registering a holon, branching one, setting its version and ticking it are all or nothing. Outside
  every commit scope, whichever error any of them returns, from the storage, the validator, the rules or
  the policy, and at whatever point, the index is the same in all nine orders, the generation is
  the same and no scope is left open; a success leaves no scope open either. Inside a caller's scope the
  caller's rollback still restores the store to where that scope began, whatever the tick did.
\<close>

theorem holon_operations_atomic:
  fixes V :: "(memory_storage, 'shapes, 'report) shacl_lib" and R :: "(memory_storage, 'run) rule_lib"
  assumes "mem_index_ok st" "\<not> mem_in_scope st"
  shows "(case (register (memory_ops X) memory_scope h (st, se) :: (memory_storage \<times> session) \<times> unit hres) of (c', r) \<Rightarrow> all_or_nothing st (fst c') r)
    \<and> (case (branch (memory_ops X) memory_scope h i at (st, se) :: (memory_storage \<times> session) \<times> holon hres) of (c', r) \<Rightarrow> all_or_nothing st (fst c') r)
    \<and> (case (set_version (memory_ops X) memory_scope h v st :: memory_storage \<times> unit hres) of (st', r) \<Rightarrow> all_or_nothing st st' r)
    \<and> (case (tick_with_rules V R (memory_ops X) memory_scope h at d rules (st, se) :: 'run rules option \<times> (memory_storage \<times> session) \<times> ('report tick_outcome) hres) of (ru, c', r) \<Rightarrow> all_or_nothing st (fst c') r)
    \<and> (case (tick_with_rules V R (memory_ops X) memory_scope h at d rules (fst (mem_begin st), se) :: 'run rules option \<times> (memory_storage \<times> session) \<times> ('report tick_outcome) hres) of
        (ru, c', r) \<Rightarrow> untouched st (mem_rollback (fst c')))"
proof (intro conjI)
  have c: "mem_index_ok (fst (st, se))" "\<not> op_in_scope memory_scope (fst (st, se))" using assms by (simp_all add: memory_scope_def)
  show "case (register (memory_ops X) memory_scope h (st, se) :: (memory_storage \<times> session) \<times> unit hres) of (c', r) \<Rightarrow> all_or_nothing st (fst c') r"
    unfolding case_prod_beta by (rule closes_of_owned, rule mscope.register_owned [OF c, unfolded fst_conv, of X]) simp
  show "case (branch (memory_ops X) memory_scope h i at (st, se) :: (memory_storage \<times> session) \<times> holon hres) of (c', r) \<Rightarrow> all_or_nothing st (fst c') r"
    unfolding case_prod_beta by (rule closes_of_owned, rule mscope.branch_owned [OF c, unfolded fst_conv, of X]) simp
  show "case (set_version (memory_ops X) memory_scope h v st :: memory_storage \<times> unit hres) of (st', r) \<Rightarrow> all_or_nothing st st' r"
    unfolding case_prod_beta by (rule closes_of_owned, rule mscope.set_version_owned [OF c [unfolded fst_conv], of X]) simp
  show "case (tick_with_rules V R (memory_ops X) memory_scope h at d rules (st, se) :: 'run rules option \<times> (memory_storage \<times> session) \<times> ('report tick_outcome) hres) of (ru, c', r) \<Rightarrow> all_or_nothing st (fst c') r"
    unfolding case_prod_beta by (rule closes_of_owned, rule mscope.tick_owned_closed [OF c, unfolded fst_conv, of V R X]) (simp add: prod_eq_iff)
  have "scope_of st (fst (mem_begin st))" using journal_view_begin [of st] assms(1,2) by (simp add: scope_of_def mem_in_scope_def)
  then show "case (tick_with_rules V R (memory_ops X) memory_scope h at d rules (fst (mem_begin st), se) :: 'run rules option \<times> (memory_storage \<times> session) \<times> ('report tick_outcome) hres) of
      (ru, c', r) \<Rightarrow> untouched st (mem_rollback (fst c'))"
    using mscope.tick_joined [of st "(fst (mem_begin st), se)" V R X h at d rules] scope_rollback [of st]
    by (simp add: case_prod_beta)
qed

text \<open>A validator that finds a fixed number of violations, and rules that infer fixed triples: enough to run a tick.\<close>

definition fixed_shacl :: "nat \<Rightarrow> ('s, unit, nat) shacl_lib" where
  "fixed_shacl n = \<lparr>sh_compile = \<lambda>st d s. Inr (), sh_shapes_empty = \<lambda>_. False, sh_revalidate = \<lambda>_ _ _. Inr n, sh_results_len = \<lambda>n. n\<rparr>"

definition fixed_rules :: "triple list \<Rightarrow> ('s, unit) rule_lib" where
  "fixed_rules ts = \<lparr>rl_prepare = \<lambda>_ _ _. Inr (), rl_checkpoint = \<lambda>r. r, rl_apply = \<lambda>_ _ r. (r, Inr ()), rl_infer = \<lambda>_ r. (r, Inr ts),
    rl_accept = \<lambda>r. r, rl_revert = \<lambda>_ r. r\<rparr>"

definition closed_session :: session where
  "closed_session = \<lparr>se_principal = anonymous, se_policy = default_policy, se_compiled = uncompiled 0 default_policy anonymous\<rparr>"

definition maintained_holon :: holon where
  "maintained_holon = (holon_new ''urn:h'')\<lparr>hl_projections := [\<lparr>prj_id = ''urn:p'', prj_query = ''ASK {}'', prj_regime = Maintained\<rparr>]\<rparr>"

theorem holon_operations_atomic_witness:
  "case tick_with_rules (fixed_shacl 1) (fixed_rules []) (memory_ops demo_lib) memory_scope maintained_holon 0 (delta_adding []) None (store_new, closed_session) of
    (ru, c', r) \<Rightarrow> r = (Inl (UnsupportedRegime ''urn:p'') :: nat tick_outcome hres) \<and> untouched store_new (fst c')"
proof -
  let ?t = "tick_with_rules (fixed_shacl 1) (fixed_rules []) (memory_ops demo_lib) memory_scope maintained_holon 0 (delta_adding []) None (store_new, closed_session)
    :: unit rules option \<times> (memory_storage \<times> session) \<times> nat tick_outcome hres"
  have st: "mem_index_ok store_new" "\<not> mem_in_scope store_new" using mem_ok_new by (simp_all add: store_new_def mem_ok_def mem_in_scope_def new_memory_def)
  have r: "snd (snd ?t) = Inl (UnsupportedRegime ''urn:p'')"
    by (simp add: tick_with_rules_def begin_commit_def memory_scope_def mem_in_scope_def store_new_def new_memory_def mem_begin_def
        tick_body_def maintained_holon_def end_commit_def)
  show ?thesis
    using holon_operations_atomic [OF st, where X = demo_lib and V = "fixed_shacl 1" and R = "fixed_rules []" and h = maintained_holon
        and se = closed_session and at = 0 and d = "delta_adding []" and rules = None] r
    by (simp add: case_prod_beta all_or_nothing_def)
qed

end
