(* ===== verification/Holon_Tick.thy ===== *)
theory Holon_Tick
  imports Holon_Commit
begin

text \<open>
  What a tick does, at the level of RDF: the scene becomes what the delta specifies, or stays what it
  was; the event log gains the record of the attempt and the version moves on. The locale
  \<open>holon_store\<close> joins the contracts of a growing storage and of its commit scopes; the lemmas about
  ticks, registration and branches are proved in it and the in-memory tier interprets it.
\<close>

section \<open>What a delta does to a set of quads\<close>

type_synonym tick_changes = "(operation \<times> triple) list"

fun eff_added :: "string \<Rightarrow> triple list \<Rightarrow> quad set \<Rightarrow> tick_changes" where
  "eff_added g [] Q = []"
| "eff_added g (t # ts) Q = (if into_scene t g \<in> Q then [] else [(OpAdded, t)]) @ eff_added g ts (insert (into_scene t g) Q)"

fun eff_removed :: "string \<Rightarrow> triple list \<Rightarrow> quad set \<Rightarrow> tick_changes" where
  "eff_removed g [] Q = []"
| "eff_removed g (t # ts) Q = (if into_scene t g \<in> Q then [(OpRemoved, t)] else []) @ eff_removed g ts (Q - {into_scene t g})"

definition into :: "string \<Rightarrow> triple list \<Rightarrow> quad set" where
  "into g ts = (\<lambda>t. into_scene t g) ` set ts"

text \<open>The changes of a tick that infers the triples \<open>more_ts\<close>, and the scene it leaves.\<close>

definition delta_changes :: "string \<Rightarrow> delta \<Rightarrow> triple list \<Rightarrow> quad set \<Rightarrow> tick_changes" where
  "delta_changes g d more_ts Q =
    eff_added g (dl_added d) Q @ eff_removed g (dl_removed d) (Q \<union> into g (dl_added d))
    @ eff_added g more_ts ((Q \<union> into g (dl_added d)) - into g (dl_removed d))"

definition delta_result :: "string \<Rightarrow> delta \<Rightarrow> triple list \<Rightarrow> quad set \<Rightarrow> quad set" where
  "delta_result g d more_ts Q = ((Q \<union> into g (dl_added d)) - into g (dl_removed d)) \<union> into g more_ts"

fun unapply :: "string \<Rightarrow> tick_changes \<Rightarrow> quad set \<Rightarrow> quad set" where
  "unapply g [] Q = Q"
| "unapply g ((op, t) # cs) Q = (let Q' = unapply g cs Q in case op of OpAdded \<Rightarrow> Q' - {into_scene t g} | OpRemoved \<Rightarrow> insert (into_scene t g) Q')"

lemma into_simps [simp]: "into g [] = {}" "into g (t # ts) = insert (into_scene t g) (into g ts)"
  by (simp_all add: into_def)

lemma unapply_append: "unapply g (as @ bs) Q = unapply g as (unapply g bs Q)"
  by (induction as) (auto simp: Let_def split: operation.split)

lemma unapply_added: "unapply g (eff_added g ts Q) (Q \<union> into g ts) = Q"
proof (induction ts arbitrary: Q)
  case (Cons t ts)
  have "Q \<union> into g (t # ts) = insert (into_scene t g) Q \<union> into g ts" by auto
  then show ?case unfolding eff_added.simps unapply_append by (simp only: Cons.IH) (auto simp: Let_def)
qed simp

lemma unapply_removed: "unapply g (eff_removed g ts Q) (Q - into g ts) = Q"
proof (induction ts arbitrary: Q)
  case (Cons t ts)
  have "Q - into g (t # ts) = (Q - {into_scene t g}) - into g ts" by auto
  then show ?case unfolding eff_removed.simps unapply_append by (simp only: Cons.IH) (auto simp: Let_def)
qed simp

text \<open>Undoing the changes of a tick in reverse gives back the quads the tick began with.\<close>

lemma unapply_delta: "unapply g (delta_changes g d more_ts Q) (delta_result g d more_ts Q) = Q"
  unfolding delta_changes_def delta_result_def unapply_append unapply_added unapply_removed by (rule refl)

lemma eff_mem: "(op, t) \<in> set (eff_added g ts Q) \<Longrightarrow> t \<in> set ts" "(op, t) \<in> set (eff_removed g ts Q) \<Longrightarrow> t \<in> set ts"
  by (induction ts arbitrary: Q) (auto split: if_splits)

fun eff_loop :: "(triple \<Rightarrow> quad set \<Rightarrow> tick_changes) \<Rightarrow> (triple \<Rightarrow> quad set \<Rightarrow> quad set) \<Rightarrow> triple list \<Rightarrow> quad set \<Rightarrow> tick_changes" where
  "eff_loop ch upd [] Q = []"
| "eff_loop ch upd (t # ts) Q = ch t Q @ eff_loop ch upd ts (upd t Q)"

lemma eff_loops:
  "eff_loop (\<lambda>t Q. if into_scene t g \<in> Q then [] else [(OpAdded, t)]) (\<lambda>t. insert (into_scene t g)) ts Q = eff_added g ts Q"
  "eff_loop (\<lambda>t Q. if into_scene t g \<in> Q then [(OpRemoved, t)] else []) (\<lambda>t Q. Q - {into_scene t g}) ts Q = eff_removed g ts Q"
  "fold (\<lambda>t. insert (into_scene t g)) ts Q = Q \<union> into g ts" "fold (\<lambda>t Q. Q - {into_scene t g}) ts Q = Q - into g ts"
  by (induction ts arbitrary: Q) auto

definition ts_cost :: "triple list \<Rightarrow> nat" where
  "ts_cost ts = sum_list (map (\<lambda>t. 3 + term_cost (tr_object t)) ts)"

definition strip :: "applied \<Rightarrow> tick_changes" where
  "strip as = map (\<lambda>(op, t, _). (op, t)) as"

lemma strip_append [simp]: "strip [] = []" "strip (as @ bs) = strip as @ strip bs" "strip [(op, t, e)] = [(op, t)]" "length (strip as) = length as"
  by (simp_all add: strip_def)

lemma into_scene_cost [simp]: "quad_cost (into_scene t g) = 3 + term_cost (tr_object t)"
  by (simp add: quad_cost_def into_scene_def)

definition changes_cost :: "tick_changes \<Rightarrow> nat" where
  "changes_cost cs = ts_cost (map snd cs)"

lemma ts_cost_simps [simp]: "ts_cost [] = 0" "ts_cost (t # ts) = 3 + term_cost (tr_object t) + ts_cost ts" "ts_cost (ts @ us) = ts_cost ts + ts_cost us"
  by (simp_all add: ts_cost_def)

lemma eff_cost: "changes_cost (eff_added g ts Q) \<le> ts_cost ts" "changes_cost (eff_removed g ts Q) \<le> ts_cost ts"
  by (induction ts arbitrary: Q) (auto simp: changes_cost_def intro: order.trans [OF _ le_add2])

lemma delta_cost: "changes_cost (delta_changes g d more_ts Q) \<le> ts_cost (dl_added d) + ts_cost (dl_removed d) + ts_cost more_ts"
  using eff_cost(1) [of g "dl_added d" Q] eff_cost(2) [of g "dl_removed d" "Q \<union> into g (dl_added d)"]
    eff_cost(1) [of g more_ts "(Q \<union> into g (dl_added d)) - into g (dl_removed d)"]
  by (simp add: delta_changes_def changes_cost_def)

lemma term_cost_pos: "1 \<le> term_cost t"
  by (induction t) auto

lemma tick_quads_cost: "sum_list (map quad_cost (tick_quads r)) \<le> 36"
  by (simp add: tick_quads_def Let_def say_def quad_cost_def split: option.split)

lemma change_quads_cost: "sum_list (map quad_cost (change_quads r i ch)) \<le> 4 * (3 + term_cost (tr_object (snd ch)))"
  using term_cost_pos [of "tr_object (snd ch)"] by (simp add: change_quads_def Let_def say_def quad_cost_def)

lemma event_cost: "sum_list (map quad_cost (event_to_quads r)) \<le> 36 + 4 * changes_cost (tk_changes r)"
proof -
  have "sum_list (map quad_cost (concat (map (\<lambda>p. change_quads r (fst p) (snd p)) (enumerate n cs)))) \<le> 4 * changes_cost cs" for n cs
  proof (induction cs arbitrary: n)
    case (Cons c cs)
    show ?case using change_quads_cost [of r n c] Cons [of "Suc n"] by (simp add: changes_cost_def)
  qed simp
  then show ?thesis using tick_quads_cost [of r] add_mono by (fastforce simp: event_to_quads_def)
qed

text \<open>What the system graph says of a subject.\<close>

definition objects :: "quad set \<Rightarrow> string \<Rightarrow> string \<Rightarrow> string \<Rightarrow> rdf_term set" where
  "objects Q s p g = q_object ` {q \<in> Q. q_subject q = NodeNamed s \<and> q_predicate q = p \<and> q_graph q = GraphNamed g}"

lemma objects_insert:
  "objects (insert q Q) s p g = (if q_subject q = NodeNamed s \<and> q_predicate q = p \<and> q_graph q = GraphNamed g then {q_object q} else {}) \<union> objects Q s p g"
  by (auto simp: objects_def)

lemma objects_other:
  assumes "\<forall>q\<in>D. q_graph q \<noteq> GraphNamed g"
  shows "objects (Q \<union> D) s p g = objects Q s p g" "objects (Q - D) s p g = objects Q s p g"
  using assms by (auto simp: objects_def)

definition version_is :: "quad set \<Rightarrow> holon \<Rightarrow> u64 \<Rightarrow> bool" where
  "version_is Q h v \<longleftrightarrow> objects Q (hl_id h) (holos ''version'') system_graph
    = (if v = 0 then {} else {Literal (new_typed_literal (show_nat (unat v)) xsd_integer)})"

text \<open>The quads a tick leaves, given what the rules inferred and what the validator found.\<close>

definition tick_result :: "holon \<Rightarrow> delta \<Rightarrow> triple list \<Rightarrow> u64 \<Rightarrow> u64 \<Rightarrow> int \<Rightarrow> string \<Rightarrow> bool \<Rightarrow> nat \<Rightarrow> quad set \<Rightarrow> quad set" where
  "tick_result h d more_ts v w at p adm n Q =
    insert (version_quad h w)
      (((if adm then delta_result (hl_scene h) d more_ts Q else Q)
        \<union> set (event_to_quads \<lparr>tk_holon = h, tk_version = w, tk_at = at, tk_principal = p, tk_changes = delta_changes (hl_scene h) d more_ts Q,
            tk_admitted = adm, tk_violations = n\<rparr>))
       - {version_quad h v})"

definition rules_bounded :: "('s, 'run) rule_lib \<Rightarrow> nat \<Rightarrow> bool" where
  "rules_bounded R N \<longleftrightarrow> (\<forall>run run' ts. rl_infer R MAX_ROUNDS run = (run', Inr ts) \<longrightarrow> (\<forall>t\<in>set ts. wf_triple t) \<and> ts_cost ts \<le> N)"

definition wf_delta :: "delta \<Rightarrow> bool" where
  "wf_delta d \<longleftrightarrow> (\<forall>t\<in>set (dl_added d) \<union> set (dl_removed d). wf_triple t)"

lemma into_graph: "q \<in> into g ts \<Longrightarrow> q_graph q = GraphNamed g"
  by (auto simp: into_def into_scene_def)

lemma map_sum_Inr_iff: "map_sum f id r = Inr x \<longleftrightarrow> r = Inr x"
  by (cases r) auto

text \<open>What the policy of a session says of a quad and of a delta.\<close>

definition allowed :: "session \<Rightarrow> quad \<Rightarrow> modes \<Rightarrow> bool" where
  "allowed se q m \<longleftrightarrow> policy_decides (se_policy se) (se_principal se) q m = AllowIt"

definition same_principal :: "session \<Rightarrow> session \<Rightarrow> bool" where
  "same_principal se se' \<longleftrightarrow> se_policy se' = se_policy se \<and> se_principal se' = se_principal se"

definition permitted :: "session \<Rightarrow> string \<Rightarrow> delta \<Rightarrow> bool" where
  "permitted se g d \<longleftrightarrow> (\<forall>t\<in>set (dl_added d). allowed se (into_scene t g) WRITE)
    \<and> (\<forall>t\<in>set (dl_removed d). allowed se (into_scene t g) WRITE \<and> allowed se (into_scene t g) READ)"

definition shacl_total :: "('s, 'shapes, 'report) shacl_lib \<Rightarrow> bool" where
  "shacl_total V \<longleftrightarrow> (\<forall>st d s. \<not> isl (sh_compile V st d s)) \<and> (\<forall>shapes st changes. \<not> isl (sh_revalidate V shapes st changes))"

text \<open>The validator was asked about the scene the delta and the rules left, and told exactly the changes that took effect.\<close>

definition judged ::
  "('s, 'shapes, 'report) shacl_lib \<Rightarrow> 's storage_ops \<Rightarrow> ('s \<Rightarrow> dataset) \<Rightarrow> holon \<Rightarrow> delta \<Rightarrow> triple list \<Rightarrow> quad set \<Rightarrow> 'report tick_outcome \<Rightarrow> bool" where
  "judged V ops view h d ts Q t \<longleftrightarrow> (\<exists>st cs. rdf_quads ops view st = delta_result (hl_scene h) d ts Q
    \<and> list_all2 (\<lambda>c (op, u). encodes ops st (into_scene u (hl_scene h)) (ch_quad c) \<and> (ch_added c \<longleftrightarrow> op = OpAdded)) cs (delta_changes (hl_scene h) d ts Q)
    \<and> validate V ops st h cs = Inr (to_violations t, to_report t))"

text \<open>
  The rules were fired on the scene the delta left and told exactly the changes of the delta that took
  effect, and these triples are what they inferred.
\<close>

definition inferred ::
  "('s, 'run) rule_lib \<Rightarrow> 's storage_ops \<Rightarrow> ('s \<Rightarrow> dataset) \<Rightarrow> holon \<Rightarrow> delta \<Rightarrow> 'run rules option \<Rightarrow> quad set \<Rightarrow> triple list \<Rightarrow> bool" where
  "inferred R ops view h d rules Q ts = (case rules of
     None \<Rightarrow> ts = []
   | Some ru \<Rightarrow> \<exists>st cs ru'. rdf_quads ops view st = delta_result (hl_scene h) d [] Q
       \<and> list_all2 (\<lambda>c (op, u). encodes ops st (into_scene u (hl_scene h)) (ch_quad c) \<and> (ch_added c \<longleftrightarrow> op = OpAdded)) cs (delta_changes (hl_scene h) d [] Q)
       \<and> fire R st h cs ru = (ru', Inr ts))"

text \<open>
  What a tick returns, and the quads it leaves when it succeeds. An error is a denied write, which a tick
  without rules returns only when the policy forbids part of the delta, or an error of the validator or the rules.
\<close>

definition tick_meets ::
  "('s, 'shapes, 'report) shacl_lib \<Rightarrow> ('s, 'run) rule_lib \<Rightarrow> 's storage_ops \<Rightarrow> ('s \<Rightarrow> dataset) \<Rightarrow> holon \<Rightarrow> delta \<Rightarrow> 'run rules option \<Rightarrow> u64 \<Rightarrow> u64 \<Rightarrow> int \<Rightarrow> session \<Rightarrow> quad set \<Rightarrow> 'report tick_outcome hres \<Rightarrow> quad set \<Rightarrow> bool" where
  "tick_meets V R ops view h d rules v w at se Q r Q' = (case r of
     Inl e \<Rightarrow> e = WriteDenied (hl_scene h) \<and> (permitted se (hl_scene h) d \<longrightarrow> rules \<noteq> None) \<or> (\<exists>s. e = HolonShacl s) \<and> (shacl_total V \<longrightarrow> rules \<noteq> None)
   | Inr t \<Rightarrow> permitted se (hl_scene h) d \<and> to_version t = w
       \<and> (to_admitted t \<longleftrightarrow> to_violations t = 0 \<or> hl_admission h = AdmitAndRecord)
       \<and> (\<exists>ts. inferred R ops view h d rules Q ts \<and> (\<forall>t\<in>set ts. allowed se (into_scene t (hl_scene h)) WRITE)
           \<and> judged V ops view h d ts Q t
           \<and> to_applied t = (if to_admitted t then length (delta_changes (hl_scene h) d ts Q) else 0)
           \<and> Q' = tick_result h d ts v w at (pr_id (se_principal se)) (to_admitted t) (to_violations t) Q))"

section \<open>One authorised write\<close>

context growing_storage
begin

text \<open>A store with its session, in good order.\<close>

definition good :: "'s \<times> session \<Rightarrow> bool" where
  "good c \<longleftrightarrow> ok (fst c) \<and> decodable ops view (fst c) \<and> session_valid ops (fst c) (snd c)"

abbreviation quads :: "'s \<times> session \<Rightarrow> quad set" where
  "quads c \<equiv> rdf_quads ops view (fst c)"

abbreviation used :: "'s \<times> session \<Rightarrow> nat" where
  "used c \<equiv> op_dictionary_len ops (fst c)"

definition leads :: "'s \<times> session \<Rightarrow> 's \<times> session \<Rightarrow> bool" where
  "leads c c' \<longleftrightarrow> good c' \<and> grown ops (fst c) (fst c') \<and> same_principal (snd c) (snd c')"

lemma leads_trans: "leads a b \<Longrightarrow> leads b c \<Longrightarrow> leads a c"
  using grown_trans by (auto simp: leads_def same_principal_def)

lemma leads_allowed: "leads c c' \<Longrightarrow> allowed (snd c') q m = allowed (snd c) q m"
  by (simp add: leads_def same_principal_def allowed_def)

lemma encode_and_ask:
  assumes c: "good c" and wf: "wf_quad q" and room: "used c + quad_cost q \<le> 2 ^ 60"
  obtains e st1 se pol where "encode_quad ops q (fst c) = (st1, Inr e)" "session_policy ops st1 (snd c) = (se, Inr pol)"
    "leads c (st1, se)" "rdf_quads ops view st1 = quads c" "op_dictionary_len ops st1 \<le> used c + quad_cost q" "encodes ops st1 q e"
    "\<And>m. permits_quad pol e m \<longleftrightarrow> allowed (snd c) q m"
proof -
  have ok: "ok (fst c)" "decodable ops view (fst c)" "session_valid ops (fst c) (snd c)" using c by (simp_all add: good_def)
  obtain e st1 where 1: "encode_quad ops q (fst c) = (st1, Inr e)" "encodes ops st1 q e" "ok st1" "view st1 = view (fst c)"
    "op_dictionary_len ops st1 \<le> used c + quad_cost q" "known_stays ops (fst c) st1"
    by (rule encode_quad_spec [OF ok(1) wf room])
  note keep = interning_keeps [OF ok(1) 1(3,4,6) ok(2)]
  have g: "grown ops (fst c) st1" using encode_quad_grown [OF ok(1) wf room] 1(1) by simp
  obtain se pol where p: "session_policy ops st1 (snd c) = (se, Inr pol)" "session_valid ops st1 se"
    "se_policy se = se_policy (snd c)" "se_principal se = se_principal (snd c)"
    "\<And>q e mode. wf_quad q \<Longrightarrow> encodes ops st1 q e \<Longrightarrow> decide_quad pol e mode = policy_decides (se_policy (snd c)) (se_principal (snd c)) q mode"
    by (rule session_policy_exact [OF 1(3) valid_mono [OF ok(3) g]]) blast
  show thesis
  proof (rule that)
    show "session_policy ops st1 (snd c) = (se, Inr pol)" by (rule p(1))
    show "leads c (st1, se)" using 1(3) keep(3) p(2,3,4) g by (simp add: leads_def good_def same_principal_def)
    show "rdf_quads ops view st1 = quads c" using keep(1) by simp
    show "permits_quad pol e m \<longleftrightarrow> allowed (snd c) q m" for m using p(5) [OF wf 1(2), of m] by (simp add: permits_quad_def allowed_def)
  qed (use 1 in simp_all)
qed

lemma leads_step: "good c \<Longrightarrow> decodable ops view (fst (op_step ops w (fst c))) \<Longrightarrow> leads c (fst (op_step ops w (fst c)), snd c)"
  using step_ok [of "fst c" w] step_grown [of "fst c" w] valid_mono [of "fst c" "snd c"] by (simp add: leads_def good_def same_principal_def)

lemma insert_write:
  assumes c: "good c" and wf: "wf_quad q" and e: "encodes ops (fst c) q e"
  obtains st' where "op_insert_encoded ops e (fst c) = (st', Inr (q \<notin> quads c))" "leads c (st', snd c)" "rdf_quads ops view st' = insert q (quads c)"
    "op_dictionary_len ops st' = used c" "encodes ops st' = encodes ops (fst c)"
proof -
  have ok: "ok (fst c)" "decodable ops view (fst c)" using c by (simp_all add: good_def)
  note i = insert_encoded_spec [OF ok wf e] and k = step_keeps(2) [OF ok(1), of "InsertQuad e"]
  show thesis
    by (rule that [of "fst (op_insert_encoded ops e (fst c))"])
       (use i k leads_step [OF c, of "InsertQuad e"] in \<open>simp_all add: prod_eq_iff\<close>)
qed

lemma remove_is_encoded: "encodes ops st q e \<Longrightarrow> store_remove ops q st = op_remove_encoded ops e st"
  by (simp add: store_remove_def encodes_def)

lemma remove_write:
  assumes c: "good c" and wf: "wf_quad q" and e: "encodes ops (fst c) q e"
  obtains st' where "op_remove_encoded ops e (fst c) = (st', Inr (q \<in> quads c))" "leads c (st', snd c)" "rdf_quads ops view st' = quads c - {q}"
    "op_dictionary_len ops st' = used c" "encodes ops st' = encodes ops (fst c)"
proof -
  have ok: "ok (fst c)" "decodable ops view (fst c)" using c by (simp_all add: good_def)
  note i = store_remove_spec [OF ok wf, unfolded remove_is_encoded [OF e]] and k = step_keeps(2) [OF ok(1), of "RemoveQuad e"]
  show thesis
    by (rule that [of "fst (op_remove_encoded ops e (fst c))"])
       (use i k leads_step [OF c, of "RemoveQuad e"] in \<open>simp_all add: prod_eq_iff\<close>)
qed

section \<open>The phases of a tick\<close>

definition records :: "'s \<Rightarrow> string \<Rightarrow> applied \<Rightarrow> bool" where
  "records st g as \<longleftrightarrow> (\<forall>(op, t, e)\<in>set as. wf_triple t \<and> encodes ops st (into_scene t g) e)"

lemma records_grown: "records st g as \<Longrightarrow> grown ops st st' \<Longrightarrow> records st' g as"
  using encodes_mono [of ops st st'] by (fastforce simp: records_def grown_def)

lemma records_Nil [simp]: "records st g []"
  by (simp add: records_def)

lemma records_append [simp]: "records st g (as @ bs) \<longleftrightarrow> records st g as \<and> records st g bs"
  by (simp only: records_def set_append ball_Un)

lemma leads_refl [simp]: "good c \<Longrightarrow> leads c c"
  by (simp add: leads_def same_principal_def)

lemmas act_simps = bindr_def on_store_def hon_store_def ask_policy_def from_store_def

lemma leads_good: "leads c c' \<Longrightarrow> good c'"
  by (simp add: leads_def)

text \<open>
  Both loops of a tick write one triple after another and stop at the first the policy forbids. What one
  write does decides what the loop does.
\<close>

lemma write_loop:
  assumes nil: "\<And>as c. loop [] as c = (c, Inr as)"
    and step: "\<And>t ts as c. good c \<Longrightarrow> wf_triple t \<Longrightarrow> used c + (3 + term_cost (tr_object t)) \<le> 2 ^ 60 \<Longrightarrow> records (fst c) g as \<Longrightarrow>
      if okay (snd c) t then
        \<exists>c' as'. loop (t # ts) as c = loop ts (as @ as') c' \<and> leads c c' \<and> quads c' = upd t (quads c)
          \<and> used c' \<le> used c + (3 + term_cost (tr_object t)) \<and> records (fst c') g (as @ as') \<and> strip as' = ch t (quads c)
      else \<exists>c'. loop (t # ts) as c = (c', Inl (WriteDenied g)) \<and> leads c c'"
    and okay: "\<And>c c' t. leads c c' \<Longrightarrow> okay (snd c') t = okay (snd c) t"
  shows "good c \<Longrightarrow> \<forall>t\<in>set ts. wf_triple t \<Longrightarrow> used c + ts_cost ts \<le> 2 ^ 60 \<Longrightarrow> records (fst c) g as \<Longrightarrow>
    if \<forall>t\<in>set ts. okay (snd c) t then
      \<exists>c' as'. loop ts as c = (c', Inr (as @ as')) \<and> leads c c' \<and> quads c' = fold upd ts (quads c)
        \<and> used c' \<le> used c + ts_cost ts \<and> records (fst c') g (as @ as') \<and> strip as' = eff_loop ch upd ts (quads c)
    else \<exists>c'. loop ts as c = (c', Inl (WriteDenied g)) \<and> leads c c'"
proof (induction ts arbitrary: c as)
  case (Cons t ts)
  have one: "wf_triple t" "used c + (3 + term_cost (tr_object t)) \<le> 2 ^ 60" using Cons.prems by (simp_all add: ts_cost_def)
  note s = step [OF Cons.prems(1) one Cons.prems(4), of ts]
  show ?case
  proof (cases "okay (snd c) t")
    case True
    then obtain c1 as1 where 1: "loop (t # ts) as c = loop ts (as @ as1) c1" "leads c c1" "quads c1 = upd t (quads c)"
      "used c1 \<le> used c + (3 + term_cost (tr_object t))" "records (fst c1) g (as @ as1)" "strip as1 = ch t (quads c)"
      using s by auto
    have pre: "\<forall>t\<in>set ts. wf_triple t" "used c1 + ts_cost ts \<le> 2 ^ 60" using Cons.prems(2,3) 1(4) by (simp_all add: ts_cost_def)
    note IH = Cons.IH [OF leads_good [OF 1(2)] pre 1(5), unfolded okay [OF 1(2)]]
    show ?thesis
    proof (cases "\<forall>t\<in>set ts. okay (snd c) t")
      case all: True
      obtain c' as' where 2: "loop ts (as @ as1) c1 = (c', Inr ((as @ as1) @ as'))" "leads c1 c'" "quads c' = fold upd ts (quads c1)"
        "used c' \<le> used c1 + ts_cost ts" "records (fst c') g ((as @ as1) @ as')" "strip as' = eff_loop ch upd ts (quads c1)"
        using IH unfolding if_P [OF all] by blast
      show ?thesis using all True 1 2 leads_trans [OF 1(2) 2(2)]
        by (auto simp: ts_cost_def intro!: exI [of _ c'] exI [of _ "as1 @ as'"])
    next
      case some: False
      then show ?thesis using IH unfolding if_not_P [OF some] using 1(1) leads_trans [OF 1(2)] by auto
    qed
  qed (use s in auto)
qed (use nil in \<open>simp add: ts_cost_def\<close>)

lemma added_step:
  assumes "good c" "wf_triple t" "used c + (3 + term_cost (tr_object t)) \<le> 2 ^ 60" "records (fst c) g as" "is_str g"
  defines "q \<equiv> into_scene t g"
  shows "if allowed (snd c) q WRITE then
      \<exists>c' as'. apply_added ops g (t # ts) as c = apply_added ops g ts (as @ as') c' \<and> leads c c' \<and> quads c' = insert q (quads c)
        \<and> used c' \<le> used c + (3 + term_cost (tr_object t)) \<and> records (fst c') g (as @ as') \<and> strip as' = (if q \<in> quads c then [] else [(OpAdded, t)])
    else \<exists>c'. apply_added ops g (t # ts) as c = (c', Inl (WriteDenied g)) \<and> leads c c'"
proof -
  have wf: "wf_quad q" and room: "used c + quad_cost q \<le> 2 ^ 60" using assms(2,3,5) by (simp_all add: q_def wf_into_scene)
  obtain e s1 se pol where 1: "encode_quad ops q (fst c) = (s1, Inr e)" "session_policy ops s1 (snd c) = (se, Inr pol)"
    "leads c (s1, se)" "rdf_quads ops view s1 = quads c" "op_dictionary_len ops s1 \<le> used c + quad_cost q" "encodes ops s1 q e"
    "\<And>m. permits_quad pol e m \<longleftrightarrow> allowed (snd c) q m"
    using encode_and_ask [OF assms(1) wf room] by metis
  obtain s3 where 3: "op_insert_encoded ops e s1 = (s3, Inr (q \<notin> quads c))" "leads (s1, se) (s3, se)" "rdf_quads ops view s3 = insert q (quads c)"
    "op_dictionary_len ops s3 = op_dictionary_len ops s1" "encodes ops s3 = encodes ops s1"
    using insert_write [OF leads_good [OF 1(3)] wf, of e] 1(4,6) by (metis fst_conv snd_conv)
  have l: "leads c (s3, se)" by (rule leads_trans [OF 1(3) 3(2)])
  have rec: "records s3 g as" using records_grown [OF assms(4)] l by (simp add: leads_def)
  show ?thesis
  proof (cases "allowed (snd c) q WRITE")
    case True
    have "apply_added ops g (t # ts) as c = apply_added ops g ts (as @ (if q \<in> quads c then [] else [(OpAdded, t, e)])) (s3, se)"
      using 1(1,2,7) 3(1) True by (simp add: act_simps q_def [symmetric])
    moreover have "records s3 g (as @ (if q \<in> quads c then [] else [(OpAdded, t, e)]))"
      using rec 1(6) 3(5) assms(2) by (simp add: records_def q_def)
    ultimately show ?thesis unfolding if_P [OF True]
      by (intro exI [of _ "(s3, se)"] exI [of _ "if q \<in> quads c then [] else [(OpAdded, t, e)]"]) (use l 3(3,4) 1(5) in \<open>simp add: q_def del: apply_added.simps\<close>)
  qed (use 1 in \<open>auto simp: act_simps q_def [symmetric]\<close>)
qed

lemma removed_step:
  assumes "good c" "wf_triple t" "used c + (3 + term_cost (tr_object t)) \<le> 2 ^ 60" "records (fst c) g as" "is_str g"
  defines "q \<equiv> into_scene t g"
  shows "if allowed (snd c) q WRITE \<and> allowed (snd c) q READ then
      \<exists>c' as'. apply_removed ops g (t # ts) as c = apply_removed ops g ts (as @ as') c' \<and> leads c c' \<and> quads c' = quads c - {q}
        \<and> used c' \<le> used c + (3 + term_cost (tr_object t)) \<and> records (fst c') g (as @ as') \<and> strip as' = (if q \<in> quads c then [(OpRemoved, t)] else [])
    else \<exists>c'. apply_removed ops g (t # ts) as c = (c', Inl (WriteDenied g)) \<and> leads c c'"
proof -
  have wf: "wf_quad q" and room: "used c + quad_cost q \<le> 2 ^ 60" using assms(2,3,5) by (simp_all add: q_def wf_into_scene)
  obtain e s1 se pol where 1: "encode_quad ops q (fst c) = (s1, Inr e)" "session_policy ops s1 (snd c) = (se, Inr pol)"
    "leads c (s1, se)" "rdf_quads ops view s1 = quads c" "op_dictionary_len ops s1 \<le> used c + quad_cost q" "encodes ops s1 q e"
    "\<And>m. permits_quad pol e m \<longleftrightarrow> allowed (snd c) q m"
    using encode_and_ask [OF assms(1) wf room] by metis
  obtain s3 where 3: "op_remove_encoded ops e s1 = (s3, Inr (q \<in> quads c))" "leads (s1, se) (s3, se)" "rdf_quads ops view s3 = quads c - {q}"
    "op_dictionary_len ops s3 = op_dictionary_len ops s1" "encodes ops s3 = encodes ops s1"
    using remove_write [OF leads_good [OF 1(3)] wf, of e] 1(4,6) by (metis fst_conv snd_conv)
  have l: "leads c (s3, se)" by (rule leads_trans [OF 1(3) 3(2)])
  have rec: "records s3 g as" using records_grown [OF assms(4)] l by (simp add: leads_def)
  show ?thesis
  proof (cases "allowed (snd c) q WRITE \<and> allowed (snd c) q READ")
    case True
    have "apply_removed ops g (t # ts) as c = apply_removed ops g ts (as @ (if q \<in> quads c then [(OpRemoved, t, e)] else [])) (s3, se)"
      using 1(1,2,7) 3(1) True by (simp add: act_simps q_def [symmetric] remove_is_encoded [OF 1(6)])
    moreover have "records s3 g (as @ (if q \<in> quads c then [(OpRemoved, t, e)] else []))"
      using rec 1(6) 3(5) assms(2) by (cases "q \<in> quads c") (simp_all add: records_def q_def)
    ultimately show ?thesis unfolding if_P [OF True]
      by (intro exI [of _ "(s3, se)"] exI [of _ "if q \<in> quads c then [(OpRemoved, t, e)] else []"]) (use l 3(3,4) 1(5) in \<open>simp add: q_def del: apply_removed.simps\<close>)
  qed (use 1 in \<open>auto simp: act_simps q_def [symmetric]\<close>)
qed

lemma apply_added_spec:
  assumes "good c" "\<forall>t\<in>set ts. wf_triple t" "used c + ts_cost ts \<le> 2 ^ 60" "records (fst c) g as" "is_str g"
  shows "if \<forall>t\<in>set ts. allowed (snd c) (into_scene t g) WRITE then
      \<exists>c' as'. apply_added ops g ts as c = (c', Inr (as @ as')) \<and> leads c c' \<and> quads c' = quads c \<union> into g ts
        \<and> used c' \<le> used c + ts_cost ts \<and> records (fst c') g (as @ as') \<and> strip as' = eff_added g ts (quads c)
    else \<exists>c'. apply_added ops g ts as c = (c', Inl (WriteDenied g)) \<and> leads c c'"
  using write_loop [where loop = "apply_added ops g" and okay = "\<lambda>se t. allowed se (into_scene t g) WRITE"
      and upd = "\<lambda>t. insert (into_scene t g)" and ch = "\<lambda>t Q. if into_scene t g \<in> Q then [] else [(OpAdded, t)]",
      OF apply_added.simps(1) added_step leads_allowed assms(1-4)] assms(5)
  unfolding eff_loops by blast

lemma apply_removed_spec:
  assumes "good c" "\<forall>t\<in>set ts. wf_triple t" "used c + ts_cost ts \<le> 2 ^ 60" "records (fst c) g as" "is_str g"
  shows "if \<forall>t\<in>set ts. allowed (snd c) (into_scene t g) WRITE \<and> allowed (snd c) (into_scene t g) READ then
      \<exists>c' as'. apply_removed ops g ts as c = (c', Inr (as @ as')) \<and> leads c c' \<and> quads c' = quads c - into g ts
        \<and> used c' \<le> used c + ts_cost ts \<and> records (fst c') g (as @ as') \<and> strip as' = eff_removed g ts (quads c)
    else \<exists>c'. apply_removed ops g ts as c = (c', Inl (WriteDenied g)) \<and> leads c c'"
  using write_loop [where loop = "apply_removed ops g" and okay = "\<lambda>se t. allowed se (into_scene t g) WRITE \<and> allowed se (into_scene t g) READ"
      and upd = "\<lambda>t Q. Q - {into_scene t g}" and ch = "\<lambda>t Q. if into_scene t g \<in> Q then [(OpRemoved, t)] else []",
      OF apply_removed.simps(1) removed_step _ assms(1-4)] assms(5) leads_allowed
  unfolding eff_loops by blast

text \<open>Undoing a refused delta.\<close>

lemma undo_one:
  assumes c: "good c" and q: "wf_quad (into_scene t g)" "encodes ops (fst c) (into_scene t g) e"
  shows "\<exists>st'. undo_loop ops [(op, t, e)] (fst c) = (st', Inr ()) \<and> leads c (st', snd c)
    \<and> rdf_quads ops view st' = unapply g [(op, t)] (quads c) \<and> op_dictionary_len ops st' = used c"
proof (cases op)
  case OpAdded
  obtain s where "op_remove_encoded ops e (fst c) = (s, Inr (into_scene t g \<in> quads c))" "leads c (s, snd c)"
    "rdf_quads ops view s = quads c - {into_scene t g}" "op_dictionary_len ops s = used c"
    by (rule remove_write [OF c q]) blast
  with OpAdded show ?thesis by (simp add: Let_def)
next
  case OpRemoved
  obtain s where "op_insert_encoded ops e (fst c) = (s, Inr (into_scene t g \<notin> quads c))" "leads c (s, snd c)"
    "rdf_quads ops view s = insert (into_scene t g) (quads c)" "op_dictionary_len ops s = used c"
    by (rule insert_write [OF c q]) blast
  with OpRemoved show ?thesis by (simp add: Let_def)
qed

lemma undo_loop_append: "undo_loop ops (as @ bs) st = and_then (undo_loop ops as st) (\<lambda>_ st. undo_loop ops bs st)"
  by (induction ops as st rule: undo_loop.induct) (auto simp: and_then_def split: prod.split sum.split)

lemma undo_spec:
  assumes "good c" "records (fst c) g as" "is_str g"
  shows "\<exists>st'. undo_applied ops as (fst c) = (st', Inr ()) \<and> leads c (st', snd c) \<and> rdf_quads ops view st' = unapply g (strip as) (quads c)
    \<and> op_dictionary_len ops st' = used c"
  using assms
proof (induction as arbitrary: c rule: rev_induct)
  case (snoc a as)
  obtain op t e where a: "a = (op, t, e)" by (cases a)
  have e: "wf_quad (into_scene t g)" "encodes ops (fst c) (into_scene t g) e" "records (fst c) g as"
    using snoc.prems(2,3) wf_into_scene by (simp_all add: a records_def)
  obtain s1 where 1: "undo_loop ops [a] (fst c) = (s1, Inr ())" "leads c (s1, snd c)" "rdf_quads ops view s1 = unapply g [(op, t)] (quads c)"
    "op_dictionary_len ops s1 = used c"
    using undo_one [OF snoc.prems(1) e(1,2), of op] unfolding a by blast
  have rec: "records (fst (s1, snd c)) g as" using records_grown [OF e(3)] 1(2) by (simp add: leads_def)
  obtain s2 where 2: "undo_applied ops as s1 = (s2, Inr ())" "leads (s1, snd c) (s2, snd c)"
    "rdf_quads ops view s2 = unapply g (strip as) (rdf_quads ops view s1)" "op_dictionary_len ops s2 = op_dictionary_len ops s1"
    using snoc.IH [OF leads_good [OF 1(2)] rec snoc.prems(3)] by auto
  have "undo_applied ops (as @ [a]) (fst c) = undo_applied ops as s1"
    using undo_loop_append [of "[a]" "rev as" "fst c"] 1(1) by (simp add: undo_applied_def)
  then show ?case using 2 1(3,4) leads_trans [OF 1(2) 2(2)] by (simp add: a unapply_append)
qed (simp add: undo_applied_def)

lemma insert_all_spec:
  assumes "good c" "\<forall>q\<in>set qs. wf_quad q" "used c + sum_list (map quad_cost qs) \<le> 2 ^ 60"
  shows "\<exists>st'. insert_all ops qs (fst c) = (st', Inr ()) \<and> leads c (st', snd c) \<and> rdf_quads ops view st' = quads c \<union> set qs
    \<and> op_dictionary_len ops st' \<le> used c + sum_list (map quad_cost qs)"
  using assms
proof (induction qs arbitrary: c)
  case (Cons q qs)
  have ok: "ok (fst c)" "decodable ops view (fst c)" using Cons.prems(1) by (simp_all add: good_def)
  have q: "wf_quad q" "used c + quad_cost q \<le> 2 ^ 60" using Cons.prems by auto
  let ?s = "fst (store_insert ops q (fst c))"
  note i = store_insert_spec [OF ok q]
  have g: "grown ops (fst c) ?s" using rdf_step_grown [of "fst c" "PutQuad q"] ok q by simp
  have l: "leads c (?s, snd c)" using i g valid_mono [of "fst c" "snd c" ?s] Cons.prems(1) by (simp add: leads_def good_def same_principal_def)
  obtain st' where st': "insert_all ops qs ?s = (st', Inr ())" "leads (?s, snd c) (st', snd c)" "rdf_quads ops view st' = rdf_quads ops view ?s \<union> set qs"
    "op_dictionary_len ops st' \<le> op_dictionary_len ops ?s + sum_list (map quad_cost qs)"
    using Cons.IH [OF leads_good [OF l]] Cons.prems(2,3) i by auto
  have "insert_all ops (q # qs) (fst c) = insert_all ops qs ?s"
    using i by (cases "store_insert ops q (fst c)") simp
  then show ?case using st' i leads_trans [OF l st'(2)] by auto
qed simp

section \<open>Reading the registry\<close>

lemma encodes_component:
  assumes ok: "ok st" and q: "wf_quad q" "encodes ops st q e" and s: "wf_term t" "op_lookup ops st t = Inr (Some i)"
  shows "enc_subject e = i \<longleftrightarrow> node_term (q_subject q) = t" "enc_predicate e = i \<longleftrightarrow> NamedNode (q_predicate q) = t"
    "enc_object e = i \<longleftrightarrow> q_object q = t"
  using q s lookup_injective [OF ok _ s(1), of "node_term (q_subject q)" i] lookup_injective [OF ok _ s(1), of "NamedNode (q_predicate q)" i]
    lookup_injective [OF ok _ s(1), of "q_object q" i]
  by (auto simp: encodes_iff wf_quad_def)

lemma encodes_graph_named:
  assumes ok: "ok st" and q: "wf_quad q" "encodes ops st q e" and g: "is_str g" "op_lookup ops st (NamedNode g) = Inr (Some i)"
  shows "enc_graph e = Some i \<longleftrightarrow> q_graph q = GraphNamed g"
proof -
  have n: "names ops st (GraphNamed g) (Some i)" using g(2) by (simp add: names_iff)
  have m: "names ops st (q_graph q) (enc_graph e)" "wf_graph (q_graph q)" using q by (simp_all add: encodes_iff wf_quad_def)
  show ?thesis
  proof
    assume "enc_graph e = Some i"
    then show "q_graph q = GraphNamed g" using names_inject [OF ok m(2) _ _ n] m(1) g(1) by simp
  next
    assume "q_graph q = GraphNamed g"
    then show "enc_graph e = Some i" using m(1) n by (simp add: names_def)
  qed
qed

text \<open>A scan for a subject and a predicate in a named graph, at the level of RDF.\<close>

lemma node_term_named [simp]: "node_term n = NamedNode s \<longleftrightarrow> n = NodeNamed s"
  by (cases n) auto

lemma registry_scan:
  assumes ok: "ok st" and dec: "decodable ops view st" and str: "is_str s" "is_str p" "is_str g"
    and ids: "op_lookup ops st (NamedNode s) = Inr (Some si)" "op_lookup ops st (NamedNode p) = Inr (Some pi)" "op_lookup ops st (NamedNode g) = Inr (Some gi)"
  obtains es where "op_scan ops st (Some si) (Some pi) x (FilterNamed gi) = map Inr es"
    "\<And>e. e \<in> set es \<longleftrightarrow> (\<exists>q\<in>rdf_quads ops view st. encodes ops st q e \<and> q_subject q = NodeNamed s \<and> q_predicate q = p \<and> q_graph q = GraphNamed g
      \<and> (\<forall>i\<in>set_option x. enc_object e = i))"
proof -
  obtain es where es: "op_scan ops st (Some si) (Some pi) x (FilterNamed gi) = map Inr es"
    "set es = {e \<in> fst (view st). quad_matches (Some si) (Some pi) x (FilterNamed gi) e}"
    using scan_exact [OF ok, of "Some si" "Some pi" x "FilterNamed gi"] by (auto simp: scan_returns_def)
  have m: "quad_matches (Some si) (Some pi) x (FilterNamed gi) e \<longleftrightarrow> q_subject q = NodeNamed s \<and> q_predicate q = p \<and> q_graph q = GraphNamed g
      \<and> (\<forall>i\<in>set_option x. enc_object e = i)" if "wf_quad q" "encodes ops st q e" for q e
    using encodes_component(1) [OF ok that _ ids(1)] encodes_component(2) [OF ok that _ ids(2)] encodes_graph_named [OF ok that str(3) ids(3)] str
    by (cases x) (auto simp: quad_matches_def graph_matches_def)
  have "e \<in> set es \<longleftrightarrow> (\<exists>q\<in>rdf_quads ops view st. encodes ops st q e \<and> q_subject q = NodeNamed s \<and> q_predicate q = p \<and> q_graph q = GraphNamed g
      \<and> (\<forall>i\<in>set_option x. enc_object e = i))" for e
  proof
    assume e: "e \<in> set es"
    then obtain q where q: "wf_quad q" "encodes ops st q e" using dec es(2) by (auto simp: decodable_def)
    then have "q \<in> rdf_quads ops view st" using e es(2) by (auto simp: rdf_quads_def)
    then show "\<exists>q\<in>rdf_quads ops view st. encodes ops st q e \<and> q_subject q = NodeNamed s \<and> q_predicate q = p \<and> q_graph q = GraphNamed g
      \<and> (\<forall>i\<in>set_option x. enc_object e = i)" using m [OF q] q e es(2) by blast
  next
    assume "\<exists>q\<in>rdf_quads ops view st. encodes ops st q e \<and> q_subject q = NodeNamed s \<and> q_predicate q = p \<and> q_graph q = GraphNamed g
      \<and> (\<forall>i\<in>set_option x. enc_object e = i)"
    then obtain q f where q: "wf_quad q" "encodes ops st q e" "f \<in> fst (view st)" "encodes ops st q f" "q_subject q = NodeNamed s"
      "q_predicate q = p" "q_graph q = GraphNamed g" "\<forall>i\<in>set_option x. enc_object e = i" by (auto simp: rdf_quads_def)
    then have "f = e" using encodes_functional [OF q(4) q(2)] by simp
    then show "e \<in> set es" using es(2) q m [OF q(1,2)] by simp
  qed
  with es(1) show thesis by (rule that)
qed

lemma stored_lookup:
  assumes "q \<in> rdf_quads ops view st"
  shows "\<exists>i. op_lookup ops st (node_term (q_subject q)) = Inr (Some i)" "\<exists>i. op_lookup ops st (NamedNode (q_predicate q)) = Inr (Some i)"
    "\<exists>i. op_lookup ops st (q_object q) = Inr (Some i)" "q_graph q = GraphNamed g \<Longrightarrow> \<exists>i. op_lookup ops st (NamedNode g) = Inr (Some i)"
  using assms by (auto simp: rdf_quads_def encodes_iff names_iff)

lemma no_objects:
  assumes "op_lookup ops st (NamedNode s) = Inr None \<or> op_lookup ops st (NamedNode p) = Inr None \<or> op_lookup ops st (NamedNode g) = Inr None"
  shows "objects (rdf_quads ops view st) s p g = {}"
  using assms stored_lookup by (fastforce simp: objects_def)

lemma registry_object_spec:
  assumes ok: "ok st" and dec: "decodable ops view st" and str: "is_str s" "is_str p" "is_str g"
    and ids: "op_lookup ops st (NamedNode s) = Inr (Some si)" "op_lookup ops st (NamedNode g) = Inr (Some gi)"
  shows "\<exists>r. registry_object ops st (FilterNamed gi) si p = Inr r
    \<and> (case r of None \<Rightarrow> objects (rdf_quads ops view st) s p g = {} | Some x \<Rightarrow> x \<in> objects (rdf_quads ops view st) s p g)"
proof -
  obtain r where r: "op_lookup ops st (NamedNode p) = Inr r" using lookup_total [OF ok, of "NamedNode p"] str(2) by auto
  show ?thesis
  proof (cases r)
    case None
    then show ?thesis using r no_objects [of st s p g] by (simp add: registry_object_def)
  next
    case (Some pi)
    obtain es where es: "op_scan ops st (Some si) (Some pi) None (FilterNamed gi) = map Inr es"
      "\<And>e. e \<in> set es \<longleftrightarrow> (\<exists>q\<in>rdf_quads ops view st. encodes ops st q e \<and> q_subject q = NodeNamed s \<and> q_predicate q = p \<and> q_graph q = GraphNamed g
        \<and> (\<forall>i\<in>set_option None. enc_object e = i))"
      using registry_scan [OF ok dec str ids(1) _ ids(2), of pi None] r Some by blast
    show ?thesis
    proof (cases es)
      case Nil
      have "objects (rdf_quads ops view st) s p g = {}"
      proof (rule ccontr)
        assume "objects (rdf_quads ops view st) s p g \<noteq> {}"
        then obtain q where q: "q \<in> rdf_quads ops view st" "q_subject q = NodeNamed s" "q_predicate q = p" "q_graph q = GraphNamed g"
          by (auto simp: objects_def)
        then obtain e where "encodes ops st q e" by (auto simp: rdf_quads_def)
        with q es(2) [of e] Nil show False by auto
      qed
      then show ?thesis using r Some es(1) Nil by (simp add: registry_object_def)
    next
      case (Cons e es')
      then obtain q where q: "q \<in> rdf_quads ops view st" "encodes ops st q e" "q_subject q = NodeNamed s" "q_predicate q = p" "q_graph q = GraphNamed g"
        using es(2) [of e] by auto
      then have "op_decode ops st (enc_object e) = Inr (Some (q_object q))"
        by (intro decode_lookup [OF ok]) (auto simp: encodes_iff rdf_quads_def wf_quad_def)
      then have "registry_object ops st (FilterNamed gi) si p = Inr (Some (q_object q))"
        using r Some es(1) Cons by (simp add: registry_object_def from_store_def)
      then show ?thesis using q by (auto simp: objects_def)
    qed
  qed
qed

lemma graph_filter_spec:
  assumes "ok st" "is_str g"
  obtains r where "op_lookup ops st (NamedNode g) = Inr r" "registry_graph_filter ops st g = Inr (map_option FilterNamed r)"
  using lookup_total [OF assms(1), of "NamedNode g"] assms(2) by (auto simp: registry_graph_filter_def from_store_def)

lemma version_spec:
  assumes ok: "ok st" and dec: "decodable ops view st" and h: "is_str (hl_id h)" and v: "version_is (rdf_quads ops view st) h v"
  shows "version ops st h = Inr v"
proof -
  obtain g where g: "op_lookup ops st (NamedNode system_graph) = Inr g" "registry_graph_filter ops st system_graph = Inr (map_option FilterNamed g)"
    by (rule graph_filter_spec [OF ok, of system_graph]) simp
  obtain s where s: "op_lookup ops st (NamedNode (hl_id h)) = Inr s" using lookup_total [OF ok, of "NamedNode (hl_id h)"] h by auto
  let ?O = "objects (rdf_quads ops view st) (hl_id h) (holos ''version'') system_graph"
  have none: "v = 0" if "?O = {}" using v that by (simp add: version_is_def split: if_splits)
  consider "g = None" | gi where "g = Some gi" "s = None" | gi si where "g = Some gi" "s = Some si" by (cases g; cases s) auto
  then show ?thesis
  proof cases
    case 1
    then show ?thesis using g none no_objects [of st "hl_id h" _ system_graph] by (simp add: version_def)
  next
    case 2
    then show ?thesis using g s none no_objects [of st "hl_id h" _ system_graph] by (simp add: version_def)
  next
    case (3 gi si)
    obtain r where r: "registry_object ops st (FilterNamed gi) si (holos ''version'') = Inr r" "case r of None \<Rightarrow> ?O = {} | Some x \<Rightarrow> x \<in> ?O"
      using registry_object_spec [OF ok dec h _ _ s [unfolded 3] g(1) [unfolded 3], of "holos ''version''"] by auto
    have "?O = (if v = 0 then {} else {Literal (TypedLit (show_nat (unat v)) xsd_integer)})" using v by (simp add: version_is_def)
    with r(2) have "r = (if v = 0 then None else Some (Literal (TypedLit (show_nat (unat v)) xsd_integer)))"
      by (cases r; cases "v = 0") simp_all
    then show ?thesis using r(1) g s 3 by (simp add: version_def parse_u64_show)
  qed
qed

lemma version_removed:
  assumes v: "version_is Q h v"
  shows "objects (Q - {version_quad h v}) (hl_id h) (holos ''version'') system_graph = {}"
proof (rule ccontr)
  assume "objects (Q - {version_quad h v}) (hl_id h) (holos ''version'') system_graph \<noteq> {}"
  then obtain q where q: "q \<in> Q" "q \<noteq> version_quad h v" "q_subject q = NodeNamed (hl_id h)" "q_predicate q = holos ''version''"
    "q_graph q = GraphNamed system_graph" by (auto simp: objects_def)
  then have "q_object q \<in> objects Q (hl_id h) (holos ''version'') system_graph" by (auto simp: objects_def)
  then have "q_object q = q_object (version_quad h v)" using v by (auto simp: version_is_def version_quad_def literal_quad_def split: if_splits)
  then show False using q by (simp add: version_quad_def literal_quad_def)
qed

lemma version_absent: "version_is Q h 0 \<Longrightarrow> version_quad h w \<notin> Q"
proof
  assume v: "version_is Q h 0" and "version_quad h w \<in> Q"
  then have "q_object (version_quad h w) \<in> objects Q (hl_id h) (holos ''version'') system_graph"
    unfolding objects_def by (intro imageI) (simp add: version_quad_def literal_quad_def)
  with v show False by (simp add: version_is_def)
qed

lemma wf_version_quad: "is_str (hl_id h) \<Longrightarrow> wf_quad (version_quad h v)" "quad_cost (version_quad h v) = 4"
  by (simp_all add: version_quad_def wf_literal_quad) (simp add: quad_cost_def literal_quad_def)

lemma set_version_body_spec:
  assumes c: "good c" and h: "is_str (hl_id h)" and v: "version_is (quads c) h v" and room: "used c + 4 \<le> 2 ^ 60"
  shows "\<exists>st'. set_version_body ops h w (fst c) = (st', Inr ()) \<and> leads c (st', snd c)
    \<and> rdf_quads ops view st' = insert (version_quad h w) (quads c - {version_quad h v}) \<and> op_dictionary_len ops st' \<le> used c + 4"
proof -
  have ok: "ok (fst c)" "decodable ops view (fst c)" using c by (simp_all add: good_def)
  let ?r = "store_remove ops (version_quad h v) (fst c)"
  define s1 where "s1 = (if v \<noteq> 0 then fst ?r else fst c)"
  note rm = store_remove_spec [OF ok wf_version_quad(1) [OF h], of v]
  have g1: "grown ops (fst c) (fst ?r)" using rdf_step_grown [of "fst c" "DeleteQuad (version_quad h v)"] ok room wf_version_quad(1) [OF h] by simp
  have l1: "leads c (s1, snd c)" using c rm g1 valid_mono [of "fst c" "snd c"] by (simp add: s1_def leads_def good_def same_principal_def)
  have q1: "rdf_quads ops view s1 = quads c - {version_quad h v}" "op_dictionary_len ops s1 = used c"
    using rm version_absent [of "quads c" h v] v by (auto simp: s1_def)
  have "\<exists>st'. insert_all ops [version_quad h w] s1 = (st', Inr ()) \<and> leads (s1, snd c) (st', snd c)
      \<and> rdf_quads ops view st' = rdf_quads ops view s1 \<union> set [version_quad h w] \<and> op_dictionary_len ops st' \<le> op_dictionary_len ops s1 + 4"
    using insert_all_spec [OF leads_good [OF l1], of "[version_quad h w]"] wf_version_quad(1) [OF h] wf_version_quad(2) room q1(2) by simp
  then obtain st' where st': "store_insert ops (version_quad h w) s1 = (st', Inr (version_quad h w \<notin> rdf_quads ops view s1))" "leads (s1, snd c) (st', snd c)"
      "rdf_quads ops view st' = insert (version_quad h w) (rdf_quads ops view s1)" "op_dictionary_len ops st' \<le> op_dictionary_len ops s1 + 4"
    using store_insert_spec [of s1 "version_quad h w"] leads_good [OF l1] wf_version_quad(1) [OF h] wf_version_quad(2) room q1(2)
    by (cases "store_insert ops (version_quad h w) s1") (auto simp: good_def)
  have "set_version_body ops h w (fst c) = (st', Inr ())"
    using version_spec [OF ok h v] st'(1) rm by (cases ?r) (auto simp: set_version_body_def s1_def)
  then show ?thesis using st'(3,4) q1 leads_trans [OF l1 st'(2)] by auto
qed

lemma version_is_other:
  assumes "\<forall>q\<in>D. q_graph q \<noteq> GraphNamed system_graph"
  shows "version_is (Q \<union> D) h v = version_is Q h v" "version_is (Q - D) h v = version_is Q h v"
  using objects_other [OF assms] by (simp_all add: version_is_def)

lemma map_shacl_Inl: "map_sum HolonShacl f r = Inl x \<Longrightarrow> \<exists>s. x = HolonShacl s" "map_sum (id \<circ> HolonShacl) f r = Inl x \<Longrightarrow> \<exists>s. x = HolonShacl s"
  by (cases r; auto)+

lemma validate_error:
  assumes "ok st" "wf_holon h" "validate V ops st h changes = Inl e"
  shows "(\<exists>s. e = HolonShacl s) \<and> \<not> shacl_total V"
proof -
  obtain a where a: "registry_graph_filter ops st (hl_scene h) = Inr a" using graph_filter_spec [OF assms(1), of "hl_scene h"] assms(2) by (auto simp: wf_holon_def)
  obtain b where b: "registry_graph_filter ops st (hl_boundary h) = Inr b" using graph_filter_spec [OF assms(1), of "hl_boundary h"] assms(2) by (auto simp: wf_holon_def)
  show ?thesis
  proof
    show "\<exists>s. e = HolonShacl s"
      using assms(3) a b by (auto simp: validate_def from_shacl_def sum.map_comp dest!: map_shacl_Inl split: option.splits sum.splits if_splits)
    show "\<not> shacl_total V"
    proof
      assume t: "shacl_total V"
      have total: "\<exists>x. sh_compile V st dg sg = Inr x" "\<exists>x. sh_revalidate V shapes st changes = Inr x" for dg sg shapes
        using t by (metis isl_def shacl_total_def sumE)+
      show False
      proof (cases "\<exists>dg sg. a = Some dg \<and> b = Some sg")
        case True
        then obtain dg sg x y where "a = Some dg" "b = Some sg" "sh_compile V st dg sg = Inr x" "sh_revalidate V x st changes = Inr y" using total by metis
        then show False using assms(3) a b by (simp add: validate_def from_shacl_def split: if_splits)
      qed (use assms(3) a b in \<open>auto simp: validate_def split: option.splits\<close>)
    qed
  qed
qed

end

section \<open>Ticks in a scope\<close>

locale holon_store = growing_storage ops ok view + commit_scopes ops sc ready inside seen
  for ops :: "'s storage_ops" and ok :: "'s \<Rightarrow> bool" and view :: "'s \<Rightarrow> dataset" and sc :: "'s scope_ops"
    and ready :: "'s \<Rightarrow> bool" and inside :: "'s \<Rightarrow> 's \<Rightarrow> bool" and seen :: "'s \<Rightarrow> 'v" +
  assumes ok_ready: "ok st \<Longrightarrow> ready st"
    and begin_same: "ok st \<Longrightarrow> op_begin sc st = (st', Inr u) \<Longrightarrow> ok st' \<and> view st' = view st
      \<and> op_lookup ops st' = op_lookup ops st \<and> op_dictionary_len ops st' = op_dictionary_len ops st"
    and commit_same: "ok st \<Longrightarrow> op_commit sc st = (st', Inr u) \<Longrightarrow> ok st' \<and> view st' = view st
      \<and> op_lookup ops st' = op_lookup ops st \<and> op_dictionary_len ops st' = op_dictionary_len ops st"
    and rollback_same: "inside st0 st \<Longrightarrow> ok st \<Longrightarrow> ok (op_rollback sc st) \<and> view (op_rollback sc st) = view st0
      \<and> op_lookup ops (op_rollback sc st) = op_lookup ops st \<and> op_dictionary_len ops (op_rollback sc st) = op_dictionary_len ops st"
begin

lemma same_leads:
  assumes "good c" "ok st'" "view st' = view (fst c)" "op_lookup ops st' = op_lookup ops (fst c)" "op_dictionary_len ops st' = used c"
  shows "leads c (st', snd c)" "rdf_quads ops view st' = quads c"
proof -
  have g: "grown ops (fst c) st'" using assms(4,5) by (simp add: grown_def known_stays_def)
  have d: "decodable ops view (fst c)" "ok (fst c)" using assms(1) by (simp_all add: good_def)
  note k = interning_keeps [OF d(2) assms(2,3) _ d(1)]
  have ks: "known_stays ops (fst c) st'" using g by (simp add: grown_def)
  show "leads c (st', snd c)" using k(3) [OF ks] g assms(1,2) valid_mono [of "fst c" "snd c" st'] by (simp add: leads_def good_def same_principal_def)
  show "rdf_quads ops view st' = quads c" by (rule k(1) [OF ks])
qed

lemma rollback_leads:
  assumes c: "good c" and l: "leads c c1" and i: "inside (fst c) (fst c1)"
  shows "leads c (op_rollback sc (fst c1), snd c1)" "rdf_quads ops view (op_rollback sc (fst c1)) = quads c"
proof -
  let ?s = "op_rollback sc (fst c1)"
  have c1: "ok (fst c1)" "session_valid ops (fst c1) (snd c1)" "grown ops (fst c) (fst c1)" using l by (simp_all add: leads_def good_def)
  have r: "ok ?s" "view ?s = view (fst c)" "op_lookup ops ?s = op_lookup ops (fst c1)" "op_dictionary_len ops ?s = used c1"
    using rollback_same [OF i c1(1)] by simp_all
  have g1: "grown ops (fst c1) ?s" using r(3,4) by (simp add: grown_def known_stays_def)
  have g: "grown ops (fst c) ?s" by (rule grown_trans [OF c1(3) g1])
  then have ks: "known_stays ops (fst c) ?s" by (simp add: grown_def)
  have ok: "ok (fst c)" "decodable ops view (fst c)" using c by (simp_all add: good_def)
  note keep = interning_keeps [OF ok(1) r(1,2) ks ok(2)]
  show "rdf_quads ops view ?s = quads c" by (rule keep(1))
  show "leads c (?s, snd c1)" using keep(3) r(1) g valid_mono [OF c1(2) g1] l by (simp add: leads_def good_def)
qed

text \<open>Opening a scope of one's own, and closing it.\<close>

lemma open_scope:
  assumes c: "good c" and s: "\<not> op_in_scope sc (fst c)"
  obtains st1 where "begin_commit sc (fst c) = (st1, Inr True)" "inside (fst c) st1" "leads c (st1, snd c)" "rdf_quads ops view st1 = quads c"
    "op_dictionary_len ops st1 = used c"
proof -
  have ok: "ok (fst c)" using c by (simp add: good_def)
  obtain st1 where st1: "op_begin sc (fst c) = (st1, Inr ())" "inside (fst c) st1" using begin_inside [OF ok_ready [OF ok] s] by blast
  note b = begin_same [OF ok st1(1)]
  show thesis by (rule that [of st1]) (use st1 s b same_leads [OF c, of st1] in \<open>simp_all add: begin_commit_def\<close>)
qed

lemma close_scope:
  assumes c: "good c" and l: "leads c c1" and i: "inside (fst c) (fst c1)"
  obtains st2 where "end_commit sc True kept (fst c1) = (st2, Inr ())" "leads c (st2, snd c1)" "\<not> op_in_scope sc st2"
    "rdf_quads ops view st2 = (if kept then quads c1 else quads c)"
proof (cases kept)
  case True
  obtain st2 where st2: "op_commit sc (fst c1) = (st2, Inr ())" "\<not> op_in_scope sc st2" using commit_inside [OF i] by blast
  have "ok (fst c1)" using l by (simp add: leads_def good_def)
  note b = commit_same [OF this st2(1)]
  have "leads c1 (st2, snd c1)" "rdf_quads ops view st2 = quads c1" using same_leads [OF leads_good [OF l], of st2] b by simp_all
  then show thesis using True st2 leads_trans [OF l] by (intro that [of st2]) (simp_all add: end_commit_def from_store_def)
next
  case False
  then show thesis using rollback_leads [OF c l i] rollback_inside [OF i] by (intro that [of "op_rollback sc (fst c1)"]) (simp_all add: end_commit_def)
qed

lemma set_version_in_scope: "op_in_scope sc st \<Longrightarrow> set_version ops sc h v st = set_version_body ops h v st"
  by (simp add: set_version_def commit_store_def in_commit_def begin_commit_def end_commit_def split: prod.split)

lemma tick_finish_spec:
  fixes V :: "('s, 'shapes, 'report) shacl_lib"
  assumes c: "good c" and i: "inside st0 (fst c)" and rec: "records (fst c) (hl_scene h) as" and h: "wf_holon h" "graphs_apart h"
    and pr: "is_str (pr_id (se_principal (snd c)))" and v: "version_is (quads c) h v"
    and room: "used c + 4 * changes_cost (strip as) + 40 \<le> 2 ^ 60"
    and val: "validate V ops (fst c) h (map change_of as) = Inr (n, report)" and adm: "adm \<longleftrightarrow> n = 0 \<or> hl_admission h = AdmitAndRecord"
    and Q0: "Q0 = (if adm then quads c else unapply (hl_scene h) (strip as) (quads c))" and v0: "version_is Q0 h v"
  shows "\<exists>c'. tick_finish V ops sc h at w as c = (c', Inr \<lparr>to_version = w, to_admitted = adm, to_violations = n,
      to_applied = (if adm then length as else 0), to_report = report\<rparr>) \<and> leads c c'
    \<and> quads c' = insert (version_quad h w) ((Q0 \<union> set (event_to_quads (tick_record_of h w at (snd c) as adm n))) - {version_quad h v})"
proof -
  let ?g = "hl_scene h" and ?r = "tick_record_of h w at (snd c) as adm n"
  have str: "is_str ?g" "is_str (hl_id h)" "is_str (hl_events h)" using h(1) by (simp_all add: wf_holon_def)
  obtain s1 where s1: "(if \<not> adm then on_store (undo_applied ops as) c else (c, Inr ())) = ((s1, snd c), Inr ())" "leads c (s1, snd c)"
    "rdf_quads ops view s1 = Q0" "op_dictionary_len ops s1 = used c" "inside st0 s1"
  proof (cases adm)
    case True
    then show thesis using that [of "fst c"] c Q0 i by simp
  next
    case False
    obtain st' where "undo_applied ops as (fst c) = (st', Inr ())" "leads c (st', snd c)" "rdf_quads ops view st' = unapply ?g (strip as) (quads c)"
      "op_dictionary_len ops st' = used c" using undo_spec [OF c rec str(1)] by blast
    then show thesis using that [of st'] False Q0 undo_inside [OF i, of as] by (simp add: on_store_def from_store_def)
  qed
  have wfe: "\<forall>q\<in>set (event_to_quads ?r). wf_quad q"
    using rec h(1) pr by (intro ballI, intro wf_event_quads) (auto simp: tick_record_of_def records_def)
  have cost: "op_dictionary_len ops s1 + sum_list (map quad_cost (event_to_quads ?r)) \<le> used c + 4 * changes_cost (strip as) + 36"
    using event_cost [of ?r] s1(4) by (simp add: tick_record_of_def strip_def)
  obtain s2 where s2: "insert_all ops (event_to_quads ?r) s1 = (s2, Inr ())" "leads (s1, snd c) (s2, snd c)"
    "rdf_quads ops view s2 = Q0 \<union> set (event_to_quads ?r)" "op_dictionary_len ops s2 \<le> op_dictionary_len ops s1 + sum_list (map quad_cost (event_to_quads ?r))"
    using insert_all_spec [OF leads_good [OF s1(2)] wfe] cost room s1(3) by auto
  have i2: "inside st0 s2" using insert_all_inside [OF s1(5), of "event_to_quads ?r"] s2(1) by simp
  have ev: "\<forall>q\<in>set (event_to_quads ?r). q_graph q \<noteq> GraphNamed system_graph"
    using event_graph [of _ ?r] h(2) by (auto simp: tick_record_of_def graphs_apart_def)
  have v2: "version_is (quads (s2, snd c)) h v" using version_is_other(1) [OF ev] s2(3) v0 by simp
  obtain s3 where s3: "set_version_body ops h w s2 = (s3, Inr ())" "leads (s2, snd c) (s3, snd c)"
    "rdf_quads ops view s3 = insert (version_quad h w) (rdf_quads ops view s2 - {version_quad h v})"
    using set_version_body_spec [OF leads_good [OF s2(2)] str(2) v2, of w] s2(4) cost room by auto
  have "tick_finish V ops sc h at w as c = ((s3, snd c), Inr \<lparr>to_version = w, to_admitted = adm, to_violations = n,
      to_applied = (if adm then length as else 0), to_report = report\<rparr>)"
    using val s1(1) s2(1) s3(1) adm set_version_in_scope [OF inside_scope [OF i2], of h w]
    by (simp add: tick_finish_def bindr_def hon_store_def on_store_def from_store_def)
  moreover have "leads c (s3, snd c)" by (rule leads_trans [OF leads_trans [OF s1(2) s2(2)] s3(2)])
  ultimately show ?thesis using s3(3) s2(3) by auto
qed

lemma apply_delta_spec:
  assumes c: "good c" and wf: "wf_delta d" and g: "is_str g" and room: "used c + (ts_cost (dl_added d) + ts_cost (dl_removed d)) \<le> 2 ^ 60"
  shows "if permitted (snd c) g d then
      \<exists>c' as. apply_delta ops g d c = (c', Inr as) \<and> leads c c' \<and> quads c' = (quads c \<union> into g (dl_added d)) - into g (dl_removed d)
        \<and> used c' \<le> used c + (ts_cost (dl_added d) + ts_cost (dl_removed d)) \<and> records (fst c') g as \<and> strip as = delta_changes g d [] (quads c)
    else \<exists>c'. apply_delta ops g d c = (c', Inl (WriteDenied g)) \<and> leads c c'"
proof -
  have wfs: "\<forall>t\<in>set (dl_added d). wf_triple t" "\<forall>t\<in>set (dl_removed d). wf_triple t" using wf by (auto simp: wf_delta_def)
  note add = apply_added_spec [OF c wfs(1) _ _ g, of "[]"]
  show ?thesis
  proof (cases "\<forall>t\<in>set (dl_added d). allowed (snd c) (into_scene t g) WRITE")
    case True
    obtain c1 as1 where 1: "apply_added ops g (dl_added d) [] c = (c1, Inr as1)" "leads c c1" "quads c1 = quads c \<union> into g (dl_added d)"
      "used c1 \<le> used c + ts_cost (dl_added d)" "records (fst c1) g as1" "strip as1 = eff_added g (dl_added d) (quads c)"
      using add room unfolding if_P [OF True] by (auto simp: trans_le_add1)
    have room1: "used c1 + ts_cost (dl_removed d) \<le> 2 ^ 60" using room 1(4) by simp
    note rem = apply_removed_spec [OF leads_good [OF 1(2)] wfs(2) room1 1(5) g, unfolded leads_allowed [OF 1(2)]]
    show ?thesis
    proof (cases "\<forall>t\<in>set (dl_removed d). allowed (snd c) (into_scene t g) WRITE \<and> allowed (snd c) (into_scene t g) READ")
      case all: True
      obtain c2 as2 where 2: "apply_removed ops g (dl_removed d) as1 c1 = (c2, Inr (as1 @ as2))" "leads c1 c2" "quads c2 = quads c1 - into g (dl_removed d)"
        "used c2 \<le> used c1 + ts_cost (dl_removed d)" "records (fst c2) g (as1 @ as2)" "strip as2 = eff_removed g (dl_removed d) (quads c1)"
        using rem unfolding if_P [OF all] by blast
      have p: "permitted (snd c) g d" using True all by (simp add: permitted_def)
      show ?thesis unfolding if_P [OF p]
        by (intro exI [of _ c2] exI [of _ "as1 @ as2"])
           (use 1 2 leads_trans [OF 1(2) 2(2)] in \<open>simp add: apply_delta_def bindr_def delta_changes_def\<close>)
    next
      case some: False
      obtain c2 where 2: "apply_removed ops g (dl_removed d) as1 c1 = (c2, Inl (WriteDenied g))" "leads c1 c2" using rem unfolding if_not_P [OF some] by blast
      have p: "\<not> permitted (snd c) g d" using some by (simp add: permitted_def)
      show ?thesis unfolding if_not_P [OF p] using 1 2 leads_trans [OF 1(2) 2(2)] by (simp add: apply_delta_def bindr_def)
    qed
  next
    case False
    obtain c1 where 1: "apply_added ops g (dl_added d) [] c = (c1, Inl (WriteDenied g))" "leads c c1" using add room unfolding if_not_P [OF False] by auto
    have p: "\<not> permitted (snd c) g d" using False by (simp add: permitted_def)
    show ?thesis unfolding if_not_P [OF p] using 1 by (simp add: apply_delta_def bindr_def)
  qed
qed

lemma fire_error: "fire R st h changes ru = (ru', Inl e) \<Longrightarrow> \<exists>s. e = HolonShacl s"
  by (auto simp: fire_def from_shacl_def dest!: map_shacl_Inl split: if_splits prod.splits sum.splits)

lemma fire_bounded:
  assumes "fire R st h changes ru = (ru', Inr ts)" "rules_bounded R N"
  shows "(\<forall>t\<in>set ts. wf_triple t) \<and> ts_cost ts \<le> N"
proof -
  have "\<exists>run run'. rl_infer R MAX_ROUNDS run = (run', Inr ts)"
    using assms(1) by (auto simp: fire_def from_shacl_def map_sum_Inr_iff split: if_splits prod.splits sum.splits)
  then show ?thesis using assms(2) by (auto simp: rules_bounded_def)
qed

lemma fire_rules_spec:
  assumes c: "good c" and rec: "records (fst c) (hl_scene h) as" and g: "is_str (hl_scene h)" and R: "rules_bounded R N" and room: "used c + N \<le> 2 ^ 60"
  shows "\<exists>ru c' r. fire_rules R ops h as rules c = (ru, c', r) \<and> leads c c' \<and> (case r of
      Inl e \<Rightarrow> rules \<noteq> None \<and> (e = WriteDenied (hl_scene h) \<or> (\<exists>s. e = HolonShacl s))
    | Inr as' \<Rightarrow> \<exists>ts. (case rules of None \<Rightarrow> ts = [] | Some ru \<Rightarrow> \<exists>ru'. fire R (fst c) h (map change_of as) ru = (ru', Inr ts)) \<and> (\<forall>t\<in>set ts. allowed (snd c) (into_scene t (hl_scene h)) WRITE) \<and> ts_cost ts \<le> N
        \<and> quads c' = quads c \<union> into (hl_scene h) ts \<and> used c' \<le> used c + ts_cost ts \<and> records (fst c') (hl_scene h) as'
        \<and> strip as' = strip as @ eff_added (hl_scene h) ts (quads c))"
proof (cases rules)
  case None
  then show ?thesis using c rec by (auto simp: fire_rules_def intro!: exI [of _ "[]"])
next
  case (Some ru)
  obtain ru' r where f: "fire R (fst c) h (map change_of as) ru = (ru', r)" by (rule prod.exhaust)
  show ?thesis
  proof (cases r)
    case (Inl e)
    then show ?thesis using Some f fire_error [of R "fst c" h "map change_of as" ru ru' e] c by (simp add: fire_rules_def)
  next
    case (Inr ts)
    note b = fire_bounded [OF f [unfolded Inr] R]
    have room1: "used c + ts_cost ts \<le> 2 ^ 60" using b room by simp
    note add = apply_added_spec [OF c _ room1 rec g]
    show ?thesis
    proof (cases "\<forall>t\<in>set ts. allowed (snd c) (into_scene t (hl_scene h)) WRITE")
      case True
      obtain c' as' where "apply_added ops (hl_scene h) ts as c = (c', Inr (as @ as'))" "leads c c'" "quads c' = quads c \<union> into (hl_scene h) ts"
        "used c' \<le> used c + ts_cost ts" "records (fst c') (hl_scene h) (as @ as')" "strip as' = eff_added (hl_scene h) ts (quads c)"
        using add b unfolding if_P [OF True] by blast
      then show ?thesis using Some f Inr True b by (auto simp: fire_rules_def intro!: exI [of _ ts])
    next
      case False
      then obtain c' where "apply_added ops (hl_scene h) ts as c = (c', Inl (WriteDenied (hl_scene h)))" "leads c c'"
        using add b unfolding if_not_P [OF False] by blast
      then show ?thesis using Some f Inr by (simp add: fire_rules_def)
    qed
  qed
qed

lemma version_is_delta:
  assumes "graphs_apart h"
  shows "version_is (delta_result (hl_scene h) d ts Q) h v = version_is Q h v"
proof -
  have "\<forall>q\<in>into (hl_scene h) us. q_graph q \<noteq> GraphNamed system_graph" for us
    using into_graph [of _ "hl_scene h" us] assms by (auto simp: graphs_apart_def)
  from version_is_other [OF this] show ?thesis by (simp add: delta_result_def)
qed

lemma recorded_changes:
  "records st g as \<Longrightarrow> list_all2 (\<lambda>c (op, u). encodes ops st (into_scene u g) (ch_quad c) \<and> (ch_added c \<longleftrightarrow> op = OpAdded)) (map change_of as) (strip as)"
  by (induction as) (auto simp: strip_def change_of_def records_def)

text \<open>Validation and what follows, from the state the delta and the rules left.\<close>

lemma tick_finish_meets:
  fixes V :: "('s, 'shapes, 'report) shacl_lib"
  assumes l: "leads c c2" and i: "inside st0 (fst c2)" and h: "wf_holon h" "graphs_apart h" and p: "permitted (snd c) (hl_scene h) d"
    and pr: "is_str (pr_id (se_principal (snd c)))" and v: "version_is (quads c) h v" and rec: "records (fst c2) (hl_scene h) as"
    and ts: "inferred R ops view h d rules (quads c) ts" "\<forall>t\<in>set ts. allowed (snd c) (into_scene t (hl_scene h)) WRITE"
    and q2: "quads c2 = delta_result (hl_scene h) d ts (quads c)" and ch: "strip as = delta_changes (hl_scene h) d ts (quads c)"
    and cost: "used c2 + 4 * changes_cost (strip as) + 40 \<le> 2 ^ 60"
  obtains c' and r :: "'report tick_outcome hres" where "tick_finish V ops sc h at w as c2 = (c', r)" "leads c c'"
    "tick_meets V R ops view h d rules v w at (snd c) (quads c) r (quads c')"
proof (cases "validate V ops (fst c2) h (map change_of as)")
  case bad: (Inl e)
  have "(\<exists>s. e = HolonShacl s) \<and> \<not> shacl_total V" using validate_error [OF _ h(1) bad] l by (simp add: leads_def good_def)
  then show thesis using bad l by (intro that [of c2 "Inl e"]) (simp_all add: tick_finish_def tick_meets_def)
next
  case good: (Inr x)
  let ?g = "hl_scene h"
  obtain n report where x: "x = (n, report)" by (rule prod.exhaust)
  define adm where "adm \<longleftrightarrow> n = 0 \<or> hl_admission h = AdmitAndRecord"
  define Q0 where "Q0 = (if adm then quads c2 else unapply ?g (strip as) (quads c2))"
  have Q0: "Q0 = (if adm then delta_result ?g d ts (quads c) else quads c)" unfolding Q0_def q2 ch unapply_delta ..
  have vs: "version_is (quads c2) h v" "version_is Q0 h v" using v version_is_delta [OF h(2)] by (simp_all add: q2 Q0)
  have se: "se_principal (snd c2) = se_principal (snd c)" using l by (simp add: leads_def same_principal_def)
  have pr2: "is_str (pr_id (se_principal (snd c2)))" using pr se by simp
  let ?t = "\<lparr>to_version = w, to_admitted = adm, to_violations = n, to_applied = (if adm then length as else 0), to_report = report\<rparr>"
  obtain c3 where 3: "tick_finish V ops sc h at w as c2 = (c3, Inr ?t)" "leads c2 c3"
    "quads c3 = insert (version_quad h w) ((Q0 \<union> set (event_to_quads (tick_record_of h w at (snd c2) as adm n))) - {version_quad h v})"
    using tick_finish_spec [OF leads_good [OF l] i rec h pr2 vs(1) cost good [unfolded x] adm_def Q0_def vs(2)] by blast
  have len: "length as = length (delta_changes ?g d ts (quads c))" by (simp flip: ch)
  have res: "quads c3 = tick_result h d ts v w at (pr_id (se_principal (snd c))) adm n (quads c)"
    unfolding 3(3) Q0 tick_result_def tick_record_of_def by (simp add: se ch [unfolded strip_def])
  have "judged V ops view h d ts (quads c) ?t" using q2 good [unfolded x] recorded_changes [OF rec] unfolding judged_def ch by auto
  then show thesis
    by (intro that [OF 3(1) leads_trans [OF l 3(2)]])
       (use p ts len res in \<open>auto simp: tick_meets_def adm_def intro!: exI [of _ ts]\<close>)
qed

lemma tick_steps_spec:
  fixes V :: "('s, 'shapes, 'report) shacl_lib"
  assumes c: "good c" and i: "inside st0 (fst c)" and h: "wf_holon h" "graphs_apart h" and d: "wf_delta d"
    and pr: "is_str (pr_id (se_principal (snd c)))" and v: "version_is (quads c) h v" and R: "rules_bounded R N"
    and room: "used c + 5 * (ts_cost (dl_added d) + ts_cost (dl_removed d) + N) + 40 \<le> 2 ^ 60"
  obtains ru c' and r :: "'report tick_outcome hres" where "tick_steps V R ops sc h at d w rules c = (ru, c', r)" "leads c c'"
    "tick_meets V R ops view h d rules v w at (snd c) (quads c) r (quads c')" "\<not> permitted (snd c) (hl_scene h) d \<Longrightarrow> r = Inl (WriteDenied (hl_scene h))"
proof (cases "permitted (snd c) (hl_scene h) d")
  let ?g = "hl_scene h"
  have g: "is_str ?g" using h(1) by (simp add: wf_holon_def)
  have "used c + (ts_cost (dl_added d) + ts_cost (dl_removed d)) \<le> 2 ^ 60" using room by simp
  note del = apply_delta_spec [OF c d g this]
  {
    case False
    obtain c1 where "apply_delta ops ?g d c = (c1, Inl (WriteDenied ?g))" "leads c c1" using del unfolding if_not_P [OF False] by blast
    then show thesis using False by (intro that [of rules c1 "Inl (WriteDenied ?g)"]) (simp_all add: tick_steps_def tick_meets_def)
  next
    case True
    obtain c1 as where 1: "apply_delta ops ?g d c = (c1, Inr as)" "leads c c1" "quads c1 = (quads c \<union> into ?g (dl_added d)) - into ?g (dl_removed d)"
      "used c1 \<le> used c + (ts_cost (dl_added d) + ts_cost (dl_removed d))" "records (fst c1) ?g as" "strip as = delta_changes ?g d [] (quads c)"
      using del unfolding if_P [OF True] by blast
    have i1: "inside st0 (fst c1)" using apply_delta_inside [OF i, of ?g d] 1(1) by simp
    have room1: "used c1 + N \<le> 2 ^ 60" using room 1(4) by simp
    obtain ru c2 r where 2: "fire_rules R ops h as rules c1 = (ru, c2, r)" "leads c1 c2" "case r of
        Inl e \<Rightarrow> rules \<noteq> None \<and> (e = WriteDenied ?g \<or> (\<exists>s. e = HolonShacl s))
      | Inr as' \<Rightarrow> \<exists>ts. (case rules of None \<Rightarrow> ts = [] | Some ru \<Rightarrow> \<exists>ru'. fire R (fst c1) h (map change_of as) ru = (ru', Inr ts)) \<and> (\<forall>t\<in>set ts. allowed (snd c1) (into_scene t ?g) WRITE) \<and> ts_cost ts \<le> N
        \<and> quads c2 = quads c1 \<union> into ?g ts \<and> used c2 \<le> used c1 + ts_cost ts \<and> records (fst c2) ?g as'
        \<and> strip as' = strip as @ eff_added ?g ts (quads c1)"
      using fire_rules_spec [OF leads_good [OF 1(2)] 1(5) g R room1, of rules] by blast
    have l2: "leads c c2" by (rule leads_trans [OF 1(2) 2(2)])
    show thesis
    proof (cases r)
      case (Inl e)
      then show thesis using 1(1) 2(1,3) l2 True by (intro that [of ru c2 "Inl e"]) (simp_all add: tick_steps_def tick_meets_def)
    next
      case (Inr as')
      then obtain ts where fired: "(case rules of None \<Rightarrow> ts = [] | Some ru \<Rightarrow> \<exists>ru'. fire R (fst c1) h (map change_of as) ru = (ru', Inr ts))"
        and ts: "\<forall>t\<in>set ts. allowed (snd c) (into_scene t ?g) WRITE" "ts_cost ts \<le> N"
        "quads c2 = quads c1 \<union> into ?g ts" "used c2 \<le> used c1 + ts_cost ts" "records (fst c2) ?g as'" "strip as' = strip as @ eff_added ?g ts (quads c1)"
        using 2(3) leads_allowed [OF 1(2)] by auto
      have "quads c1 = delta_result ?g d [] (quads c)" by (simp add: 1(3) delta_result_def into_def)
      then have inf: "inferred R ops view h d rules (quads c) ts"
        using fired recorded_changes [OF 1(5)] unfolding inferred_def 1(6) by (auto split: option.splits)
      have i2: "inside st0 (fst c2)" using fire_rules_inside [OF i1, of R h as rules] 2(1) by simp
      have q2: "quads c2 = delta_result ?g d ts (quads c)" and ch: "strip as' = delta_changes ?g d ts (quads c)"
        using ts(3,6) 1(3,6) by (simp_all add: delta_result_def delta_changes_def)
      have cost: "used c2 + 4 * changes_cost (strip as') + 40 \<le> 2 ^ 60"
        using room 1(4) ts(2,4) delta_cost [of ?g d ts "quads c"] by (simp add: ch)
      obtain c' r' where "tick_finish V ops sc h at w as' c2 = (c', r')" "leads c c'" "tick_meets V R ops view h d rules v w at (snd c) (quads c) r' (quads c')"
        by (rule tick_finish_meets [OF l2 i2 h True pr v ts(5) inf ts(1) q2 ch cost])
      then show thesis using 1(1) 2(1) Inr True by (intro that [of ru c' r']) (simp_all add: tick_steps_def)
    qed
  }
qed

lemma meets_error: "isl r \<Longrightarrow> tick_meets V R ops view h d rules v w at se Q r Q1 \<Longrightarrow> tick_meets V R ops view h d rules v w at se Q r Q2"
  by (cases r) (simp_all add: tick_meets_def)

lemma tick_spec:
  fixes V :: "('s, 'shapes, 'report) shacl_lib"
  assumes c: "good c" "\<not> op_in_scope sc (fst c)" and h: "wf_holon h" "graphs_apart h" "refused_regime (hl_projections h) = None" and d: "wf_delta d"
    and pr: "is_str (pr_id (se_principal (snd c)))" and v: "version_is (quads c) h v" and R: "rules_bounded R N"
    and room: "used c + 5 * (ts_cost (dl_added d) + ts_cost (dl_removed d) + N) + 40 \<le> 2 ^ 60"
  obtains ru c' and r :: "'report tick_outcome hres" where "tick_with_rules V R ops sc h at d rules c = (ru, c', r)" "leads c c'" "\<not> op_in_scope sc (fst c')"
    "tick_meets V R ops view h d rules v (v + 1) at (snd c) (quads c) r (quads c')" "isl r \<Longrightarrow> quads c' = quads c"
    "\<not> permitted (snd c) (hl_scene h) d \<Longrightarrow> r = Inl (WriteDenied (hl_scene h))"
proof -
  obtain s1 where 1: "begin_commit sc (fst c) = (s1, Inr True)" "inside (fst c) s1" "leads c (s1, snd c)" "rdf_quads ops view s1 = quads c"
    "op_dictionary_len ops s1 = used c" by (rule open_scope [OF c])
  let ?c1 = "(s1, snd c)"
  have g1: "good ?c1" by (rule leads_good [OF 1(3)])
  have "version ops s1 h = Inr v" using version_spec [of s1 h v] g1 h(1) v 1(4) by (simp add: good_def wf_holon_def)
  then have nv: "next_version ops s1 h = Inr (v + 1)" by (simp add: next_version_def)
  have pre: "inside (fst c) (fst ?c1)" "is_str (pr_id (se_principal (snd ?c1)))" "version_is (quads ?c1) h v"
    "used ?c1 + 5 * (ts_cost (dl_added d) + ts_cost (dl_removed d) + N) + 40 \<le> 2 ^ 60"
    using 1(2,4,5) pr v room by simp_all
  obtain ru c2 and r :: "'report tick_outcome hres" where 2: "tick_steps V R ops sc h at d (v + 1) rules ?c1 = (ru, c2, r)" "leads ?c1 c2"
    "tick_meets V R ops view h d rules v (v + 1) at (snd c) (quads c) r (quads c2)" "\<not> permitted (snd c) (hl_scene h) d \<Longrightarrow> r = Inl (WriteDenied (hl_scene h))"
    using tick_steps_spec [where V = V and at = at and w = "v + 1" and rules = rules, OF g1 pre(1) h(1,2) d pre(2,3) R pre(4)] 1(4)
    by (metis fst_conv snd_conv)
  have body: "tick_body V R ops sc h at d rules ?c1 = (ru, c2, r)" using 2(1) nv h(3) by (simp add: tick_body_def)
  have i2: "inside (fst c) (fst c2)" using tick_body_inside [of "fst c" ?c1 V R h at d rules] 1(2) body by simp
  have l2: "leads c c2" by (rule leads_trans [OF 1(3) 2(2)])
  obtain s3 where 3: "end_commit sc True (\<not> isl r) (fst c2) = (s3, Inr ())" "leads c (s3, snd c2)" "\<not> op_in_scope sc s3"
    "rdf_quads ops view s3 = (if \<not> isl r then quads c2 else quads c)" by (rule close_scope [OF c(1) l2 i2])
  have meets: "tick_meets V R ops view h d rules v (v + 1) at (snd c) (quads c) r (rdf_quads ops view s3)"
    using 2(3) 3(4) meets_error [of r V R h d rules v "v + 1" at "snd c" "quads c" "quads c2" "rdf_quads ops view s3"]
    by (cases "isl r") simp_all
  show thesis
    by (rule that [of _ "(s3, snd c2)" r])
       (use 1(1) body 3 2(4) meets in \<open>simp_all add: tick_with_rules_def\<close>)
qed

end

section \<open>The in-memory tier\<close>

lemma mem_begin_same: "mem_begin st = (st', Inr u) \<Longrightarrow> ms_dictionary st' = ms_dictionary st \<and> ms_index st' = ms_index st"
  by (auto simp: mem_begin_def split: if_splits)

lemma mem_commit_same: "mem_commit st = (st', Inr u) \<Longrightarrow> ms_dictionary st' = ms_dictionary st \<and> ms_index st' = ms_index st"
  by (auto simp: mem_commit_def split: if_splits)

interpretation mholon: holon_store "memory_ops X" "mem_store_ok X" mem_view memory_scope mem_index_ok scope_of "\<lambda>st. (ms_index st, generation st)" for X
proof
  fix st0 st st' and u :: unit
  show "mem_store_ok X st \<Longrightarrow> mem_index_ok st" by (simp add: mem_store_ok_def)
  show "mem_store_ok X st \<Longrightarrow> op_begin memory_scope st = (st', Inr u) \<Longrightarrow> mem_store_ok X st' \<and> mem_view st' = mem_view st
      \<and> op_lookup (memory_ops X) st' = op_lookup (memory_ops X) st \<and> op_dictionary_len (memory_ops X) st' = op_dictionary_len (memory_ops X) st"
    using mem_begin_same [of st st' u]
    by (simp add: memory_scope_def memory_ops_def mem_store_ok_def mem_index_ok_def mem_view_def mem_lookup_def mem_dictionary_len_def fun_eq_iff)
  show "mem_store_ok X st \<Longrightarrow> op_commit memory_scope st = (st', Inr u) \<Longrightarrow> mem_store_ok X st' \<and> mem_view st' = mem_view st
      \<and> op_lookup (memory_ops X) st' = op_lookup (memory_ops X) st \<and> op_dictionary_len (memory_ops X) st' = op_dictionary_len (memory_ops X) st"
    using mem_commit_same [of st st' u]
    by (simp add: memory_scope_def memory_ops_def mem_store_ok_def mem_index_ok_def mem_view_def mem_lookup_def mem_dictionary_len_def fun_eq_iff)
  show "scope_of st0 st \<Longrightarrow> mem_store_ok X st \<Longrightarrow> mem_store_ok X (op_rollback memory_scope st) \<and> mem_view (op_rollback memory_scope st) = mem_view st0
      \<and> op_lookup (memory_ops X) (op_rollback memory_scope st) = op_lookup (memory_ops X) st
      \<and> op_dictionary_len (memory_ops X) (op_rollback memory_scope st) = op_dictionary_len (memory_ops X) st"
    using rollback_view [of st0 st]
    by (simp add: scope_of_def memory_scope_def memory_ops_def mem_store_ok_def mem_lookup_def mem_dictionary_len_def fun_eq_iff)
qed

text \<open>A store outside every commit scope with a session opened on it, in good order.\<close>

definition in_order :: "'dt xsd_lib \<Rightarrow> memory_storage \<Rightarrow> session \<Rightarrow> bool" where
  "in_order X st se \<longleftrightarrow> mem_store_ok X st \<and> decodable (memory_ops X) mem_view st \<and> session_valid (memory_ops X) st se \<and> \<not> mem_in_scope st"

definition stored :: "'dt xsd_lib \<Rightarrow> memory_storage \<Rightarrow> quad set" where
  "stored X st = rdf_quads (memory_ops X) mem_view st"

definition tickable :: "holon \<Rightarrow> bool" where
  "tickable h \<longleftrightarrow> wf_holon h \<and> graphs_apart h \<and> refused_regime (hl_projections h) = None"

lemma in_order_good: "in_order X st se \<Longrightarrow> growing_storage.good (memory_ops X) (mem_store_ok X) mem_view (st, se)" "in_order X st se \<Longrightarrow> \<not> op_in_scope memory_scope (fst (st, se))"
  by (simp_all add: in_order_def mgrow.good_def memory_scope_def)

lemma in_order_leads: "growing_storage.leads (memory_ops X) (mem_store_ok X) mem_view c c' \<Longrightarrow> \<not> op_in_scope memory_scope (fst c') \<Longrightarrow> in_order X (fst c') (snd c')"
  by (simp add: in_order_def mgrow.good_def mgrow.leads_def memory_scope_def)

lemma new_in_order:
  assumes "xsd_lib_ok X" "wf_policy po"
  obtains se where "session_open (memory_ops X) store_new p po = Inr se" "in_order X store_new se" "se_policy se = po" "se_principal se = p"
proof -
  note new = new_store_ok [OF assms(1)]
  then have ok: "mem_store_ok X store_new" by simp
  obtain se where "session_open (memory_ops X) store_new p po = Inr se" "session_valid (memory_ops X) store_new se" "se_policy se = po" "se_principal se = p"
    by (rule mgrow.open_valid [OF ok assms(2)])
  then show thesis using that [of se] new by (simp add: in_order_def mem_in_scope_def store_new_def new_memory_def)
qed

lemma tick_outcome:
  assumes "in_order X st se" "tickable h" "wf_delta d" "is_str (pr_id (se_principal se))" "version_is (stored X st) h v" "rules_bounded R N"
    and "mem_dictionary_len st + 5 * (ts_cost (dl_added d) + ts_cost (dl_removed d) + N) + 40 \<le> 2 ^ 60"
    and "(ru, (st', se'), r) = tick_with_rules V R (memory_ops X) memory_scope h at d rules (st, se)"
  shows "in_order X st' se' \<and> tick_meets V R (memory_ops X) mem_view h d rules v (v + 1) at se (stored X st) r (stored X st')
    \<and> (isl r \<longrightarrow> stored X st' = stored X st) \<and> (\<not> permitted se (hl_scene h) d \<longrightarrow> r = Inl (WriteDenied (hl_scene h))) \<and> same_principal se se'"
proof -
  have h: "wf_holon h" "graphs_apart h" "refused_regime (hl_projections h) = None" using assms(2) by (simp_all add: tickable_def)
  have pre: "is_str (pr_id (se_principal (snd (st, se))))" "version_is (rdf_quads (memory_ops X) mem_view (fst (st, se))) h v"
    using assms(4,5) by (simp_all add: stored_def)
  have room: "op_dictionary_len (memory_ops X) (fst (st, se)) + 5 * (ts_cost (dl_added d) + ts_cost (dl_removed d) + N) + 40 \<le> 2 ^ 60"
    using assms(7) by (simp add: memory_ops_def)
  show ?thesis
    by (rule mholon.tick_spec [where V = V and at = at and rules = rules, OF in_order_good [OF assms(1)] h assms(3) pre assms(6) room])
       (use assms(8) in_order_leads [of X "(st, se)" "(st', se')"] in \<open>auto simp: stored_def mgrow.leads_def\<close>)
qed

text \<open>
  C7. A tick is what its specification says, on every branch. A forbidden triple anywhere in the delta
  makes the tick fail with a denied write to the scene, and every failure leaves the stored quads as they
  were; without rules a permitted delta fails only if the validator does. A tick that succeeds moves the
  version on by one and decides admission by the violations and the holon's policy. Admitted, the scene
  is the old one with the additions, less the removals, plus the triples the rules inferred when fired on
  that scene with exactly the changes that took effect; refused, every quad
  the tick wrote or removed is back as it was. Either way the event log gains exactly the quads recording
  the changes that took effect, and the version in the system graph is replaced.
\<close>

theorem tick_refines:
  assumes "in_order X st se" "tickable h" "wf_delta d" "is_str (pr_id (se_principal se))" "version_is (stored X st) h v" "rules_bounded R N"
    and "mem_dictionary_len st + 5 * (ts_cost (dl_added d) + ts_cost (dl_removed d) + N) + 40 \<le> 2 ^ 60"
    and "(ru, (st', se'), r) = tick_with_rules V R (memory_ops X) memory_scope h at d rules (st, se)"
  shows "in_order X st' se' \<and> tick_meets V R (memory_ops X) mem_view h d rules v (v + 1) at se (stored X st) r (stored X st')
    \<and> (isl r \<longrightarrow> stored X st' = stored X st) \<and> (\<not> permitted se (hl_scene h) d \<longrightarrow> r = Inl (WriteDenied (hl_scene h)))"
  using tick_outcome [OF assms] by blast

definition sample_triple :: triple where
  "sample_triple = \<lparr>tr_subject = NodeNamed ''urn:a'', tr_predicate = ''urn:p'', tr_object = Literal (SimpleLit ''v'')\<rparr>"

definition sample_holon :: holon where
  "sample_holon = holon_new ''urn:h''"

lemma sample_tickable: "tickable sample_holon" "wf_delta (delta_adding [sample_triple])" "ts_cost [sample_triple] = 4"
  using wf_holon_new [of "''urn:h''"] holon_new_apart [of "''urn:h''"]
  by (simp_all add: tickable_def sample_holon_def holon_new_def Let_def wf_delta_def delta_adding_def sample_triple_def) code_simp+

lemma fixed_shacl_found: "validate (fixed_shacl n) ops st h cs = Inr (m, report) \<Longrightarrow> m = 0 \<or> m = n"
  by (auto simp: validate_def fixed_shacl_def from_shacl_def split: sum.splits option.splits)

theorem tick_refines_witness:
  "\<exists>se ru st' se' t. session_open (memory_ops demo_lib) store_new anonymous policy_permit_all = Inr se
    \<and> tick_with_rules (fixed_shacl 0) (fixed_rules []) (memory_ops demo_lib) memory_scope sample_holon 0 (delta_adding [sample_triple]) None (store_new, se)
      = (ru, (st', se'), Inr t)
    \<and> to_admitted t \<and> to_version t = 1 \<and> into_scene sample_triple (hl_scene sample_holon) \<in> stored demo_lib st'"
proof -
  let ?X = "demo_lib" and ?h = sample_holon and ?d = "delta_adding [sample_triple]"
  have po: "wf_policy policy_permit_all" by code_simp
  obtain se where se: "session_open (memory_ops ?X) store_new anonymous policy_permit_all = Inr se" "in_order ?X store_new se" "se_policy se = policy_permit_all"
    "se_principal se = anonymous" by (rule new_in_order [OF demo_lib_ok po])
  obtain ru st' se' r where t: "(ru, (st', se'), r) = tick_with_rules (fixed_shacl 0) (fixed_rules []) (memory_ops ?X) memory_scope ?h 0 ?d None (store_new, se)"
    by (metis prod_cases3 surj_pair)
  have new: "stored ?X store_new = {}" "mem_dictionary_len store_new = 0"
    using new_store_ok [OF demo_lib_ok] by (simp_all add: stored_def rdf_view_def memory_ops_def)
  have pre: "is_str (pr_id (se_principal se))" "version_is (stored ?X store_new) ?h 0" "rules_bounded (fixed_rules [] :: (memory_storage, unit) rule_lib) 0"
    unfolding se(4) new(1) by (code_simp, simp_all add: version_is_def objects_def rules_bounded_def fixed_rules_def)
  have room: "mem_dictionary_len store_new + 5 * (ts_cost (dl_added ?d) + ts_cost (dl_removed ?d) + 0) + 40 \<le> 2 ^ 60"
    using sample_tickable(3) by (simp add: new(2) delta_adding_def)
  note o = tick_refines [OF se(2) sample_tickable(1,2) pre room t]
  have "policy_decides policy_permit_all anonymous (into_scene sample_triple (hl_scene ?h)) WRITE = AllowIt" by code_simp
  then have p: "permitted se (hl_scene ?h) ?d" by (simp add: permitted_def allowed_def delta_adding_def se(3,4))
  have "shacl_total (fixed_shacl 0 :: (memory_storage, unit, nat) shacl_lib)" by (simp add: shacl_total_def fixed_shacl_def)
  with o p obtain t where r: "r = Inr t" "to_version t = 1" "to_admitted t \<longleftrightarrow> to_violations t = 0 \<or> hl_admission ?h = AdmitAndRecord"
      "judged (fixed_shacl 0) (memory_ops ?X) mem_view ?h ?d [] {} t"
      "stored ?X st' = tick_result ?h ?d [] 0 1 0 (pr_id (se_principal se)) (to_admitted t) (to_violations t) {}"
    by (cases r) (auto simp: tick_meets_def inferred_def new(1))
  have "to_violations t = 0" using r(4) fixed_shacl_found [of 0] by (auto simp: judged_def)
  then have a: "to_admitted t" using r(3) by simp
  have "into_scene sample_triple (hl_scene ?h) \<noteq> version_quad ?h 0" by (simp add: into_scene_def version_quad_def literal_quad_def sample_triple_def)
  then have "into_scene sample_triple (hl_scene ?h) \<in> stored ?X st'" using r(5) a by (simp add: tick_result_def delta_result_def delta_adding_def)
  then show ?thesis using se(1) t r a by metis
qed

end
