(* ===== verification/Holon_Registry.thy ===== *)
theory Holon_Registry
  imports Holon_Tick
begin

text \<open>
  Registration, loading and branching of holons, at the level of RDF: a holon's definition is the set of
  quads \<open>holon_quads\<close> in the system graph, loading reads it back, and a branch copies the scene and the
  boundary of its source under new names.
\<close>

section \<open>Registering\<close>

definition quads_cost :: "quad list \<Rightarrow> nat" where
  "quads_cost qs = sum_list (map quad_cost qs)"

context growing_storage
begin

lemma register_loop_spec:
  assumes "good c" "\<forall>q\<in>set qs. wf_quad q" "used c + quads_cost qs \<le> 2 ^ 60"
  shows "if \<forall>q\<in>set qs. allowed (snd c) q ADMIN then
      \<exists>c'. register_loop ops qs c = (c', Inr ()) \<and> leads c c' \<and> quads c' = quads c \<union> set qs \<and> used c' \<le> used c + quads_cost qs
    else \<exists>c'. register_loop ops qs c = (c', Inl (WriteDenied system_graph)) \<and> leads c c'"
  using assms
proof (induction qs arbitrary: c)
  case (Cons q qs)
  have wf: "wf_quad q" and room: "used c + quad_cost q \<le> 2 ^ 60" using Cons.prems by (simp_all add: quads_cost_def)
  obtain e s1 se pol where 1: "encode_quad ops q (fst c) = (s1, Inr e)" "session_policy ops s1 (snd c) = (se, Inr pol)"
    "leads c (s1, se)" "rdf_quads ops view s1 = quads c" "op_dictionary_len ops s1 \<le> used c + quad_cost q" "encodes ops s1 q e"
    "\<And>m. permits_quad pol e m \<longleftrightarrow> allowed (snd c) q m"
    using encode_and_ask [OF Cons.prems(1) wf room] by metis
  obtain s3 where 3: "op_insert_encoded ops e s1 = (s3, Inr (q \<notin> quads c))" "leads (s1, se) (s3, se)" "rdf_quads ops view s3 = insert q (quads c)"
    "op_dictionary_len ops s3 = op_dictionary_len ops s1"
    using insert_write [OF leads_good [OF 1(3)] wf, of e] 1(4,6) by (metis fst_conv snd_conv)
  have l: "leads c (s3, se)" by (rule leads_trans [OF 1(3) 3(2)])
  have pre: "\<forall>q\<in>set qs. wf_quad q" "used (s3, se) + quads_cost qs \<le> 2 ^ 60" using Cons.prems(2,3) 1(5) 3(4) by (simp_all add: quads_cost_def)
  note IH = Cons.IH [OF leads_good [OF l] pre, unfolded leads_allowed [OF l]]
  show ?case
  proof (cases "allowed (snd c) q ADMIN")
    case True
    then have step: "register_loop ops (q # qs) c = register_loop ops qs (s3, se)" using 1(1,2,7) 3(1) by (simp add: act_simps)
    show ?thesis
    proof (cases "\<forall>q\<in>set qs. allowed (snd c) q ADMIN")
      case all: True
      obtain c' where "register_loop ops qs (s3, se) = (c', Inr ())" "leads (s3, se) c'" "quads c' = quads (s3, se) \<union> set qs"
        "used c' \<le> used (s3, se) + quads_cost qs" using IH unfolding if_P [OF all] by blast
      then show ?thesis using all True step 1(5) 3(3,4) leads_trans [OF l] by (auto simp: quads_cost_def simp del: register_loop.simps)
    next
      case some: False
      then show ?thesis using IH step leads_trans [OF l] unfolding if_not_P [OF some] by (auto simp del: register_loop.simps)
    qed
  next
    case False
    then have "register_loop ops (q # qs) c = ((s1, se), Inl (WriteDenied system_graph))" using 1(1,2,7) by (simp add: act_simps)
    with False 1(3) show ?thesis by (auto simp del: register_loop.simps)
  qed
qed (simp add: quads_cost_def)

section \<open>Loading\<close>

lemma load_field_spec:
  assumes ok: "ok st" "decodable ops view st" and str: "is_str i" "is_str p"
    and ids: "op_lookup ops st (NamedNode i) = Inr (Some si)" "op_lookup ops st (NamedNode system_graph) = Inr (Some gi)"
    and own: "objects (rdf_quads ops view st) i p system_graph = {NamedNode n}"
  shows "load_field ops st (FilterNamed gi) si p assign h = Inr (assign n h)"
proof -
  obtain r where "registry_object ops st (FilterNamed gi) si p = Inr r"
    "case r of None \<Rightarrow> objects (rdf_quads ops view st) i p system_graph = {} | Some x \<Rightarrow> x \<in> objects (rdf_quads ops view st) i p system_graph"
    using registry_object_spec [OF ok str is_str_names(1) ids] by auto
  then show ?thesis using own by (cases r) (simp_all add: load_field_def)
qed

text \<open>A system graph that says of a holon what \<open>register\<close> writes, and nothing else, in the fields \<open>load\<close> reads.\<close>

end

definition defines_holon :: "quad set \<Rightarrow> holon \<Rightarrow> bool" where
  "defines_holon Q h \<longleftrightarrow> named_quad (hl_id h) rdf_type (holos ''Holon'') system_graph \<in> Q
    \<and> objects Q (hl_id h) (holos ''scene'') system_graph = {NamedNode (hl_scene h)}
    \<and> objects Q (hl_id h) (holos ''boundary'') system_graph = {NamedNode (hl_boundary h)}
    \<and> objects Q (hl_id h) (holos ''events'') system_graph = {NamedNode (hl_events h)}
    \<and> objects Q (hl_id h) (holos ''admits'') system_graph = {NamedNode (admission_iri (hl_admission h))}"

context growing_storage
begin

lemma declared_scan:
  assumes ok: "ok st" "decodable ops view st" and str: "is_str i" and q: "named_quad i rdf_type (holos ''Holon'') system_graph \<in> rdf_quads ops view st"
    and ids: "op_lookup ops st (NamedNode i) = Inr (Some si)" "op_lookup ops st (NamedNode rdf_type) = Inr (Some pi)"
      "op_lookup ops st (NamedNode (holos ''Holon'')) = Inr (Some ci)" "op_lookup ops st (NamedNode system_graph) = Inr (Some gi)"
  obtains f where "first_quad (op_scan ops st (Some si) (Some pi) (Some ci) (FilterNamed gi)) = Inr (Some f)"
proof -
  let ?q = "named_quad i rdf_type (holos ''Holon'') system_graph"
  obtain es where es: "op_scan ops st (Some si) (Some pi) (Some ci) (FilterNamed gi) = map Inr es"
    "\<And>e. e \<in> set es \<longleftrightarrow> (\<exists>q\<in>rdf_quads ops view st. encodes ops st q e \<and> q_subject q = NodeNamed i \<and> q_predicate q = rdf_type
      \<and> q_graph q = GraphNamed system_graph \<and> (\<forall>i\<in>set_option (Some ci). enc_object e = i))"
    using registry_scan [OF ok str is_str_names(2,1) ids(1,2,4), of "Some ci"] by blast
  obtain e where e: "encodes ops st ?q e" using q by (auto simp: rdf_quads_def)
  then have "enc_object e = ci" using ids(3) by (simp add: encodes_iff named_quad_def)
  then have "e \<in> set es" unfolding es(2) using q e by (auto simp: named_quad_def)
  then obtain f fs where "es = f # fs" by (cases es) auto
  then show thesis using es(1) by (intro that [of f]) simp
qed

lemma load_defined:
  assumes ok: "ok st" "decodable ops view st" and str: "is_str (hl_id h)" and d: "defines_holon (rdf_quads ops view st) h"
  shows "load ops st (hl_id h) = Inr (Some (h\<lparr>hl_projections := []\<rparr>))"
proof -
  let ?q = "named_quad (hl_id h) rdf_type (holos ''Holon'') system_graph"
  have q: "?q \<in> rdf_quads ops view st" using d by (simp add: defines_holon_def)
  obtain si pi ci gi where ids: "op_lookup ops st (NamedNode (hl_id h)) = Inr (Some si)" "op_lookup ops st (NamedNode rdf_type) = Inr (Some pi)"
    "op_lookup ops st (NamedNode (holos ''Holon'')) = Inr (Some ci)" "op_lookup ops st (NamedNode system_graph) = Inr (Some gi)"
    using stored_lookup [OF q] by (auto simp: named_quad_def)
  obtain f where declared: "first_quad (op_scan ops st (Some si) (Some pi) (Some ci) (FilterNamed gi)) = Inr (Some f)"
    by (rule declared_scan [OF ok str q ids])
  have g: "registry_graph_filter ops st system_graph = Inr (Some (FilterNamed gi))" using ids(4) by (simp add: registry_graph_filter_def from_store_def)
  note f = load_field_spec [OF ok str _ ids(1,4)]
  have fields: "load_field ops st (FilterNamed gi) si (holos ''scene'') s k = Inr (s (hl_scene h) k)"
    "load_field ops st (FilterNamed gi) si (holos ''boundary'') s k = Inr (s (hl_boundary h) k)"
    "load_field ops st (FilterNamed gi) si (holos ''events'') s k = Inr (s (hl_events h) k)"
    "load_field ops st (FilterNamed gi) si (holos ''admits'') s k = Inr (s (admission_iri (hl_admission h)) k)" for s k
    using d by (intro f; simp add: defines_holon_def)+
  have adm: "(if admission_iri (hl_admission h) = holos ''AdmitAndRecord'' then AdmitAndRecord else Reject) = hl_admission h"
    by (cases "hl_admission h") (simp_all add: holos_def)
  show ?thesis
    by (simp add: load_def g ids declared fields adm) (simp add: holon_new_def Let_def)
qed

end

lemma rdf_type_not_holos [simp]: "rdf_type \<noteq> holos l" "holos l \<noteq> rdf_type"
  by (simp_all add: rdf_type_def holos_def)

lemma objects_Un: "objects (Q \<union> P) s p g = objects Q s p g \<union> objects P s p g"
  by (auto simp: objects_def)

lemma objects_list: "objects (set (q # qs)) s p g =
    (if q_subject q = NodeNamed s \<and> q_predicate q = p \<and> q_graph q = GraphNamed g then {q_object q} else {}) \<union> objects (set qs) s p g"
  "objects (set []) s p g = {}"
  by (auto simp: objects_def)

lemma projection_objects: "p \<notin> {holos ''projection'', holos ''query'', holos ''regime''} \<Longrightarrow> objects (set (concat (map (projection_quads h) ps))) s p g = {}"
  by (auto simp: objects_def projection_quads_def named_quad_def literal_quad_def)

text \<open>The fields \<open>load\<close> reads hold nothing, or already what the holon says.\<close>

definition unclaimed :: "quad set \<Rightarrow> holon \<Rightarrow> bool" where
  "unclaimed Q h \<longleftrightarrow> objects Q (hl_id h) (holos ''scene'') system_graph \<subseteq> {NamedNode (hl_scene h)}
    \<and> objects Q (hl_id h) (holos ''boundary'') system_graph \<subseteq> {NamedNode (hl_boundary h)}
    \<and> objects Q (hl_id h) (holos ''events'') system_graph \<subseteq> {NamedNode (hl_events h)}
    \<and> objects Q (hl_id h) (holos ''admits'') system_graph \<subseteq> {NamedNode (admission_iri (hl_admission h))}"

lemma holon_quads_objects:
  assumes "p \<notin> {holos ''projection'', holos ''query'', holos ''regime''}"
  shows "objects (set (holon_quads h)) (hl_id h) p system_graph =
    (if p = rdf_type then {NamedNode (holos ''Holon'')} else if p = holos ''scene'' then {NamedNode (hl_scene h)}
     else if p = holos ''boundary'' then {NamedNode (hl_boundary h)} else if p = holos ''events'' then {NamedNode (hl_events h)}
     else if p = holos ''admits'' then {NamedNode (admission_iri (hl_admission h))} else {})"
  unfolding holon_quads_def set_append objects_Un projection_objects [OF assms] objects_list by (simp add: named_quad_def)

lemma registered_defines: "unclaimed Q h \<Longrightarrow> defines_holon (Q \<union> set (holon_quads h)) h"
  unfolding defines_holon_def unclaimed_def objects_Un
  by (simp add: holon_quads_objects) (auto simp: holon_quads_def)

lemma holon_quads_graph: "q \<in> set (holon_quads h) \<Longrightarrow> q_graph q = GraphNamed system_graph"
  by (auto simp: holon_quads_def projection_quads_def named_quad_def literal_quad_def)

section \<open>Branching\<close>

definition copied :: "quad set \<Rightarrow> string \<Rightarrow> string \<Rightarrow> quad set" where
  "copied Q from to = (\<lambda>q. q\<lparr>q_graph := GraphNamed to\<rparr>) ` {q \<in> Q. q_graph q = GraphNamed from}"

definition graph_cost :: "quad set \<Rightarrow> string \<Rightarrow> nat" where
  "graph_cost Q g = (\<Sum>q\<in>{q \<in> Q. q_graph q = GraphNamed g}. quad_cost q) + 1"

definition copy_into :: "string \<Rightarrow> string \<Rightarrow> quad set \<Rightarrow> quad set" where
  "copy_into from to Q = Q \<union> copied Q from to"

text \<open>The quads a branch leaves: scene and boundary copied, the child registered at its parent's version, and why it exists.\<close>

definition branch_result :: "holon \<Rightarrow> string \<Rightarrow> u64 \<Rightarrow> int \<Rightarrow> quad set \<Rightarrow> quad set" where
  "branch_result source i v at Q =
    (let child = branch_child source i in
     insert (version_quad child v)
       (copy_into (hl_boundary source) (hl_boundary child) (copy_into (hl_scene source) (hl_scene child) Q) \<union> set (holon_quads child))
     \<union> set (branch_quads child \<lparr>bp_parent = hl_id source, bp_version = v\<rparr> at))"

definition branch_cost :: "holon \<Rightarrow> string \<Rightarrow> quad set \<Rightarrow> nat" where
  "branch_cost source i Q = graph_cost Q (hl_scene source)
    + graph_cost (copy_into (hl_scene source) (hl_scene (branch_child source i)) Q) (hl_boundary source)
    + quads_cost (holon_quads (branch_child source i)) + 16"

text \<open>An IRI nothing is said about yet: not a holon, no version, no field claimed, an empty event graph.\<close>

definition unused_id :: "quad set \<Rightarrow> holon \<Rightarrow> bool" where
  "unused_id Q h \<longleftrightarrow> named_quad (hl_id h) rdf_type (holos ''Holon'') system_graph \<notin> Q \<and> version_is Q h 0 \<and> unclaimed Q h
    \<and> {q \<in> Q. q_graph q = GraphNamed (hl_events h)} = {}"

lemma wf_branch_child: "is_str i \<Longrightarrow> wf_holon source \<Longrightarrow> wf_holon (branch_child source i)"
  using wf_holon_new [of i] by (simp add: branch_child_def wf_holon_def)

lemma branch_child_apart: "graphs_apart (branch_child source i)"
  using holon_new_apart [of i] by (simp add: branch_child_def graphs_apart_def)

lemma branch_child_id [simp]: "hl_id (branch_child source i) = i"
  by (simp add: branch_child_def holon_new_def Let_def)

lemma copied_graph: "q \<in> copied Q from to \<Longrightarrow> q_graph q = GraphNamed to"
  by (auto simp: copied_def)

lemma wf_branch_quads:
  "wf_holon child \<Longrightarrow> is_str (bp_parent p) \<Longrightarrow> q \<in> set (branch_quads child p at) \<Longrightarrow> wf_quad q" "quads_cost (branch_quads child p at) = 12"
  by (auto simp: branch_quads_def wf_holon_def intro!: wf_named_quad wf_literal_quad)
     (simp add: branch_quads_def quads_cost_def named_quad_def literal_quad_def quad_cost_def)

text \<open>What registering a holon does to the stored quads.\<close>

definition register_meets :: "holon \<Rightarrow> session \<Rightarrow> quad set \<Rightarrow> unit hres \<Rightarrow> quad set \<Rightarrow> bool" where
  "register_meets h se Q r Q' \<longleftrightarrow>
    (if \<forall>q\<in>set (holon_quads h). allowed se q ADMIN then r = Inr () \<and> Q' = Q \<union> set (holon_quads h) else r = Inl (WriteDenied system_graph))"

text \<open>What branching does: it asks for the right to administer the new registry entry, and for nothing else.\<close>

definition branch_meets :: "holon \<Rightarrow> string \<Rightarrow> u64 \<Rightarrow> int \<Rightarrow> session \<Rightarrow> quad set \<Rightarrow> holon hres \<Rightarrow> quad set \<Rightarrow> bool" where
  "branch_meets source i v at se Q r Q' \<longleftrightarrow>
    (if \<forall>q\<in>set (holon_quads (branch_child source i)). allowed se q ADMIN
     then r = Inr (branch_child source i) \<and> Q' = branch_result source i v at Q
     else r = Inl (WriteDenied system_graph))"

lemma registered_version: "version_is (Q \<union> set (holon_quads h)) h v = version_is Q h v"
  unfolding version_is_def objects_Un by (simp add: holon_quads_objects)

lemma branch_version_objects: "objects (set (branch_quads h p at)) s q system_graph = {}" if "graphs_apart h"
  using that by (auto simp: objects_def branch_quads_def named_quad_def literal_quad_def graphs_apart_def)

lemma copied_objects: "g \<noteq> g' \<Longrightarrow> objects (copied Q from g') s p g = {}"
  by (auto simp: objects_def copied_def)

lemma branch_objects:
  assumes "p \<notin> {holos ''projection'', holos ''query'', holos ''regime''}"
  shows "objects (branch_result source i v at Q) i p system_graph =
    objects Q i p system_graph \<union> objects (set (holon_quads (branch_child source i))) i p system_graph
    \<union> (if p = holos ''version'' then {Literal (new_typed_literal (show_nat (unat v)) xsd_integer)} else {})"
proof -
  define child where "child = branch_child source i"
  have a: "graphs_apart child" unfolding child_def by (rule branch_child_apart)
  then have n: "system_graph \<noteq> hl_scene child" "system_graph \<noteq> hl_boundary child" by (auto simp: graphs_apart_def)
  show ?thesis
    unfolding branch_result_def Let_def child_def [symmetric] objects_Un objects_insert copy_into_def copied_objects [OF n(1)] copied_objects [OF n(2)]
      branch_version_objects [OF a]
    by (auto simp: version_quad_def literal_quad_def child_def)
qed

text \<open>The child is defined as its parent was, at the parent's version, and its event log holds the branch record alone.\<close>

lemma branch_defines: "unclaimed Q (branch_child source i) \<Longrightarrow> defines_holon (branch_result source i v at Q) (branch_child source i)"
  using registered_defines [of Q "branch_child source i"] unfolding defines_holon_def
  by (intro conjI; simp add: branch_objects objects_Un; auto simp: branch_result_def Let_def copy_into_def)

lemma branch_version: "version_is Q (branch_child source i) 0 \<Longrightarrow>
    objects (branch_result source i v at Q) i (holos ''version'') system_graph = {Literal (new_typed_literal (show_nat (unat v)) xsd_integer)}"
  using holon_quads_objects [of "holos ''version''" "branch_child source i"] by (simp add: branch_objects version_is_def)

lemma branch_log:
  assumes "{q \<in> Q. q_graph q = GraphNamed (hl_events (branch_child source i))} = {}"
  shows "{q \<in> branch_result source i v at Q. q_graph q = GraphNamed (hl_events (branch_child source i))}
    = set (branch_quads (branch_child source i) \<lparr>bp_parent = hl_id source, bp_version = v\<rparr> at)"
proof -
  let ?child = "branch_child source i" and ?p = "\<lparr>bp_parent = hl_id source, bp_version = v\<rparr>"
  have a: "graphs_apart ?child" by (rule branch_child_apart)
  have "q_graph q = GraphNamed (hl_events ?child)" if "q \<in> set (branch_quads ?child ?p at)" for q
    using that by (auto simp: branch_quads_def named_quad_def literal_quad_def)
  moreover have "q_graph q \<noteq> GraphNamed (hl_events ?child)" if "q \<in> branch_result source i v at Q" "q \<notin> set (branch_quads ?child ?p at)" for q
    using that assms a by (auto simp: branch_result_def Let_def copy_into_def graphs_apart_def version_quad_def literal_quad_def dest!: copied_graph holon_quads_graph)
  ultimately show ?thesis by (auto simp: branch_result_def Let_def)
qed

locale branching_store = holon_store ops ok view sc ready inside seen + readable_storage ops ok view
  for ops :: "'s storage_ops" and ok :: "'s \<Rightarrow> bool" and view :: "'s \<Rightarrow> dataset" and sc :: "'s scope_ops"
    and ready :: "'s \<Rightarrow> bool" and inside :: "'s \<Rightarrow> 's \<Rightarrow> bool" and seen :: "'s \<Rightarrow> 'v"
begin

lemma decode_into_spec:
  assumes "\<And>e. e \<in> set es \<Longrightarrow> decode_quad ops st e = Inr (f e)"
  shows "decode_into ops st to (map Inr es) out = Inr (out @ map (\<lambda>e. (f e)\<lparr>q_graph := GraphNamed to\<rparr>) es)"
  using assms by (induction es arbitrary: out) simp_all

lemma graph_scan:
  assumes ok: "ok st" "decodable ops view st" and g: "is_str g" "op_lookup ops st (NamedNode g) = Inr (Some i)"
  obtains es f where "op_scan ops st None None None (FilterNamed i) = map Inr es" "distinct (map f es)"
    "\<And>e. e \<in> set es \<Longrightarrow> decode_quad ops st e = Inr (f e)" "f ` set es = {q \<in> rdf_quads ops view st. q_graph q = GraphNamed g}"
proof (rule scan_decodes [OF ok, of "FilterNamed i" "\<lambda>q. q_graph q = GraphNamed g"])
  fix q e assume "wf_quad q" "encodes ops st q e"
  then show "graph_matches (FilterNamed i) (enc_graph e) \<longleftrightarrow> q_graph q = GraphNamed g"
    using encodes_graph_named [OF ok(1) _ _ g, of q e] by (simp add: graph_matches_def)
qed (use that in blast)

lemma copy_graph_spec:
  assumes c: "good c" and str: "is_str from" "is_str to" and room: "used c + graph_cost (quads c) from \<le> 2 ^ 60"
  shows "\<exists>st'. copy_graph ops from to (fst c) = (st', Inr ()) \<and> leads c (st', snd c) \<and> rdf_quads ops view st' = quads c \<union> copied (quads c) from to
    \<and> op_dictionary_len ops st' \<le> used c + graph_cost (quads c) from"
proof -
  have ok: "ok (fst c)" "decodable ops view (fst c)" using c by (simp_all add: good_def)
  obtain r where r: "op_lookup ops (fst c) (NamedNode from) = Inr r" using lookup_total [OF ok(1), of "NamedNode from"] str(1) by auto
  obtain qs where qs: "(case r of None \<Rightarrow> Inr [] | Some source \<Rightarrow> decode_into ops (fst c) to (op_scan ops (fst c) None None None (FilterNamed source)) []) = Inr qs"
    "set qs = copied (quads c) from to" "sum_list (map quad_cost qs) + 1 \<le> graph_cost (quads c) from"
  proof (cases r)
    case None
    then have "{q \<in> quads c. q_graph q = GraphNamed from} = {}" using r stored_lookup(4) by fastforce
    then show thesis using that [of "[]"] None by (simp add: copied_def graph_cost_def)
  next
    case (Some i)
    obtain es f where es: "op_scan ops (fst c) None None None (FilterNamed i) = map Inr es" "distinct (map f es)"
      "\<And>e. e \<in> set es \<Longrightarrow> decode_quad ops (fst c) e = Inr (f e)" "f ` set es = {q \<in> quads c. q_graph q = GraphNamed from}"
      by (rule graph_scan [OF ok str(1) r [unfolded Some]]) blast
    let ?qs = "map (\<lambda>e. (f e)\<lparr>q_graph := GraphNamed to\<rparr>) es"
    have "sum_list (map quad_cost ?qs) = sum_list (map quad_cost (map f es))" by (simp add: comp_def quad_cost_def)
    also have "\<dots> = (\<Sum>q\<in>f ` set es. quad_cost q)" using sum_list_distinct_conv_sum_set [OF es(2), of quad_cost] by (simp only: set_map)
    finally have cost: "sum_list (map quad_cost ?qs) + 1 \<le> graph_cost (quads c) from" by (simp add: graph_cost_def es(4))
    have "set ?qs = (\<lambda>q. q\<lparr>q_graph := GraphNamed to\<rparr>) ` (f ` set es)" by auto
    then show thesis using that [of ?qs] Some es(1,4) decode_into_spec [OF es(3), of es to "[]"] cost by (simp add: copied_def)
  qed
  show ?thesis
  proof (cases "qs = []")
    case True
    have g: "wf_graph (GraphNamed to)" using str(2) by simp
    have room1: "used c + 1 \<le> 2 ^ 60" using room qs(3) by simp
    note n = insert_named_graph_spec [OF ok g room1]
    have gr: "grown ops (fst c) (fst (store_insert_named_graph ops (GraphNamed to) (fst c)))"
      using rdf_step_grown [of "fst c" "NewGraph (GraphNamed to)"] ok g room1 by simp
    obtain s b where s: "store_insert_named_graph ops (GraphNamed to) (fst c) = (s, Inr b)"
      using n by (cases "store_insert_named_graph ops (GraphNamed to) (fst c)") auto
    have "leads c (s, snd c)" using n gr s c valid_mono [of "fst c" "snd c" s] by (simp add: leads_def good_def same_principal_def)
    moreover have "copy_graph ops from to (fst c) = (s, Inr ())" using r qs(1) True s by (simp add: copy_graph_def)
    ultimately show ?thesis using n s qs(2,3) True by auto
  next
    case False
    have wf: "\<forall>q\<in>set qs. wf_quad q" using qs(2) str(2) by (auto simp: copied_def rdf_quads_def wf_quad_def)
    have "used c + sum_list (map quad_cost qs) \<le> 2 ^ 60" using room qs(3) by simp
    note i = insert_all_spec [OF c wf this]
    have "copy_graph ops from to (fst c) = insert_all ops qs (fst c)" using r qs(1) False by (simp add: copy_graph_def)
    then show ?thesis using i qs(2,3) by auto
  qed
qed

lemma load_undeclared:
  assumes ok: "ok st" "decodable ops view st" and i: "is_str i"
    and no: "named_quad i rdf_type (holos ''Holon'') system_graph \<notin> rdf_quads ops view st"
  shows "load ops st i = Inr None"
proof -
  have total: "\<exists>r. op_lookup ops st (NamedNode t) = Inr r" if "is_str t" for t using lookup_total [OF ok(1), of "NamedNode t"] that by simp
  obtain gi si pi ci where l: "op_lookup ops st (NamedNode system_graph) = Inr gi" "op_lookup ops st (NamedNode i) = Inr si"
    "op_lookup ops st (NamedNode rdf_type) = Inr pi" "op_lookup ops st (NamedNode (holos ''Holon'')) = Inr ci"
    using total [of system_graph] total [of i] total [of rdf_type] total [of "holos ''Holon''"] i by auto
  show ?thesis
  proof (cases "\<exists>g s p c. gi = Some g \<and> si = Some s \<and> pi = Some p \<and> ci = Some c")
    case True
    then obtain g s p c where ids: "gi = Some g" "si = Some s" "pi = Some p" "ci = Some c" by blast
    obtain es where es: "op_scan ops st (Some s) (Some p) (Some c) (FilterNamed g) = map Inr es"
      "\<And>e. e \<in> set es \<longleftrightarrow> (\<exists>q\<in>rdf_quads ops view st. encodes ops st q e \<and> q_subject q = NodeNamed i \<and> q_predicate q = rdf_type
        \<and> q_graph q = GraphNamed system_graph \<and> (\<forall>i\<in>set_option (Some c). enc_object e = i))"
      using registry_scan [OF ok i is_str_names(2,1), of s p g "Some c"] l ids by blast
    have "es = []"
    proof (rule ccontr)
      assume "es \<noteq> []"
      then obtain e where "e \<in> set es" by (cases es) auto
      then obtain q where q: "q \<in> rdf_quads ops view st" "encodes ops st q e" "q_subject q = NodeNamed i" "q_predicate q = rdf_type"
        "q_graph q = GraphNamed system_graph" "enc_object e = c" unfolding es(2) by auto
      then have "q_object q = NamedNode (holos ''Holon'')"
        using encodes_component(3) [OF ok(1) _ q(2), of "NamedNode (holos ''Holon'')" c] l(4) ids by (auto simp: rdf_quads_def)
      then have "q = named_quad i rdf_type (holos ''Holon'') system_graph" using q by (simp add: named_quad_def)
      with q(1) no show False by simp
    qed
    then show ?thesis using l ids es(1) by (simp add: load_def registry_graph_filter_def from_store_def)
  next
    case False
    then show ?thesis using l by (cases gi; cases si; cases pi; cases ci) (simp_all add: load_def registry_graph_filter_def from_store_def)
  qed
qed

lemma register_in_scope: "op_in_scope sc (fst c) \<Longrightarrow> register ops sc h c = register_body ops h c"
  by (simp add: register_def commit_session_def in_commit_def begin_commit_def end_commit_def split: prod.split)

lemma commit_session_spec:
  fixes body :: "'s \<times> session \<Rightarrow> ('s \<times> session) \<times> 'x hres"
  assumes c: "good c" "\<not> op_in_scope sc (fst c)"
    and body: "\<And>st1. inside (fst c) st1 \<Longrightarrow> leads c (st1, snd c) \<Longrightarrow> rdf_quads ops view st1 = quads c \<Longrightarrow> op_dictionary_len ops st1 = used c
      \<Longrightarrow> inside (fst c) (fst (fst (body (st1, snd c)))) \<and> leads (st1, snd c) (fst (body (st1, snd c))) \<and> P (snd (body (st1, snd c))) (quads (fst (body (st1, snd c))))"
  obtains c' r Q where "commit_session sc body c = (c', r)" "leads c c'" "\<not> op_in_scope sc (fst c')" "P r Q" "quads c' = (if isl r then quads c else Q)"
proof -
  obtain s1 where 1: "begin_commit sc (fst c) = (s1, Inr True)" "inside (fst c) s1" "leads c (s1, snd c)" "rdf_quads ops view s1 = quads c"
    "op_dictionary_len ops s1 = used c" by (rule open_scope [OF c])
  obtain c2 r where 2: "body (s1, snd c) = (c2, r)" by (cases "body (s1, snd c)")
  note b = body [OF 1(2-5), unfolded 2 fst_conv snd_conv]
  have l: "leads c c2" using b leads_trans [OF 1(3)] by blast
  obtain s3 where 3: "end_commit sc True (\<not> isl r) (fst c2) = (s3, Inr ())" "leads c (s3, snd c2)" "\<not> op_in_scope sc s3"
    "rdf_quads ops view s3 = (if \<not> isl r then quads c2 else quads c)" by (rule close_scope [OF c(1) l]) (use b in blast)+
  show thesis by (rule that [of "(s3, snd c2)" r "quads c2"]) (use 1(1) 2 3 b in \<open>simp_all add: commit_session_def in_commit_def\<close>)
qed

lemma register_body_spec:
  assumes c: "good c" and h: "wf_holon h" and room: "used c + quads_cost (holon_quads h) \<le> 2 ^ 60"
  obtains c' r where "register_body ops h c = (c', r)" "leads c c'" "register_meets h (snd c) (quads c) r (quads c')"
    "\<not> isl r \<Longrightarrow> used c' \<le> used c + quads_cost (holon_quads h)"
proof -
  have "\<forall>q\<in>set (holon_quads h). wf_quad q" using wf_holon_quads [OF h] by blast
  note r = register_loop_spec [OF c this room]
  show thesis
  proof (cases "\<forall>q\<in>set (holon_quads h). allowed (snd c) q ADMIN")
    case True
    then show thesis using r that by (fastforce simp: register_body_def register_meets_def)
  next
    case False
    then obtain c' where c': "register_loop ops (holon_quads h) c = (c', Inl (WriteDenied system_graph))" "leads c c'"
      using r unfolding if_not_P [OF False] by blast
    then show thesis using False that [of c' "Inl (WriteDenied system_graph)"] unfolding register_body_def register_meets_def if_not_P [OF False] by simp
  qed
qed

lemma register_spec:
  assumes c: "good c" "\<not> op_in_scope sc (fst c)" and h: "wf_holon h" and room: "used c + quads_cost (holon_quads h) \<le> 2 ^ 60"
  obtains c' r Q where "register ops sc h c = (c', r)" "leads c c'" "\<not> op_in_scope sc (fst c')" "register_meets h (snd c) (quads c) r Q"
    "quads c' = (if isl r then quads c else Q)"
proof -
  show thesis
  proof (rule commit_session_spec [OF c, where body = "register_body ops h" and P = "register_meets h (snd c) (quads c)"])
    fix s1 assume a: "inside (fst c) s1" "leads c (s1, snd c)" "rdf_quads ops view s1 = quads c" "op_dictionary_len ops s1 = used c"
    obtain c' r where "register_body ops h (s1, snd c) = (c', r)" "leads (s1, snd c) c'" "register_meets h (snd c) (quads c) r (quads c')"
      using register_body_spec [OF leads_good [OF a(2)] h] room a(3,4) by (metis fst_conv snd_conv)
    moreover have "inside (fst c) (fst (fst (register_body ops h (s1, snd c))))" using register_loop_inside [of "fst c" "(s1, snd c)"] a(1) by (simp add: register_body_def)
    ultimately show "inside (fst c) (fst (fst (register_body ops h (s1, snd c)))) \<and> leads (s1, snd c) (fst (register_body ops h (s1, snd c)))
      \<and> register_meets h (snd c) (quads c) (snd (register_body ops h (s1, snd c))) (quads (fst (register_body ops h (s1, snd c))))" by simp
  qed (use that in \<open>simp_all add: register_def\<close>)
qed

lemma copy_version: "graphs_apart child \<Longrightarrow> to \<in> {hl_scene child, hl_boundary child, hl_events child} \<Longrightarrow> version_is (copy_into from to Q) h v = version_is Q h v"
  unfolding copy_into_def by (rule version_is_other(1)) (auto simp: graphs_apart_def dest!: copied_graph)

lemma branch_body_spec:
  assumes c: "good c" and i: "inside st0 (fst c)" and str: "is_str i" "wf_holon source" and v: "version_is (quads c) source v"
    and new: "version_is (quads c) (branch_child source i) 0" and room: "used c + branch_cost source i (quads c) \<le> 2 ^ 60"
  obtains c' r where "branch_body ops sc source i at c = (c', r)" "leads c c'" "branch_meets source i v at (snd c) (quads c) r (quads c')"
proof -
  let ?child = "branch_child source i" and ?p = "\<lparr>bp_parent = hl_id source, bp_version = v\<rparr>"
  let ?Q1 = "copy_into (hl_scene source) (hl_scene ?child) (quads c)"
  let ?Q2 = "copy_into (hl_boundary source) (hl_boundary ?child) ?Q1"
  note child = wf_branch_child [OF str] branch_child_apart [of source i]
  have names: "is_str (hl_scene source)" "is_str (hl_boundary source)" "is_str (hl_id source)" "is_str (hl_scene ?child)" "is_str (hl_boundary ?child)" "is_str (hl_id ?child)"
    using str(2) child(1) by (simp_all add: wf_holon_def)
  have ver: "version ops (fst c) source = Inr v" using version_spec [OF _ _ names(3) v] c by (simp add: good_def)
  have "used c + graph_cost (quads c) (hl_scene source) \<le> 2 ^ 60" using room by (simp add: branch_cost_def)
  from copy_graph_spec [OF c names(1,4) this] obtain s1 where
    1: "copy_graph ops (hl_scene source) (hl_scene ?child) (fst c) = (s1, Inr ())" "leads c (s1, snd c)" "rdf_quads ops view s1 = ?Q1"
      "op_dictionary_len ops s1 \<le> used c + graph_cost (quads c) (hl_scene source)" unfolding copy_into_def by blast
  have "used (s1, snd c) + graph_cost (quads (s1, snd c)) (hl_boundary source) \<le> 2 ^ 60" using room 1(3,4) by (simp add: branch_cost_def)
  from copy_graph_spec [OF leads_good [OF 1(2)] names(2,5) this] obtain s2 where
    2: "copy_graph ops (hl_boundary source) (hl_boundary ?child) s1 = (s2, Inr ())" "leads (s1, snd c) (s2, snd c)" "rdf_quads ops view s2 = ?Q2"
      "op_dictionary_len ops s2 \<le> op_dictionary_len ops s1 + graph_cost ?Q1 (hl_boundary source)" unfolding copy_into_def fst_conv snd_conv 1(3) by blast
  have l2: "leads c (s2, snd c)" by (rule leads_trans [OF 1(2) 2(2)])
  have i2: "inside st0 s2" using copy_graph_inside [OF copy_graph_inside [OF i, of "hl_scene source" "hl_scene ?child"], of "hl_boundary source" "hl_boundary ?child"] 1(1) 2(1) by simp
  have room2: "used (s2, snd c) + quads_cost (holon_quads ?child) + 16 \<le> 2 ^ 60" using room 1(4) 2(4) by (simp add: branch_cost_def)
  obtain c3 r where 3: "register_body ops ?child (s2, snd c) = (c3, r)" "leads (s2, snd c) c3" "register_meets ?child (snd c) ?Q2 r (quads c3)"
    "\<not> isl r \<Longrightarrow> used c3 \<le> op_dictionary_len ops s2 + quads_cost (holon_quads ?child)"
    using register_body_spec [OF leads_good [OF l2] child(1)] room2 2(3) by (metis add_leD1 fst_conv snd_conv)
  have reg: "register ops sc ?child (s2, snd c) = (c3, r)" using register_in_scope [of "(s2, snd c)" ?child] inside_scope [OF i2] 3(1) by simp
  have l3: "leads c c3" by (rule leads_trans [OF l2 3(2)])
  show thesis
  proof (cases "\<forall>q\<in>set (holon_quads ?child). allowed (snd c) q ADMIN")
    case False
    then have r: "r = Inl (WriteDenied system_graph)" using 3(3) unfolding register_meets_def by (simp only: if_False)
    then show thesis using False l3 ver 1(1) 2(1) reg
      by (intro that [of c3 "Inl (WriteDenied system_graph)"]) (auto simp: branch_body_def act_simps branch_meets_def)
  next
    case True
    then have r: "r = Inr ()" "quads c3 = ?Q2 \<union> set (holon_quads ?child)" using 3(3) by (simp_all add: register_meets_def)
    have i3: "inside st0 (fst c3)" using register_inside [of st0 "(s2, snd c)" ?child] i2 reg by simp
    have v3: "version_is (quads c3) ?child 0" using new unfolding r(2) by (simp add: registered_version copy_version [OF child(2)])
    have room3: "used c3 + 4 \<le> 2 ^ 60" using 3(4) r(1) room2 by simp
    obtain s4 where 4: "set_version_body ops ?child v (fst c3) = (s4, Inr ())" "leads c3 (s4, snd c3)"
      "rdf_quads ops view s4 = insert (version_quad ?child v) (quads c3)" "op_dictionary_len ops s4 \<le> used c3 + 4"
      using set_version_body_spec [OF leads_good [OF l3] names(6) v3 room3, of v] version_absent [OF v3, of 0] by auto
    have sv: "set_version ops sc ?child v (fst c3) = (s4, Inr ())" using set_version_in_scope [OF inside_scope [OF i3]] 4(1) by simp
    have l4: "leads c (s4, snd c3)" by (rule leads_trans [OF l3 4(2)])
    have "\<forall>q\<in>set (branch_quads ?child ?p at). wf_quad q" "used (s4, snd c3) + sum_list (map quad_cost (branch_quads ?child ?p at)) \<le> 2 ^ 60"
      using wf_branch_quads [of ?child ?p] child(1) names(3) 4(4) 3(4) r(1) room2 by (auto simp: quads_cost_def)
    from insert_all_spec [OF leads_good [OF l4] this] obtain s5 where
      5: "insert_all ops (branch_quads ?child ?p at) s4 = (s5, Inr ())" "leads (s4, snd c3) (s5, snd c3)"
        "rdf_quads ops view s5 = rdf_quads ops view s4 \<union> set (branch_quads ?child ?p at)" by auto
    have "branch_body ops sc source i at c = ((s5, snd c3), Inr ?child)"
      using ver 1(1) 2(1) reg r(1) sv 5(1) by (simp add: branch_body_def act_simps record_branch_point_def)
    moreover have "rdf_quads ops view s5 = branch_result source i v at (quads c)" using 5(3) 4(3) r(2) by (simp add: branch_result_def Let_def)
    ultimately show thesis using True leads_trans [OF l4 5(2)] by (intro that [of "(s5, snd c3)" "Inr ?child"]) (simp_all add: branch_meets_def)
  qed
qed

lemma version_literal:
  assumes ok: "ok st" "decodable ops view st" and h: "is_str (hl_id h)"
    and v: "objects (rdf_quads ops view st) (hl_id h) (holos ''version'') system_graph = {Literal (new_typed_literal (show_nat (unat v)) xsd_integer)}"
  shows "version ops st h = Inr v"
proof -
  from v obtain q where q: "q \<in> rdf_quads ops view st" "q_subject q = NodeNamed (hl_id h)" "q_graph q = GraphNamed system_graph"
    unfolding objects_def by auto
  obtain si gi where ids: "op_lookup ops st (NamedNode (hl_id h)) = Inr (Some si)" "op_lookup ops st (NamedNode system_graph) = Inr (Some gi)"
    using stored_lookup(1,4) [OF q(1)] q(2,3) by auto
  obtain r where r: "registry_object ops st (FilterNamed gi) si (holos ''version'') = Inr r" "case r of None \<Rightarrow> False | Some x \<Rightarrow> x = Literal (new_typed_literal (show_nat (unat v)) xsd_integer)"
    using registry_object_spec [OF ok h _ is_str_names(1) ids, of "holos ''version''"] v by (auto split: option.splits)
  then show ?thesis using ids by (cases r) (simp_all add: version_def registry_graph_filter_def from_store_def parse_u64_show)
qed

lemma branch_scan_spec:
  assumes "\<And>e. e \<in> set es \<Longrightarrow> decode_quad ops st e = Inr (f e)"
    and "\<And>e. e \<in> set es \<Longrightarrow> q_predicate (f e) = holos ''branchedFrom'' \<Longrightarrow> q_object (f e) = NamedNode n"
    and "\<And>e. e \<in> set es \<Longrightarrow> q_predicate (f e) = holos ''branchedAtVersion'' \<Longrightarrow> \<exists>l. q_object (f e) = Literal l \<and> parse_u64 (lit_value l) = Some v"
  shows "branch_scan ops st (map Inr es) a b = Inr (if \<exists>e\<in>set es. q_predicate (f e) = holos ''branchedFrom'' then Some n else a,
    if \<exists>e\<in>set es. q_predicate (f e) = holos ''branchedAtVersion'' then Some v else b)"
  using assms
proof (induction es arbitrary: a b)
  case (Cons e es)
  note IH = Cons.IH [OF Cons.prems(1-3)]
  have ver: "\<exists>l. q_object (f e) = Literal l \<and> parse_u64 (lit_value l) = Some v" if "q_predicate (f e) = holos ''branchedAtVersion''"
    using Cons.prems(3) [of e] that by simp
  show ?case using Cons.prems(1,2) [of e] ver
    by (cases "q_predicate (f e) = holos ''branchedFrom''"; cases "q_predicate (f e) = holos ''branchedAtVersion''") (auto simp: IH)
qed simp

lemma branch_point_spec:
  assumes ok: "ok st" "decodable ops view st" and h: "is_str (hl_events h)"
    and log: "{q \<in> rdf_quads ops view st. q_graph q = GraphNamed (hl_events h)} = set (branch_quads h p at)"
  shows "branch_point_of ops st h = Inr (Some p)"
proof -
  obtain q where "q \<in> rdf_quads ops view st" "q_graph q = GraphNamed (hl_events h)" using log by (force simp: branch_quads_def)
  then obtain ei where ei: "op_lookup ops st (NamedNode (hl_events h)) = Inr (Some ei)" using stored_lookup(4) by blast
  obtain es f where es: "op_scan ops st None None None (FilterNamed ei) = map Inr es"
    "\<And>e. e \<in> set es \<Longrightarrow> decode_quad ops st e = Inr (f e)" "f ` set es = set (branch_quads h p at)"
    by (rule graph_scan [OF ok h ei]) (use log in blast)
  have mem: "f e \<in> set (branch_quads h p at)" if "e \<in> set es" for e using that es(3) by blast
  have 1: "q_object (f e) = NamedNode (bp_parent p)" if "e \<in> set es" "q_predicate (f e) = holos ''branchedFrom''" for e
    using mem [OF that(1)] that(2) by (auto simp: branch_quads_def named_quad_def literal_quad_def)
  have 2: "\<exists>l. q_object (f e) = Literal l \<and> parse_u64 (lit_value l) = Some (bp_version p)" if "e \<in> set es" "q_predicate (f e) = holos ''branchedAtVersion''" for e
    using mem [OF that(1)] that(2) by (auto simp: branch_quads_def named_quad_def literal_quad_def parse_u64_show)
  have has: "\<exists>e\<in>set es. q_predicate (f e) = k" if "k \<in> q_predicate ` set (branch_quads h p at)" for k using that unfolding es(3) [symmetric] by blast
  have both: "\<exists>e\<in>set es. q_predicate (f e) = holos ''branchedFrom''" "\<exists>e\<in>set es. q_predicate (f e) = holos ''branchedAtVersion''"
    by (rule has; simp add: branch_quads_def named_quad_def literal_quad_def)+
  have "branch_scan ops st (map Inr es) None None = Inr (Some (bp_parent p), Some (bp_version p))"
    using branch_scan_spec [OF es(2) 1 2, of es None None] unfolding if_P [OF both(1)] if_P [OF both(2)] by blast
  then show ?thesis by (simp add: branch_point_of_def ei es(1))
qed

lemma branch_spec:
  assumes c: "good c" "\<not> op_in_scope sc (fst c)" and str: "is_str i" "wf_holon source" and v: "version_is (quads c) source v"
    and new: "unused_id (quads c) (branch_child source i)" and room: "used c + branch_cost source i (quads c) \<le> 2 ^ 60"
  obtains c' r Q where "branch ops sc source i at c = (c', r)" "leads c c'" "\<not> op_in_scope sc (fst c')"
    "branch_meets source i v at (snd c) (quads c) r Q" "quads c' = (if isl r then quads c else Q)"
proof -
  have "load ops (fst c) i = Inr None" using load_undeclared [OF _ _ str(1)] c(1) new by (simp add: good_def unused_id_def)
  then have b: "branch ops sc source i at c = commit_session sc (branch_body ops sc source i at) c" by (simp add: branch_def)
  show thesis
  proof (rule commit_session_spec [OF c, where body = "branch_body ops sc source i at" and P = "branch_meets source i v at (snd c) (quads c)"])
    fix s1 assume a: "inside (fst c) s1" "leads c (s1, snd c)" "rdf_quads ops view s1 = quads c" "op_dictionary_len ops s1 = used c"
    have pre: "inside (fst c) (fst (s1, snd c))" "version_is (quads (s1, snd c)) source v" "version_is (quads (s1, snd c)) (branch_child source i) 0"
      "used (s1, snd c) + branch_cost source i (quads (s1, snd c)) \<le> 2 ^ 60" using a v new room by (simp_all add: unused_id_def)
    obtain c' r where "branch_body ops sc source i at (s1, snd c) = (c', r)" "leads (s1, snd c) c'" "branch_meets source i v at (snd c) (quads c) r (quads c')"
      using branch_body_spec [OF leads_good [OF a(2)] pre(1) str pre(2-4)] a(3) by (metis fst_conv snd_conv)
    then show "inside (fst c) (fst (fst (branch_body ops sc source i at (s1, snd c)))) \<and> leads (s1, snd c) (fst (branch_body ops sc source i at (s1, snd c)))
      \<and> branch_meets source i v at (snd c) (quads c) (snd (branch_body ops sc source i at (s1, snd c))) (quads (fst (branch_body ops sc source i at (s1, snd c))))"
      using branch_body_inside [OF pre(1), of source i at] by simp
  qed (use that b in simp_all)
qed

text \<open>What the reading operations say of a branch once it is made.\<close>

lemma branch_reads:
  assumes c: "good c" and str: "is_str i" "wf_holon source" and new: "unused_id Q (branch_child source i)" and q: "quads c = branch_result source i v at Q"
  shows "load ops (fst c) i = Inr (Some ((branch_child source i)\<lparr>hl_projections := []\<rparr>))" "version ops (fst c) (branch_child source i) = Inr v"
    "branch_point_of ops (fst c) (branch_child source i) = Inr (Some \<lparr>bp_parent = hl_id source, bp_version = v\<rparr>)"
proof -
  let ?child = "branch_child source i"
  have ok: "ok (fst c)" "decodable ops view (fst c)" using c by (simp_all add: good_def)
  have names: "is_str (hl_id ?child)" "is_str (hl_events ?child)" using wf_branch_child [OF str] by (simp_all add: wf_holon_def)
  have u: "unclaimed Q ?child" "version_is Q ?child 0" "{q \<in> Q. q_graph q = GraphNamed (hl_events ?child)} = {}" using new by (simp_all add: unused_id_def)
  show "load ops (fst c) i = Inr (Some (?child\<lparr>hl_projections := []\<rparr>))"
    using load_defined [OF ok names(1)] branch_defines [OF u(1), of v at] by (simp add: q)
  show "version ops (fst c) ?child = Inr v" by (rule version_literal [OF ok names(1)]) (simp add: q branch_version [OF u(2)])
  show "branch_point_of ops (fst c) ?child = Inr (Some \<lparr>bp_parent = hl_id source, bp_version = v\<rparr>)"
    by (rule branch_point_spec [OF ok names(2)]) (simp only: q branch_log [OF u(3)])
qed

lemma load_field_total:
  assumes "ok st" "decodable ops view st" "is_str i" "is_str p" "op_lookup ops st (NamedNode i) = Inr (Some si)" "op_lookup ops st (NamedNode system_graph) = Inr (Some gi)"
  shows "\<exists>h'. load_field ops st (FilterNamed gi) si p assign h = Inr h'"
  using registry_object_spec [OF assms(1-4) is_str_names(1) assms(5,6)] by (auto simp: load_field_def split: option.splits rdf_term.splits)

lemma load_declared:
  assumes ok: "ok st" "decodable ops view st" and i: "is_str i"
    and q: "named_quad i rdf_type (holos ''Holon'') system_graph \<in> rdf_quads ops view st"
  shows "\<exists>h. load ops st i = Inr (Some h)"
proof -
  let ?q = "named_quad i rdf_type (holos ''Holon'') system_graph"
  obtain si pi ci gi where ids: "op_lookup ops st (NamedNode i) = Inr (Some si)" "op_lookup ops st (NamedNode rdf_type) = Inr (Some pi)"
    "op_lookup ops st (NamedNode (holos ''Holon'')) = Inr (Some ci)" "op_lookup ops st (NamedNode system_graph) = Inr (Some gi)"
    using stored_lookup [OF q] by (auto simp: named_quad_def)
  obtain f where declared: "first_quad (op_scan ops st (Some si) (Some pi) (Some ci) (FilterNamed gi)) = Inr (Some f)"
    by (rule declared_scan [OF ok i q ids])
  note total = load_field_total [OF ok i _ ids(1,4)]
  obtain h1 where 1: "load_field ops st (FilterNamed gi) si (holos ''scene'') (\<lambda>n h. h\<lparr>hl_scene := n\<rparr>) (holon_new i) = Inr h1" using total by fastforce
  obtain h2 where 2: "load_field ops st (FilterNamed gi) si (holos ''boundary'') (\<lambda>n h. h\<lparr>hl_boundary := n\<rparr>) h1 = Inr h2" using total by fastforce
  obtain h3 where 3: "load_field ops st (FilterNamed gi) si (holos ''events'') (\<lambda>n h. h\<lparr>hl_events := n\<rparr>) h2 = Inr h3" using total by fastforce
  obtain h4 where 4: "load_field ops st (FilterNamed gi) si (holos ''admits'')
      (\<lambda>n h. h\<lparr>hl_admission := if n = holos ''AdmitAndRecord'' then AdmitAndRecord else Reject\<rparr>) h3 = Inr h4" using total by fastforce
  have "registry_graph_filter ops st system_graph = Inr (Some (FilterNamed gi))" using ids(4) by (simp add: registry_graph_filter_def from_store_def)
  then show ?thesis by (simp add: load_def ids declared 1 2 3 4)
qed

text \<open>A version that reads zero is never taken away.\<close>

lemma set_version_zero:
  assumes c: "good c" "\<not> op_in_scope sc (fst c)" and h: "is_str (hl_id h)" and room: "used c + 4 \<le> 2 ^ 60"
    and zero: "\<And>st. ok st \<Longrightarrow> decodable ops view st \<Longrightarrow> rdf_quads ops view st = quads c \<Longrightarrow> version ops st h = Inr 0"
  obtains st' where "set_version ops sc h w (fst c) = (st', Inr ())" "leads c (st', snd c)" "\<not> op_in_scope sc st'"
    "rdf_quads ops view st' = insert (version_quad h w) (quads c)"
proof -
  obtain s1 where 1: "begin_commit sc (fst c) = (s1, Inr True)" "inside (fst c) s1" "leads c (s1, snd c)" "rdf_quads ops view s1 = quads c"
    "op_dictionary_len ops s1 = used c" by (rule open_scope [OF c])
  have g1: "good (s1, snd c)" "ok s1" "decodable ops view s1" using leads_good [OF 1(3)] by (simp_all add: good_def)
  have q: "wf_quad (version_quad h w)" "quad_cost (version_quad h w) = 4" by (simp_all add: wf_version_quad h)
  have pre: "\<forall>q\<in>set [version_quad h w]. wf_quad q" "used (s1, snd c) + sum_list (map quad_cost [version_quad h w]) \<le> 2 ^ 60"
    using q room 1(5) by simp_all
  from insert_all_spec [OF g1(1) pre] obtain s2 where 2: "insert_all ops [version_quad h w] s1 = (s2, Inr ())" "leads (s1, snd c) (s2, snd c)"
    "rdf_quads ops view s2 = insert (version_quad h w) (quads c)" using 1(4) by auto
  obtain b where "store_insert ops (version_quad h w) s1 = (s2, Inr b)"
    using 2(1) by (auto simp: and_then_def split: prod.splits sum.splits)
  then have b: "set_version_body ops h w s1 = (s2, Inr ())" using zero [OF g1(2,3) 1(4)] by (simp add: set_version_body_def)
  have i2: "inside (fst c) (fst (s2, snd c))" using set_version_body_inside [OF 1(2), of h w] b by simp
  obtain s3 where 3: "end_commit sc True True (fst (s2, snd c)) = (s3, Inr ())" "leads c (s3, snd (s2, snd c))" "\<not> op_in_scope sc s3"
    "rdf_quads ops view s3 = (if True then quads (s2, snd c) else quads c)" by (rule close_scope [OF c(1) leads_trans [OF 1(3) 2(2)] i2])
  show thesis by (rule that [of s3]) (use 1(1) b 2(3) 3 in \<open>simp_all add: set_version_def commit_store_def in_commit_def\<close>)
qed

end

section \<open>The in-memory tier\<close>

interpretation mbranch: branching_store "memory_ops X" "mem_store_ok X" mem_view memory_scope mem_index_ok scope_of "\<lambda>st. (ms_index st, generation st)" for X
  by unfold_locales

text \<open>Writing one quad outside every scope, and a policy that lets everyone administer and nothing else.\<close>

lemma unscoped_then: "undo (fst r) = None \<Longrightarrow> (\<And>x s. undo s = None \<Longrightarrow> undo (fst (f x s)) = None) \<Longrightarrow> undo (fst (and_then r f)) = None"
  by (cases r) (auto simp: and_then_def split: sum.splits)

lemma insert_unscoped:
  assumes "\<not> mem_in_scope st"
  shows "\<not> mem_in_scope (fst (store_insert (memory_ops X) q st))"
proof -
  have enc: "undo (fst (mem_encode X t s)) = undo s" for t s by (simp add: mem_encode_def split: prod.split)
  have ins: "undo s = None \<Longrightarrow> undo (fst (mem_insert_encoded e s)) = None" for e s
    by (auto simp: mem_insert_encoded_def Let_def record_undo_def split: option.splits prod.splits sum.splits)
  have "undo (fst (store_insert (memory_ops X) q st)) = None"
    using assms unfolding store_insert_def encode_quad_def memory_ops_def mem_in_scope_def
    by (cases "graph_term (q_graph q)") (auto intro!: unscoped_then ins simp: enc)
  then show ?thesis by (simp add: mem_in_scope_def)
qed

lemma in_order_insert:
  assumes "in_order X st se" "wf_quad q" "mem_dictionary_len st + quad_cost q \<le> 2 ^ 60"
  obtains st' where "in_order X st' se" "stored X st' = insert q (stored X st)" "mem_dictionary_len st' \<le> mem_dictionary_len st + quad_cost q"
proof -
  have pre: "\<forall>q\<in>set [q]. wf_quad q" "op_dictionary_len (memory_ops X) (fst (st, se)) + sum_list (map quad_cost [q]) \<le> 2 ^ 60"
    using assms(2,3) by (simp_all add: memory_ops_def)
  obtain st' where st': "insert_all (memory_ops X) [q] st = (st', Inr ())" "growing_storage.leads (memory_ops X) (mem_store_ok X) mem_view (st, se) (st', se)"
    "stored X st' = insert q (stored X st)" "mem_dictionary_len st' \<le> mem_dictionary_len st + quad_cost q"
    using mgrow.insert_all_spec [OF in_order_good(1) [OF assms(1)] pre] by (auto simp: stored_def memory_ops_def)
  then have "\<not> op_in_scope memory_scope (fst (st', se))"
    using insert_unscoped [of st X q] assms(1) by (auto simp: in_order_def memory_scope_def and_then_def split: prod.splits sum.splits)
  then show thesis using that [OF _ st'(3,4)] in_order_leads [OF st'(2)] by simp
qed

definition admin_only :: policy where
  "admin_only = with_rule (allow ADMIN Everything Everyone) default_policy"

lemma admin_only: "wf_policy admin_only" "q_graph q = GraphNamed g \<Longrightarrow> policy_decides admin_only anonymous q ADMIN = AllowIt"
  "policy_decides admin_only anonymous q READ \<noteq> AllowIt" "policy_decides admin_only anonymous q WRITE \<noteq> AllowIt"
proof -
  show "wf_policy admin_only" by code_simp
  have l: "level_rules admin_only anonymous q s = (if s = 0 then [allow ADMIN Everything Everyone] else [])" for s
    by (simp add: level_rules_def admin_only_def with_rule_def default_policy_def allow_def)
  have m: "level_effect ADMIN [allow ADMIN Everything Everyone] = Some Allow" "level_effect READ [allow ADMIN Everything Everyone] = None"
    "level_effect WRITE [allow ADMIN Everything Everyone] = None" "level_effect k [] = None" for k by (code_simp, code_simp, code_simp, simp add: level_effect_def)
  have e: "policy_effect admin_only anonymous q k = (if k = ADMIN then Allow else Deny)" if "k \<in> {ADMIN, READ, WRITE}" for k
    using that m by (auto simp: policy_effect_def l ADMIN_def READ_def WRITE_def) (simp_all add: admin_only_def with_rule_def default_policy_def)
  show "policy_decides admin_only anonymous q ADMIN = AllowIt" if "q_graph q = GraphNamed g"
    using that e [of ADMIN] by (simp add: policy_decides_def policy_clears_def admin_only_def with_rule_def default_policy_def)
  show "policy_decides admin_only anonymous q READ \<noteq> AllowIt" "policy_decides admin_only anonymous q WRITE \<noteq> AllowIt"
    using e [of READ] e [of WRITE] by (simp_all add: policy_decides_def ADMIN_def READ_def WRITE_def split: semantics.split)
qed
text \<open>
  C10. Registering a holon and loading it gives the definition back. With the right to administer
  every quad of the definition in the system graph, registering stores exactly those quads and loading the
  IRI afterwards returns the same scene, boundary, event log and admission policy, with no projection;
  without it the registration is refused as a denied write to the system graph and nothing is stored.
\<close>

theorem register_load_round_trip:
  assumes "in_order X st se" "wf_holon h" "unclaimed (stored X st) h" "mem_dictionary_len st + quads_cost (holon_quads h) \<le> 2 ^ 60"
    and "((st', se'), r) = register (memory_ops X) memory_scope h (st, se)"
  shows "in_order X st' se' \<and> (if \<forall>q\<in>set (holon_quads h). allowed se q ADMIN
    then r = Inr () \<and> stored X st' = stored X st \<union> set (holon_quads h) \<and> load (memory_ops X) st' (hl_id h) = Inr (Some (h\<lparr>hl_projections := []\<rparr>))
    else r = Inl (WriteDenied system_graph) \<and> stored X st' = stored X st)"
proof -
  have "op_dictionary_len (memory_ops X) (fst (st, se)) + quads_cost (holon_quads h) \<le> 2 ^ 60" using assms(4) by (simp add: memory_ops_def)
  then obtain c' r' Q where 1: "register (memory_ops X) memory_scope h (st, se) = (c', r')" "growing_storage.leads (memory_ops X) (mem_store_ok X) mem_view (st, se) c'" "\<not> op_in_scope memory_scope (fst c')"
    "register_meets h se (stored X st) r' Q" "stored X (fst c') = (if isl r' then stored X st else Q)"
    using mbranch.register_spec [OF in_order_good [OF assms(1)] assms(2)] unfolding stored_def by (metis fst_conv snd_conv)
  then have c': "c' = (st', se')" "r' = r" using assms(5) by simp_all
  have o: "in_order X st' se'" using in_order_leads [OF 1(2,3)] by (simp add: c')
  have str: "is_str (hl_id h)" using assms(2) by (simp add: wf_holon_def)
  have ld: "load (memory_ops X) st' (hl_id h) = Inr (Some (h\<lparr>hl_projections := []\<rparr>))" if "stored X st' = stored X st \<union> set (holon_quads h)"
    using mgrow.load_defined [OF _ _ str, of X st'] o registered_defines [OF assms(3)] that by (simp add: in_order_def stored_def)
  show ?thesis using o ld 1(4,5) unfolding register_meets_def c' by (auto split: if_splits)
qed

lemma new_admin_session:
  obtains se where "session_open (memory_ops demo_lib) store_new anonymous admin_only = Inr se" "in_order demo_lib store_new se" "stored demo_lib store_new = {}"
    "mem_dictionary_len store_new = 0" "\<And>q g. q_graph q = GraphNamed g \<Longrightarrow> allowed se q ADMIN" "\<And>q. \<not> allowed se q READ" "\<And>q. \<not> allowed se q WRITE"
proof -
  obtain se where se: "session_open (memory_ops demo_lib) store_new anonymous admin_only = Inr se" "in_order demo_lib store_new se" "se_policy se = admin_only"
    "se_principal se = anonymous" by (rule new_in_order [OF demo_lib_ok admin_only(1)])
  have "stored demo_lib store_new = {}" "mem_dictionary_len store_new = 0"
    using new_store_ok [OF demo_lib_ok] by (simp_all add: stored_def rdf_view_def memory_ops_def)
  with se show thesis by (intro that [of se]) (simp_all add: allowed_def admin_only)
qed

theorem register_load_round_trip_witness:
  "\<exists>se st' se'. session_open (memory_ops demo_lib) store_new anonymous admin_only = Inr se
    \<and> register (memory_ops demo_lib) memory_scope maintained_holon (store_new, se) = ((st', se'), Inr ())
    \<and> load (memory_ops demo_lib) st' (hl_id maintained_holon) = Inr (Some (maintained_holon\<lparr>hl_projections := []\<rparr>))"
proof -
  let ?h = maintained_holon
  obtain se where se: "session_open (memory_ops demo_lib) store_new anonymous admin_only = Inr se" "in_order demo_lib store_new se" "stored demo_lib store_new = {}"
    "mem_dictionary_len store_new = 0" "\<And>q g. q_graph q = GraphNamed g \<Longrightarrow> allowed se q ADMIN" by (rule new_admin_session) blast
  have h: "wf_holon ?h" "quads_cost (holon_quads ?h) \<le> 64" by code_simp+
  have pre: "unclaimed (stored demo_lib store_new) ?h" "mem_dictionary_len store_new + quads_cost (holon_quads ?h) \<le> 2 ^ 60"
    using h(2) unfolding se(3,4) by (simp_all add: unclaimed_def objects_def)
  obtain st' se' r where r: "((st', se'), r) = register (memory_ops demo_lib) memory_scope ?h (store_new, se)" by (metis surj_pair)
  have adm: "\<forall>q\<in>set (holon_quads ?h). allowed se q ADMIN" using se(5) holon_quads_graph by blast
  have "r = Inr ()" "load (memory_ops demo_lib) st' (hl_id ?h) = Inr (Some (?h\<lparr>hl_projections := []\<rparr>))"
    using register_load_round_trip [OF se(2) h(1) pre r] unfolding if_P [OF adm] by blast+
  then show ?thesis using se(1) r by (intro exI [of _ se] exI [of _ st'] exI [of _ se']) simp
qed

text \<open>
  C8. A branch is a copy with a memory of its parent. Onto an IRI that is a holon already it is refused
  and changes nothing. Onto an unused one, with the right to administer the new registry entry, the store
  gains the source's scene and boundary under the child's graph names, the child's definition, the parent's
  version and a branch record in the child's event log, and nothing is taken away: the child loads, reads
  the parent's version and names its parent. No right to read the source or to write the copy is asked for:
  the only refusal is that of the registration, which leaves the store as it was.
\<close>

theorem branch_forks:
  assumes "in_order X st se" "is_str i" "wf_holon source" "version_is (stored X st) source v"
    and "mem_dictionary_len st + branch_cost source i (stored X st) \<le> 2 ^ 60"
    and "((st', se'), r) = branch (memory_ops X) memory_scope source i at (st, se)"
  shows "(named_quad i rdf_type (holos ''Holon'') system_graph \<in> stored X st \<longrightarrow> (\<exists>m. r = Inl (Invalid m)) \<and> (st', se') = (st, se))
    \<and> (unused_id (stored X st) (branch_child source i) \<longrightarrow> in_order X st' se'
      \<and> branch_meets source i v at se (stored X st) r (stored X st') \<and> (isl r \<longrightarrow> stored X st' = stored X st)
      \<and> (\<not> isl r \<longrightarrow> load (memory_ops X) st' i = Inr (Some ((branch_child source i)\<lparr>hl_projections := []\<rparr>))
        \<and> version (memory_ops X) st' (branch_child source i) = Inr v
        \<and> branch_point_of (memory_ops X) st' (branch_child source i) = Inr (Some \<lparr>bp_parent = hl_id source, bp_version = v\<rparr>)))"
proof (rule conjI; rule impI)
  assume "named_quad i rdf_type (holos ''Holon'') system_graph \<in> stored X st"
  then show "(\<exists>m. r = Inl (Invalid m)) \<and> (st', se') = (st, se)"
    using mbranch.load_declared [OF _ _ assms(2), of X st] assms(1,6) by (auto simp: in_order_def stored_def branch_def)
next
  assume new: "unused_id (stored X st) (branch_child source i)"
  have pre: "version_is (rdf_quads (memory_ops X) mem_view (fst (st, se))) source v" "unused_id (rdf_quads (memory_ops X) mem_view (fst (st, se))) (branch_child source i)"
    "op_dictionary_len (memory_ops X) (fst (st, se)) + branch_cost source i (rdf_quads (memory_ops X) mem_view (fst (st, se))) \<le> 2 ^ 60"
    using assms(4,5) new by (simp_all add: memory_ops_def stored_def)
  obtain c' r' Q where 1: "branch (memory_ops X) memory_scope source i at (st, se) = (c', r')" "growing_storage.leads (memory_ops X) (mem_store_ok X) mem_view (st, se) c'"
    "\<not> op_in_scope memory_scope (fst c')" "branch_meets source i v at se (stored X st) r' Q" "stored X (fst c') = (if isl r' then stored X st else Q)"
    using mbranch.branch_spec [OF in_order_good [OF assms(1)] assms(2,3) pre] unfolding stored_def by (metis fst_conv snd_conv)
  then have c': "c' = (st', se')" "r' = r" using assms(6) by simp_all
  have o: "in_order X st' se'" using in_order_leads [OF 1(2,3)] by (simp add: c')
  have meets: "branch_meets source i v at se (stored X st) r (stored X st')" "isl r \<Longrightarrow> stored X st' = stored X st"
    using 1(4,5) unfolding branch_meets_def c' by (auto split: if_splits)
  have q: "stored X st' = branch_result source i v at (stored X st)" if "\<not> isl r"
    using meets(1) that unfolding branch_meets_def by (auto split: if_splits)
  note reads = mbranch.branch_reads [OF in_order_good(1) [OF o] assms(2,3) new, of v at]
  show "in_order X st' se' \<and> branch_meets source i v at se (stored X st) r (stored X st') \<and> (isl r \<longrightarrow> stored X st' = stored X st)
      \<and> (\<not> isl r \<longrightarrow> load (memory_ops X) st' i = Inr (Some ((branch_child source i)\<lparr>hl_projections := []\<rparr>))
        \<and> version (memory_ops X) st' (branch_child source i) = Inr v
        \<and> branch_point_of (memory_ops X) st' (branch_child source i) = Inr (Some \<lparr>bp_parent = hl_id source, bp_version = v\<rparr>))"
    using o meets q reads by (auto simp: stored_def)
qed

definition sample_source :: holon where
  "sample_source = sample_holon\<lparr>hl_scene := ''urn:g''\<rparr>"

theorem branch_forks_witness:
  "\<exists>st se st' se'. in_order demo_lib st se \<and> stored demo_lib st = {sample_quad} \<and> \<not> allowed se sample_quad READ
    \<and> branch (memory_ops demo_lib) memory_scope sample_source ''urn:c'' 0 (st, se) = ((st', se'), Inr (branch_child sample_source ''urn:c''))
    \<and> sample_quad\<lparr>q_graph := GraphNamed ''urn:c/scene''\<rparr> \<in> stored demo_lib st' \<and> \<not> allowed se (sample_quad\<lparr>q_graph := GraphNamed ''urn:c/scene''\<rparr>) WRITE
    \<and> version (memory_ops demo_lib) st' (branch_child sample_source ''urn:c'') = Inr 0"
proof -
  let ?X = demo_lib and ?child = "branch_child sample_source ''urn:c''"
  obtain se where se: "in_order ?X store_new se" "stored ?X store_new = {}" "mem_dictionary_len store_new = 0"
    "\<And>q g. q_graph q = GraphNamed g \<Longrightarrow> allowed se q ADMIN" "\<And>q. \<not> allowed se q READ" "\<And>q. \<not> allowed se q WRITE" by (rule new_admin_session) blast
  have q: "wf_quad sample_quad" "quad_cost sample_quad = 4" by code_simp+
  obtain st where st: "in_order ?X st se" "stored ?X st = {sample_quad}" "mem_dictionary_len st \<le> 4"
    by (rule in_order_insert [OF se(1) q(1)]) (use se(2,3) q(2) in simp_all)
  have names: "hl_scene sample_source = ''urn:g''" "hl_boundary sample_source = ''urn:h/boundary''" "hl_scene ?child = ''urn:c/scene''"
    "hl_id sample_source = ''urn:h''" "hl_events ?child = ''urn:c/events''" by code_simp+
  have h: "is_str ''urn:c''" "wf_holon sample_source" "quads_cost (holon_quads ?child) = 20" by code_simp+
  have graphs: "{q \<in> {sample_quad}. q_graph q = GraphNamed ''urn:g''} = {sample_quad}" by (auto simp: sample_quad_def)
  have copy: "copied {sample_quad} ''urn:g'' ''urn:c/scene'' = {sample_quad\<lparr>q_graph := GraphNamed ''urn:c/scene''\<rparr>}" unfolding copied_def graphs by simp
  have none: "{q \<in> copy_into ''urn:g'' ''urn:c/scene'' {sample_quad}. q_graph q = GraphNamed ''urn:h/boundary''} = {}"
    unfolding copy_into_def copy by (auto simp: sample_quad_def)
  then have "branch_cost sample_source ''urn:c'' {sample_quad} \<le> 64"
    unfolding branch_cost_def names h(3) graph_cost_def graphs none using q(2) by simp
  then have pre: "version_is (stored ?X st) sample_source 0" "mem_dictionary_len st + branch_cost sample_source ''urn:c'' (stored ?X st) \<le> 2 ^ 60"
    using st(3) by (simp_all add: st(2) version_is_def objects_def sample_quad_def names)
  have new: "unused_id (stored ?X st) ?child"
    unfolding st(2) by (auto simp: unused_id_def version_is_def unclaimed_def objects_def names sample_quad_def named_quad_def)
  obtain st' se' r where r: "((st', se'), r) = branch (memory_ops ?X) memory_scope sample_source ''urn:c'' 0 (st, se)" by (metis surj_pair)
  note b = conjunct2 [OF branch_forks [OF st(1) h(1,2) pre r], THEN mp, OF new]
  have adm: "\<forall>q\<in>set (holon_quads ?child). allowed se q ADMIN" using se(4) holon_quads_graph by blast
  have ok: "r = Inr ?child" "stored ?X st' = branch_result sample_source ''urn:c'' 0 0 {sample_quad}"
    using b unfolding branch_meets_def if_P [OF adm] st(2) by blast+
  have "sample_quad\<lparr>q_graph := GraphNamed ''urn:c/scene''\<rparr> \<in> stored ?X st'"
    unfolding ok(2) branch_result_def Let_def names copy_into_def copy by simp
  then show ?thesis using st(1,2) se(5,6) r ok(1) b by (intro exI [of _ st] exI [of _ se] exI [of _ st'] exI [of _ se']) simp
qed

section \<open>A version written as zero\<close>

definition version_term :: "u64 \<Rightarrow> rdf_term" where
  "version_term v = Literal (new_typed_literal (show_nat (unat v)) xsd_integer)"

text \<open>A version of zero is on record, and at most a version of one beside it.\<close>

definition zero_recorded :: "quad set \<Rightarrow> holon \<Rightarrow> bool" where
  "zero_recorded Q h \<longleftrightarrow> version_term 0 \<in> objects Q (hl_id h) (holos ''version'') system_graph
    \<and> objects Q (hl_id h) (holos ''version'') system_graph \<subseteq> {version_term 0, version_term 1}"

lemma gspo_scan_sorted:
  assumes "mem_index_ok st" "mem_scan st (Some s) (Some p) None (FilterNamed g) = map Inr es"
  shows "sorted_wrt (<) (map enc_object es)"
proof -
  let ?ks = "filter (\<lambda>(x, y, z, w). x = g \<and> y = s \<and> z = p) (gspo (ms_index st))"
  have "sorted_wrt (<) ?ks" using assms(1) by (simp add: mem_index_ok_def index_ok_def btree_ok_def sorted_wrt_filter)
  then have "sorted_wrt (\<lambda>a b. snd (snd (snd a)) < snd (snd (snd b))) ?ks"
    by (rule sorted_wrt_mono_rel [rotated]) (auto simp: less_prod_simp)
  moreover have "es = map (\<lambda>(_, s, p, x). mk_quad s p x (Some g)) ?ks"
    using assms(2) by (simp add: mem_scan_def index_quads_for_pattern_def scan4_eq inj_map_eq_map del: map_map)
  ultimately show ?thesis by (simp add: sorted_wrt_map split_beta mk_quad_def)
qed

lemma version_ids:
  assumes "mem_lookup X st (version_term 0) = Inr (Some i)" "mem_lookup X st (version_term 1) = Inr (Some j)"
  shows "i < j"
proof -
  have shown: "show_nat (unat (0 :: u64)) = i64_to_string 0" "show_nat (unat (1 :: u64)) = i64_to_string 1" by code_simp+
  have enc: "encode_literal X (new_typed_literal n xsd_integer) = encode_integer n" for n
    by (simp add: encode_literal_def xsd_integer_def xsd_string_def)
  have bounds: "INT_MIN \<le> 0" "INT_MIN \<le> 1" "0 \<le> INT_MAX" "1 \<le> INT_MAX" by code_simp+
  have e: "encode_integer (i64_to_string 0) = Some (Inr i)" "encode_integer (i64_to_string 1) = Some (Inr j)"
    using assms encode_integer_complete [OF bounds(1,3)] encode_integer_complete [OF bounds(2,4)]
    unfolding mem_lookup_def version_term_def shown dict_lookup.simps enc by (auto simp: or_found_def)
  have "parse_i64 (i64_to_string 0) = Some 0" "parse_i64 (i64_to_string 1) = Some 1" by code_simp+
  then show ?thesis using inline_integer_order [OF e] by simp
qed

lemma zero_read:
  assumes ok: "mem_store_ok X st" "decodable (memory_ops X) mem_view st" and h: "is_str (hl_id h)"
    and z: "zero_recorded (rdf_quads (memory_ops X) mem_view st) h"
  shows "version (memory_ops X) st h = Inr 0"
proof -
  let ?ops = "memory_ops X" and ?Q = "rdf_quads (memory_ops X) mem_view st" and ?p = "holos ''version''"
  from z obtain q0 where q0: "q0 \<in> ?Q" "q_subject q0 = NodeNamed (hl_id h)" "q_predicate q0 = ?p" "q_graph q0 = GraphNamed system_graph" "q_object q0 = version_term 0"
    unfolding zero_recorded_def objects_def by fastforce
  obtain si pi gi where ids: "op_lookup ?ops st (NamedNode (hl_id h)) = Inr (Some si)" "op_lookup ?ops st (NamedNode ?p) = Inr (Some pi)"
    "op_lookup ?ops st (NamedNode system_graph) = Inr (Some gi)"
    using mgrow.stored_lookup(1,2,4) [OF q0(1)] q0(2-4) by auto
  have str: "is_str ?p" by simp
  obtain es where es: "op_scan ?ops st (Some si) (Some pi) None (FilterNamed gi) = map Inr es"
    "\<And>e. e \<in> set es \<longleftrightarrow> (\<exists>q\<in>?Q. encodes ?ops st q e \<and> q_subject q = NodeNamed (hl_id h) \<and> q_predicate q = ?p
      \<and> q_graph q = GraphNamed system_graph \<and> (\<forall>i\<in>set_option None. enc_object e = i))"
    using mgrow.registry_scan [OF ok h str is_str_names(1) ids, of None] by blast
  obtain e0 where e0: "encodes ?ops st q0 e0" "e0 \<in> set es" using q0 es(2) by (auto simp: rdf_quads_def)
  then obtain e es' where cons: "es = e # es'" by (cases es) auto
  then obtain q where q: "q \<in> ?Q" "encodes ?ops st q e" "q_subject q = NodeNamed (hl_id h)" "q_predicate q = ?p" "q_graph q = GraphNamed system_graph"
    using es(2) [of e] by auto
  have "q_object q \<in> objects ?Q (hl_id h) ?p system_graph" using q by (auto simp: objects_def)
  then have "q_object q = version_term 0 \<or> q_object q = version_term 1" using z by (auto simp: zero_recorded_def)
  moreover have "q_object q \<noteq> version_term 1"
  proof
    assume "q_object q = version_term 1"
    then have "enc_object e0 < enc_object e" using version_ids [of X st] q(2) e0(1) q0(5) by (simp add: encodes_iff memory_ops_def)
    moreover have "e0 = e \<or> enc_object e < enc_object e0"
      using gspo_scan_sorted [of st si pi gi es] es(1) ok(1) e0(2) cons by (auto simp: memory_ops_def mem_store_ok_def)
    ultimately show False by auto
  qed
  ultimately have "op_decode ?ops st (enc_object e) = Inr (Some (version_term 0))"
    using mstore.decode_lookup [OF ok(1), of "q_object q" "enc_object e"] q by (auto simp: encodes_iff rdf_quads_def wf_quad_def)
  moreover have "parse_u64 (show_nat (unat (0 :: u64))) = Some 0" by (rule parse_u64_show)
  ultimately show ?thesis
    using ids es(1) cons by (simp add: version_def registry_graph_filter_def from_store_def registry_object_def version_term_def)
qed

text \<open>
  C40. A version recorded as zero is never replaced. Once a holon's version is on record as zero, which is
  what branching a holon that has not ticked records, the next version is one; recording it succeeds but
  leaves the zero beside it, and the zero is what is read: the next version is one again, however many
  versions are recorded.
\<close>

theorem zero_version_sticks:
  assumes "in_order X st se" "is_str (hl_id h)" "zero_recorded (stored X st) h" "mem_dictionary_len st + 4 \<le> 2 ^ 60"
    and "(st', r) = set_version (memory_ops X) memory_scope h 1 st"
  shows "next_version (memory_ops X) st h = Inr 1 \<and> r = Inr () \<and> in_order X st' se \<and> stored X st' = insert (version_quad h 1) (stored X st)
    \<and> zero_recorded (stored X st') h \<and> next_version (memory_ops X) st' h = Inr 1
    \<and> (version_is Q (branch_child source i) 0 \<longrightarrow> zero_recorded (branch_result source i 0 at Q) (branch_child source i))"
proof -
  have b: "zero_recorded (branch_result source i 0 at Q) (branch_child source i)" if "version_is Q (branch_child source i) 0"
    using branch_version [OF that, of 0 at] by (simp add: zero_recorded_def version_term_def)
  have nv: "next_version (memory_ops X) s h = Inr 1" if "in_order X s se" "zero_recorded (stored X s) h" for s
    using zero_read [of X s, OF _ _ assms(2)] that by (simp add: next_version_def in_order_def stored_def)
  have room: "op_dictionary_len (memory_ops X) (fst (st, se)) + 4 \<le> 2 ^ 60" using assms(4) by (simp add: memory_ops_def)
  obtain s2 where 2: "set_version (memory_ops X) memory_scope h 1 st = (s2, Inr ())" "growing_storage.leads (memory_ops X) (mem_store_ok X) mem_view (st, se) (s2, se)"
    "\<not> op_in_scope memory_scope s2" "stored X s2 = insert (version_quad h 1) (stored X st)"
    using mbranch.set_version_zero [OF in_order_good [OF assms(1)] assms(2) room, of 1] zero_read [OF _ _ assms(2)] assms(3)
    unfolding stored_def fst_conv snd_conv by metis
  have o: "in_order X s2 se" using in_order_leads [OF 2(2)] 2(3) by simp
  have z: "zero_recorded (stored X s2) h"
    using assms(3) unfolding 2(4) zero_recorded_def objects_insert by (auto simp: version_quad_def literal_quad_def version_term_def)
  show ?thesis using assms(5) 2(1,4) o z b nv [OF assms(1,3)] nv [OF o z] by simp
qed

theorem zero_version_sticks_witness:
  "\<exists>st se. in_order demo_lib st se \<and> stored demo_lib st = {version_quad sample_holon 0}
    \<and> next_version (memory_ops demo_lib) (fst (set_version (memory_ops demo_lib) memory_scope sample_holon 1 st)) sample_holon = Inr 1"
proof -
  obtain se where se: "in_order demo_lib store_new se" "stored demo_lib store_new = {}" "mem_dictionary_len store_new = 0" by (rule new_admin_session) blast
  have h: "is_str (hl_id sample_holon)" by code_simp
  obtain st where st: "in_order demo_lib st se" "stored demo_lib st = {version_quad sample_holon 0}" "mem_dictionary_len st \<le> 4"
    by (rule in_order_insert [OF se(1) mgrow.wf_version_quad(1) [OF h]]) (use se(2,3) in \<open>simp_all add: mgrow.wf_version_quad(2)\<close>)
  have "objects {version_quad sample_holon 0} (hl_id sample_holon) (holos ''version'') system_graph = {version_term 0}"
    unfolding objects_insert by (simp add: objects_def version_quad_def literal_quad_def version_term_def)
  then have "zero_recorded (stored demo_lib st) sample_holon" "mem_dictionary_len st + 4 \<le> 2 ^ 60"
    using st(3) unfolding st(2) by (simp_all add: zero_recorded_def)
  note s = zero_version_sticks [OF st(1) h this prod.collapse]
  show ?thesis using st(1,2) s by blast
qed

end
