(* ===== verification/Holon_Progress.thy ===== *)
theory Holon_Progress
  imports Holon_Registry
begin

text \<open>
  Ticks one after another: what a tick leaves alone, and that a tick nothing forbids succeeds and leaves a
  store the next tick can start from.
\<close>

section \<open>What a tick leaves alone\<close>

definition outside_holon :: "holon \<Rightarrow> quad \<Rightarrow> bool" where
  "outside_holon h q \<longleftrightarrow> q_graph q \<noteq> GraphNamed (hl_scene h) \<and> q_graph q \<noteq> GraphNamed (hl_events h)
    \<and> \<not> (q_graph q = GraphNamed system_graph \<and> q_subject q = NodeNamed (hl_id h) \<and> q_predicate q = holos ''version'')"

lemma version_quad_inside: "\<not> outside_holon h (version_quad h v)"
  by (simp add: outside_holon_def version_quad_def literal_quad_def)

lemma tick_result_frame:
  "outside_holon h q \<Longrightarrow> q \<in> tick_result h d ts v w at p adm n Q \<longleftrightarrow> q \<in> Q"
  using version_quad_inside [of h] into_graph [of q "hl_scene h"]
  by (auto simp: tick_result_def delta_result_def outside_holon_def split: if_splits dest!: event_graph)

lemma tick_result_log:
  assumes "graphs_apart h"
  shows "{q \<in> Q. q_graph q = GraphNamed (hl_events h)} \<subseteq> tick_result h d ts v w at p adm n Q"
  using assms into_graph [of _ "hl_scene h"]
  by (fastforce simp: tick_result_def delta_result_def graphs_apart_def version_quad_def literal_quad_def)

lemma meets_result:
  assumes "tick_meets V R ops view h d rules v w at se Q (Inr t) Q'"
  shows "to_version t = w" "\<exists>ts p adm n. Q' = tick_result h d ts v w at p adm n Q"
  using assms unfolding tick_meets_def sum.case by blast+

text \<open>
  C13. A tick stays within its holon, with rules or without, admitted, refused or failed: every quad
  outside the scene, the event log and the holon's own version entry is stored afterwards exactly if it
  was before, and no quad of the event log is ever taken away.
\<close>

theorem tick_frame:
  assumes "in_order X st se" "tickable h" "wf_delta d" "is_str (pr_id (se_principal se))" "version_is (stored X st) h v" "rules_bounded R N"
    and "mem_dictionary_len st + 5 * (ts_cost (dl_added d) + ts_cost (dl_removed d) + N) + 40 \<le> 2 ^ 60"
    and "(ru, (st', se'), r) = tick_with_rules V R (memory_ops X) memory_scope h at d rules (st, se)"
  shows "(\<forall>q. outside_holon h q \<longrightarrow> (q \<in> stored X st' \<longleftrightarrow> q \<in> stored X st))
    \<and> {q \<in> stored X st. q_graph q = GraphNamed (hl_events h)} \<subseteq> stored X st'"
proof -
  have h: "graphs_apart h" using assms(2) by (simp add: tickable_def)
  have "stored X st' = stored X st \<or> (\<exists>ts p adm n. stored X st' = tick_result h d ts v (v + 1) at p adm n (stored X st))"
    using tick_outcome [OF assms] meets_result(2) by (cases r) (simp, blast)
  then show ?thesis using tick_result_frame [of h] tick_result_log [OF h] by (elim disjE exE) simp_all
qed

section \<open>A tick nothing forbids\<close>

lemma tick_with_rules_snd:
  "snd (tick_with_rules V R ops sc h at d rules c) =
    (case begin_commit sc (fst c) of
       (st, Inl e) \<Rightarrow> ((st, snd c), Inl e)
     | (st, Inr owned) \<Rightarrow>
         (case snd (tick_body V R ops sc h at d rules (st, snd c)) of (c, outcome) \<Rightarrow>
          (case end_commit sc owned (\<not> isl outcome) (fst c) of (st, Inl e) \<Rightarrow> ((st, snd c), Inl e) | (st, Inr _) \<Rightarrow> ((st, snd c), outcome))))"
  by (auto simp: tick_with_rules_def split: prod.split sum.split)

lemma tick_without_rules: "tick V R ops sc h at d c = tick V R' ops sc h at d c"
proof -
  have steps: "snd (tick_steps V R ops sc h at d v None c) = snd (tick_steps V R' ops sc h at d v None c)" for v c
    by (simp add: tick_steps_def fire_rules_def split: prod.split sum.split)
  have body: "snd (tick_body V R ops sc h at d None c) = snd (tick_body V R' ops sc h at d None c)" for c
    by (simp add: tick_body_def steps split: option.split sum.split)
  show ?thesis unfolding tick_def tick_with_rules_snd body ..
qed

lemma tick_result_version:
  assumes "graphs_apart h" "version_is Q h v"
  shows "objects (tick_result h d ts v w at p adm n Q) (hl_id h) (holos ''version'') system_graph = {version_term w}"
proof -
  define E where "E = set (event_to_quads \<lparr>tk_holon = h, tk_version = w, tk_at = at, tk_principal = p,
      tk_changes = delta_changes (hl_scene h) d ts Q, tk_admitted = adm, tk_violations = n\<rparr>)"
  define Q' where "Q' = (if adm then delta_result (hl_scene h) d ts Q else Q) \<union> E"
  have E: "\<forall>q\<in>E. q_graph q \<noteq> GraphNamed system_graph" using assms(1) by (auto simp: E_def graphs_apart_def dest!: event_graph)
  have "version_is Q' h v" unfolding Q'_def mgrow.version_is_other(1) [OF E] using assms mholon.version_is_delta [OF assms(1)] by simp
  from mgrow.version_removed [OF this] show ?thesis
    unfolding tick_result_def E_def [symmetric] Q'_def [symmetric] objects_insert by (simp add: version_quad_def literal_quad_def version_term_def)
qed

text \<open>
  C11. A holon that may tick does. From any store in good order, a tick without rules whose delta the
  policy permits, against a validator that answers, returns an outcome at the next version and leaves a
  store in good order where that version is read and, unless the counter has wrapped to zero, the
  conditions for the next tick hold again, for the same principal under the same policy.
\<close>

theorem tick_progress:
  fixes V :: "(memory_storage, 'shapes, 'report) shacl_lib"
  assumes "in_order X st se" "tickable h" "wf_delta d" "is_str (pr_id (se_principal se))" "version_is (stored X st) h v"
    and "permitted se (hl_scene h) d" "shacl_total V" "mem_dictionary_len st + 5 * (ts_cost (dl_added d) + ts_cost (dl_removed d)) + 40 \<le> 2 ^ 60"
  shows "\<exists>st' se' t. tick V R (memory_ops X) memory_scope h at d (st, se) = ((st', se'), Inr t) \<and> to_version t = v + 1
    \<and> in_order X st' se' \<and> same_principal se se' \<and> version (memory_ops X) st' h = Inr (v + 1)
    \<and> (v + 1 \<noteq> 0 \<longrightarrow> version_is (stored X st') h (v + 1))"
proof -
  let ?R = "fixed_rules [] :: (memory_storage, unit) rule_lib"
  have h: "wf_holon h" "graphs_apart h" using assms(2) by (simp_all add: tickable_def)
  have b: "rules_bounded ?R 0" by (simp add: rules_bounded_def fixed_rules_def)
  obtain ru st' se' and r :: "'report tick_outcome hres" where t: "(ru, (st', se'), r) = tick_with_rules V ?R (memory_ops X) memory_scope h at d None (st, se)"
    by (metis prod_cases3 surj_pair)
  note o = tick_outcome [OF assms(1-5) b _ t]
  have ok: "in_order X st' se'" "same_principal se se'" and m: "tick_meets V ?R (memory_ops X) mem_view h d None v (v + 1) at se (stored X st) r (stored X st')"
    using o assms(8) by simp_all
  have "\<not> isl r" using m assms(6,7) by (cases r) (auto simp: tick_meets_def)
  then obtain u where u: "r = Inr u" by (cases r) auto
  note res = meets_result [OF m [unfolded u]]
  from res(2) have objs: "objects (stored X st') (hl_id h) (holos ''version'') system_graph = {version_term (v + 1)}"
    using tick_result_version [OF h(2) assms(5)] by auto
  have "version (memory_ops X) st' h = Inr (v + 1)"
    using mbranch.version_literal [of X st' h "v + 1"] ok(1) h(1) objs by (simp add: in_order_def stored_def wf_holon_def version_term_def)
  moreover have "tick V R (memory_ops X) memory_scope h at d (st, se) = ((st', se'), Inr u)"
    using t u tick_without_rules [of V R _ _ _ _ _ _ ?R] by (metis snd_conv tick_def)
  ultimately show ?thesis using ok res(1) objs by (auto simp: version_is_def version_term_def)
qed

lemma sample_session:
  obtains se where "in_order demo_lib store_new se" "stored demo_lib store_new = {}" "mem_dictionary_len store_new = 0" "is_str (pr_id (se_principal se))"
    "permitted se (hl_scene sample_holon) (delta_adding [sample_triple])" "version_is {} sample_holon 0"
proof -
  have po: "wf_policy policy_permit_all" by code_simp
  obtain se where se: "in_order demo_lib store_new se" "se_policy se = policy_permit_all" "se_principal se = anonymous"
    by (rule new_in_order [OF demo_lib_ok po, of anonymous]) blast
  have "stored demo_lib store_new = {}" "mem_dictionary_len store_new = 0"
    using new_store_ok [OF demo_lib_ok] by (simp_all add: stored_def rdf_view_def memory_ops_def)
  moreover have "is_str (pr_id anonymous)" "policy_decides policy_permit_all anonymous (into_scene sample_triple (hl_scene sample_holon)) WRITE = AllowIt" by code_simp+
  ultimately show thesis using se that [of se] by (simp add: permitted_def allowed_def delta_adding_def version_is_def objects_def)
qed

theorem tick_progress_witness:
  "\<exists>se st' se' t. tick (fixed_shacl 0) (fixed_rules []) (memory_ops demo_lib) memory_scope sample_holon 0 (delta_adding [sample_triple]) (store_new, se) = ((st', se'), Inr t)
    \<and> to_version t = 1 \<and> version (memory_ops demo_lib) st' sample_holon = Inr 1"
proof -
  obtain se where se: "in_order demo_lib store_new se" "stored demo_lib store_new = {}" "mem_dictionary_len store_new = 0" "is_str (pr_id (se_principal se))"
    "permitted se (hl_scene sample_holon) (delta_adding [sample_triple])" "version_is {} sample_holon 0" by (rule sample_session)
  have "shacl_total (fixed_shacl 0 :: (memory_storage, unit, nat) shacl_lib)" by (simp add: shacl_total_def fixed_shacl_def)
  moreover have "version_is (stored demo_lib store_new) sample_holon 0" using se(2,6) by simp
  moreover have "mem_dictionary_len store_new + 5 * (ts_cost (dl_added (delta_adding [sample_triple])) + ts_cost (dl_removed (delta_adding [sample_triple]))) + 40 \<le> 2 ^ 60"
    using sample_tickable(3) by (simp add: se(3) delta_adding_def)
  ultimately show ?thesis using tick_progress [OF se(1) sample_tickable(1,2) se(4) _ se(5)] by fastforce
qed

theorem tick_frame_witness:
  "\<exists>st se ru st' se' r. in_order demo_lib st se \<and> stored demo_lib st = {sample_quad}
    \<and> tick_with_rules (fixed_shacl 0) (fixed_rules [sample_triple]) (memory_ops demo_lib) memory_scope sample_holon 0 (delta_adding [sample_triple])
        (Some \<lparr>ru_run = (), ru_for_scene = hl_scene sample_holon\<rparr>) (st, se) = (ru, (st', se'), r)
    \<and> sample_quad \<in> stored demo_lib st'"
proof -
  let ?R = "fixed_rules [sample_triple] :: (memory_storage, unit) rule_lib" and ?d = "delta_adding [sample_triple]"
  obtain se where se: "in_order demo_lib store_new se" "stored demo_lib store_new = {}" "mem_dictionary_len store_new = 0" "is_str (pr_id (se_principal se))"
    by (rule sample_session)
  have q: "wf_quad sample_quad" "quad_cost sample_quad = 4" by code_simp+
  obtain st where st: "in_order demo_lib st se" "stored demo_lib st = {sample_quad}" "mem_dictionary_len st \<le> 4"
    by (rule in_order_insert [OF se(1) q(1)]) (use se(2,3) q(2) in simp_all)
  have names: "hl_id sample_holon = ''urn:h''" "hl_scene sample_holon = ''urn:h/scene''" "hl_events sample_holon = ''urn:h/events''" "wf_triple sample_triple" by code_simp+
  have pre: "version_is (stored demo_lib st) sample_holon 0" "rules_bounded ?R 4" "outside_holon sample_holon sample_quad"
    using names sample_tickable(3) by (simp_all add: st(2) version_is_def objects_def sample_quad_def rules_bounded_def fixed_rules_def outside_holon_def) 
  have room: "mem_dictionary_len st + 5 * (ts_cost (dl_added ?d) + ts_cost (dl_removed ?d) + 4) + 40 \<le> 2 ^ 60"
    using st(3) sample_tickable(3) by (simp add: delta_adding_def)
  obtain ru st' se' r where t: "(ru, (st', se'), r) = tick_with_rules (fixed_shacl 0) ?R (memory_ops demo_lib) memory_scope sample_holon 0 ?d
      (Some \<lparr>ru_run = (), ru_for_scene = hl_scene sample_holon\<rparr>) (st, se)" by (metis prod_cases3 surj_pair)
  have "sample_quad \<in> stored demo_lib st'"
    using tick_frame [OF st(1) sample_tickable(1,2) se(4) pre(1,2) room t] pre(3) st(2) by simp
  then show ?thesis using st(1,2) t by metis
qed

end
