(* ===== verification/Shacl_Graph.thy ===== *)
theory Shacl_Graph
  imports Rust_Std
begin

text \<open>
  The in-memory graph of the SHACL engine, \<^verbatim>\<open>holos-shacl-engine/src/model/graph.rs\<close>. A graph is three vectors of triples, each sorted in its own component order;
  lookups are prefix ranges found by binary search. The invariant \<open>graph_ok\<close> says that the three vectors
  are strictly ascending permutations of one set of triples; it determines the graph from that set, so
  however a graph was reached it answers as one built from the same triples in one go.
\<close>

section \<open>Sorted vectors\<close>

text \<open>\<open>partition_point\<close> and \<open>binary_search\<close> of a slice, as documented for sorted slices.\<close>

definition partition_point :: "('a \<Rightarrow> bool) \<Rightarrow> 'a list \<Rightarrow> nat" where
  "partition_point P xs = length (takeWhile P xs)"

definition binary_search :: "'a::linorder list \<Rightarrow> 'a \<Rightarrow> nat + nat" where
  "binary_search xs x =
    (let at = partition_point (\<lambda>y. y < x) xs in if at < length xs \<and> xs ! at = x then Inr at else Inl at)"

definition vec_insert :: "nat \<Rightarrow> 'a \<Rightarrow> 'a list \<Rightarrow> 'a list" where
  "vec_insert at x xs = take at xs @ x # drop at xs"

definition vec_remove :: "nat \<Rightarrow> 'a list \<Rightarrow> 'a list" where
  "vec_remove at xs = take at xs @ drop (Suc at) xs"

definition sorted_dedup :: "'a::linorder list \<Rightarrow> 'a list" where
  "sorted_dedup xs = remdups_adj (sort xs)"

section \<open>The graph\<close>

type_synonym tid = u32
type_synonym trow = "tid \<times> tid \<times> tid"

record shacl_graph =
  sg_spo :: "trow list"
  sg_pos :: "trow list"
  sg_osp :: "trow list"

definition empty_graph :: shacl_graph where
  "empty_graph = \<lparr>sg_spo = [], sg_pos = [], sg_osp = []\<rparr>"

record graph_builder =
  gb_rows :: "trow list"

definition builder_push :: "tid \<Rightarrow> tid \<Rightarrow> tid \<Rightarrow> graph_builder \<Rightarrow> graph_builder" where
  "builder_push s p x b = b\<lparr>gb_rows := gb_rows b @ [(s, p, x)]\<rparr>"

definition build :: "graph_builder \<Rightarrow> shacl_graph" where
  "build b =
    (let spo = sorted_dedup (gb_rows b) in
     \<lparr>sg_spo = spo, sg_pos = sort (map (\<lambda>(s, p, x). (p, x, s)) spo), sg_osp = sort (map (\<lambda>(s, p, x). (x, s, p)) spo)\<rparr>)"

definition graph_len :: "shacl_graph \<Rightarrow> nat" where
  "graph_len g = length (sg_spo g)"

definition prefix1 :: "trow list \<Rightarrow> tid \<Rightarrow> trow list" where
  "prefix1 rows a =
    (let lo = partition_point (\<lambda>r. fst r < a) rows;
         hi = partition_point (\<lambda>r. fst r = a) (drop lo rows) + lo
     in take (hi - lo) (drop lo rows))"

definition prefix2 :: "trow list \<Rightarrow> tid \<Rightarrow> tid \<Rightarrow> trow list" where
  "prefix2 rows a b =
    (let lo = partition_point (\<lambda>r. (fst r, fst (snd r)) < (a, b)) rows;
         hi = partition_point (\<lambda>r. (fst r, fst (snd r)) = (a, b)) (drop lo rows) + lo
     in take (hi - lo) (drop lo rows))"

definition graph_objects :: "shacl_graph \<Rightarrow> tid \<Rightarrow> tid \<Rightarrow> tid list" where
  "graph_objects g s p = map (\<lambda>r. snd (snd r)) (prefix2 (sg_spo g) s p)"

definition graph_object :: "shacl_graph \<Rightarrow> tid \<Rightarrow> tid \<Rightarrow> tid option" where
  "graph_object g s p = (case prefix2 (sg_spo g) s p of [] \<Rightarrow> None | r # _ \<Rightarrow> Some (snd (snd r)))"

definition graph_subjects :: "shacl_graph \<Rightarrow> tid \<Rightarrow> tid \<Rightarrow> tid list" where
  "graph_subjects g p x = map (\<lambda>r. snd (snd r)) (prefix2 (sg_pos g) p x)"

definition subjects_of :: "shacl_graph \<Rightarrow> tid \<Rightarrow> tid list" where
  "subjects_of g p = map (\<lambda>r. snd (snd r)) (prefix1 (sg_pos g) p)"

definition objects_of :: "shacl_graph \<Rightarrow> tid \<Rightarrow> tid list" where
  "objects_of g p = map (\<lambda>r. fst (snd r)) (prefix1 (sg_pos g) p)"

definition predicate_objects :: "shacl_graph \<Rightarrow> tid \<Rightarrow> (tid \<times> tid) list" where
  "predicate_objects g s = map snd (prefix1 (sg_spo g) s)"

definition subject_predicates :: "shacl_graph \<Rightarrow> tid \<Rightarrow> (tid \<times> tid) list" where
  "subject_predicates g x = map snd (prefix1 (sg_osp g) x)"

definition graph_contains :: "shacl_graph \<Rightarrow> tid \<Rightarrow> tid \<Rightarrow> tid \<Rightarrow> bool" where
  "graph_contains g s p x \<longleftrightarrow> \<not> isl (binary_search (sg_spo g) (s, p, x))"

definition has_subject :: "shacl_graph \<Rightarrow> tid \<Rightarrow> bool" where
  "has_subject g s \<longleftrightarrow> prefix1 (sg_spo g) s \<noteq> []"

definition graph_iter :: "shacl_graph \<Rightarrow> trow list" where
  "graph_iter g = sg_spo g"

text \<open>One turn of the loop over the three orders.\<close>

definition insert_row :: "trow \<Rightarrow> trow list \<Rightarrow> bool \<times> trow list" where
  "insert_row row rows = (case binary_search rows row of Inl at \<Rightarrow> (True, vec_insert at row rows) | Inr _ \<Rightarrow> (False, rows))"

definition remove_row :: "trow \<Rightarrow> trow list \<Rightarrow> bool \<times> trow list" where
  "remove_row row rows = (case binary_search rows row of Inr at \<Rightarrow> (True, vec_remove at rows) | Inl _ \<Rightarrow> (False, rows))"

definition graph_insert :: "tid \<Rightarrow> tid \<Rightarrow> tid \<Rightarrow> shacl_graph \<Rightarrow> shacl_graph \<times> bool" where
  "graph_insert s p x g =
    (case insert_row (s, p, x) (sg_spo g) of (a, spo) \<Rightarrow>
     case insert_row (p, x, s) (sg_pos g) of (b, pos) \<Rightarrow>
     case insert_row (x, s, p) (sg_osp g) of (c, osp) \<Rightarrow>
       (\<lparr>sg_spo = spo, sg_pos = pos, sg_osp = osp\<rparr>, a \<or> b \<or> c))"

definition graph_remove :: "tid \<Rightarrow> tid \<Rightarrow> tid \<Rightarrow> shacl_graph \<Rightarrow> shacl_graph \<times> bool" where
  "graph_remove s p x g =
    (case remove_row (s, p, x) (sg_spo g) of (a, spo) \<Rightarrow>
     case remove_row (p, x, s) (sg_pos g) of (b, pos) \<Rightarrow>
     case remove_row (x, s, p) (sg_osp g) of (c, osp) \<Rightarrow>
       (\<lparr>sg_spo = spo, sg_pos = pos, sg_osp = osp\<rparr>, a \<or> b \<or> c))"

definition REBUILD_ABOVE :: nat where "REBUILD_ABOVE = 64"

definition graph_apply :: "trow list \<Rightarrow> trow list \<Rightarrow> shacl_graph \<Rightarrow> shacl_graph" where
  "graph_apply added removed g =
    (if length added + length removed > max REBUILD_ABOVE (graph_len g div 16)
     then build \<lparr>gb_rows = filter (\<lambda>r. r \<notin> set removed) (sg_spo g) @ added\<rparr>
     else foldl (\<lambda>g (s, p, x). fst (graph_insert s p x g)) (foldl (\<lambda>g (s, p, x). fst (graph_remove s p x g)) g removed) added)"

section \<open>Sorted vectors are ordered sets\<close>

lemma binary_search_Cons:
  "y < x \<Longrightarrow> binary_search (y # ys) x = map_sum Suc Suc (binary_search ys x)"
  "\<not> y < x \<Longrightarrow> binary_search (y # ys) x = (if y = x then Inr 0 else Inl 0)"
  by (auto simp: binary_search_def partition_point_def Let_def)

lemma vec_Cons [simp]:
  "vec_insert (Suc n) x (y # ys) = y # vec_insert n x ys" "vec_insert 0 x ys = x # ys"
  "vec_remove (Suc n) (y # ys) = y # vec_remove n ys" "vec_remove 0 (y # ys) = ys"
  by (simp_all add: vec_insert_def vec_remove_def)

lemma binary_search_Nil [simp]: "binary_search [] x = Inl 0"
  by (simp add: binary_search_def partition_point_def)

lemma insert_row_eq: "insert_row row rows = btree_insert row rows"
proof (induction rows)
  case (Cons r rows)
  show ?case
  proof (cases "r < row")
    case True
    then show ?thesis using Cons [symmetric] by (cases "binary_search rows row") (auto simp: insert_row_def binary_search_Cons)
  next
    case False
    then show ?thesis by (auto simp: insert_row_def binary_search_Cons)
  qed
qed (simp add: insert_row_def)

lemma remove_row_eq: "remove_row row rows = btree_remove row rows"
proof (induction rows)
  case (Cons r rows)
  show ?case
  proof (cases "r < row")
    case True
    then show ?thesis using Cons [symmetric] by (cases "binary_search rows row") (auto simp: remove_row_def binary_search_Cons)
  next
    case False
    then show ?thesis by (auto simp: remove_row_def binary_search_Cons)
  qed
qed (simp add: remove_row_def)

lemma binary_search_found: "btree_ok xs \<Longrightarrow> \<not> isl (binary_search xs x) \<longleftrightarrow> x \<in> set xs"
proof (induction xs)
  case (Cons y ys)
  show ?case using Cons by (cases "y < x"; cases "binary_search ys x") (auto simp: binary_search_Cons btree_ok_def)
qed simp

lemma strict_remdups_adj: "sorted xs \<Longrightarrow> sorted_wrt (<) (remdups_adj xs)"
  by (induction xs rule: remdups_adj.induct) (auto simp: less_le)

lemma sorted_dedup_ok: "btree_ok (sorted_dedup xs)" "set (sorted_dedup xs) = set xs"
  by (simp_all add: sorted_dedup_def btree_ok_def strict_remdups_adj)

lemma sort_ok: "distinct xs \<Longrightarrow> btree_ok (sort xs)"
  by (simp add: btree_ok_def strict_sorted_iff)

lemma range_is_filter: "sorted (map f xs) \<Longrightarrow> takeWhile (\<lambda>x. f x = a) (dropWhile (\<lambda>x. f x < a) xs) = filter (\<lambda>x. f x = a) xs"
proof (induction xs)
  case (Cons x xs)
  have all: "\<forall>y\<in>set xs. f x \<le> f y" using Cons.prems by simp
  then have "dropWhile (\<lambda>y. f y < f x) xs = xs" by (cases xs) auto
  moreover have "filter (\<lambda>y. f y = a) xs = []" if "a < f x" using all that by (auto simp: filter_empty_conv)
  ultimately show ?case using Cons by (cases "f x" a rule: linorder_cases) auto
qed simp

lemma range_slice:
  "sorted (map f xs) \<Longrightarrow> (let lo = partition_point (\<lambda>x. f x < a) xs; hi = partition_point (\<lambda>x. f x = a) (drop lo xs) + lo
    in take (hi - lo) (drop lo xs)) = filter (\<lambda>x. f x = a) xs"
  using range_is_filter [of f xs a]
  by (simp add: partition_point_def Let_def dropWhile_eq_drop [symmetric] takeWhile_eq_take [symmetric])

lemma sorted_keys: "btree_ok rows \<Longrightarrow> sorted (map fst rows)" "btree_ok rows \<Longrightarrow> sorted (map (\<lambda>r. (fst r, fst (snd r))) rows)"
  for rows :: "trow list"
  by (auto simp: btree_ok_def sorted_wrt_map less_prod_simp less_eq_prod_simp elim!: sorted_wrt_mono_rel [rotated])

lemma prefix_filter:
  "btree_ok rows \<Longrightarrow> prefix1 rows a = filter (\<lambda>r. fst r = a) rows"
  "btree_ok rows \<Longrightarrow> prefix2 rows a b = filter (\<lambda>r. (fst r, fst (snd r)) = (a, b)) rows"
  using range_slice [OF sorted_keys(1), of rows a] range_slice [OF sorted_keys(2), of rows "(a, b)"]
  by (simp_all only: prefix1_def prefix2_def)

section \<open>Three orders of one set\<close>

definition triples :: "shacl_graph \<Rightarrow> trow set" where
  "triples g = set (sg_spo g)"

definition graph_ok :: "shacl_graph \<Rightarrow> bool" where
  "graph_ok g \<longleftrightarrow> btree_ok (sg_spo g) \<and> btree_ok (sg_pos g) \<and> btree_ok (sg_osp g)
    \<and> set (sg_pos g) = (\<lambda>(s, p, x). (p, x, s)) ` triples g \<and> set (sg_osp g) = (\<lambda>(s, p, x). (x, s, p)) ` triples g"

lemma graph_okD:
  assumes "graph_ok g"
  shows "btree_ok (sg_spo g)" "btree_ok (sg_pos g)" "btree_ok (sg_osp g)" "set (sg_spo g) = triples g"
    "(p, x, s) \<in> set (sg_pos g) \<longleftrightarrow> (s, p, x) \<in> triples g" "(x, s, p) \<in> set (sg_osp g) \<longleftrightarrow> (s, p, x) \<in> triples g"
  using assms by (force simp: graph_ok_def triples_def image_iff)+

lemma graph_ext:
  assumes "graph_ok g" "graph_ok h" "triples g = triples h"
  shows "g = h"
proof -
  have "sg_spo g = sg_spo h" "sg_pos g = sg_pos h" "sg_osp g = sg_osp h"
    using assms by (auto simp: graph_ok_def triples_def intro!: btree_ext)
  then show ?thesis by simp
qed

lemma build_ok: "graph_ok (build b)" "triples (build b) = set (gb_rows b)"
  by (auto simp: build_def graph_ok_def triples_def Let_def sorted_dedup_ok intro!: sort_ok simp: distinct_map btree_ok_distinct inj_on_def)

lemma insert_ok:
  assumes "graph_ok g"
  shows "graph_ok (fst (graph_insert s p x g))" "triples (fst (graph_insert s p x g)) = insert (s, p, x) (triples g)"
    "snd (graph_insert s p x g) \<longleftrightarrow> (s, p, x) \<notin> triples g"
proof -
  note ok = graph_okD(1-3) [OF assms]
  have f: "fst (graph_insert s p x g) = \<lparr>sg_spo = snd (btree_insert (s, p, x) (sg_spo g)), sg_pos = snd (btree_insert (p, x, s) (sg_pos g)),
      sg_osp = snd (btree_insert (x, s, p) (sg_osp g))\<rparr>"
    by (simp add: graph_insert_def insert_row_eq split_beta)
  show t: "triples (fst (graph_insert s p x g)) = insert (s, p, x) (triples g)" by (simp add: f triples_def set_btree_insert)
  show "graph_ok (fst (graph_insert s p x g))"
    unfolding graph_ok_def t using ok assms by (auto simp: f set_btree_insert graph_ok_def)
  show "snd (graph_insert s p x g) \<longleftrightarrow> (s, p, x) \<notin> triples g"
    using ok graph_okD(4-6) [OF assms] by (simp add: graph_insert_def insert_row_eq split_beta fst_btree_insert)
qed

lemma remove_ok:
  assumes "graph_ok g"
  shows "graph_ok (fst (graph_remove s p x g))" "triples (fst (graph_remove s p x g)) = triples g - {(s, p, x)}"
    "snd (graph_remove s p x g) \<longleftrightarrow> (s, p, x) \<in> triples g"
proof -
  note ok = graph_okD(1-3) [OF assms]
  have f: "fst (graph_remove s p x g) = \<lparr>sg_spo = snd (btree_remove (s, p, x) (sg_spo g)), sg_pos = snd (btree_remove (p, x, s) (sg_pos g)),
      sg_osp = snd (btree_remove (x, s, p) (sg_osp g))\<rparr>"
    by (simp add: graph_remove_def remove_row_eq split_beta)
  show t: "triples (fst (graph_remove s p x g)) = triples g - {(s, p, x)}" using ok by (simp add: f triples_def set_btree_remove)
  have inj: "inj (\<lambda>(s, p, x). (p, x, s))" "inj (\<lambda>(s, p, x). (x, s, p))" by (auto simp: inj_on_def)
  show "graph_ok (fst (graph_remove s p x g))"
    unfolding graph_ok_def t using ok assms by (simp add: f set_btree_remove graph_ok_def image_set_diff inj)
  show "snd (graph_remove s p x g) \<longleftrightarrow> (s, p, x) \<in> triples g"
    using ok graph_okD(4-6) [OF assms] by (simp add: graph_remove_def remove_row_eq split_beta fst_btree_remove)
qed

lemma remove_all_ok: "graph_ok g \<Longrightarrow> graph_ok (foldl (\<lambda>g (s, p, x). fst (graph_remove s p x g)) g rs)
    \<and> triples (foldl (\<lambda>g (s, p, x). fst (graph_remove s p x g)) g rs) = triples g - set rs"
  by (induction rs arbitrary: g) (auto simp: remove_ok split_beta)

lemma insert_all_ok: "graph_ok g \<Longrightarrow> graph_ok (foldl (\<lambda>g (s, p, x). fst (graph_insert s p x g)) g rs)
    \<and> triples (foldl (\<lambda>g (s, p, x). fst (graph_insert s p x g)) g rs) = triples g \<union> set rs"
  by (induction rs arbitrary: g) (auto simp: insert_ok split_beta)

lemma apply_ok:
  assumes "graph_ok g"
  shows "graph_ok (graph_apply added removed g)" "triples (graph_apply added removed g) = (triples g - set removed) \<union> set added"
proof -
  note r = remove_all_ok [OF assms, of removed]
  note i = insert_all_ok [OF conjunct1 [OF r], of added]
  show "graph_ok (graph_apply added removed g)" using i by (simp add: graph_apply_def build_ok)
  show "triples (graph_apply added removed g) = (triples g - set removed) \<union> set added"
    using r i by (auto simp: graph_apply_def build_ok) (auto simp: triples_def)
qed

section \<open>What a graph answers\<close>

lemma ascending_objects:
  assumes "graph_ok g"
  shows "sorted_wrt (<) (graph_objects g s p)" "set (graph_objects g s p) = {x. (s, p, x) \<in> triples g}"
    "sorted_wrt (<) (graph_subjects g p x)" "set (graph_subjects g p x) = {s. (s, p, x) \<in> triples g}"
proof -
  have sub: "sorted_wrt (<) (map (\<lambda>r. snd (snd r)) (filter (\<lambda>r. (fst r, fst (snd r)) = (a, b)) rows))" if "btree_ok rows" for rows :: "trow list" and a b
  proof -
    have "sorted_wrt (<) (filter (\<lambda>r. (fst r, fst (snd r)) = (a, b)) rows)" using that by (simp add: btree_ok_def sorted_wrt_filter)
    then show ?thesis unfolding sorted_wrt_map by (rule sorted_wrt_mono_rel [rotated]) (auto simp: less_prod_simp)
  qed
  have mem: "set (map (\<lambda>r. snd (snd r)) (filter (\<lambda>r. (fst r, fst (snd r)) = (a, b)) rows)) = {y. (a, b, y) \<in> set rows}" for rows :: "trow list" and a b
    by force
  show "sorted_wrt (<) (graph_objects g s p)" "sorted_wrt (<) (graph_subjects g p x)"
    using sub graph_okD(1,2) [OF assms] by (simp_all add: graph_objects_def graph_subjects_def prefix_filter)
  show "set (graph_objects g s p) = {x. (s, p, x) \<in> triples g}" "set (graph_subjects g p x) = {s. (s, p, x) \<in> triples g}"
    using graph_okD [OF assms] unfolding graph_objects_def graph_subjects_def by (simp_all only: prefix_filter mem Collect_mem_eq)
qed

lemma object_is_first: "graph_object g s p = (case graph_objects g s p of [] \<Rightarrow> None | x # _ \<Rightarrow> Some x)"
  by (simp add: graph_object_def graph_objects_def split: list.split)

text \<open>Every reading operation, against a set of triples.\<close>

definition answers :: "shacl_graph \<Rightarrow> trow set \<Rightarrow> bool" where
  "answers g T \<longleftrightarrow> graph_len g = card T \<and> sorted_wrt (<) (graph_iter g) \<and> set (graph_iter g) = T
    \<and> (\<forall>s p x. graph_contains g s p x \<longleftrightarrow> (s, p, x) \<in> T) \<and> (\<forall>s. has_subject g s \<longleftrightarrow> (\<exists>p x. (s, p, x) \<in> T))
    \<and> (\<forall>s p. sorted_wrt (<) (graph_objects g s p) \<and> set (graph_objects g s p) = {x. (s, p, x) \<in> T})
    \<and> (\<forall>s p. graph_object g s p = (if \<exists>x. (s, p, x) \<in> T then Some (Min {x. (s, p, x) \<in> T}) else None))
    \<and> (\<forall>p x. sorted_wrt (<) (graph_subjects g p x) \<and> set (graph_subjects g p x) = {s. (s, p, x) \<in> T})
    \<and> (\<forall>p. zip (objects_of g p) (subjects_of g p) = sorted_list_of_set {(x, s). (s, p, x) \<in> T} \<and> length (objects_of g p) = length (subjects_of g p))
    \<and> (\<forall>s. predicate_objects g s = sorted_list_of_set {(p, x). (s, p, x) \<in> T})
    \<and> (\<forall>x. subject_predicates g x = sorted_list_of_set {(s, p). (s, p, x) \<in> T})"

lemma min_head: "sorted_wrt (<) (x # xs) \<Longrightarrow> Min (set (x # xs)) = x" for x :: "'a::linorder"
  by (intro Min_eqI) auto

lemma prefix1_rest:
  fixes rows :: "trow list"
  assumes ok: "btree_ok rows" and R: "{q. (a, q) \<in> set rows} = R"
  shows "map snd (prefix1 rows a) = sorted_list_of_set R"
proof -
  have set: "set (map snd (prefix1 rows a)) = R" using R by (force simp: prefix_filter [OF ok])
  have "sorted_wrt (<) (filter (\<lambda>r. fst r = a) rows)" using ok by (simp add: btree_ok_def sorted_wrt_filter)
  then have srt: "sorted_wrt (<) (map snd (prefix1 rows a))"
    unfolding prefix_filter [OF ok] sorted_wrt_map by (rule sorted_wrt_mono_rel [rotated]) (auto simp: less_prod_simp)
  show ?thesis unfolding set [symmetric] by (rule strict_sorted_equal [OF _ srt]) simp_all
qed

lemma ok_answers:
  assumes "graph_ok g"
  shows "answers g (triples g)"
proof -
  note ok = graph_okD [OF assms]
  have T: "{q. (s, q) \<in> set (sg_spo g)} = {(p, x). (s, p, x) \<in> triples g}" "{q. (p, q) \<in> set (sg_pos g)} = {(x, s). (s, p, x) \<in> triples g}"
    "{q. (x, q) \<in> set (sg_osp g)} = {(s, p). (s, p, x) \<in> triples g}" for s p x using ok(4-6) by auto
  have obj: "graph_object g s p = (if \<exists>x. (s, p, x) \<in> triples g then Some (Min {x. (s, p, x) \<in> triples g}) else None)" for s p
  proof (cases "graph_objects g s p")
    case Nil
    then show ?thesis using ascending_objects(2) [OF assms, of s p] by (simp add: object_is_first)
  next
    case (Cons x xs)
    then show ?thesis using ascending_objects(1,2) [OF assms, of s p] min_head [of x xs] by (auto simp: object_is_first)
  qed
  have pairs: "zip (objects_of g p) (subjects_of g p) = map snd (prefix1 (sg_pos g) p)" for p
    by (simp add: objects_of_def subjects_of_def zip_map_map split_beta zip_same_conv_map)
  show ?thesis
    unfolding answers_def
  proof (intro conjI allI)
    show "graph_len g = card (triples g)" using distinct_card [OF btree_ok_distinct [OF ok(1)]] ok(4) by (simp add: graph_len_def)
    show "graph_contains g s p x \<longleftrightarrow> (s, p, x) \<in> triples g" for s p x using binary_search_found [OF ok(1)] ok(4) by (simp add: graph_contains_def)
    show "has_subject g s \<longleftrightarrow> (\<exists>p x. (s, p, x) \<in> triples g)" for s using ok(1,4) by (force simp: has_subject_def prefix_filter filter_empty_conv)
    show "zip (objects_of g p) (subjects_of g p) = sorted_list_of_set {(x, s). (s, p, x) \<in> triples g}" for p
      unfolding pairs by (rule prefix1_rest [OF ok(2) T(2)])
    show "predicate_objects g s = sorted_list_of_set {(p, x). (s, p, x) \<in> triples g}" for s
      unfolding predicate_objects_def by (rule prefix1_rest [OF ok(1) T(1)])
    show "subject_predicates g x = sorted_list_of_set {(s, p). (s, p, x) \<in> triples g}" for x
      unfolding subject_predicates_def by (rule prefix1_rest [OF ok(3) T(3)])
  qed (use ok ascending_objects [OF assms] obj in \<open>simp_all add: graph_iter_def btree_ok_def objects_of_def subjects_of_def\<close>)
qed

section \<open>Histories\<close>

datatype graph_write = AddTriple tid tid tid | DropTriple tid tid tid | ApplyDelta "trow list" "trow list"

fun graph_step :: "graph_write \<Rightarrow> shacl_graph \<Rightarrow> shacl_graph \<times> bool option" where
  "graph_step (AddTriple s p x) g = map_prod id Some (graph_insert s p x g)"
| "graph_step (DropTriple s p x) g = map_prod id Some (graph_remove s p x g)"
| "graph_step (ApplyDelta added removed) g = (graph_apply added removed g, None)"

fun triples_step :: "graph_write \<Rightarrow> trow set \<Rightarrow> trow set \<times> bool option" where
  "triples_step (AddTriple s p x) T = (insert (s, p, x) T, Some ((s, p, x) \<notin> T))"
| "triples_step (DropTriple s p x) T = (T - {(s, p, x)}, Some ((s, p, x) \<in> T))"
| "triples_step (ApplyDelta added removed) T = ((T - set removed) \<union> set added, None)"

fun run_writes :: "('w \<Rightarrow> 's \<Rightarrow> 's \<times> 'r) \<Rightarrow> 'w list \<Rightarrow> 's \<Rightarrow> 's \<times> 'r list" where
  "run_writes step [] st = (st, [])"
| "run_writes step (w # ws) st = (case step w st of (st1, r) \<Rightarrow> case run_writes step ws st1 of (st2, rs) \<Rightarrow> (st2, r # rs))"

text \<open>What a client of the engine's graph relies on: a state that is determined by its triples and follows them.\<close>

locale triple_state =
  fixes step :: "'w \<Rightarrow> 's \<Rightarrow> 's \<times> 'r" and ok :: "'s \<Rightarrow> bool" and abs :: "'s \<Rightarrow> 'a" and spec :: "'w \<Rightarrow> 'a \<Rightarrow> 'a \<times> 'r"
  assumes step_ok: "ok st \<Longrightarrow> ok (fst (step w st))"
    and step_abs: "ok st \<Longrightarrow> (abs (fst (step w st)), snd (step w st)) = spec w (abs st)"
    and determined: "ok st \<Longrightarrow> ok st' \<Longrightarrow> abs st = abs st' \<Longrightarrow> st = st'"
begin

lemma run_refines:
  "ok st \<Longrightarrow> ok (fst (run_writes step ws st)) \<and> (abs (fst (run_writes step ws st)), snd (run_writes step ws st)) = run_writes spec ws (abs st)"
proof (induction ws arbitrary: st)
  case (Cons w ws)
  obtain st1 r where s: "step w st = (st1, r)" by (cases "step w st")
  then have 1: "ok st1" "spec w (abs st) = (abs st1, r)" using step_ok [OF Cons.prems, of w] step_abs [OF Cons.prems, of w] by simp_all
  obtain st2 rs where "run_writes step ws st1 = (st2, rs)" by (cases "run_writes step ws st1")
  with Cons.IH [OF 1(1)] 1(2) s show ?case by (auto split: prod.splits)
qed simp

lemma run_determined: "ok st \<Longrightarrow> ok st' \<Longrightarrow> abs (fst (run_writes step ws st)) = abs st' \<Longrightarrow> fst (run_writes step ws st) = st'"
  using run_refines determined by blast

end

interpretation tgraph: triple_state graph_step graph_ok triples triples_step
proof
  fix g h :: shacl_graph and w
  show "graph_ok g \<Longrightarrow> graph_ok (fst (graph_step w g))" by (cases w) (simp_all add: insert_ok remove_ok apply_ok)
  show "graph_ok g \<Longrightarrow> (triples (fst (graph_step w g)), snd (graph_step w g)) = triples_step w (triples g)"
    by (cases w) (simp_all add: insert_ok remove_ok apply_ok)
  show "graph_ok g \<Longrightarrow> graph_ok h \<Longrightarrow> triples g = triples h \<Longrightarrow> g = h" by (rule graph_ext)
qed

text \<open>
  C20. However the validator's graph was reached, it is the graph built from its triples in one go. After
  any sequence of insertions, removals and deltas, applied row by row or by rebuilding, every insertion and
  removal has reported whether it changed the set, a delta has removed before it added, all three orders
  are those of a fresh build, and every reading operation answers for exactly the resulting set of triples,
  in ascending order.
\<close>

theorem graph_history:
  "snd (run_writes graph_step ws (build b)) = snd (run_writes triples_step ws (set (gb_rows b)))
    \<and> fst (run_writes graph_step ws (build b)) = build \<lparr>gb_rows = sorted_list_of_set (fst (run_writes triples_step ws (set (gb_rows b))))\<rparr>
    \<and> answers (fst (run_writes graph_step ws (build b))) (fst (run_writes triples_step ws (set (gb_rows b))))"
proof -
  let ?g = "fst (run_writes graph_step ws (build b))" and ?T = "fst (run_writes triples_step ws (set (gb_rows b)))"
  have r: "graph_ok ?g" "triples ?g = ?T" "snd (run_writes graph_step ws (build b)) = snd (run_writes triples_step ws (set (gb_rows b)))"
    using tgraph.run_refines [OF build_ok(1), of ws b] by (simp_all add: build_ok(2) prod_eq_iff)
  have "finite ?T" unfolding r(2) [symmetric] by (simp add: triples_def)
  then have "?g = build \<lparr>gb_rows = sorted_list_of_set ?T\<rparr>" by (intro tgraph.run_determined build_ok(1)) (simp add: build_ok(2) r(2))
  then show ?thesis using r ok_answers [OF r(1)] by simp
qed

end
