(* ===== verification/Shacl_Lists.thy ===== *)
theory Shacl_Lists
  imports Shacl_Graph
begin

text \<open>
  RDF collections, \<open>Graph::collect_list\<close> and \<open>Graph::list\<close> of \<^verbatim>\<open>holos-shacl-engine/src/model/mod.rs\<close>: what is
  read is the list the triples spell out, and a list that does not end is refused.
\<close>

text \<open>The terms of \<open>Vocab\<close> the engine's lists and paths name.\<close>

record shacl_vocab =
  rdf_first :: tid
  rdf_rest :: tid
  rdf_nil :: tid
  sh_inversePath :: tid
  sh_alternativePath :: tid
  sh_zeroOrMorePath :: tid
  sh_oneOrMorePath :: tid
  sh_zeroOrOnePath :: tid

fun collect_list_loop :: "shacl_graph \<Rightarrow> shacl_vocab \<Rightarrow> nat \<Rightarrow> tid \<Rightarrow> tid list \<Rightarrow> bool \<times> tid list" where
  "collect_list_loop g v 0 node out = (False, out)"
| "collect_list_loop g v (Suc n) node out =
    (if node = rdf_nil v then (True, out)
     else case graph_object g node (rdf_first v) of
       None \<Rightarrow> (False, out)
     | Some first \<Rightarrow>
         (case graph_object g node (rdf_rest v) of
            None \<Rightarrow> (False, out)
          | Some rest \<Rightarrow> collect_list_loop g v n rest (out @ [first])))"

definition collect_list :: "shacl_graph \<Rightarrow> shacl_vocab \<Rightarrow> tid \<Rightarrow> bool \<times> tid list" where
  "collect_list g v head = collect_list_loop g v (graph_len g + 1) head []"

definition read_list :: "shacl_graph \<Rightarrow> shacl_vocab \<Rightarrow> tid \<Rightarrow> tid list option" where
  "read_list g v head = (case collect_list g v head of (ok, out) \<Rightarrow> if ok then Some out else None)"

section \<open>What a collection is\<close>

text \<open>The cells of a collection, from its head to the end. A cell with several first or rest values counts with the smallest.\<close>

fun cells :: "shacl_graph \<Rightarrow> shacl_vocab \<Rightarrow> tid \<Rightarrow> (tid \<times> tid) list \<Rightarrow> bool" where
  "cells g v node [] \<longleftrightarrow> node = rdf_nil v"
| "cells g v node ((n, x) # cs) \<longleftrightarrow> n = node \<and> node \<noteq> rdf_nil v \<and> graph_object g node (rdf_first v) = Some x
    \<and> (\<exists>next. graph_object g node (rdf_rest v) = Some next \<and> cells g v next cs)"

lemma cells_unique: "cells g v node cs \<Longrightarrow> cells g v node ds \<Longrightarrow> cs = ds"
proof (induction cs arbitrary: node ds)
  case Nil
  then show ?case by (cases ds) auto
next
  case (Cons c cs)
  then show ?case by (cases c; cases ds) auto
qed

lemma cells_suffix: "cells g v node (cs @ (n, x) # ds) \<Longrightarrow> cells g v n ((n, x) # ds)"
  by (induction cs arbitrary: node) auto

lemma cells_distinct: "cells g v node cs \<Longrightarrow> distinct (map fst cs)"
proof (induction cs arbitrary: node)
  case (Cons c cs)
  obtain x m where c: "c = (node, x)" "cells g v m cs" using Cons.prems by (cases c) auto
  have "node \<notin> set (map fst cs)"
  proof
    assume "node \<in> set (map fst cs)"
    then obtain y as bs where cs: "cs = as @ (node, y) # bs" by (auto dest: split_list)
    then have "cells g v node ((node, y) # bs)" using cells_suffix [of g v m] c(2) by blast
    then have "c # cs = (node, y) # bs" using cells_unique [OF Cons.prems] by blast
    then have "length (c # cs) = length ((node, y) # bs)" by (rule arg_cong)
    then show False by (simp add: cs)
  qed
  then show ?case using Cons.IH [OF c(2)] c(1) by simp
qed simp

lemma cells_in_graph: "graph_ok g \<Longrightarrow> cells g v node cs \<Longrightarrow> (n, x) \<in> set cs \<Longrightarrow> (n, rdf_first v, x) \<in> triples g"
proof (induction cs arbitrary: node)
  case (Cons c cs)
  have "graph_object g m p = Some y \<Longrightarrow> (m, p, y) \<in> triples g" for m p y
    using ascending_objects(2) [OF Cons.prems(1), of m p] by (auto simp: object_is_first split: list.splits)
  then show ?case using Cons by (cases c) auto
qed simp

lemma cells_short:
  assumes ok: "graph_ok g" and c: "cells g v node cs"
  shows "length cs \<le> graph_len g"
proof -
  have "(\<lambda>(n, x). (n, rdf_first v, x)) ` set cs \<subseteq> set (sg_spo g)" using cells_in_graph [OF ok c] by (auto simp: triples_def)
  then have "card ((\<lambda>(n, x). (n, rdf_first v, x)) ` set cs) \<le> length (sg_spo g)" by (meson card_length card_mono finite_set le_trans)
  moreover have "card ((\<lambda>(n, x). (n, rdf_first v, x)) ` set cs) = length cs"
    using cells_distinct [OF c] by (subst card_image) (auto simp: inj_on_def distinct_card distinct_map)
  ultimately show ?thesis by (simp add: graph_len_def)
qed

lemma loop_reads: "cells g v node cs \<Longrightarrow> length cs < n \<Longrightarrow> collect_list_loop g v n node out = (True, out @ map snd cs)"
proof (induction cs arbitrary: node n out)
  case Nil
  then show ?case by (cases n) auto
next
  case (Cons c cs)
  then show ?case by (cases c; cases n) auto
qed

lemma loop_sound: "fst (collect_list_loop g v n node out) \<Longrightarrow> \<exists>cs. cells g v node cs"
proof (induction n arbitrary: node out)
  case (Suc n)
  show ?case
  proof (cases "node = rdf_nil v")
    case True
    then show ?thesis by (intro exI [of _ "[]"]) simp
  next
    case False
    then obtain x m where "graph_object g node (rdf_first v) = Some x" "graph_object g node (rdf_rest v) = Some m"
      "fst (collect_list_loop g v n m (out @ [x]))" using Suc.prems by (auto split: option.splits)
    moreover then obtain cs where "cells g v m cs" using Suc.IH by blast
    ultimately show ?thesis using False by (intro exI [of _ "(node, x) # cs"]) auto
  qed
qed simp

lemma read_list_exact:
  assumes "graph_ok g"
  shows "read_list g v head = Some xs \<longleftrightarrow> (\<exists>cs. cells g v head cs \<and> map snd cs = xs)"
proof
  assume r: "read_list g v head = Some xs"
  then have "fst (collect_list g v head)" by (auto simp: read_list_def split: prod.splits if_splits)
  then obtain cs where cs: "cells g v head cs" using loop_sound unfolding collect_list_def by blast
  moreover have "collect_list g v head = (True, map snd cs)"
    using loop_reads [OF cs, of "graph_len g + 1" "[]"] cells_short [OF assms cs] unfolding collect_list_def by simp
  ultimately show "\<exists>cs. cells g v head cs \<and> map snd cs = xs" using r by (auto simp: read_list_def)
next
  assume "\<exists>cs. cells g v head cs \<and> map snd cs = xs"
  then obtain cs where cs: "cells g v head cs" "map snd cs = xs" by blast
  then show "read_list g v head = Some xs"
    using loop_reads [OF cs(1), of "graph_len g + 1" "[]"] cells_short [OF assms cs(1)] cs(2)
    unfolding read_list_def collect_list_def by simp
qed

section \<open>Collections of a set of triples\<close>

text \<open>The value of a property: the smallest, if there is one.\<close>

definition value_at :: "trow set \<Rightarrow> tid \<Rightarrow> tid \<Rightarrow> tid option" where
  "value_at T s p = (if \<exists>x. (s, p, x) \<in> T then Some (Min {x. (s, p, x) \<in> T}) else None)"

fun collection :: "trow set \<Rightarrow> shacl_vocab \<Rightarrow> tid \<Rightarrow> tid list \<Rightarrow> bool" where
  "collection T v node [] \<longleftrightarrow> node = rdf_nil v"
| "collection T v node (x # xs) \<longleftrightarrow> node \<noteq> rdf_nil v \<and> value_at T node (rdf_first v) = Some x
    \<and> (\<exists>next. value_at T node (rdf_rest v) = Some next \<and> collection T v next xs)"

lemma object_is_value: "graph_ok g \<Longrightarrow> graph_object g s p = value_at (triples g) s p"
  using ok_answers [of g] by (simp add: answers_def value_at_def)

lemma collection_cells: "graph_ok g \<Longrightarrow> collection (triples g) v node xs \<longleftrightarrow> (\<exists>cs. cells g v node cs \<and> map snd cs = xs)"
proof (induction xs arbitrary: node)
  case (Cons x xs)
  show ?case
  proof
    assume "collection (triples g) v node (x # xs)"
    then obtain n cs where n: "node \<noteq> rdf_nil v" "graph_object g node (rdf_first v) = Some x" "graph_object g node (rdf_rest v) = Some n"
      and cs: "cells g v n cs" "map snd cs = xs" using Cons by (auto simp: object_is_value)
    then show "\<exists>cs. cells g v node cs \<and> map snd cs = x # xs" by (intro exI [of _ "(node, x) # cs"]) auto
  next
    assume "\<exists>cs. cells g v node cs \<and> map snd cs = x # xs"
    then obtain c cs where "cells g v node (c # cs)" "snd c = x" "map snd cs = xs" by auto
    then show "collection (triples g) v node (x # xs)" using Cons by (cases c) (auto simp: object_is_value)
  qed
qed simp

lemma read_list_collection: "graph_ok g \<Longrightarrow> read_list g v head = Some xs \<longleftrightarrow> collection (triples g) v head xs"
  by (simp add: read_list_exact collection_cells)

end
