(* ===== verification/Shacl_Terms.thy ===== *)
theory Shacl_Terms
  imports Rdf_Terms Shacl_Graph
begin

text \<open>
  The term store of the SHACL engine, \<^verbatim>\<open>holos-shacl-engine/src/model/interner.rs\<close> and \<^verbatim>\<open>model/term.rs\<close>. Strings
  live in one arena under 32-bit handles; terms are records of such handles. The hash function of the string
  table is an argument. A handle out of range is a panic.
\<close>

section \<open>Strings\<close>

type_synonym str_id = u32

record interner =
  in_buf :: string
  in_spans :: "(u32 \<times> u32) list"
  in_table :: "(u64 \<times> u32) list"

definition new_interner :: interner where
  "new_interner = \<lparr>in_buf = [], in_spans = [], in_table = []\<rparr>"

definition resolve_str :: "interner \<Rightarrow> str_id \<Rightarrow> string res" where
  "resolve_str n i =
    (if unat i < length (in_spans n) then
       (case in_spans n ! unat i of (off, len) \<Rightarrow>
          if unat off \<le> unat (off + len) \<and> unat (off + len) \<le> length (in_buf n)
          then Inr (take (unat (off + len) - unat off) (drop (unat off) (in_buf n)))
          else Inl (Panic ''byte index out of range''))
     else Inl (Panic ''index out of bounds''))"

definition get_str :: "(string \<Rightarrow> u64) \<Rightarrow> interner \<Rightarrow> string \<Rightarrow> str_id option" where
  "get_str hash n s = map_option snd (find (\<lambda>(h, i). h = hash s \<and> resolve_str n i = Inr s) (in_table n))"

definition intern_str :: "(string \<Rightarrow> u64) \<Rightarrow> string \<Rightarrow> interner \<Rightarrow> interner \<times> str_id" where
  "intern_str hash s n =
    (case get_str hash n s of
       Some i \<Rightarrow> (n, i)
     | None \<Rightarrow>
         (let i = word_of_nat (length (in_spans n)); off = word_of_nat (length (in_buf n)) in
          (\<lparr>in_buf = in_buf n @ s, in_spans = in_spans n @ [(off, word_of_nat (length s))], in_table = in_table n @ [(hash s, i)]\<rparr>, i)))"

section \<open>Terms\<close>

datatype term_data =
    NamedNodeData str_id
  | BlankNodeData str_id
  | LiteralData str_id tid "str_id option" "base_direction option"
  | TripleData u32

record term_store =
  ts_strings :: interner
  ts_terms :: "term_data list"
  ts_lookup :: "(term_data \<times> tid) list"
  ts_named_of :: "u32 list"
  ts_blank_of :: "u32 list"
  ts_triple_terms :: "trow list"
  ts_blank_numbers :: "(string \<times> u32) list"

definition new_term_store :: term_store where
  "new_term_store = \<lparr>ts_strings = new_interner, ts_terms = [], ts_lookup = [], ts_named_of = [], ts_blank_of = [],
    ts_triple_terms = [], ts_blank_numbers = []\<rparr>"

definition NO_TERM :: u32 where "NO_TERM = - 1"

definition string_table :: "bool \<Rightarrow> term_store \<Rightarrow> u32 list" where
  "string_table blank ts = (if blank then ts_blank_of ts else ts_named_of ts)"

definition set_string_table :: "bool \<Rightarrow> u32 list \<Rightarrow> term_store \<Rightarrow> term_store" where
  "set_string_table blank t ts = (if blank then ts\<lparr>ts_blank_of := t\<rparr> else ts\<lparr>ts_named_of := t\<rparr>)"

definition by_string :: "str_id \<Rightarrow> bool \<Rightarrow> term_store \<Rightarrow> term_store \<times> tid" where
  "by_string s blank ts =
    (let idx = unat s;
         table = string_table blank ts;
         table = (if idx \<ge> length table then table @ replicate (idx + 1 - length table) NO_TERM else table)
     in if table ! idx \<noteq> NO_TERM then (set_string_table blank table ts, table ! idx)
        else (let i = word_of_nat (length (ts_terms ts)) in
          (set_string_table blank (table[idx := i]) (ts\<lparr>ts_terms := ts_terms ts @ [if blank then BlankNodeData s else NamedNodeData s]\<rparr>), i)))"

definition push_term :: "term_data \<Rightarrow> term_store \<Rightarrow> term_store \<times> tid" where
  "push_term d ts =
    (case map_of (ts_lookup ts) d of
       Some i \<Rightarrow> (ts, i)
     | None \<Rightarrow>
         (let i = word_of_nat (length (ts_terms ts)) in
          (ts\<lparr>ts_terms := ts_terms ts @ [d], ts_lookup := (d, i) # ts_lookup ts\<rparr>, i)))"

definition intern_in :: "(string \<Rightarrow> u64) \<Rightarrow> string \<Rightarrow> term_store \<Rightarrow> term_store \<times> str_id" where
  "intern_in hash s ts = (case intern_str hash s (ts_strings ts) of (n, i) \<Rightarrow> (ts\<lparr>ts_strings := n\<rparr>, i))"

definition named_node :: "(string \<Rightarrow> u64) \<Rightarrow> string \<Rightarrow> term_store \<Rightarrow> term_store \<times> tid" where
  "named_node hash iri ts = (case intern_in hash iri ts of (ts, s) \<Rightarrow> by_string s False ts)"

definition blank_key :: "u32 \<Rightarrow> string \<Rightarrow> string" where
  "blank_key scope label = show_nat (unat scope) @ '':'' @ label"

definition number_blank :: "u32 \<Rightarrow> string \<Rightarrow> term_store \<Rightarrow> term_store \<times> u32" where
  "number_blank scope label ts =
    (case map_of (ts_blank_numbers ts) (blank_key scope label) of
       Some n \<Rightarrow> (ts, n)
     | None \<Rightarrow>
         (let n = word_of_nat (length (ts_blank_numbers ts)) in
          (ts\<lparr>ts_blank_numbers := (blank_key scope label, n) # ts_blank_numbers ts\<rparr>, n)))"

definition blank_node :: "(string \<Rightarrow> u64) \<Rightarrow> u32 \<Rightarrow> string \<Rightarrow> term_store \<Rightarrow> term_store \<times> tid" where
  "blank_node hash scope label ts =
    (case number_blank scope label ts of (ts, n) \<Rightarrow>
     case intern_in hash (show_nat (unat scope) @ '':b'' @ show_nat (unat n)) ts of (ts, s) \<Rightarrow> by_string s True ts)"

definition literal_with_direction ::
  "(string \<Rightarrow> u64) \<Rightarrow> string \<Rightarrow> string \<Rightarrow> string option \<Rightarrow> base_direction option \<Rightarrow> term_store \<Rightarrow> term_store \<times> tid" where
  "literal_with_direction hash lx dt lang dir ts =
    (case intern_in hash lx ts of (ts, lx) \<Rightarrow>
     case (case lang of None \<Rightarrow> (ts, None) | Some l \<Rightarrow> (case intern_in hash l ts of (ts, l) \<Rightarrow> (ts, Some l))) of (ts, lang) \<Rightarrow>
     case named_node hash dt ts of (ts, dt) \<Rightarrow> push_term (LiteralData lx dt lang dir) ts)"

fun position :: "'a \<Rightarrow> 'a list \<Rightarrow> nat option" where
  "position x [] = None"
| "position x (y # ys) = (if y = x then Some 0 else map_option Suc (position x ys))"

definition triple_term :: "tid \<Rightarrow> tid \<Rightarrow> tid \<Rightarrow> term_store \<Rightarrow> term_store \<times> tid" where
  "triple_term s p x ts =
    (case position (s, p, x) (ts_triple_terms ts) of
       Some i \<Rightarrow> push_term (TripleData (word_of_nat i)) ts
     | None \<Rightarrow>
         (let idx = word_of_nat (length (ts_triple_terms ts)) in
          push_term (TripleData idx) (ts\<lparr>ts_triple_terms := ts_triple_terms ts @ [(s, p, x)]\<rparr>)))"

definition intern_node :: "(string \<Rightarrow> u64) \<Rightarrow> u32 \<Rightarrow> node \<Rightarrow> term_store \<Rightarrow> term_store \<times> tid" where
  "intern_node hash scope n ts = (case n of NodeNamed i \<Rightarrow> named_node hash i ts | NodeBlank b \<Rightarrow> blank_node hash scope b ts)"

fun intern_oxrdf :: "(string \<Rightarrow> u64) \<Rightarrow> u32 \<Rightarrow> rdf_term \<Rightarrow> term_store \<Rightarrow> term_store \<times> tid" where
  "intern_oxrdf hash scope (NamedNode n) ts = named_node hash n ts"
| "intern_oxrdf hash scope (BlankNode b) ts = blank_node hash scope b ts"
| "intern_oxrdf hash scope (Literal l) ts = literal_with_direction hash (lit_value l) (lit_datatype l) (lit_language l) (lit_direction l) ts"
| "intern_oxrdf hash scope (Triple s p x) ts =
    (case intern_node hash scope s ts of (ts, s) \<Rightarrow>
     case named_node hash p ts of (ts, p) \<Rightarrow>
     case intern_oxrdf hash scope x ts of (ts, x) \<Rightarrow> triple_term s p x ts)"

section \<open>Reading terms\<close>

definition term_at :: "term_store \<Rightarrow> tid \<Rightarrow> term_data res" where
  "term_at ts i = (if unat i < length (ts_terms ts) then Inr (ts_terms ts ! unat i) else Inl (Panic ''index out of bounds''))"

definition is_iri :: "term_store \<Rightarrow> tid \<Rightarrow> bool res" where
  "is_iri ts i = map_sum id (\<lambda>d. case d of NamedNodeData _ \<Rightarrow> True | _ \<Rightarrow> False) (term_at ts i)"

datatype term_kind = KindIri | KindBlank | KindLiteral | KindTriple

definition kind_of :: "term_store \<Rightarrow> tid \<Rightarrow> term_kind res" where
  "kind_of ts i =
    map_sum id (\<lambda>d. case d of NamedNodeData _ \<Rightarrow> KindIri | BlankNodeData _ \<Rightarrow> KindBlank | LiteralData _ _ _ _ \<Rightarrow> KindLiteral | TripleData _ \<Rightarrow> KindTriple)
      (term_at ts i)"

definition is_blank :: "term_store \<Rightarrow> tid \<Rightarrow> bool res" where
  "is_blank ts i = map_sum id (\<lambda>d. case d of BlankNodeData _ \<Rightarrow> True | _ \<Rightarrow> False) (term_at ts i)"

definition is_literal :: "term_store \<Rightarrow> tid \<Rightarrow> bool res" where
  "is_literal ts i = map_sum id (\<lambda>d. case d of LiteralData _ _ _ _ \<Rightarrow> True | _ \<Rightarrow> False) (term_at ts i)"

definition iri_of :: "term_store \<Rightarrow> tid \<Rightarrow> string option res" where
  "iri_of ts i =
    (case term_at ts i of
       Inl e \<Rightarrow> Inl e
     | Inr (NamedNodeData s) \<Rightarrow> map_sum id Some (resolve_str (ts_strings ts) s)
     | Inr _ \<Rightarrow> Inr None)"

definition get_named_node :: "(string \<Rightarrow> u64) \<Rightarrow> term_store \<Rightarrow> string \<Rightarrow> tid option" where
  "get_named_node hash ts iri =
    (case get_str hash (ts_strings ts) iri of
       None \<Rightarrow> None
     | Some s \<Rightarrow> if unat s < length (ts_named_of ts) \<and> ts_named_of ts ! unat s \<noteq> NO_TERM then Some (ts_named_of ts ! unat s) else None)"

definition get_triple_term :: "term_store \<Rightarrow> tid \<Rightarrow> tid \<Rightarrow> tid \<Rightarrow> tid option" where
  "get_triple_term ts s p x =
    (case position (s, p, x) (ts_triple_terms ts) of None \<Rightarrow> None | Some i \<Rightarrow> map_of (ts_lookup ts) (TripleData (word_of_nat i)))"

definition lexical_form :: "term_store \<Rightarrow> tid \<Rightarrow> string option res" where
  "lexical_form ts i =
    (case term_at ts i of
       Inl e \<Rightarrow> Inl e
     | Inr (NamedNodeData s) \<Rightarrow> map_sum id Some (resolve_str (ts_strings ts) s)
     | Inr (BlankNodeData s) \<Rightarrow> map_sum id Some (resolve_str (ts_strings ts) s)
     | Inr (LiteralData lx _ _ _) \<Rightarrow> map_sum id Some (resolve_str (ts_strings ts) lx)
     | Inr (TripleData _) \<Rightarrow> Inr None)"

definition datatype_of :: "term_store \<Rightarrow> tid \<Rightarrow> tid option res" where
  "datatype_of ts i = map_sum id (\<lambda>d. case d of LiteralData _ dt _ _ \<Rightarrow> Some dt | _ \<Rightarrow> None) (term_at ts i)"

definition language_of :: "term_store \<Rightarrow> tid \<Rightarrow> string option res" where
  "language_of ts i =
    (case term_at ts i of
       Inl e \<Rightarrow> Inl e
     | Inr (LiteralData _ _ (Some l) _) \<Rightarrow> map_sum id Some (resolve_str (ts_strings ts) l)
     | Inr _ \<Rightarrow> Inr None)"

definition literal_direction :: "term_store \<Rightarrow> tid \<Rightarrow> base_direction option res" where
  "literal_direction ts i = map_sum id (\<lambda>d. case d of LiteralData _ _ _ dir \<Rightarrow> dir | _ \<Rightarrow> None) (term_at ts i)"

definition triple_at :: "term_store \<Rightarrow> u32 \<Rightarrow> trow res" where
  "triple_at ts k =
    (if unat k < length (ts_triple_terms ts) then Inr (ts_triple_terms ts ! unat k) else Inl (Panic ''index out of bounds''))"

definition triple_parts :: "term_store \<Rightarrow> tid \<Rightarrow> trow option res" where
  "triple_parts ts i =
    (case term_at ts i of Inl e \<Rightarrow> Inl e | Inr (TripleData k) \<Rightarrow> map_sum id Some (triple_at ts k) | Inr _ \<Rightarrow> Inr None)"

section \<open>Rendering terms and reading them back\<close>

definition literal_to_oxrdf :: "term_store \<Rightarrow> str_id \<Rightarrow> tid \<Rightarrow> str_id option \<Rightarrow> base_direction option \<Rightarrow> rdf_term res" where
  "literal_to_oxrdf ts lx dt lang dir =
    (case resolve_str (ts_strings ts) lx of
       Inl e \<Rightarrow> Inl e
     | Inr value \<Rightarrow>
         (case lang of
            Some l \<Rightarrow>
              map_sum id (\<lambda>l. Literal (case dir of Some d \<Rightarrow> DirLangLit value l d | None \<Rightarrow> LangLit value l)) (resolve_str (ts_strings ts) l)
          | None \<Rightarrow>
              map_sum id (\<lambda>i. Literal (new_typed_literal value (case i of Some i \<Rightarrow> i | None \<Rightarrow> []))) (iri_of ts dt)))"

text \<open>
  The subject of a triple term that is neither an IRI nor a blank node is printed by the \<^verbatim>\<open>oxrdf\<close> crate; the
  printer is an argument. The recursion is the source's; on a store whose triple terms contain
  themselves it would not return, which is the value \<open>None\<close>.
\<close>

definition as_subject :: "(rdf_term \<Rightarrow> string) \<Rightarrow> rdf_term \<Rightarrow> node" where
  "as_subject display t = (case t of NamedNode n \<Rightarrow> NodeNamed n | BlankNode b \<Rightarrow> NodeBlank b | other \<Rightarrow> NodeNamed (display other))"

partial_function (option) to_oxrdf :: "(rdf_term \<Rightarrow> string) \<Rightarrow> term_store \<Rightarrow> tid \<Rightarrow> rdf_term res option" where
  "to_oxrdf display ts i =
    (case term_at ts i of
       Inl e \<Rightarrow> Some (Inl e)
     | Inr d \<Rightarrow>
         (case d of
            NamedNodeData s \<Rightarrow> Some (map_sum id NamedNode (resolve_str (ts_strings ts) s))
          | BlankNodeData s \<Rightarrow>
              Some (map_sum id (\<lambda>l. BlankNode (map (\<lambda>c. if c = CHR '':'' then CHR ''_'' else c) l)) (resolve_str (ts_strings ts) s))
          | LiteralData lx dt lang dir \<Rightarrow> Some (literal_to_oxrdf ts lx dt lang dir)
          | TripleData k \<Rightarrow>
              (case triple_at ts k of
                 Inl e \<Rightarrow> Some (Inl e)
               | Inr (s, p, x) \<Rightarrow>
                   Option.bind (to_oxrdf display ts s) (\<lambda>s.
                     case s of
                       Inl e \<Rightarrow> Some (Inl e)
                     | Inr s \<Rightarrow>
                         (case iri_of ts p of
                            Inl e \<Rightarrow> Some (Inl e)
                          | Inr i \<Rightarrow>
                              Option.bind (to_oxrdf display ts x) (\<lambda>x.
                                Some (map_sum id (Triple (as_subject display s) (case i of Some i \<Rightarrow> i | None \<Rightarrow> [])) x)))))))"

definition get_term :: "(string \<Rightarrow> u64) \<Rightarrow> term_store \<Rightarrow> rdf_term \<Rightarrow> tid option" where
  "get_term hash ts t =
    (case t of
       NamedNode n \<Rightarrow> get_named_node hash ts n
     | BlankNode _ \<Rightarrow> None
     | Literal l \<Rightarrow>
         (case get_str hash (ts_strings ts) (lit_value l) of
            None \<Rightarrow> None
          | Some lx \<Rightarrow>
              (case get_named_node hash ts (lit_datatype l) of
                 None \<Rightarrow> None
               | Some dt \<Rightarrow>
                   (case lit_language l of
                      None \<Rightarrow> map_of (ts_lookup ts) (LiteralData lx dt None (lit_direction l))
                    | Some t \<Rightarrow>
                        (case get_str hash (ts_strings ts) t of
                           None \<Rightarrow> None
                         | Some t \<Rightarrow> map_of (ts_lookup ts) (LiteralData lx dt (Some t) (lit_direction l))))))
     | Triple _ _ _ \<Rightarrow> None)"

definition blank_node_from_output_label :: "(string \<Rightarrow> u64) \<Rightarrow> term_store \<Rightarrow> string \<Rightarrow> tid option" where
  "blank_node_from_output_label hash ts label =
    (case position (CHR ''_'') label of
       None \<Rightarrow> None
     | Some at \<Rightarrow>
         (case get_str hash (ts_strings ts) (take at label @ '':'' @ drop (at + 1) label) of
            None \<Rightarrow> None
          | Some s \<Rightarrow> if unat s < length (ts_blank_of ts) \<and> ts_blank_of ts ! unat s \<noteq> NO_TERM then Some (ts_blank_of ts ! unat s) else None))"

fun resolve_rendered :: "(string \<Rightarrow> u64) \<Rightarrow> term_store \<Rightarrow> rdf_term \<Rightarrow> tid option" where
  "resolve_rendered hash ts (BlankNode b) = blank_node_from_output_label hash ts b"
| "resolve_rendered hash ts (Triple s p x) =
    (case (case s of NodeNamed n \<Rightarrow> get_term hash ts (NamedNode n) | NodeBlank b \<Rightarrow> blank_node_from_output_label hash ts b) of
       None \<Rightarrow> None
     | Some s \<Rightarrow>
         (case get_named_node hash ts p of
            None \<Rightarrow> None
          | Some p \<Rightarrow>
              (case resolve_rendered hash ts x of
                 None \<Rightarrow> None
               | Some x \<Rightarrow> get_triple_term ts s p x)))"
| "resolve_rendered hash ts other = get_term hash ts other"

end
