(* ===== verification/Shacl_Values.thy ===== *)
theory Shacl_Values
  imports Shacl_Graph
begin

text \<open>
  The relation from focus nodes to value nodes in compressed sparse rows,
  \<^verbatim>\<open>holos-shacl-engine/src/valueset.rs\<close>. A builder fed row by row gives back, for every row, the set of its
  values in ascending order. Offsets are 32-bit words, so this needs fewer than \<open>2 ^ 32\<close> values.
\<close>

record value_sets =
  vs_focus :: "tid list"
  vs_offsets :: "u32 list"
  vs_values :: "tid list"

definition identity_sets :: "tid list \<Rightarrow> value_sets" where
  "identity_sets focus = \<lparr>vs_focus = focus, vs_offsets = map word_of_nat [0..<length focus + 1], vs_values = focus\<rparr>"

definition sets_len :: "value_sets \<Rightarrow> nat" where
  "sets_len vs = length (vs_focus vs)"

definition total_values :: "value_sets \<Rightarrow> nat" where
  "total_values vs = length (vs_values vs)"

text \<open>An index or a slice out of range is a panic.\<close>

definition sets_row :: "value_sets \<Rightarrow> nat \<Rightarrow> (tid \<times> tid list) res" where
  "sets_row vs i =
    (if i + 1 < length (vs_offsets vs) \<and> i < length (vs_focus vs) then
       (let start = unat (vs_offsets vs ! i); stop = unat (vs_offsets vs ! (i + 1)) in
        if start \<le> stop \<and> stop \<le> length (vs_values vs)
        then Inr (vs_focus vs ! i, take (stop - start) (drop start (vs_values vs)))
        else Inl (Panic ''slice index out of range''))
     else Inl (Panic ''index out of bounds''))"

definition sets_rows :: "value_sets \<Rightarrow> (tid \<times> tid list) res list" where
  "sets_rows vs = map (sets_row vs) [0..<sets_len vs]"

section \<open>The builder\<close>

record sets_builder =
  sb_focus :: "tid list"
  sb_offsets :: "u32 list"
  sb_values :: "tid list"
  sb_row_start :: nat
  sb_open :: bool

definition default_builder :: sets_builder where
  "default_builder = \<lparr>sb_focus = [], sb_offsets = [], sb_values = [], sb_row_start = 0, sb_open = False\<rparr>"

definition builder_with_capacity :: "nat \<Rightarrow> sets_builder" where
  "builder_with_capacity rows = default_builder\<lparr>sb_offsets := [0]\<rparr>"

definition ensure_started :: "sets_builder \<Rightarrow> sets_builder" where
  "ensure_started b = (if sb_offsets b = [] then b\<lparr>sb_offsets := [0]\<rparr> else b)"

definition start_row :: "tid \<Rightarrow> sets_builder \<Rightarrow> sets_builder" where
  "start_row f b =
    (let b = ensure_started b in
     b\<lparr>sb_focus := sb_focus b @ [f], sb_row_start := length (sb_values b), sb_open := True\<rparr>)"

definition push_value :: "sets_builder \<Rightarrow> tid \<Rightarrow> sets_builder" where
  "push_value b v = b\<lparr>sb_values := sb_values b @ [v]\<rparr>"

definition extend_row :: "sets_builder \<Rightarrow> tid list \<Rightarrow> sets_builder" where
  "extend_row b vs = b\<lparr>sb_values := sb_values b @ vs\<rparr>"

text \<open>The loop that drops duplicates in place.\<close>

function dedup_loop :: "'a list \<Rightarrow> nat \<Rightarrow> nat \<Rightarrow> 'a list \<times> nat" where
  "dedup_loop row r w =
    (if r < length row then
       (if r = 0 \<or> row ! r \<noteq> row ! (r - 1) then dedup_loop (row[w := row ! r]) (Suc r) (Suc w)
        else dedup_loop row (Suc r) w)
     else (row, w))"
  by auto
termination by (relation "measure (\<lambda>(row, r, w). length row - r)") auto

definition end_row :: "sets_builder \<Rightarrow> sets_builder" where
  "end_row b =
    (let before = take (sb_row_start b) (sb_values b);
         row = sort (drop (sb_row_start b) (sb_values b));
         (row, kept) = dedup_loop row 0 0;
         values = take (sb_row_start b + kept) (before @ row)
     in b\<lparr>sb_values := values, sb_offsets := sb_offsets b @ [word_of_nat (length values)], sb_open := False\<rparr>)"

definition push_row :: "tid \<Rightarrow> tid list \<Rightarrow> sets_builder \<Rightarrow> sets_builder" where
  "push_row f values b = end_row (extend_row (start_row f b) values)"

definition current_row :: "sets_builder \<Rightarrow> tid list" where
  "current_row b = drop (sb_row_start b) (sb_values b)"

definition finish_sets :: "sets_builder \<Rightarrow> value_sets" where
  "finish_sets b =
    (let b = ensure_started b in \<lparr>vs_focus = sb_focus b, vs_offsets = sb_offsets b, vs_values = sb_values b\<rparr>)"

section \<open>Rows of sets\<close>

declare dedup_loop.simps [simp del]

lemma dedup_loop_spec:
  assumes "w \<le> r" "r \<le> length row" "take w row = remdups_adj (take r orig)" "drop (r - 1) row = drop (r - 1) orig" "length row = length orig"
  shows "(case dedup_loop row r w of (row', w') \<Rightarrow> take w' row') = remdups_adj orig"
  using assms
proof (induction row r w rule: dedup_loop.induct)
  case (1 row r w)
  show ?case
  proof (cases "r < length row")
    case False
    then show ?thesis using "1.prems" by (simp add: dedup_loop.simps)
  next
    case True
    have at: "row ! i = orig ! i" if "r - 1 \<le> i" "i < length row" for i
    proof -
      have "drop (r - 1) row ! (i - (r - 1)) = drop (r - 1) orig ! (i - (r - 1))" using "1.prems"(4) by simp
      then show ?thesis using that True "1.prems"(5) by simp
    qed
    have next_take: "take (Suc r) orig = take r orig @ [orig ! r]" using True "1.prems"(5) by (simp add: take_Suc_conv_app_nth)
    show ?thesis
    proof (cases "r = 0 \<or> row ! r \<noteq> row ! (r - 1)")
      case keep: True
      have "remdups_adj (take (Suc r) orig) = remdups_adj (take r orig) @ [orig ! r]"
      proof (cases r)
        case (Suc k)
        then have "take r orig = take k orig @ [orig ! k]" "orig ! k \<noteq> orig ! r"
          using True "1.prems"(5) keep at [of k] at [of r] by (simp_all add: take_Suc_conv_app_nth)
        then show ?thesis unfolding next_take by (simp add: remdups_adj_append_two)
      qed (use next_take in simp)
      moreover have "take (Suc w) (row[w := row ! r]) = take w row @ [row ! r]" using True "1.prems"(1) by (simp add: take_Suc_conv_app_nth)
      ultimately have "take (Suc w) (row[w := row ! r]) = remdups_adj (take (Suc r) orig)" using "1.prems"(3) True at [of r] by simp
      moreover have "drop (Suc r - 1) (row[w := row ! r]) = drop (Suc r - 1) orig"
        using True "1.prems"(1,5) at by (intro nth_equalityI) (auto simp: nth_list_update)
      ultimately show ?thesis using "1.IH"(1) [OF True keep] True keep "1.prems"(1,5) by (simp add: dedup_loop.simps [of row r w])
    next
      case drop: False
      then obtain k where k: "r = Suc k" by (cases r) auto
      then have "take r orig = take k orig @ [orig ! k]" "orig ! k = orig ! r"
        using True "1.prems"(5) drop at [of k] at [of r] by (simp_all add: take_Suc_conv_app_nth)
      then have "remdups_adj (take (Suc r) orig) = remdups_adj (take r orig)" unfolding next_take by (simp add: remdups_adj_append_two)
      moreover have "drop (Suc r - 1) row = drop (Suc r - 1) orig" using True "1.prems"(5) at by (intro nth_equalityI) auto
      ultimately show ?thesis using "1.IH"(2) [OF True drop] True drop "1.prems"(1,3,5) by (simp add: dedup_loop.simps [of row r w])
    qed
  qed
qed

lemma dedup_row: "(case dedup_loop (sort row) 0 0 of (row', kept) \<Rightarrow> take kept row') = sorted_dedup row"
  using dedup_loop_spec [of 0 0 "sort row" "sort row"] by (simp add: sorted_dedup_def)

text \<open>A builder between rows that has taken in the given rows.\<close>

definition offsets_of :: "(tid \<times> tid list) list \<Rightarrow> nat list" where
  "offsets_of rows = map (\<lambda>i. length (concat (map snd (take i rows)))) [0..<length rows + 1]"

definition holds_rows :: "sets_builder \<Rightarrow> (tid \<times> tid list) list \<Rightarrow> bool" where
  "holds_rows b rows \<longleftrightarrow> sb_focus b = map fst rows \<and> sb_values b = concat (map snd rows) \<and> sb_offsets b = map word_of_nat (offsets_of rows)"

lemma offsets_snoc: "offsets_of (rows @ [r]) = offsets_of rows @ [length (concat (map snd (rows @ [r])))]"
  by (simp add: offsets_of_def)

lemma holds_new: "holds_rows (builder_with_capacity n) []"
  by (simp add: holds_rows_def builder_with_capacity_def default_builder_def offsets_of_def)

lemma foldl_push: "foldl push_value b vs = extend_row b vs"
  by (induction vs arbitrary: b) (simp_all add: push_value_def extend_row_def)

lemma holds_push:
  assumes "holds_rows b rows"
  shows "holds_rows (push_row f vs b) (rows @ [(f, sorted_dedup vs)])"
proof -
  have started: "ensure_started b = b" using assms by (auto simp: ensure_started_def holds_rows_def offsets_of_def)
  obtain row kept where d: "dedup_loop (sort vs) 0 0 = (row, kept)" by (cases "dedup_loop (sort vs) 0 0")
  then have k: "take kept row = sorted_dedup vs" using dedup_row [of vs] by simp
  then have len: "min (length row) kept = length (sorted_dedup vs)" by (metis length_take)
  show ?thesis
    using assms d k len by (simp add: holds_rows_def offsets_snoc push_row_def end_row_def extend_row_def start_row_def started Let_def)
qed

lemma row_of_concat:
  "i < length xss \<Longrightarrow> take (length (concat (take (Suc i) xss)) - length (concat (take i xss))) (drop (length (concat (take i xss))) (concat xss)) = xss ! i"
proof (induction xss arbitrary: i)
  case (Cons xs xss)
  then show ?case by (cases i) simp_all
qed simp

lemma holds_read:
  assumes b: "holds_rows b rows" and i: "i < length rows" and fits: "length (concat (map snd rows)) < 2 ^ 32"
  shows "sets_row (finish_sets b) i = Inr (rows ! i)"
proof -
  have started: "ensure_started b = b" using b by (auto simp: ensure_started_def holds_rows_def offsets_of_def)
  have le: "length (concat (map snd (take j rows))) \<le> length (concat (map snd rows))" for j
  proof -
    have "concat (map snd rows) = concat (map snd (take j rows)) @ concat (map snd (drop j rows))"
      by (simp only: concat_append [symmetric] map_append [symmetric] append_take_drop_id)
    then show ?thesis by (simp del: length_concat)
  qed
  have off: "unat (sb_offsets b ! j) = length (concat (map snd (take j rows)))" if "j \<le> length rows" for j
    using b that fits le [of j] by (simp add: holds_rows_def offsets_of_def unat_of_nat del: upt_Suc length_concat)
  have mono: "length (concat (map snd (take i rows))) \<le> length (concat (map snd (take (Suc i) rows)))"
    using i by (simp add: take_Suc_conv_app_nth)
  have "take (length (concat (map snd (take (Suc i) rows))) - length (concat (map snd (take i rows))))
      (drop (length (concat (map snd (take i rows)))) (concat (map snd rows))) = snd (rows ! i)"
    using row_of_concat [of i "map snd rows"] i by (simp add: take_map)
  then show ?thesis
    using b i off [of i] off [of "Suc i"] le [of "Suc i"] mono
    by (simp add: sets_row_def finish_sets_def started holds_rows_def offsets_of_def Let_def del: upt_Suc length_concat)
qed

end
