(* ===== verification/Shacl_Paths.thy ===== *)
theory Shacl_Paths
  imports Shacl_Values
begin

text \<open>
  Evaluation of SHACL property paths, \<^verbatim>\<open>holos-shacl-engine/src/path.rs\<close>: the traversal moves whole lists of
  pairs of an origin and a node reached. Its meaning is the relation \<open>path_rel\<close> on the set of triples; every
  walk, forwards and backwards, advances its pairs along exactly that relation, and closures end because
  the pairs seen only grow.
\<close>

datatype shacl_path =
    PredicatePath tid
  | InversePath shacl_path
  | SequencePath "shacl_path list"
  | AlternativePath "shacl_path list"
  | ZeroOrMorePath shacl_path
  | OneOrMorePath shacl_path
  | ZeroOrOnePath shacl_path

type_synonym pairs = "(u32 \<times> tid) list"

definition normalise :: "pairs \<Rightarrow> pairs" where
  "normalise ps = sorted_dedup ps"

text \<open>The groups of equal nodes, each probed once for all of its origins.\<close>

function probe_groups :: "(tid \<Rightarrow> tid list) \<Rightarrow> (tid \<times> u32) list \<Rightarrow> pairs" where
  "probe_groups targets [] = []"
| "probe_groups targets ((node, origin) # rest) =
    (let origins = (node, origin) # takeWhile (\<lambda>q. fst q = node) rest in
     concat (map (\<lambda>t. map (\<lambda>(_, i). (i, t)) origins) (targets node)) @ probe_groups targets (dropWhile (\<lambda>q. fst q = node) rest))"
  by pat_completeness auto
termination by (relation "measure (\<lambda>(targets, by_node). length by_node)") (auto simp: less_Suc_eq_le length_dropWhile_le)

definition probe :: "pairs \<Rightarrow> tid \<Rightarrow> shacl_graph \<Rightarrow> bool \<Rightarrow> pairs" where
  "probe input p g reverse =
    (let by_node = sort (map (\<lambda>(i, n). (n, i)) input) in
     probe_groups (\<lambda>node. if reverse then graph_subjects g p node else graph_objects g node p) by_node)"

text \<open>The steps of a sequence: an empty frontier ends the walk with nothing.\<close>

fun walk_steps :: "(pairs \<Rightarrow> pairs) list \<Rightarrow> pairs \<Rightarrow> pairs" where
  "walk_steps [] frontier = frontier"
| "walk_steps (step # steps) frontier =
    (let after = normalise (step frontier) in if after = [] then [] else walk_steps steps after)"

lemma new_pairs_measure:
  "filter (\<lambda>q. isl (binary_search seen q)) (sorted_dedup qs) \<noteq> [] \<Longrightarrow> btree_ok seen
    \<Longrightarrow> card (- set seen \<inter> - {q \<in> set qs. isl (binary_search seen q)}) < card (- set seen)" for seen :: pairs
  using binary_search_found [of seen]
  by (intro psubset_card_mono) (auto simp: sorted_dedup_ok filter_empty_conv)

function closure_loop :: "(pairs \<Rightarrow> pairs) \<Rightarrow> pairs \<Rightarrow> pairs \<Rightarrow> pairs" where
  "closure_loop walk seen frontier =
    (if frontier = [] then []
     else let new_pairs = filter (\<lambda>q. isl (binary_search seen q)) (normalise (walk frontier)) in
       if new_pairs = [] then []
       else new_pairs @ closure_loop walk (normalise (seen @ new_pairs)) new_pairs)"
  by auto
termination
  by (relation "measures [\<lambda>(walk, seen, frontier). if btree_ok seen then 0 else 1, \<lambda>(walk, seen, frontier). card (- set seen)]")
     (auto simp: normalise_def sorted_dedup_ok new_pairs_measure)

fun walk_path :: "shacl_graph \<Rightarrow> shacl_path \<Rightarrow> bool \<Rightarrow> pairs \<Rightarrow> pairs" where
  "walk_path g (PredicatePath p) reverse input = probe input p g reverse"
| "walk_path g (InversePath inner) reverse input = walk_path g inner (\<not> reverse) input"
| "walk_path g (SequencePath steps) reverse input =
    walk_steps ((if reverse then rev else id) (map (\<lambda>step. walk_path g step reverse) steps)) input"
| "walk_path g (AlternativePath alts) reverse input = concat (map (\<lambda>alt. walk_path g alt reverse input) alts)"
| "walk_path g (ZeroOrMorePath inner) reverse input = input @ closure_loop (walk_path g inner reverse) [] input"
| "walk_path g (OneOrMorePath inner) reverse input = closure_loop (walk_path g inner reverse) [] input"
| "walk_path g (ZeroOrOnePath inner) reverse input = input @ walk_path g inner reverse input"

text \<open>Grouping the sorted pairs into rows: origins are positions in the focus list, cast to 32 bits.\<close>

fun group_rows :: "nat \<Rightarrow> tid list \<Rightarrow> pairs \<Rightarrow> sets_builder \<Rightarrow> sets_builder" where
  "group_rows origin [] reached b = b"
| "group_rows origin (f # focus) reached b =
    (let own = takeWhile (\<lambda>q. fst q = word_of_nat origin) reached;
         b1 = foldl push_value (start_row f b) (map snd own)
     in group_rows (Suc origin) focus (dropWhile (\<lambda>q. fst q = word_of_nat origin) reached) (end_row b1))"

definition eval_sets_dir :: "shacl_graph \<Rightarrow> shacl_path \<Rightarrow> tid list \<Rightarrow> bool \<Rightarrow> value_sets" where
  "eval_sets_dir g path focus reverse =
    (let ps = map (\<lambda>(i, n). (word_of_nat i, n)) (enumerate 0 focus);
         reached = normalise (walk_path g path reverse ps)
     in finish_sets (group_rows 0 focus reached (builder_with_capacity (length focus))))"

definition eval_sets :: "shacl_graph \<Rightarrow> shacl_path \<Rightarrow> tid list \<Rightarrow> value_sets" where
  "eval_sets g path focus = eval_sets_dir g path focus False"

definition eval_path :: "shacl_graph \<Rightarrow> shacl_path \<Rightarrow> tid \<Rightarrow> tid list \<Rightarrow> tid list res" where
  "eval_path g path focus out = map_sum id (\<lambda>(_, values). out @ values) (sets_row (eval_sets_dir g path [focus] False) 0)"

definition eval_inverse :: "shacl_graph \<Rightarrow> shacl_path \<Rightarrow> tid \<Rightarrow> tid list \<Rightarrow> tid list res" where
  "eval_inverse g path node out = map_sum id (\<lambda>(_, values). out @ values) (sets_row (eval_sets_dir g path [node] True) 0)"

section \<open>What a path means\<close>

fun path_rel :: "trow set \<Rightarrow> shacl_path \<Rightarrow> tid rel" where
  "path_rel T (PredicatePath p) = {(s, x). (s, p, x) \<in> T}"
| "path_rel T (InversePath q) = (path_rel T q)\<inverse>"
| "path_rel T (SequencePath steps) = foldr (O) (map (path_rel T) steps) Id"
| "path_rel T (AlternativePath alts) = (\<Union>q\<in>set alts. path_rel T q)"
| "path_rel T (ZeroOrMorePath q) = (path_rel T q)\<^sup>*"
| "path_rel T (OneOrMorePath q) = (path_rel T q)\<^sup>+"
| "path_rel T (ZeroOrOnePath q) = Id \<union> path_rel T q"

definition directed :: "bool \<Rightarrow> 'a rel \<Rightarrow> 'a rel" where
  "directed reverse R = (if reverse then R\<inverse> else R)"

definition advance :: "tid rel \<Rightarrow> (u32 \<times> tid) set \<Rightarrow> (u32 \<times> tid) set" where
  "advance R A = {(i, y). \<exists>n. (i, n) \<in> A \<and> (n, y) \<in> R}"

lemma advance_mem: "(i, y) \<in> advance R A \<longleftrightarrow> (\<exists>n. (i, n) \<in> A \<and> (n, y) \<in> R)"
  by (simp add: advance_def)

lemma advance_simps:
  "advance Id A = A" "advance R {} = {}" "advance (Q O R) A = advance R (advance Q A)" "advance (Q \<union> R) A = advance Q A \<union> advance R A"
  "advance R (A \<union> B) = advance R A \<union> advance R B"
  by (auto simp: advance_def)

section \<open>One step\<close>

lemma sorted_firsts: "sorted xs \<Longrightarrow> sorted (map fst xs)" "sorted (map fst xs) \<Longrightarrow> sorted (map fst (dropWhile P xs))"
  for xs :: "('a::linorder \<times> 'b::linorder) list"
  by (induction xs) (fastforce simp: less_eq_prod_simp)+

lemma probe_groups_set:
  "sorted (map fst by_node) \<Longrightarrow> set (probe_groups targets by_node) = {(i, t). \<exists>n. (n, i) \<in> set by_node \<and> t \<in> set (targets n)}"
proof (induction targets by_node rule: probe_groups.induct)
  case (2 targets node origin rest)
  have srt: "sorted (map fst (dropWhile (\<lambda>q. fst q = node) rest))"
    using 2(2) by (simp add: sorted_firsts(2))
  let ?own = "(node, origin) # takeWhile (\<lambda>q. fst q = node) rest" and ?after = "dropWhile (\<lambda>q. fst q = node) rest"
  have own: "fst q = node" if "q \<in> set ?own" for q using that set_takeWhileD by fastforce
  have all: "set ((node, origin) # rest) = set ?own \<union> set ?after"
    by (simp only: set_append [symmetric] append_Cons takeWhile_dropWhile_id)
  have "set (concat (map (\<lambda>t. map (\<lambda>(_, i). (i, t)) ?own) (targets node))) = {(i, t). \<exists>n. (n, i) \<in> set ?own \<and> t \<in> set (targets n)}" (is "?A = ?B")
  proof -
    have "?A = {(i, t). t \<in> set (targets node) \<and> (\<exists>q\<in>set ?own. snd q = i)}" by force
    also have "\<dots> = ?B" using own by (metis (no_types, lifting) fst_conv prod.collapse snd_conv)
    finally show ?thesis .
  qed
  with 2(1) [OF refl srt] show ?case unfolding all by (auto simp: Let_def)
qed simp

lemma probe_set:
  assumes "graph_ok g"
  shows "set (probe input p g reverse) = advance (directed reverse (path_rel (triples g) (PredicatePath p))) (set input)"
proof -
  let ?by = "sort (map (\<lambda>(i, n). (n, i)) input)"
  have "sorted (map fst ?by)" by (simp add: sorted_firsts(1))
  note groups = probe_groups_set [OF this, of "\<lambda>node. if reverse then graph_subjects g p node else graph_objects g node p"]
  have "(n, i) \<in> set ?by \<longleftrightarrow> (i, n) \<in> set input" for n i by force
  moreover have "set (if reverse then graph_subjects g p n else graph_objects g n p) = {t. (n, t) \<in> directed reverse (path_rel (triples g) (PredicatePath p))}" for n
    using ascending_objects(2,4) [OF assms] by (simp add: directed_def)
  ultimately show ?thesis using groups by (simp add: probe_def advance_def)
qed

lemma normalise_set [simp]: "set (normalise ps) = set ps" "btree_ok (normalise ps)" "normalise ps = [] \<longleftrightarrow> ps = []"
  using sorted_dedup_ok [of ps] by (simp_all add: normalise_def) (metis set_empty)

lemma walk_steps_set:
  "list_all2 (\<lambda>f R. \<forall>ps. set (f ps) = advance R (set ps)) fs Rs \<Longrightarrow> set (walk_steps fs input) = advance (foldr (O) Rs Id) (set input)"
proof (induction fs Rs arbitrary: input rule: list_all2_induct)
  case (Cons f fs R Rs)
  have "set (f input) = advance R (set input)" using Cons by simp
  moreover have "set (walk_steps (f # fs) input) = advance (foldr (O) Rs Id) (set (f input))"
    using Cons.IH by (auto simp: Let_def advance_simps(2))
  ultimately show ?case by (simp add: advance_simps(3))
qed (simp add: advance_simps)

section \<open>Closures\<close>

declare closure_loop.simps [simp del]

text \<open>What the pairs not yet seen are, when a walk advances along a relation.\<close>

lemma new_pairs_set:
  assumes "\<And>ps. set (f ps) = advance R (set ps)" "btree_ok seen"
  shows "set (filter (\<lambda>q. isl (binary_search seen q)) (normalise (f frontier))) = advance R (set frontier) - set seen"
  using binary_search_found [OF assms(2)] by (auto simp: assms(1))

lemma closure_sound:
  assumes step: "\<And>ps. set (f ps) = advance R (set ps)"
  shows "set (closure_loop f seen frontier) \<subseteq> advance (R\<^sup>+) (set frontier)"
  using step
proof (induction f seen frontier rule: closure_loop.induct)
  case (1 f seen frontier)
  let ?new = "filter (\<lambda>q. isl (binary_search seen q)) (normalise (f frontier))"
  have new: "set ?new \<subseteq> advance R (set frontier)" by (auto simp: "1.prems")
  show ?case
  proof (cases "frontier = [] \<or> ?new = []")
    case True
    then show ?thesis by (auto simp: closure_loop.simps [of f seen] Let_def)
  next
    case False
    then have c: "closure_loop f seen frontier = ?new @ closure_loop f (normalise (seen @ ?new)) ?new"
      by (simp add: closure_loop.simps [of f seen frontier] Let_def)
    have "set (closure_loop f (normalise (seen @ ?new)) ?new) \<subseteq> advance (R\<^sup>+) (set ?new)"
      using "1.IH" [OF _ refl] False "1.prems" by blast
    moreover have "advance (R\<^sup>+) (set ?new) \<subseteq> advance (R\<^sup>+) (set frontier)"
    proof (rule subrelI)
      fix i y assume "(i, y) \<in> advance (R\<^sup>+) (set ?new)"
      then obtain n m where "(i, m) \<in> set frontier" "(m, n) \<in> R" "(n, y) \<in> R\<^sup>+" using new by (auto simp: advance_def)
      then show "(i, y) \<in> advance (R\<^sup>+) (set frontier)" by (meson advance_mem trancl_into_trancl2)
    qed
    moreover have "set ?new \<subseteq> advance (R\<^sup>+) (set frontier)" using new by (auto simp: advance_def)
    ultimately show ?thesis unfolding c by auto
  qed
qed

lemma closure_closed:
  assumes step: "\<And>ps. set (f ps) = advance R (set ps)" and ok: "btree_ok seen" and inv: "advance R (set seen - set frontier) \<subseteq> set seen"
  shows "advance R (set seen \<union> set frontier \<union> set (closure_loop f seen frontier)) \<subseteq> set seen \<union> set (closure_loop f seen frontier)"
  using assms
proof (induction f seen frontier rule: closure_loop.induct)
  case (1 f seen frontier)
  let ?new = "filter (\<lambda>q. isl (binary_search seen q)) (normalise (f frontier))"
  note new = new_pairs_set [OF "1.prems"(1,2), of frontier]
  have front: "advance R (set seen) \<union> advance R (set frontier) \<subseteq> set seen \<union> set ?new"
    using "1.prems"(3) advance_simps(5) [of R "set seen - set frontier" "set frontier"] advance_simps(5) [of R "set seen" "set frontier"]
    unfolding new by (auto simp: Un_Diff_cancel2)
  show ?case
  proof (cases "frontier = [] \<or> ?new = []")
    case True
    then show ?thesis
    proof
      assume e: "frontier = []"
      then show ?thesis using "1.prems"(3) by (simp add: closure_loop.simps)
    next
      assume n: "?new = []"
      then have "closure_loop f seen frontier = []" by (simp add: closure_loop.simps [of f seen frontier] Let_def)
      then show ?thesis using front n by (simp add: advance_simps(5))
    qed
  next
    case False
    then have c: "closure_loop f seen frontier = ?new @ closure_loop f (normalise (seen @ ?new)) ?new"
      by (simp add: closure_loop.simps [of f seen frontier] Let_def)
    have "set (normalise (seen @ ?new)) - set ?new = set seen" using new by auto
    then have "advance R (set (normalise (seen @ ?new)) - set ?new) \<subseteq> set (normalise (seen @ ?new))" using front by auto
    then have "advance R (set (normalise (seen @ ?new)) \<union> set ?new \<union> set (closure_loop f (normalise (seen @ ?new)) ?new))
        \<subseteq> set (normalise (seen @ ?new)) \<union> set (closure_loop f (normalise (seen @ ?new)) ?new)"
      using "1.IH" [OF _ refl] False "1.prems"(1) by simp
    then show ?thesis using front unfolding c by (simp add: advance_simps(5)) blast
  qed
qed

lemma closure_set:
  assumes step: "\<And>ps. set (f ps) = advance R (set ps)"
  shows "set (closure_loop f [] input) = advance (R\<^sup>+) (set input)"
proof
  show "set (closure_loop f [] input) \<subseteq> advance (R\<^sup>+) (set input)" by (rule closure_sound [OF step])
  have closed: "advance R (set input \<union> set (closure_loop f [] input)) \<subseteq> set (closure_loop f [] input)"
    using closure_closed [OF step, of "[]" input] by (simp add: advance_simps)
  show "advance (R\<^sup>+) (set input) \<subseteq> set (closure_loop f [] input)"
  proof (rule subrelI)
    fix i y assume "(i, y) \<in> advance (R\<^sup>+) (set input)"
    then obtain n where n: "(i, n) \<in> set input" "(n, y) \<in> R\<^sup>+" by (auto simp: advance_def)
    from n(2) show "(i, y) \<in> set (closure_loop f [] input)"
      by induction (use n(1) closed in \<open>auto simp: advance_def\<close>)
  qed
qed

section \<open>Whole paths\<close>

lemma foldr_comp_snoc: "foldr (O) (Rs @ [R]) Id = foldr (O) Rs Id O R"
  by (induction Rs) (simp_all add: O_assoc)

lemma converse_sequence: "(foldr (O) Rs Id)\<inverse> = foldr (O) (rev (map converse Rs)) Id"
  by (induction Rs) (simp_all add: converse_relcomp foldr_comp_snoc del: foldr_append)

lemma directed_fun: "directed True = converse" "directed False = (\<lambda>R. R)"
  by (simp_all add: directed_def fun_eq_iff)

lemma directed_simps:
  "directed reverse (R\<inverse>) = directed (\<not> reverse) R" "directed reverse (R\<^sup>+) = (directed reverse R)\<^sup>+"
  "directed reverse (R\<^sup>*) = Id \<union> (directed reverse R)\<^sup>+" "directed reverse (Q \<union> R) = directed reverse Q \<union> directed reverse R"
  "directed reverse Id = Id" "directed reverse (\<Union>x\<in>A. P x) = (\<Union>x\<in>A. directed reverse (P x))"
  "directed reverse (foldr (O) Rs Id) = foldr (O) ((if reverse then rev else id) (map (directed reverse) Rs)) Id"
  by (simp_all add: directed_def trancl_converse rtrancl_trancl_reflcl converse_sequence converse_Un converse_UNION Un_commute directed_fun)

lemma walk_set:
  assumes ok: "graph_ok g"
  shows "set (walk_path g path reverse input) = advance (directed reverse (path_rel (triples g) path)) (set input)"
proof (induction path arbitrary: reverse input)
  case (PredicatePath p)
  then show ?case using probe_set [OF ok] by simp
next
  case (SequencePath steps)
  have "list_all2 (\<lambda>f R. \<forall>ps. set (f ps) = advance R (set ps)) (map (\<lambda>step. walk_path g step reverse) steps) (map (directed reverse) (map (path_rel (triples g)) steps))"
    using SequencePath by (simp add: list_all2_conv_all_nth)
  then have "list_all2 (\<lambda>f R. \<forall>ps. set (f ps) = advance R (set ps)) ((if reverse then rev else id) (map (\<lambda>step. walk_path g step reverse) steps))
      ((if reverse then rev else id) (map (directed reverse) (map (path_rel (triples g)) steps)))" by (cases reverse) (simp_all add: list_all2_rev)
  from walk_steps_set [OF this] show ?case by (simp add: directed_simps(7))
next
  case (AlternativePath alts)
  then show ?case by (auto simp: directed_simps(6) advance_def)
next
  case (ZeroOrMorePath q)
  then show ?case using closure_set [of "walk_path g q reverse"] by (simp add: directed_simps(3) advance_simps(1,4))
next
  case (OneOrMorePath q)
  then show ?case using closure_set [of "walk_path g q reverse"] by (simp add: directed_simps(2))
qed (simp_all add: directed_simps advance_simps)

section \<open>Rows\<close>

lemma own_pairs:
  fixes reached :: pairs
  assumes "btree_ok reached" "\<forall>q\<in>set reached. w \<le> fst q"
  shows "takeWhile (\<lambda>q. fst q = w) reached = filter (\<lambda>q. fst q = w) reached" "dropWhile (\<lambda>q. fst q = w) reached = filter (\<lambda>q. fst q \<noteq> w) reached"
proof -
  have srt: "sorted (map fst reached)" using assms(1) by (simp add: btree_ok_def strict_sorted_iff sorted_firsts(1))
  have "dropWhile (\<lambda>q. fst q < w) reached = reached" using assms(2) by (cases reached) auto
  then show tk: "takeWhile (\<lambda>q. fst q = w) reached = filter (\<lambda>q. fst q = w) reached" using range_is_filter [OF srt, of w] by simp
  show "dropWhile (\<lambda>q. fst q = w) reached = filter (\<lambda>q. fst q \<noteq> w) reached"
    using assms(2) srt
  proof (induction reached)
    case (Cons q qs)
    show ?case
    proof (cases "fst q = w")
      case False
      then have "\<forall>r\<in>set (q # qs). fst r \<noteq> w" using Cons.prems by fastforce
      then show ?thesis using False by (simp add: filter_id_conv)
    qed (use Cons in auto)
  qed simp
qed

lemma group_rows_spec:
  assumes "holds_rows b rows" "btree_ok reached" "\<forall>q\<in>set reached. k \<le> unat (fst q)" "k + length focus \<le> 2 ^ 32"
  shows "holds_rows (group_rows k focus reached b)
    (rows @ map (\<lambda>(i, f). (f, sorted_list_of_set {v. (word_of_nat i, v) \<in> set reached})) (enumerate k focus))"
  using assms
proof (induction focus arbitrary: k reached b rows)
  case (Cons f focus)
  let ?w = "word_of_nat k :: u32"
  have k: "unat ?w = k" using Cons.prems(4) by (simp add: unat_of_nat)
  have le: "\<forall>q\<in>set reached. ?w \<le> fst q" using Cons.prems(3) by (simp add: word_le_nat_alt k)
  note own = own_pairs [OF Cons.prems(2) le]
  have vals: "sorted_dedup (map snd (filter (\<lambda>q. fst q = ?w) reached)) = sorted_list_of_set {v. (?w, v) \<in> set reached}"
  proof (rule strict_sorted_equal)
    show "set (sorted_dedup (map snd (filter (\<lambda>q. fst q = ?w) reached))) = set (sorted_list_of_set {v. (?w, v) \<in> set reached})"
      unfolding sorted_dedup_ok(2) by force
  qed (use sorted_dedup_ok(1) in \<open>simp_all add: btree_ok_def\<close>)
  have b1: "holds_rows (end_row (foldl push_value (start_row f b) (map snd (filter (\<lambda>q. fst q = ?w) reached))))
      (rows @ [(f, sorted_list_of_set {v. (?w, v) \<in> set reached})])"
    using holds_push [OF Cons.prems(1), of f] unfolding foldl_push push_row_def [symmetric] vals [symmetric] by blast
  have rest: "btree_ok (filter (\<lambda>q. fst q \<noteq> ?w) reached)" "\<forall>q\<in>set (filter (\<lambda>q. fst q \<noteq> ?w) reached). Suc k \<le> unat (fst q)" "Suc k + length focus \<le> 2 ^ 32"
    using Cons.prems(2,3,4) k by (auto simp: btree_ok_def sorted_wrt_filter le_less Suc_le_eq word_unat_eq_iff)
  have "{v. (word_of_nat j, v) \<in> set (filter (\<lambda>q. fst q \<noteq> ?w) reached)} = {v. (word_of_nat j, v) \<in> set reached}" if "j \<in> {Suc k..<Suc k + length focus}" for j
  proof -
    have "unat (word_of_nat j :: u32) = j" using that Cons.prems(4) by (simp add: unat_of_nat)
    then have "(word_of_nat j :: u32) \<noteq> ?w" using k that by auto
    then show ?thesis by auto
  qed
  then have same: "map (\<lambda>(j, f). (f, sorted_list_of_set {v. (word_of_nat j, v) \<in> set (filter (\<lambda>q. fst q \<noteq> ?w) reached)})) (enumerate (Suc k) focus)
      = map (\<lambda>(j, f). (f, sorted_list_of_set {v. (word_of_nat j, v) \<in> set reached})) (enumerate (Suc k) focus)"
    by (intro map_cong) (auto simp: in_set_enumerate_eq)
  show ?case using Cons.IH [OF b1 rest, unfolded same] by (simp add: Let_def own)
qed simp

lemma eval_holds:
  assumes ok: "graph_ok g" and focus: "length focus \<le> 2 ^ 32"
  shows "\<exists>b. eval_sets_dir g path focus reverse = finish_sets b
    \<and> holds_rows b (map (\<lambda>f. (f, sorted_list_of_set {v. (f, v) \<in> directed reverse (path_rel (triples g) path)})) focus)"
proof -
  let ?R = "directed reverse (path_rel (triples g) path)" and ?in = "map (\<lambda>(i, n). (word_of_nat i :: u32, n)) (enumerate 0 focus)"
  have idx: "unat (word_of_nat i :: u32) = i" if "i < length focus" for i using that focus by (simp add: unat_of_nat)
  have own: "(word_of_nat i, n) \<in> set ?in \<longleftrightarrow> n = focus ! i" if "i < length focus" for i n
  proof -
    have "(word_of_nat i :: u32) = word_of_nat j \<longleftrightarrow> i = j" if "j < length focus" for j using idx [OF that] idx [OF \<open>i < length focus\<close>] by metis
    moreover have "(i, focus ! i) \<in> set (enumerate 0 focus)" using that by (simp add: in_set_enumerate_eq)
    ultimately show ?thesis by (force simp: in_set_enumerate_eq)
  qed
  let ?reached = "normalise (walk_path g path reverse ?in)"
  have "{v. (word_of_nat i, v) \<in> set ?reached} = {v. (focus ! i, v) \<in> ?R}" if "i < length focus" for i
    using own [OF that] by (simp add: walk_set [OF ok] advance_def del: set_map)
  then have rows: "map (\<lambda>(i, f). (f, sorted_list_of_set {v. (word_of_nat i, v) \<in> set ?reached})) (enumerate 0 focus)
      = map (\<lambda>f. (f, sorted_list_of_set {v. (f, v) \<in> ?R})) focus"
    by (intro nth_equalityI) (simp_all add: nth_enumerate_eq del: normalise_set)
  have "holds_rows (group_rows 0 focus ?reached (builder_with_capacity (length focus)))
      ([] @ map (\<lambda>(i, f). (f, sorted_list_of_set {v. (word_of_nat i, v) \<in> set ?reached})) (enumerate 0 focus))"
    using focus by (intro group_rows_spec holds_new) simp_all
  then show ?thesis unfolding rows by (auto simp: eval_sets_dir_def Let_def)
qed

text \<open>
  C15. A SHACL property path reaches exactly the nodes its relation says. For any path, built from
  predicates, inverses, sequences, alternatives and the three closures, evaluating it over a list of focus
  nodes, forwards or backwards, gives one row per focus node in order, and each row lists in ascending
  order, without repetition, exactly the nodes related to that focus node; cycles end, and no row takes in
  the values of another. The counters are 32-bit words, so this holds up to 2^32 rows and values.
\<close>

theorem path_eval_exact:
  assumes "graph_ok g" "length focus \<le> 2 ^ 32"
    and "(\<Sum>f\<leftarrow>focus. card {v. (f, v) \<in> directed reverse (path_rel (triples g) path)}) < 2 ^ 32"
  shows "sets_rows (eval_sets_dir g path focus reverse)
    = map (\<lambda>f. Inr (f, sorted_list_of_set {v. (f, v) \<in> directed reverse (path_rel (triples g) path)})) focus"
proof -
  let ?rows = "map (\<lambda>f. (f, sorted_list_of_set {v. (f, v) \<in> directed reverse (path_rel (triples g) path)})) focus"
  obtain b where b: "eval_sets_dir g path focus reverse = finish_sets b" "holds_rows b ?rows" using eval_holds [OF assms(1,2)] by blast
  have "length (concat (map snd ?rows)) < 2 ^ 32" using assms(3) by (simp add: length_concat comp_def)
  note read = holds_read [OF b(2) _ this]
  have "sets_len (finish_sets b) = length focus" using b(2) by (simp add: sets_len_def finish_sets_def ensure_started_def holds_rows_def Let_def)
  then have "sets_rows (finish_sets b) = map Inr ?rows" using read by (intro nth_equalityI) (simp_all add: sets_rows_def)
  then show ?thesis by (simp add: b(1) comp_def)
qed

theorem path_eval_exact_witness:
  "sets_rows (eval_sets_dir (build \<lparr>gb_rows = [(1, 9, 2), (2, 9, 1)]\<rparr>) (OneOrMorePath (PredicatePath 9)) [1, 3] False)
    = [Inr (1, [1, 2]), Inr (3, [])]"
proof -
  let ?g = "build \<lparr>gb_rows = [(1, 9, 2), (2, 9, 1)]\<rparr>" and ?p = "OneOrMorePath (PredicatePath 9)"
  let ?R = "{(s, x). (s, 9 :: tid, x) \<in> {(1 :: tid, 9, 2 :: tid), (2, 9, 1)}}"
  have T: "triples ?g = {(1, 9, 2), (2, 9, 1)}" by (simp add: build_ok)
  have R: "?R = {(1, 2), (2, 1)}" by auto
  have "?R\<^sup>+ = {1, 2} \<times> {1, 2}"
  proof
    show "?R\<^sup>+ \<subseteq> {1, 2} \<times> {1, 2}" unfolding R by (rule trancl_subset_Sigma) auto
    have "(1, 2) \<in> ?R" "(2, 1) \<in> ?R" by auto
    then show "{1, 2} \<times> {1, 2} \<subseteq> ?R\<^sup>+" by (blast intro: trancl_into_trancl)
  qed
  then have v: "{v. (1, v) \<in> directed False (path_rel (triples ?g) ?p)} = {1, 2}" "{v. (3, v) \<in> directed False (path_rel (triples ?g) ?p)} = {}"
    unfolding T by (auto simp: directed_def)
  have "(\<Sum>f\<leftarrow>[1, 3]. card {v. (f, v) \<in> directed False (path_rel (triples ?g) ?p)}) < 2 ^ 32" using v by simp
  from path_eval_exact [OF build_ok(1) _ this] show ?thesis using v by simp
qed

end
