(* ===== verification/Shacl_Compile.thy ===== *)
theory Shacl_Compile
  imports Shacl_Lists Shacl_Terms Shacl_Paths
begin

text \<open>
  Reading property paths from a shapes graph and writing them as SPARQL,
  \<^verbatim>\<open>holos-shacl-engine/src/path.rs\<close>. Compilation succeeds exactly on the nodes that spell out a path of at
  most 64 nested levels, so cyclic structures are refused; rendering is checked against the grammar of
  SPARQL 1.1 property paths.
\<close>

datatype shape_error =
    IoError string
  | ParseError string
  | ShapeError string
  | SparqlError string
  | InferenceError string
  | RecursionError string
  | EnginePanic

fun collect_ok :: "('e + 'a) list \<Rightarrow> 'e + 'a list" where
  "collect_ok [] = Inr []"
| "collect_ok (Inl e # _) = Inl e"
| "collect_ok (Inr x # rs) = map_sum id (\<lambda>xs. x # xs) (collect_ok rs)"

definition MAX_DEPTH :: nat where "MAX_DEPTH = 64"

lemma collect_ok_cong [fundef_cong]: "xs = ys \<Longrightarrow> collect_ok xs = collect_ok ys"
  by simp

function compile_at :: "shacl_graph \<Rightarrow> term_store \<Rightarrow> shacl_vocab \<Rightarrow> tid \<Rightarrow> nat \<Rightarrow> shape_error + shacl_path" where
  "compile_at shapes ts v node depth =
    (if depth > MAX_DEPTH then Inl (ShapeError ''property path nested too deeply'')
     else (case is_iri ts node of
       Inl _ \<Rightarrow> Inl EnginePanic
     | Inr True \<Rightarrow> Inr (PredicatePath node)
     | Inr False \<Rightarrow>
    (case is_literal ts node of
       Inl _ \<Rightarrow> Inl EnginePanic
     | Inr True \<Rightarrow> Inl (ShapeError ''a literal is not a valid property path'')
     | Inr False \<Rightarrow>
     if graph_object shapes node (rdf_first v) \<noteq> None then
       (case read_list shapes v node of
          None \<Rightarrow> Inl (ShapeError ''blank node is not a valid property path'')
        | Some items \<Rightarrow>
            if length items < 2 then Inl (ShapeError ''a sequence path needs at least two steps'')
            else map_sum id SequencePath (collect_ok (map (\<lambda>n. compile_at shapes ts v n (depth + 1)) items)))
     else (case graph_object shapes node (sh_inversePath v) of
       Some inner \<Rightarrow> map_sum id InversePath (compile_at shapes ts v inner (depth + 1))
     | None \<Rightarrow>
    (case graph_object shapes node (sh_alternativePath v) of
       Some head \<Rightarrow>
         (case read_list shapes v head of
            None \<Rightarrow> Inl (ShapeError ''sh:alternativePath is not a well-formed list'')
          | Some items \<Rightarrow>
              if length items < 2 then Inl (ShapeError ''sh:alternativePath needs at least two alternatives'')
              else map_sum id AlternativePath (collect_ok (map (\<lambda>n. compile_at shapes ts v n (depth + 1)) items)))
     | None \<Rightarrow>
    (case graph_object shapes node (sh_zeroOrMorePath v) of
       Some inner \<Rightarrow> map_sum id ZeroOrMorePath (compile_at shapes ts v inner (depth + 1))
     | None \<Rightarrow>
    (case graph_object shapes node (sh_oneOrMorePath v) of
       Some inner \<Rightarrow> map_sum id OneOrMorePath (compile_at shapes ts v inner (depth + 1))
     | None \<Rightarrow>
    (case graph_object shapes node (sh_zeroOrOnePath v) of
       Some inner \<Rightarrow> map_sum id ZeroOrOnePath (compile_at shapes ts v inner (depth + 1))
     | None \<Rightarrow>
    (case read_list shapes v node of
       None \<Rightarrow> Inl (ShapeError ''blank node is not a valid property path'')
     | Some items \<Rightarrow>
         if length items < 2 then Inl (ShapeError ''a sequence path needs at least two steps'')
         else map_sum id SequencePath (collect_ok (map (\<lambda>n. compile_at shapes ts v n (depth + 1)) items)))))))))))"
  by pat_completeness auto
termination by (relation "measure (\<lambda>(shapes, ts, v, node, depth). MAX_DEPTH + 1 - depth)") auto

definition compile_path :: "shacl_graph \<Rightarrow> term_store \<Rightarrow> shacl_vocab \<Rightarrow> tid \<Rightarrow> shape_error + shacl_path" where
  "compile_path shapes ts v node = compile_at shapes ts v node 0"

fun join_text :: "string \<Rightarrow> string list \<Rightarrow> string" where
  "join_text sep [] = []"
| "join_text sep [s] = s"
| "join_text sep (s # t # ss) = s @ sep @ join_text sep (t # ss)"

fun to_sparql :: "term_store \<Rightarrow> shacl_path \<Rightarrow> string res" where
  "to_sparql ts (PredicatePath p) = map_sum id (\<lambda>iri. ''<'' @ (case iri of Some s \<Rightarrow> s | None \<Rightarrow> []) @ ''>'') (iri_of ts p)"
| "to_sparql ts (InversePath q) = map_sum id (\<lambda>s. ''^'' @ s) (to_sparql ts q)"
| "to_sparql ts (SequencePath steps) = map_sum id (\<lambda>ss. ''('' @ join_text ''/'' ss @ '')'') (collect_ok (map (to_sparql ts) steps))"
| "to_sparql ts (AlternativePath alts) = map_sum id (\<lambda>ss. ''('' @ join_text ''|'' ss @ '')'') (collect_ok (map (to_sparql ts) alts))"
| "to_sparql ts (ZeroOrMorePath q) = map_sum id (\<lambda>s. ''('' @ s @ '')*'') (to_sparql ts q)"
| "to_sparql ts (OneOrMorePath q) = map_sum id (\<lambda>s. ''('' @ s @ '')+'') (to_sparql ts q)"
| "to_sparql ts (ZeroOrOnePath q) = map_sum id (\<lambda>s. ''('' @ s @ '')?'') (to_sparql ts q)"

section \<open>What a node spells\<close>

definition blank_at :: "term_store \<Rightarrow> tid \<Rightarrow> bool" where
  "blank_at ts node \<longleftrightarrow> is_iri ts node = Inr False \<and> is_literal ts node = Inr False"

text \<open>What a set of triples spells. The list reading comes first, then the operators in the order the compiler tries them.\<close>

inductive spells :: "trow set \<Rightarrow> term_store \<Rightarrow> shacl_vocab \<Rightarrow> tid \<Rightarrow> shacl_path \<Rightarrow> bool" for T ts v where
  spells_predicate: "is_iri ts node = Inr True \<Longrightarrow> spells T ts v node (PredicatePath node)"
| spells_list: "blank_at ts node \<Longrightarrow> value_at T node (rdf_first v) \<noteq> None \<Longrightarrow> collection T v node items \<Longrightarrow> 2 \<le> length items
    \<Longrightarrow> list_all2 (spells T ts v) items ps \<Longrightarrow> spells T ts v node (SequencePath ps)"
| spells_inverse: "blank_at ts node \<Longrightarrow> value_at T node (rdf_first v) = None \<Longrightarrow> value_at T node (sh_inversePath v) = Some inner
    \<Longrightarrow> spells T ts v inner p \<Longrightarrow> spells T ts v node (InversePath p)"
| spells_alternative: "blank_at ts node \<Longrightarrow> value_at T node (rdf_first v) = None \<Longrightarrow> value_at T node (sh_inversePath v) = None
    \<Longrightarrow> value_at T node (sh_alternativePath v) = Some head \<Longrightarrow> collection T v head items \<Longrightarrow> 2 \<le> length items
    \<Longrightarrow> list_all2 (spells T ts v) items ps \<Longrightarrow> spells T ts v node (AlternativePath ps)"
| spells_zero_or_more: "blank_at ts node \<Longrightarrow> value_at T node (rdf_first v) = None \<Longrightarrow> value_at T node (sh_inversePath v) = None
    \<Longrightarrow> value_at T node (sh_alternativePath v) = None \<Longrightarrow> value_at T node (sh_zeroOrMorePath v) = Some inner
    \<Longrightarrow> spells T ts v inner p \<Longrightarrow> spells T ts v node (ZeroOrMorePath p)"
| spells_one_or_more: "blank_at ts node \<Longrightarrow> value_at T node (rdf_first v) = None \<Longrightarrow> value_at T node (sh_inversePath v) = None
    \<Longrightarrow> value_at T node (sh_alternativePath v) = None \<Longrightarrow> value_at T node (sh_zeroOrMorePath v) = None
    \<Longrightarrow> value_at T node (sh_oneOrMorePath v) = Some inner \<Longrightarrow> spells T ts v inner p \<Longrightarrow> spells T ts v node (OneOrMorePath p)"
| spells_zero_or_one: "blank_at ts node \<Longrightarrow> value_at T node (rdf_first v) = None \<Longrightarrow> value_at T node (sh_inversePath v) = None
    \<Longrightarrow> value_at T node (sh_alternativePath v) = None \<Longrightarrow> value_at T node (sh_zeroOrMorePath v) = None
    \<Longrightarrow> value_at T node (sh_oneOrMorePath v) = None \<Longrightarrow> value_at T node (sh_zeroOrOnePath v) = Some inner
    \<Longrightarrow> spells T ts v inner p \<Longrightarrow> spells T ts v node (ZeroOrOnePath p)"

fun nesting :: "shacl_path \<Rightarrow> nat" where
  "nesting (PredicatePath _) = 0"
| "nesting (InversePath q) = Suc (nesting q)"
| "nesting (SequencePath qs) = Suc (Max (insert 0 (nesting ` set qs)))"
| "nesting (AlternativePath qs) = Suc (Max (insert 0 (nesting ` set qs)))"
| "nesting (ZeroOrMorePath q) = Suc (nesting q)"
| "nesting (OneOrMorePath q) = Suc (nesting q)"
| "nesting (ZeroOrOnePath q) = Suc (nesting q)"

declare compile_at.simps [simp del]

lemma map_sum_Inr: "map_sum id f r = Inr y \<longleftrightarrow> (\<exists>x. r = Inr x \<and> y = f x)"
  by (cases r) auto

lemma collect_ok_iff: "collect_ok rs = Inr xs \<longleftrightarrow> rs = map Inr xs"
proof (induction rs arbitrary: xs rule: collect_ok.induct)
  case (3 x rs)
  then show ?case by (auto simp: map_sum_Inr)
qed auto

lemma collect_map_iff: "collect_ok (map f items) = Inr ps \<longleftrightarrow> list_all2 (\<lambda>n p. f n = Inr p) items ps"
  unfolding collect_ok_iff by (auto simp: list_all2_conv_all_nth list_eq_iff_nth_eq)

lemma no_first_no_items: "graph_object g node (rdf_first v) = None \<Longrightarrow> read_list g v node = Some items \<Longrightarrow> items = []"
  by (simp add: read_list_def collect_list_def split: if_splits)

lemma nesting_items: "Suc (Max (insert 0 (nesting ` set ps))) + d \<le> k \<longleftrightarrow> Suc d \<le> k \<and> (\<forall>p\<in>set ps. nesting p + Suc d \<le> k)"
proof -
  have "Suc (Max (insert 0 (nesting ` set ps))) + d \<le> k \<longleftrightarrow> Max (insert 0 (nesting ` set ps)) < k - d" by (simp only: less_diff_conv add_Suc Suc_le_eq)
  also have "\<dots> \<longleftrightarrow> (\<forall>n\<in>insert 0 (nesting ` set ps). n < k - d)" by (subst Max_less_iff) auto
  finally show ?thesis by (auto simp: less_diff_conv Suc_le_eq)
qed

text \<open>The operator a blank node carries, in the order of preference.\<close>

lemma operator_cases:
  obtains (sequence) x where "graph_object g node (rdf_first v) = Some x"
  | (inverse) inner where "graph_object g node (rdf_first v) = None" "graph_object g node (sh_inversePath v) = Some inner"
  | (alternative) head where "graph_object g node (rdf_first v) = None" "graph_object g node (sh_inversePath v) = None"
      "graph_object g node (sh_alternativePath v) = Some head"
  | (zero_or_more) inner where "graph_object g node (rdf_first v) = None" "graph_object g node (sh_inversePath v) = None"
      "graph_object g node (sh_alternativePath v) = None" "graph_object g node (sh_zeroOrMorePath v) = Some inner"
  | (one_or_more) inner where "graph_object g node (rdf_first v) = None" "graph_object g node (sh_inversePath v) = None"
      "graph_object g node (sh_alternativePath v) = None" "graph_object g node (sh_zeroOrMorePath v) = None" "graph_object g node (sh_oneOrMorePath v) = Some inner"
  | (zero_or_one) inner where "graph_object g node (rdf_first v) = None" "graph_object g node (sh_inversePath v) = None"
      "graph_object g node (sh_alternativePath v) = None" "graph_object g node (sh_zeroOrMorePath v) = None" "graph_object g node (sh_oneOrMorePath v) = None"
      "graph_object g node (sh_zeroOrOnePath v) = Some inner"
  | (none) "graph_object g node (rdf_first v) = None" "graph_object g node (sh_inversePath v) = None"
      "graph_object g node (sh_alternativePath v) = None" "graph_object g node (sh_zeroOrMorePath v) = None" "graph_object g node (sh_oneOrMorePath v) = None"
      "graph_object g node (sh_zeroOrOnePath v) = None"
  by (metis not_None_eq)

lemma compiled_spells:
  assumes ok: "graph_ok g"
  shows "compile_at g ts v node d = Inr p \<Longrightarrow> spells (triples g) ts v node p \<and> nesting p + d \<le> MAX_DEPTH"
proof (induction "MAX_DEPTH + 1 - d" arbitrary: node d p)
  case 0
  then show ?case by (simp add: compile_at.simps)
next
  case (Suc k)
  have d: "d \<le> MAX_DEPTH" using Suc.prems by (auto simp: compile_at.simps split: if_splits)
  have IH: "spells (triples g) ts v n q \<and> nesting q + Suc d \<le> MAX_DEPTH" if "compile_at g ts v n (Suc d) = Inr q" for n q
    using Suc.hyps(1) [of "Suc d"] Suc.hyps(2) that by simp
  have items: "list_all2 (spells (triples g) ts v) items ps \<and> (\<forall>p\<in>set ps. nesting p + Suc d \<le> MAX_DEPTH)"
    if "list_all2 (\<lambda>n p. compile_at g ts v n (Suc d) = Inr p) items ps" for items ps
    using that IH by (auto simp: list_all2_conv_all_nth in_set_conv_nth) (metis IH)+
  note step = Suc.prems [unfolded compile_at.simps [of g ts v node d]]
  show ?case
  proof (cases "is_iri ts node = Inr True")
    case True
    then show ?thesis using step d by (auto intro: spells_predicate)
  next
    case False
    then have blank: "blank_at ts node" "is_iri ts node = Inr False" "is_literal ts node = Inr False"
      using step d by (auto simp: blank_at_def split: sum.splits bool.splits if_splits)
    note step = step [unfolded blank(2,3), simplified]
    show ?thesis
    proof (cases rule: operator_cases [of g node v])
      case sequence
      then obtain l ps where "read_list g v node = Some l" "2 \<le> length l" "p = SequencePath ps" "list_all2 (\<lambda>n p. compile_at g ts v n (Suc d) = Inr p) l ps"
        using step d by (auto simp: map_sum_Inr collect_map_iff split: option.splits if_splits)
      then show ?thesis using items [of l ps] sequence blank(1) d nesting_items [of ps d MAX_DEPTH] by (auto simp: read_list_collection [OF ok] object_is_value [OF ok] intro: spells_list)
    next
      case (alternative head)
      then obtain l ps where "read_list g v head = Some l" "2 \<le> length l" "p = AlternativePath ps" "list_all2 (\<lambda>n p. compile_at g ts v n (Suc d) = Inr p) l ps"
        using step d by (auto simp: map_sum_Inr collect_map_iff split: option.splits if_splits)
      then show ?thesis using items [of l ps] alternative blank(1) d nesting_items [of ps d MAX_DEPTH] by (auto simp: read_list_collection [OF ok] object_is_value [OF ok] intro: spells_alternative)
    next
      case none
      then show ?thesis using step d no_first_no_items [of g node v] by (auto split: option.splits if_splits)
    qed (use step d IH blank(1) in \<open>auto simp: map_sum_Inr object_is_value [OF ok] intro!: spells_inverse spells_zero_or_more spells_one_or_more spells_zero_or_one\<close>)
  qed
qed

lemma spelled_compiles:
  assumes ok: "graph_ok g"
  shows "spells (triples g) ts v node p \<Longrightarrow> nesting p + d \<le> MAX_DEPTH \<Longrightarrow> compile_at g ts v node d = Inr p"
proof (induction arbitrary: d rule: spells.induct)
  case (spells_predicate node)
  then show ?case by (simp add: compile_at.simps)
next
  case (spells_list node items ps)
  have "list_all2 (\<lambda>n p. compile_at g ts v n (Suc d) = Inr p) items ps" "d \<le> MAX_DEPTH"
    using spells_list nesting_items [of ps d MAX_DEPTH] by (auto simp: list_all2_conv_all_nth)
  then show ?case using spells_list by (auto simp: object_is_value [OF ok] read_list_collection [OF ok, symmetric] compile_at.simps [of g ts v node d] blank_at_def collect_map_iff map_sum_Inr)
next
  case (spells_alternative node head items ps)
  have "list_all2 (\<lambda>n p. compile_at g ts v n (Suc d) = Inr p) items ps" "d \<le> MAX_DEPTH"
    using spells_alternative nesting_items [of ps d MAX_DEPTH] by (auto simp: list_all2_conv_all_nth)
  then show ?case using spells_alternative by (auto simp: object_is_value [OF ok] read_list_collection [OF ok, symmetric] compile_at.simps [of g ts v node d] blank_at_def collect_map_iff map_sum_Inr)
qed (simp_all add: compile_at.simps object_is_value [OF ok] blank_at_def)

text \<open>
  C19. A property path compiles exactly when the triples of the shapes graph spell it. On any well-formed graph
  compilation returns; it returns a path if and only if the node spells that path in the set of triples, each
  collection ended by rdf:nil and with at least two members, each operator taken in the documented order, and the path nests at
  most 64 levels. So a structure that runs in circles, a literal and a list that does not end are refused, and
  no list that ends is too long to be read.
\<close>

theorem path_compile_exact:
  assumes "graph_ok g"
  shows "compile_path g ts v node = Inr p \<longleftrightarrow> spells (triples g) ts v node p \<and> nesting p \<le> MAX_DEPTH"
  using compiled_spells [OF assms, of ts v node 0 p] spelled_compiles [OF assms, of ts v node p 0] by (auto simp: compile_path_def)

theorem path_compile_exact_witness:
  "spells {(1, 5, 0)} (fst (blank_node (\<lambda>_. 0) 1 ''x'' (fst (named_node (\<lambda>_. 0) ''urn:p'' new_term_store))))
    \<lparr>rdf_first = 2, rdf_rest = 3, rdf_nil = 4, sh_inversePath = 5, sh_alternativePath = 6, sh_zeroOrMorePath = 7, sh_oneOrMorePath = 8, sh_zeroOrOnePath = 9\<rparr>
    1 (InversePath (PredicatePath 0))"
proof -
  let ?g = "build \<lparr>gb_rows = [(1, 5, 0)]\<rparr>" and ?ts = "fst (blank_node (\<lambda>_. 0) 1 ''x'' (fst (named_node (\<lambda>_. 0) ''urn:p'' new_term_store)))"
  let ?v = "\<lparr>rdf_first = 2, rdf_rest = 3, rdf_nil = 4, sh_inversePath = 5, sh_alternativePath = 6, sh_zeroOrMorePath = 7, sh_oneOrMorePath = 8, sh_zeroOrOnePath = 9\<rparr>"
  have "compile_path ?g ?ts ?v 1 = Inr (InversePath (PredicatePath 0))" by code_simp
  then show ?thesis using path_compile_exact [OF build_ok(1)] by (simp add: build_ok(2))
qed

section \<open>SPARQL property paths\<close>

text \<open>
  The productions 89 to 94 of the SPARQL 1.1 grammar that concern the operators rendered here, with the
  path each derivation stands for: alternatives of sequences of elements, an element perhaps inverted,
  a primary perhaps repeated.
\<close>

definition one_or_many :: "(shacl_path list \<Rightarrow> shacl_path) \<Rightarrow> shacl_path list \<Rightarrow> shacl_path" where
  "one_or_many many ps = (case ps of [p] \<Rightarrow> p | _ \<Rightarrow> many ps)"

inductive sparql_alternative and sparql_sequence and sparql_elt_or_inverse and sparql_elt and sparql_primary for ts :: term_store where
  alternative: "list_all2 (sparql_sequence ts) ss ps \<Longrightarrow> ss \<noteq> [] \<Longrightarrow> sparql_alternative ts (join_text ''|'' ss) (one_or_many AlternativePath ps)"
| sequence: "list_all2 (sparql_elt_or_inverse ts) ss ps \<Longrightarrow> ss \<noteq> [] \<Longrightarrow> sparql_sequence ts (join_text ''/'' ss) (one_or_many SequencePath ps)"
| element: "sparql_elt ts s p \<Longrightarrow> sparql_elt_or_inverse ts s p"
| inverse: "sparql_elt ts s p \<Longrightarrow> sparql_elt_or_inverse ts (''^'' @ s) (InversePath p)"
| plain: "sparql_primary ts s p \<Longrightarrow> sparql_elt ts s p"
| zero_or_more: "sparql_primary ts s p \<Longrightarrow> sparql_elt ts (s @ ''*'') (ZeroOrMorePath p)"
| one_or_more: "sparql_primary ts s p \<Longrightarrow> sparql_elt ts (s @ ''+'') (OneOrMorePath p)"
| zero_or_one: "sparql_primary ts s p \<Longrightarrow> sparql_elt ts (s @ ''?'') (ZeroOrOnePath p)"
| iri: "iri_of ts p = Inr (Some i) \<Longrightarrow> sparql_primary ts (''<'' @ i @ ''>'') (PredicatePath p)"
| group: "sparql_alternative ts s p \<Longrightarrow> sparql_primary ts (''('' @ s @ '')'') p"

lemmas grammar = sparql_alternative_sparql_sequence_sparql_elt_or_inverse_sparql_elt_sparql_primary.intros
lemmas grammar_induct = sparql_alternative_sparql_sequence_sparql_elt_or_inverse_sparql_elt_sparql_primary.inducts

text \<open>What compilation gives: operators have at least two operands and predicates are IRIs.\<close>

fun well_spelled :: "term_store \<Rightarrow> shacl_path \<Rightarrow> bool" where
  "well_spelled ts (PredicatePath p) \<longleftrightarrow> (\<exists>i. iri_of ts p = Inr (Some i))"
| "well_spelled ts (SequencePath qs) \<longleftrightarrow> 2 \<le> length qs \<and> (\<forall>q\<in>set qs. well_spelled ts q)"
| "well_spelled ts (AlternativePath qs) \<longleftrightarrow> 2 \<le> length qs \<and> (\<forall>q\<in>set qs. well_spelled ts q)"
| "well_spelled ts (InversePath q) \<longleftrightarrow> well_spelled ts q"
| "well_spelled ts (ZeroOrMorePath q) \<longleftrightarrow> well_spelled ts q"
| "well_spelled ts (OneOrMorePath q) \<longleftrightarrow> well_spelled ts q"
| "well_spelled ts (ZeroOrOnePath q) \<longleftrightarrow> well_spelled ts q"

fun no_double_inverse :: "shacl_path \<Rightarrow> bool" where
  "no_double_inverse (InversePath q) \<longleftrightarrow> (\<forall>r. q \<noteq> InversePath r) \<and> no_double_inverse q"
| "no_double_inverse (SequencePath qs) \<longleftrightarrow> (\<forall>q\<in>set qs. no_double_inverse q)"
| "no_double_inverse (AlternativePath qs) \<longleftrightarrow> (\<forall>q\<in>set qs. no_double_inverse q)"
| "no_double_inverse (ZeroOrMorePath q) \<longleftrightarrow> no_double_inverse q"
| "no_double_inverse (OneOrMorePath q) \<longleftrightarrow> no_double_inverse q"
| "no_double_inverse (ZeroOrOnePath q) \<longleftrightarrow> no_double_inverse q"
| "no_double_inverse (PredicatePath p) \<longleftrightarrow> True"

lemma single: "sparql_elt_or_inverse ts s p \<Longrightarrow> sparql_sequence ts s p" "sparql_sequence ts s p \<Longrightarrow> sparql_alternative ts s p"
  using grammar(2) [of ts "[s]" "[p]"] grammar(1) [of ts "[s]" "[p]"] by (simp_all add: one_or_many_def)

lemma two_or_more: "2 \<le> length ps \<Longrightarrow> one_or_many many ps = many ps"
  by (auto simp: one_or_many_def split: list.splits)

lemma grouped: "sparql_elt_or_inverse ts s p \<Longrightarrow> sparql_primary ts (''('' @ s @ '')'') p"
  by (intro group single)

lemma rendered_items:
  assumes "\<And>q. q \<in> set qs \<Longrightarrow> \<exists>s. to_sparql ts q = Inr s \<and> P s q"
  shows "\<exists>ss. collect_ok (map (to_sparql ts) qs) = Inr ss \<and> list_all2 P ss qs"
  using assms
proof (induction qs)
  case (Cons q qs)
  obtain s where "to_sparql ts q = Inr s" "P s q" using Cons.prems [of q] by auto
  moreover obtain ss where "collect_ok (map (to_sparql ts) qs) = Inr ss" "list_all2 P ss qs" using Cons by auto
  ultimately show ?case by auto
qed simp

lemma rendering:
  "well_spelled ts p \<Longrightarrow> no_double_inverse p
    \<Longrightarrow> \<exists>s. to_sparql ts p = Inr s \<and> sparql_elt_or_inverse ts s p \<and> ((\<forall>q. p \<noteq> InversePath q) \<longrightarrow> sparql_elt ts s p)"
proof (induction p)
  case (PredicatePath x)
  then show ?case using iri plain element by fastforce
next
  case (SequencePath qs)
  have "\<exists>s. to_sparql ts q = Inr s \<and> sparql_elt_or_inverse ts s q" if "q \<in> set qs" for q using SequencePath that by fastforce
  from rendered_items [OF this] obtain ss where ss: "collect_ok (map (to_sparql ts) qs) = Inr ss" "list_all2 (sparql_elt_or_inverse ts) ss qs" by blast
  have "sparql_sequence ts (join_text ''/'' ss) (SequencePath qs)"
    using sequence [OF ss(2)] two_or_more [of qs] list_all2_lengthD [OF ss(2)] SequencePath.prems(1) by (cases ss) auto
  then have "sparql_primary ts (''('' @ join_text ''/'' ss @ '')'') (SequencePath qs)" by (intro group single(2))
  then show ?case using ss(1) plain element by auto
next
  case (AlternativePath qs)
  have "\<exists>s. to_sparql ts q = Inr s \<and> sparql_sequence ts s q" if "q \<in> set qs" for q using AlternativePath that single(1) by fastforce
  from rendered_items [OF this] obtain ss where ss: "collect_ok (map (to_sparql ts) qs) = Inr ss" "list_all2 (sparql_sequence ts) ss qs" by blast
  have "sparql_alternative ts (join_text ''|'' ss) (AlternativePath qs)"
    using alternative [OF ss(2)] two_or_more [of qs] list_all2_lengthD [OF ss(2)] AlternativePath.prems(1) by (cases ss) auto
  then have "sparql_primary ts (''('' @ join_text ''|'' ss @ '')'') (AlternativePath qs)" by (rule group)
  then show ?case using ss(1) plain element by auto
next
  case (InversePath q)
  then obtain s where "to_sparql ts q = Inr s" "sparql_elt ts s q" by auto
  then show ?case using inverse by auto
next
  case (ZeroOrMorePath q)
  then obtain s where "to_sparql ts q = Inr s" "sparql_primary ts (''('' @ s @ '')'') q" using grouped by auto
  then show ?case using zero_or_more [of ts "''('' @ s @ '')''"] element by auto
next
  case (OneOrMorePath q)
  then obtain s where "to_sparql ts q = Inr s" "sparql_primary ts (''('' @ s @ '')'') q" using grouped by auto
  then show ?case using one_or_more [of ts "''('' @ s @ '')''"] element by auto
next
  case (ZeroOrOnePath q)
  then obtain s where "to_sparql ts q = Inr s" "sparql_primary ts (''('' @ s @ '')'') q" using grouped by auto
  then show ?case using zero_or_one [of ts "''('' @ s @ '')''"] element by auto
qed

text \<open>Every derivable text begins with a primary, perhaps after a single inverse sign.\<close>

definition opens :: "string \<Rightarrow> bool" where
  "opens s \<longleftrightarrow> (\<exists>t. s = CHR ''<'' # t \<or> s = CHR ''('' # t)"

definition starts :: "string \<Rightarrow> bool" where
  "starts s \<longleftrightarrow> opens s \<or> (\<exists>t. s = CHR ''^'' # t \<and> opens t)"

lemma starts_append: "opens s \<Longrightarrow> opens (s @ t)" "starts s \<Longrightarrow> starts (s @ t)"
  by (auto simp: opens_def starts_def)

lemma starts_join: "ss \<noteq> [] \<Longrightarrow> starts (hd ss) \<Longrightarrow> starts (join_text sep ss)"
  by (cases "(sep, ss)" rule: join_text.cases) (auto simp: starts_append)

lemma derived_starts:
  "sparql_alternative ts s p \<Longrightarrow> starts s" "sparql_sequence ts s p \<Longrightarrow> starts s" "sparql_elt_or_inverse ts s p \<Longrightarrow> starts s"
  "sparql_elt ts s p \<Longrightarrow> opens s" "sparql_primary ts s p \<Longrightarrow> opens s"
proof (induction rule: grammar_induct)
  case (alternative ss ps)
  then show ?case by (intro starts_join) (auto simp: list_all2_conv_all_nth hd_conv_nth)
next
  case (sequence ss ps)
  then show ?case by (intro starts_join) (auto simp: list_all2_conv_all_nth hd_conv_nth)
qed (auto simp: starts_def starts_append, auto simp: opens_def)

text \<open>
  C38. A rendered path is a SPARQL property path that means the same, unless it inverts an inverse. Take a path
  whose predicates are IRIs and whose sequences and alternatives have at least two members, as compilation gives it. The
  text of such a path without an inverse directly below an inverse is derived by the SPARQL grammar as that very
  path; the text of an inverse of an inverse is derived as no path at all.
\<close>

theorem path_rendering:
  assumes "well_spelled ts p"
  shows "(no_double_inverse p \<longrightarrow> (\<exists>s. to_sparql ts p = Inr s \<and> sparql_alternative ts s p))
    \<and> (\<forall>q s. p = InversePath (InversePath q) \<and> to_sparql ts p = Inr s \<longrightarrow> (\<forall>r. \<not> sparql_alternative ts s r))"
proof (intro conjI impI allI)
  assume "no_double_inverse p"
  then show "\<exists>s. to_sparql ts p = Inr s \<and> sparql_alternative ts s p" using rendering [OF assms] single by blast
next
  fix q s r assume a: "p = InversePath (InversePath q) \<and> to_sparql ts p = Inr s"
  then obtain t where "s = ''^^'' @ t" by (auto simp: map_sum_Inr sum.map_comp)
  then have "\<not> starts s" by (auto simp: starts_def opens_def)
  then show "\<not> sparql_alternative ts s r" using derived_starts(1) by blast
qed

theorem path_rendering_witness:
  "\<exists>s. to_sparql (fst (named_node (\<lambda>_. 0) ''urn:p'' new_term_store)) (InversePath (InversePath (PredicatePath 0))) = Inr s
    \<and> (\<forall>r. \<not> sparql_alternative (fst (named_node (\<lambda>_. 0) ''urn:p'' new_term_store)) s r)"
proof -
  let ?ts = "fst (named_node (\<lambda>_. 0) ''urn:p'' new_term_store)"
  have p: "iri_of ?ts 0 = Inr (Some ''urn:p'')" by code_simp
  then have "well_spelled ?ts (InversePath (InversePath (PredicatePath 0)))" by simp
  from path_rendering [OF this] show ?thesis using p by auto
qed

end
