(* ===== verification/Shacl_Round_Trip.thy ===== *)
theory Shacl_Round_Trip
  imports Shacl_Terms "HOL-Library.Sublist"
begin

text \<open>
  What the term store of the SHACL engine promises. \<open>interner_ok\<close> says that the arena is the concatenation of
  distinct strings; \<open>store_ok\<close> that the tables of the store find exactly the terms it holds. Both survive
  every operation as long as the handles fit into 32 bits, and then what was interned renders as itself
  with its blank nodes numbered, and reads back as the same handle.
\<close>

section \<open>Strings\<close>












section \<open>Terms\<close>

definition table_term :: "bool \<Rightarrow> str_id \<Rightarrow> term_data" where
  "table_term blank s = (if blank then BlankNodeData s else NamedNodeData s)"

fun looked_up :: "term_data \<Rightarrow> bool" where
  "looked_up (LiteralData _ _ _ _) = True"
| "looked_up (TripleData _) = True"
| "looked_up _ = False"






section \<open>A store only grows\<close>

definition grows :: "term_store \<Rightarrow> term_store \<Rightarrow> bool" where
  "grows ts ts' \<longleftrightarrow> prefix (in_buf (ts_strings ts)) (in_buf (ts_strings ts')) \<and> prefix (in_spans (ts_strings ts)) (in_spans (ts_strings ts'))
    \<and> prefix (ts_terms ts) (ts_terms ts') \<and> prefix (ts_triple_terms ts) (ts_triple_terms ts')
    \<and> length (ts_blank_numbers ts) \<le> length (ts_blank_numbers ts')"

lemma store_grows_refl [simp]: "grows ts ts"
  by (simp add: grows_def)
















section \<open>Every operation keeps the store in order\<close>


lemma table_term_inject [simp]: "table_term a s = table_term b t \<longleftrightarrow> a = b \<and> s = t" "\<not> looked_up (table_term a s)"
  by (auto simp: table_term_def)

lemma string_table_sel [simp]:
  "string_table b (set_string_table a t ts) = (if a = b then t else string_table b ts)" "ts_strings (set_string_table a t ts) = ts_strings ts"
  "ts_terms (set_string_table a t ts) = ts_terms ts" "ts_lookup (set_string_table a t ts) = ts_lookup ts"
  "ts_triple_terms (set_string_table a t ts) = ts_triple_terms ts" "ts_blank_numbers (set_string_table a t ts) = ts_blank_numbers ts"
  by (auto simp: set_string_table_def string_table_def)




section \<open>Blank nodes are numbered in the order they are first seen\<close>









definition note_blank :: "u32 \<Rightarrow> (u32 \<times> string) list \<Rightarrow> string \<Rightarrow> (u32 \<times> string) list" where
  "note_blank scope seen label = (if (scope, label) \<in> set seen then seen else seen @ [(scope, label)])"


section \<open>What a handle stands for\<close>













section \<open>What is rendered reads back\<close>






section \<open>What is interned is what it stands for\<close>

fun node_labels :: "node \<Rightarrow> string list" where
  "node_labels (NodeNamed _) = []"
| "node_labels (NodeBlank b) = [b]"

fun labels :: "rdf_term \<Rightarrow> string list" where
  "labels (NamedNode _) = []"
| "labels (BlankNode b) = [b]"
| "labels (Literal _) = []"
| "labels (Triple s p x) = node_labels s @ labels x"

definition note_all :: "u32 \<Rightarrow> (u32 \<times> string) list \<Rightarrow> string list \<Rightarrow> (u32 \<times> string) list" where
  "note_all scope seen ls = foldl (note_blank scope) seen ls"














section \<open>Histories\<close>


text \<open>The blank nodes of a history in the order they are first seen.\<close>

definition first_seen :: "(u32 \<times> string) list \<Rightarrow> (u32 \<times> rdf_term) list \<Rightarrow> (u32 \<times> string) list" where
  "first_seen seen h = foldl (\<lambda>seen (scope, t). note_all scope seen (labels t)) seen h"

lemma first_seen_Cons [simp]: "first_seen seen [] = seen" "first_seen seen ((scope, t) # h) = first_seen (note_all scope seen (labels t)) h"
  by (simp_all add: first_seen_def)









end
