(* ===== verification/Spec2Isabelle.thy ===== *)
theory Spec2Isabelle
  imports Calendar Inline_Codec Vocab Quad_Index Quad_Scans Dictionary Memory_Storage Rocks_Codec Store_Facade Principal Policy Access_Session
    Dataset_View Range_Bounds Reach Sketches Merge_Sort Holon_Progress
    Shacl_Compile Shacl_Round_Trip
begin

text \<open>
  Verification of the HOLOS triplestore: an RDF 1.2 store with order-preserving 64-bit term identifiers,
  nine sorted quad orders, commit scopes, and an access policy enforced at the scan.

  \<^bold>\<open>How the program is put together.\<close> A store (\<^verbatim>\<open>holos-store\<close>) interns RDF terms as identifiers
  (\<^verbatim>\<open>holos-core\<close>) and keeps quads of identifiers in nine orders. A session (\<^verbatim>\<open>holos-security\<close>) compiles a
  policy against the store for one principal and recompiles it when a term the policy names has been
  interned since. A dataset view (\<^verbatim>\<open>holos-engine\<close>) is the only route by which queries read: it scans the
  store and asks the compiled policy about every quad. Range pushdown narrows those scans, the closure
  traversal walks them, bulk loads sort their rows on disk, and statistics count distinct values in
  sketches. A holon (\<^verbatim>\<open>holos-holon\<close>) is a scene graph with a boundary of shapes and an event log: a tick
  applies a delta to the scene under the session's policy, asks the validator, records the event and moves
  the version on, all in one commit scope of the store. The validator (\<^verbatim>\<open>holos-shacl-engine\<close>) works on a
  graph of its own, with its own term handles, and evaluates the property paths of shapes over whole lists of
  focus nodes.

  \<^bold>\<open>Theories and sources\<close> (paths below \<^verbatim>\<open>src/crates/\<close>).
  \<^item> \<open>Prelude\<close>: the error type of \<^verbatim>\<open>holos-store/src/error.rs\<close> and the result type over it, Rust strings as
    byte sequences, the shared lemma collections. A panic of the source is the error value \<open>Panic\<close>.
  \<^item> \<open>Rust_Std\<close>: what the sources use of the standard library: ordered sets as strictly ascending lists
    behind the locale \<open>ordered_set\<close>, printing and parsing of integers, truncating division, big-endian bytes.
  \<^item> \<open>Term_Id\<close>, \<open>Calendar\<close>, \<open>Inline_Codec\<close>, \<open>Vocab\<close>: \<^verbatim>\<open>holos-core/src/term_id.rs\<close>, \<^verbatim>\<open>inline.rs\<close> and \<^verbatim>\<open>vocab.rs\<close>.
    Identifiers are 64-bit words with a 4-bit tag; a literal the codec accepts decodes to itself; identifier
    order is value order; day numbers and civil dates are inverse; the vocabulary table is a bijection.
  \<^item> \<open>Rdf_Terms\<close>: the RDF terms and quads of the parser library, as data.
  \<^item> \<open>Quad_Index\<close>, \<open>Quad_Scans\<close>: \<^verbatim>\<open>holos-store/src/index.rs\<close>. The nine orders are permutations of one set of
    quads, every write keeps them so, and every scan returns exactly the matching quads. The locale of index
    histories relates any sequence of writes to a set of quads and a set of graphs.
  \<^item> \<open>Dictionary\<close>: \<^verbatim>\<open>dictionary.rs\<close>. Interning, lookup and decoding are mutually inverse on every reachable
    dictionary, triple terms included.
  \<^item> \<open>Memory_Storage\<close>: \<^verbatim>\<open>memory.rs\<close> and the default methods of \<^verbatim>\<open>storage.rs\<close>. Counts follow the quads, and a
    rolled-back scope restores what it found.
  \<^item> \<open>Rocks_Codec\<close>, \<open>Merge_Sort\<close>, \<open>Sketches\<close>: \<^verbatim>\<open>rocks/codec.rs\<close>, \<^verbatim>\<open>rocks/sort.rs\<close>, \<^verbatim>\<open>rocks/seen.rs\<close> and
    \<^verbatim>\<open>holos-stats/src/hll.rs\<close>. Key bytes order as identifiers, prefix bounds are exact, term rows read back; an
    external sort delivers what an in-memory sort would; the bulk-load filter has no false negatives; the
    distinct-count registers depend on the set of values alone.
  \<^item> \<open>Store_Facade\<close>: \<^verbatim>\<open>holos-store/src/lib.rs\<close> over a record of the storage trait's methods. The locale \<open>storage\<close>
    states what the facade needs of a backend; the in-memory tier interprets it; any history of facade writes
    refines operations on a set of RDF quads and a set of graph names.
  \<^item> \<open>Principal\<close>, \<open>Policy\<close>, \<open>Access_Session\<close>: \<^verbatim>\<open>holos-security/src/principal.rs\<close>, \<^verbatim>\<open>policy.rs\<close>, \<^verbatim>\<open>lib.rs\<close>. Compiled
    decisions on identifiers equal the meaning of the policy on RDF quads (\<open>policy_decides\<close>), whatever was
    written after compilation; clearances form a lattice and cannot be overridden by a rule.
  \<^item> \<open>Dataset_View\<close>: \<^verbatim>\<open>holos-engine/src/view.rs\<close>. Nothing the policy withholds leaves a view, whatever
    the rules, the semantics and the memory pressure. Under filter semantics a view shows exactly the permitted
    sub-dataset, except that a named graph reported as wholly denied is skipped when it is asked for by name.
    That report ignores the modes of the rules, so it loses nothing when every rule governs READ, and hides
    a readable graph from a principal who is denied only writing it (\<open>denied_graph_hidden\<close>). Under fail
    semantics the first withheld quad is an error. Exactness of scans is stated for runs in which no memory
    ceiling is reached. The decode cache and the ephemeral identifiers of query constants are invisible.
  \<^item> \<open>Range_Bounds\<close>: \<^verbatim>\<open>range.rs\<close> and the bounded probe of \<^verbatim>\<open>bindjoin.rs\<close>. The spans of a comparison admit
    every literal the codec declined, the inline literals of the other number type, and of the constant's own
    datatype exactly those that compare as asked, minus zero counting as less than plus zero. So a pushed-down
    filter loses no row but those of minus zero asked to be at least plus zero, and the other way round.
  \<^item> \<open>Reach\<close>: \<^verbatim>\<open>reach.rs\<close>. A closure path walk ends and offers, each once, exactly the nodes reachable
    over the edges the view shows.
  \<^item> \<open>Holon_Model\<close>, \<open>Holon_Ops\<close>: \<^verbatim>\<open>holos-holon/src/model.rs\<close>, \<^verbatim>\<open>event.rs\<close>, \<^verbatim>\<open>registry.rs\<close>, \<^verbatim>\<open>lib.rs\<close> and
    \<^verbatim>\<open>branch.rs\<close>, operation by operation. The state is the store and the session, threaded explicitly; the
    question mark operator is \<open>bindr\<close>.
  \<^item> \<open>Holon_Commit\<close>: the locale \<open>commit_scopes\<close> states what the scopes of a storage promise; every operation
    keeps that contract, so each is all or nothing whatever fails.
  \<^item> \<open>Holon_Tick\<close>: the locale \<open>holon_store\<close>, and the refinement of a tick to operations on a set of RDF quads:
    denied, failed, refused and admitted ticks, with the inferences of the rules. \<open>Holon_Progress\<close>: what a tick leaves alone, and that a
    permitted tick succeeds and leaves a store that can tick again.
  \<^item> \<open>Holon_Registry\<close>: the locale \<open>branching_store\<close>. A registered definition loads back, less its projections; a
    branch is a copy under new names at its parent's version; a version recorded as zero is never replaced.
  \<^item> \<open>Shacl_Graph\<close>, \<open>Shacl_Lists\<close>: \<^verbatim>\<open>holos-shacl-engine/src/model/graph.rs\<close> and \<^verbatim>\<open>model/mod.rs\<close>. The locale
    \<open>triple_state\<close> relates any history of writes to a set of triples; the graph reached is the one built from that
    set in one go. List reading ends on cyclic lists and gives exactly the members of well-formed ones.
  \<^item> \<open>Shacl_Values\<close>, \<open>Shacl_Paths\<close>: \<^verbatim>\<open>valueset.rs\<close> and the evaluation in \<^verbatim>\<open>path.rs\<close>. A path evaluates to the
    relation it means (\<open>path_rel\<close>), row by row.
  \<^item> \<open>Shacl_Terms\<close>, \<open>Shacl_Round_Trip\<close>: \<^verbatim>\<open>model/interner.rs\<close> and \<^verbatim>\<open>model/term.rs\<close>. Handles render as the terms
    they were made from, read back, and are equal only for equal terms.
  \<^item> \<open>Shacl_Compile\<close>: compilation and rendering in \<^verbatim>\<open>path.rs\<close>. A path compiles exactly when the shapes graph spells
    it (\<open>spells\<close>); its rendering is derived by the SPARQL grammar, double inverses apart.

  \<^bold>\<open>Parameters.\<close> The XSD datatype library is a record of parsing and printing functions (\<open>xsd_lib\<close>) with the
  assumption \<open>xsd_lib_ok\<close> on parsed date-times. The allocator's readings (\<open>pressure\<close>), the key hash of the
  bulk-load filter, the fate of writes and the schedule of short and interrupted reads are arguments of the
  definitions that use them. The SHACL validator and the rule engine are records of the functions a tick
  calls (\<open>shacl_lib\<close>, \<open>rule_lib\<close>); the clock is an argument.
  The string hash of the SHACL interner and the printer of a term that is not a node are arguments too. Expressions of the query parser are reduced to the constructors the source
  distinguishes.

  \<^bold>\<open>Bounds and termination.\<close> Identifiers have 60 payload bits, so histories are bounded by \<open>2 ^ 60\<close> interned
  terms, the point at which the source panics. Decoding a triple term uses one unit of fuel more than there
  are stored triple terms, which is enough on every reachable dictionary (\<open>decode_total\<close>). The traversal and
  the merge are functions with termination proofs: the set of unexpanded identifiers and the rows left to
  read decrease; the closures of SHACL paths end because the pairs seen grow, compilation because its depth is
  bounded by 64, list reading because its fuel is the size of the graph plus one, as in the source. The handles
  and offsets of the SHACL engine are 32-bit words, and its properties hold while they do not wrap around.

  \<^bold>\<open>Panics.\<close> A panic is an error value of the model. In the source it unwinds past the end of a commit scope,
  which the model closes; the only panics of the modelled writes come with more than \<open>2 ^ 60\<close> terms.

  \<^bold>\<open>Not modelled.\<close> The RocksDB backend beyond its codecs and sorting, which drives an external database;
  query evaluation, update and rewriting, which drive a parser and evaluator that are not part of the
  repository; floating-point estimation, geometry and reference systems; the shapes,
  constraints, reports and rules of SHACL and its evaluation over the store; the audit log; the protocol server, command line, bindings, conformance and benchmark harnesses.
\<close>

end
